(* ===== verification/Prelude.thy ===== *)
theory Prelude
  imports Main "HOL-Library.Word"
begin

unbundle bit_operations_syntax

text \<open>
  Shared vocabulary of the HeineOS development: the machine integer types of the kernel,
  panics as values of a result type, Rust's checked arithmetic on machine words, and the
  generic facts on results, words and lists that the component theories rely on.

  Plain \<open>+\<close>, \<open>-\<close> and \<open>*\<close> on Rust integers panic on overflow in the development
  profile of the build and wrap around in the production profile. The model follows the
  development profile: an overflow is the value \<^term>\<open>Inl ArithOverflow\<close> of the result
  type. A theorem that the result is \<^term>\<open>Inr x\<close> therefore also says that no overflow
  happens, and the two profiles agree there.
\<close>

subsection \<open>Machine integers\<close>

type_synonym u8 = "8 word"
type_synonym u16 = "16 word"
type_synonym u32 = "32 word"
type_synonym u64 = "64 word"
type_synonym usize = "64 word"

subsection \<open>Panics and results\<close>

text \<open>
  Every way the modelled code can stop with a kernel panic (or, for the last two
  constructors, with undefined behaviour that a checked build would catch).
\<close>

datatype panic =
    ArithOverflow
  | DivisionByZero
  | IndexOutOfBounds
  | UnwrapNone
  | ExpectFailed string
  | PanicMsg string
  | UninitRead
  | MemoryFault

type_synonym 'a res = "panic + 'a"

definition and_then :: "'a res \<Rightarrow> ('a \<Rightarrow> 'b res) \<Rightarrow> 'b res" where
  "and_then r f = (case r of Inl e \<Rightarrow> Inl e | Inr x \<Rightarrow> f x)"

text \<open>The same for calls that may never return.\<close>

definition run_then :: "'a res option \<Rightarrow> ('a \<Rightarrow> 'b res option) \<Rightarrow> 'b res option" where
  "run_then r f = (case r of None \<Rightarrow> None | Some (Inl e) \<Rightarrow> Some (Inl e) | Some (Inr x) \<Rightarrow> f x)"

definition unwrap :: "'a option \<Rightarrow> 'a res" where
  "unwrap x = (case x of None \<Rightarrow> Inl UnwrapNone | Some v \<Rightarrow> Inr v)"

definition get_index :: "'a list \<Rightarrow> nat \<Rightarrow> 'a res" where
  "get_index xs i = (if i < length xs then Inr (xs ! i) else Inl IndexOutOfBounds)"

definition set_index :: "'a list \<Rightarrow> nat \<Rightarrow> 'a \<Rightarrow> 'a list res" where
  "set_index xs i v = (if i < length xs then Inr (xs[i := v]) else Inl IndexOutOfBounds)"

subsection \<open>Checked arithmetic\<close>

definition uadd :: "'l::len word \<Rightarrow> 'l word \<Rightarrow> 'l word res" where
  "uadd a b = (if uint a + uint b < 2 ^ LENGTH('l) then Inr (a + b) else Inl ArithOverflow)"

definition usub :: "'l::len word \<Rightarrow> 'l word \<Rightarrow> 'l word res" where
  "usub a b = (if b \<le> a then Inr (a - b) else Inl ArithOverflow)"

definition umul :: "'l::len word \<Rightarrow> 'l word \<Rightarrow> 'l word res" where
  "umul a b = (if uint a * uint b < 2 ^ LENGTH('l) then Inr (a * b) else Inl ArithOverflow)"

definition checked_add :: "'l::len word \<Rightarrow> 'l word \<Rightarrow> 'l word option" where
  "checked_add a b = (if uint a + uint b < 2 ^ LENGTH('l) then Some (a + b) else None)"

text \<open>The same operations where a \<open>usize\<close> is kept as a natural number below \<open>2 ^ 64\<close>.\<close>

definition nadd :: "nat \<Rightarrow> nat \<Rightarrow> nat res" where
  "nadd a b = (if int a + int b < 2 ^ 64 then Inr (a + b) else Inl ArithOverflow)"

definition nsub :: "nat \<Rightarrow> nat \<Rightarrow> nat res" where
  "nsub a b = (if b \<le> a then Inr (a - b) else Inl ArithOverflow)"

definition nmul :: "nat \<Rightarrow> nat \<Rightarrow> nat res" where
  "nmul a b = (if int a * int b < 2 ^ 64 then Inr (a * b) else Inl ArithOverflow)"

subsection \<open>Collections of the development\<close>

named_theorems res_simps \<open>evaluation of results and checked arithmetic\<close>
named_theorems to_nat \<open>facts that move word goals to natural numbers\<close>
named_theorems inv_intros \<open>preservation of the component invariants\<close>

subsection \<open>Facts on results\<close>

lemma and_then_simps [simp]:
  "and_then (Inr x) f = f x"
  "and_then (Inl e) f = Inl e"
  by (simp_all add: and_then_def)

lemma run_then_simps [simp]:
  "run_then (Some (Inr x)) f = f x" "run_then (Some (Inl e)) f = Some (Inl e)" "run_then None f = None"
  by (simp_all add: run_then_def)

lemma and_then_eq_Inr:
  "and_then r f = Inr y \<longleftrightarrow> (\<exists>x. r = Inr x \<and> f x = Inr y)"
  by (cases r) simp_all

lemma and_then_eq_Inl:
  "and_then r f = Inl e \<longleftrightarrow> r = Inl e \<or> (\<exists>x. r = Inr x \<and> f x = Inl e)"
  by (cases r) auto

lemma and_then_assoc:
  "and_then (and_then r f) g = and_then r (\<lambda>x. and_then (f x) g)"
  by (cases r) simp_all

lemma unwrap_simps [simp]:
  "unwrap (Some v) = Inr v"
  "unwrap None = Inl UnwrapNone"
  by (simp_all add: unwrap_def)

lemma get_index_in [simp]: "i < length xs \<Longrightarrow> get_index xs i = Inr (xs ! i)"
  by (simp add: get_index_def)

lemma get_index_out [simp]: "length xs \<le> i \<Longrightarrow> get_index xs i = Inl IndexOutOfBounds"
  by (simp add: get_index_def)

lemma set_index_in [simp]: "i < length xs \<Longrightarrow> set_index xs i v = Inr (xs[i := v])"
  by (simp add: set_index_def)

subsection \<open>Facts on words\<close>

lemma unat_add_noov:
  fixes a b :: "'l::len word"
  assumes "unat a + unat b < 2 ^ LENGTH('l)"
  shows "unat (a + b) = unat a + unat b"
  using assms by (simp add: unat_word_ariths)

lemma unat_sub_le:
  fixes a b :: "'l::len word"
  assumes "b \<le> a"
  shows "unat (a - b) = unat a - unat b"
  using assms by (rule unat_sub)

lemma uint_add_lt_iff:
  fixes a b :: "'l::len word"
  shows "uint a + uint b < 2 ^ LENGTH('l) \<longleftrightarrow> unat a + unat b < 2 ^ LENGTH('l)"
proof -
  have "uint a + uint b = int (unat a + unat b)" by simp
  moreover have "(2::int) ^ LENGTH('l) = int (2 ^ LENGTH('l))" by simp
  ultimately show ?thesis by (simp only: of_nat_less_iff)
qed

lemma uadd_nat:
  fixes a b :: "'l::len word"
  shows "uadd a b = (if unat a + unat b < 2 ^ LENGTH('l) then Inr (a + b) else Inl ArithOverflow)"
  by (simp only: uadd_def uint_add_lt_iff)

lemma checked_add_nat:
  fixes a b :: "'l::len word"
  shows "checked_add a b = (if unat a + unat b < 2 ^ LENGTH('l) then Some (a + b) else None)"
  by (simp only: checked_add_def uint_add_lt_iff)

lemma umul_nat:
  fixes a b :: "'l::len word"
  shows "umul a b = (if unat a * unat b < 2 ^ LENGTH('l) then Inr (a * b) else Inl ArithOverflow)"
proof -
  have "uint a * uint b = int (unat a * unat b)" by simp
  moreover have "(2::int) ^ LENGTH('l) = int (2 ^ LENGTH('l))" by simp
  ultimately have "uint a * uint b < 2 ^ LENGTH('l) \<longleftrightarrow> unat a * unat b < 2 ^ LENGTH('l)"
    by (simp only: of_nat_less_iff)
  then show ?thesis by (simp only: umul_def)
qed

lemma uadd_eq_Inr:
  fixes a b :: "'l::len word"
  shows "uadd a b = Inr c \<longleftrightarrow> unat a + unat b < 2 ^ LENGTH('l) \<and> c = a + b"
  by (auto simp: uadd_nat)

lemma uadd_Inr_unat:
  fixes a b :: "'l::len word"
  assumes "uadd a b = Inr c"
  shows "unat c = unat a + unat b"
  using assms by (simp add: uadd_eq_Inr unat_add_noov)

lemma usub_eq_Inr: "usub a b = Inr c \<longleftrightarrow> b \<le> a \<and> c = a - b"
  by (auto simp: usub_def)

lemma usub_Inr_unat: "usub a b = Inr c \<Longrightarrow> unat c = unat a - unat b"
  by (auto simp: usub_eq_Inr unat_sub_le)

lemma word64_max: "unat (a :: u64) < 18446744073709551616"
  using unsigned_less [of a, where 'a = nat] by simp

lemma unat_power2:
  assumes "k < LENGTH('l)"
  shows "unat (2 ^ k :: 'l::len word) = 2 ^ k"
proof -
  have "(2 ^ k :: 'l word) = word_of_nat (2 ^ k)" by simp
  then have "unat (2 ^ k :: 'l word) = 2 ^ k mod 2 ^ LENGTH('l)"
    by (simp only: unat_of_nat)
  also have "\<dots> = 2 ^ k" using assms by (intro mod_less power_strict_increasing) simp_all
  finally show ?thesis .
qed

lemma and_not_mask_eq: "(t :: 'l::len word) AND NOT (mask k) = push_bit k (drop_bit k t)"
  by (rule bit_word_eqI) (auto simp: bit_simps)

lemma unat_push_drop:
  "unat (push_bit k (drop_bit k (t :: 'l::len word))) = unat t div 2 ^ k * 2 ^ k"
proof -
  have "unat t div 2 ^ k * 2 ^ k \<le> unat t" by simp
  also have "unat t < 2 ^ LENGTH('l)" by (rule unsigned_less)
  finally have lt: "unat t div 2 ^ k * 2 ^ k < 2 ^ LENGTH('l)" .
  have "unat (push_bit k (drop_bit k t)) = take_bit LENGTH('l) (push_bit k (drop_bit k (unat t)))"
    by (simp add: unsigned_push_bit_eq unsigned_drop_bit_eq take_bit_nat_eq_self unsigned_less)
  also have "\<dots> = unat t div 2 ^ k * 2 ^ k"
    using lt by (simp add: push_bit_eq_mult drop_bit_eq_div take_bit_nat_eq_self_iff)
  finally show ?thesis .
qed

lemma unat_and_not_mask: "unat ((t :: 'l::len word) AND NOT (mask k)) = unat t div 2 ^ k * 2 ^ k"
  by (simp add: and_not_mask_eq unat_push_drop)

lemma round_up_bounds:
  fixes a n :: nat
  assumes "0 < n"
  shows "n dvd (a + n - 1) div n * n" "a \<le> (a + n - 1) div n * n" "(a + n - 1) div n * n < a + n"
proof -
  have "a + n - 1 = (a + n - 1) div n * n + (a + n - 1) mod n" by (simp add: div_mult_mod_eq)
  moreover have "(a + n - 1) mod n < n" using assms by simp
  ultimately show "a \<le> (a + n - 1) div n * n" and "(a + n - 1) div n * n < a + n"
    using assms by linarith+
qed simp

lemma dvd_gap:
  fixes m r n :: nat
  assumes "n dvd m" "n dvd r" "m < r"
  shows "m + n \<le> r"
proof -
  obtain a b where ab: "m = n * a" "r = n * b" using assms(1,2) by (auto elim!: dvdE)
  with assms(3) have "Suc a \<le> b" by simp
  then have "n * Suc a \<le> n * b" by (rule mult_le_mono2)
  with ab show ?thesis by simp
qed

text \<open>Arithmetic on \<open>usize\<close> values that stays in range.\<close>

lemma nadd_ok: "a + b < 2 ^ 64 \<Longrightarrow> nadd a b = Inr (a + b)"
  by (simp add: nadd_def)

lemma nmul_ok: "a * b < 2 ^ 64 \<Longrightarrow> nmul a b = Inr (a * b)"
proof -
  assume "a * b < 2 ^ 64"
  then have "int (a * b) < int (2 ^ 64)" by (simp only: of_nat_less_iff)
  then show ?thesis by (simp add: nmul_def)
qed

lemmas word_nat_rel [to_nat] =
  word_le_nat_alt word_less_nat_alt word_unat_eq_iff

lemmas res_ops [res_simps] =
  uadd_nat usub_def umul_nat checked_add_nat nadd_def nsub_def nmul_def

end
