(* ===== verification/X86.thy ===== *)
theory X86
  imports Prelude
begin

text \<open>
  The processor as far as the kernel's assembly routines use it: the general purpose
  registers, \<open>rflags\<close>, \<open>rip\<close>, the code and stack segment selectors, \<open>rsp0\<close> of the TSS, and a
  memory of 64-bit cells. The instructions are the ones that occur in \<open>naked_asm!\<close> blocks of
  \<^verbatim>\<open>thread/thread.rs\<close>, \<^verbatim>\<open>coroutine/coroutine.rs\<close> and \<^verbatim>\<open>syscall/dispatcher.rs\<close>. An access
  at an address that is no multiple of 8 leaves the model (\<^term>\<open>Inl MemoryFault\<close>), so a
  theorem with an \<^term>\<open>Inr m\<close> result also says that all accesses are aligned.

  A call of compiled Rust code is described by what the System V calling convention lets the
  callee change: the caller-saved registers, the flags, and memory that is not part of the
  caller's frames. That change is the arbitrary \<open>callee\<close> argument of the semantics.
\<close>

subsection \<open>State\<close>

datatype reg =
    RAX | RBX | RCX | RDX | RSI | RDI | RBP | RSP
  | R8 | R9 | R10 | R11 | R12 | R13 | R14 | R15

record machine =
  mc_reg :: "reg \<Rightarrow> u64"
  mc_rflags :: u64
  mc_rip :: u64
  mc_cs :: u64
  mc_ss :: u64
  mc_rsp0 :: u64
  mc_mem :: "u64 \<Rightarrow> u64"
  mc_sched_locked :: bool

record callee =
  ce_reg :: "reg \<Rightarrow> u64"
  ce_rflags :: u64
  ce_mem :: "u64 \<Rightarrow> u64 option"

datatype instr =
    PUSH reg
  | POP reg
  | PUSHFQ
  | POPFQ
  | MOV reg reg
  | STORE reg reg
  | CALL_tss_set_rsp0
  | CALL_unlock_scheduler
  | RET
  | IRETQ

definition aligned8 :: "u64 \<Rightarrow> bool" where
  "aligned8 a \<longleftrightarrow> uint a mod 8 = 0"

definition callee_saved :: "reg \<Rightarrow> bool" where
  "callee_saved r \<longleftrightarrow> r \<in> {RBX, RBP, RSP, R12, R13, R14, R15}"

text \<open>\<open>pushfq\<close> stores the flags with the bits RF and VM clear.\<close>

definition flags_image :: "u64 \<Rightarrow> u64" where
  "flags_image f = f AND NOT 0x30000"

subsection \<open>Execution\<close>

definition push_val :: "u64 \<Rightarrow> machine \<Rightarrow> machine res" where
  "push_val v m =
     (let sp = mc_reg m RSP - 8 in
      if aligned8 sp
      then Inr (m\<lparr>mc_reg := (mc_reg m)(RSP := sp), mc_mem := (mc_mem m)(sp := v)\<rparr>)
      else Inl MemoryFault)"

definition pop_val :: "machine \<Rightarrow> (u64 \<times> machine) res" where
  "pop_val m =
     (let sp = mc_reg m RSP in
      if aligned8 sp
      then Inr (mc_mem m sp, m\<lparr>mc_reg := (mc_reg m)(RSP := sp + 8)\<rparr>)
      else Inl MemoryFault)"

definition rust_call :: "callee \<Rightarrow> machine \<Rightarrow> machine" where
  "rust_call c m = m\<lparr>
     mc_reg := (\<lambda>r. if callee_saved r then mc_reg m r else ce_reg c r),
     mc_rflags := ce_rflags c,
     mc_mem := (\<lambda>a. case ce_mem c a of Some v \<Rightarrow> v | None \<Rightarrow> mc_mem m a)\<rparr>"

text \<open>
  \<open>tss_set_rsp0\<close> of \<^verbatim>\<open>boot.asm\<close> stores \<open>rdi\<close> in the TSS and changes \<open>rax\<close> only (to the address
  of the TSS, the argument \<open>tss\<close>); its return address goes below the stack pointer.
\<close>

definition tss_set_rsp0 :: "u64 \<Rightarrow> u64 \<Rightarrow> machine \<Rightarrow> machine res" where
  "tss_set_rsp0 tss ra m =
     (let sp = mc_reg m RSP - 8 in
      if aligned8 sp
      then Inr (m\<lparr>mc_reg := (mc_reg m)(RAX := tss), mc_rsp0 := mc_reg m RDI,
                   mc_mem := (mc_mem m)(sp := ra)\<rparr>)
      else Inl MemoryFault)"

text \<open>What the surrounding program supplies: the callee, the address of the TSS and of the call.\<close>

record env =
  en_callee :: callee
  en_tss :: u64
  en_ra :: u64

fun step :: "env \<Rightarrow> instr \<Rightarrow> machine \<Rightarrow> machine res" where
  "step e (PUSH r) m = push_val (mc_reg m r) m"
| "step e (POP r) m =
     and_then (pop_val m) (\<lambda>(v, m'). Inr (m'\<lparr>mc_reg := (mc_reg m')(r := v)\<rparr>))"
| "step e PUSHFQ m = push_val (flags_image (mc_rflags m)) m"
| "step e POPFQ m = and_then (pop_val m) (\<lambda>(v, m'). Inr (m'\<lparr>mc_rflags := v\<rparr>))"
| "step e (MOV d s) m = Inr (m\<lparr>mc_reg := (mc_reg m)(d := mc_reg m s)\<rparr>)"
| "step e (STORE b s) m =
     (if aligned8 (mc_reg m b)
      then Inr (m\<lparr>mc_mem := (mc_mem m)(mc_reg m b := mc_reg m s)\<rparr>) else Inl MemoryFault)"
| "step e CALL_tss_set_rsp0 m = tss_set_rsp0 (en_tss e) (en_ra e) m"
| "step e CALL_unlock_scheduler m =
     (if aligned8 (mc_reg m RSP)
      then Inr ((rust_call (en_callee e) m)\<lparr>mc_sched_locked := False\<rparr>) else Inl MemoryFault)"
| "step e RET m = and_then (pop_val m) (\<lambda>(v, m'). Inr (m'\<lparr>mc_rip := v\<rparr>))"
| "step e IRETQ m =
     and_then (pop_val m) (\<lambda>(rip, m1).
     and_then (pop_val m1) (\<lambda>(cs, m2).
     and_then (pop_val m2) (\<lambda>(fl, m3).
     and_then (pop_val m3) (\<lambda>(sp, m4).
     and_then (pop_val m4) (\<lambda>(ss, m5).
       Inr (m5\<lparr>mc_rip := rip, mc_cs := cs, mc_rflags := fl, mc_ss := ss,
                mc_reg := (mc_reg m5)(RSP := sp)\<rparr>))))))"

fun exec :: "env \<Rightarrow> instr list \<Rightarrow> machine \<Rightarrow> machine res" where
  "exec e [] m = Inr m"
| "exec e (i # is) m = and_then (step e i m) (exec e is)"

lemma exec_append: "exec e (xs @ ys) m = and_then (exec e xs m) (exec e ys)"
proof (induction xs arbitrary: m)
  case (Cons i xs)
  then show ?case by (cases "step e i m") simp_all
qed simp

subsection \<open>Alignment and stack slots\<close>

lemma aligned8_add8 [simp]: "aligned8 (a + 8) \<longleftrightarrow> aligned8 a"
proof -
  have "uint (a + 8) mod 8 = (uint a + 8) mod 8"
    by (simp add: uint_word_ariths mod_mod_cancel)
  then show ?thesis by (simp add: aligned8_def)
qed

lemma aligned8_sub8 [simp]: "aligned8 (a - 8) \<longleftrightarrow> aligned8 a"
  using aligned8_add8 [of "a - 8"] by simp

lemma aligned8_add_mult [simp]: "aligned8 (a + 8 * of_nat k) \<longleftrightarrow> aligned8 a"
proof (induction k)
  case (Suc k)
  have "a + 8 * of_nat (Suc k) = (a + 8 * of_nat k) + 8" by (simp add: algebra_simps)
  then show ?case using Suc by (simp only: aligned8_add8)
qed simp

text \<open>The address of the \<open>k\<close>-th cell above \<open>sp\<close>.\<close>

definition slot :: "u64 \<Rightarrow> nat \<Rightarrow> u64" where
  "slot sp k = sp + 8 * of_nat k"

lemma slot_0 [simp]: "slot sp 0 = sp"
  by (simp add: slot_def)

lemma slot_Suc: "slot sp (Suc k) = slot (sp + 8) k"
  by (simp add: slot_def algebra_simps)

lemma slot_add8 [simp]: "slot sp k + 8 = slot sp (Suc k)"
  by (simp add: slot_def algebra_simps)

lemma slot_slot: "slot (slot sp k) l = slot sp (k + l)"
  by (simp add: slot_def algebra_simps)

lemma aligned8_slot [simp]: "aligned8 (slot sp k) \<longleftrightarrow> aligned8 sp"
  by (simp add: slot_def)

lemma slot_inj:
  assumes "k < 2 ^ 61" "l < 2 ^ 61" "slot sp k = slot sp l"
  shows "k = l"
proof -
  have u: "unat (8 * of_nat i :: u64) = 8 * i" if "i < 2 ^ 61" for i
  proof -
    have "(8 * of_nat i :: u64) = of_nat (8 * i)" by simp
    then have "unat (8 * of_nat i :: u64) = (8 * i) mod 2 ^ 64" by (simp only: unat_of_nat) simp
    then show ?thesis using that by simp
  qed
  have "(8 * of_nat k :: u64) = 8 * of_nat l" using assms(3) by (simp add: slot_def)
  then show ?thesis using u [OF assms(1)] u [OF assms(2)] by (metis mult_left_cancel zero_neq_numeral)
qed

text \<open>The cells from \<open>sp\<close> upwards hold the values \<open>vs\<close>.\<close>

definition frame_at :: "(u64 \<Rightarrow> u64) \<Rightarrow> u64 \<Rightarrow> u64 list \<Rightarrow> bool" where
  "frame_at mem sp vs \<longleftrightarrow> (\<forall>k < length vs. mem (slot sp k) = vs ! k)"

definition frame_addrs :: "u64 \<Rightarrow> nat \<Rightarrow> u64 set" where
  "frame_addrs sp n = slot sp ` {..<n}"

lemma frame_at_Nil [simp]: "frame_at mem sp []"
  by (simp add: frame_at_def)

lemma frame_at_Cons [simp]:
  "frame_at mem sp (v # vs) \<longleftrightarrow> mem sp = v \<and> frame_at mem (sp + 8) vs"
  by (auto simp: frame_at_def slot_Suc nth_Cons split: nat.splits)

lemma frame_at_append:
  "frame_at mem sp (vs @ ws) \<longleftrightarrow> frame_at mem sp vs \<and> frame_at mem (slot sp (length vs)) ws"
  by (induction vs arbitrary: sp) (simp_all add: slot_Suc)

lemma frame_at_cong:
  "frame_at mem sp vs \<Longrightarrow> (\<And>a. a \<in> frame_addrs sp (length vs) \<Longrightarrow> mem' a = mem a) \<Longrightarrow> frame_at mem' sp vs"
  by (auto simp: frame_at_def frame_addrs_def)

subsection \<open>Pushing and popping many registers\<close>

lemma exec_pushes:
  assumes "RSP \<notin> set rs" "aligned8 (mc_reg m RSP)" "length rs < 2 ^ 60"
  shows "\<exists>mem'. exec e (map PUSH rs) m
      = Inr (m\<lparr>mc_reg := (mc_reg m)(RSP := mc_reg m RSP - 8 * of_nat (length rs)), mc_mem := mem'\<rparr>)
    \<and> frame_at mem' (mc_reg m RSP - 8 * of_nat (length rs)) (map (mc_reg m) (rev rs))
    \<and> (\<forall>a. a \<notin> frame_addrs (mc_reg m RSP - 8 * of_nat (length rs)) (length rs) \<longrightarrow> mem' a = mc_mem m a)"
  using assms
proof (induction rs arbitrary: m)
  case Nil
  then show ?case by (intro exI [of _ "mc_mem m"]) simp
next
  case (Cons r rs)
  define sp where "sp = mc_reg m RSP"
  define m1 where "m1 = m\<lparr>mc_reg := (mc_reg m)(RSP := sp - 8), mc_mem := (mc_mem m)(sp - 8 := mc_reg m r)\<rparr>"
  define bot where "bot = sp - 8 * of_nat (length (r # rs))"
  have bot: "sp - 8 - 8 * of_nat (length rs) = bot" "slot bot (length rs) = sp - 8"
    by (simp_all add: bot_def slot_def algebra_simps)
  have m1_sp: "mc_reg m1 RSP = sp - 8" by (simp add: m1_def)
  have st: "step e (PUSH r) m = Inr m1"
    using Cons.prems by (simp add: push_val_def Let_def m1_def sp_def)
  obtain mem' where mem': "exec e (map PUSH rs) m1 = Inr (m1\<lparr>mc_reg := (mc_reg m1)(RSP := bot), mc_mem := mem'\<rparr>)"
    "frame_at mem' bot (map (mc_reg m1) (rev rs))"
    "\<forall>a. a \<notin> frame_addrs bot (length rs) \<longrightarrow> mem' a = mc_mem m1 a"
    using Cons.IH [of m1, unfolded m1_sp bot(1)] Cons.prems by (auto simp: sp_def fun_upd_def)
  have out: "sp - 8 \<notin> frame_addrs bot (length rs)"
  proof
    assume "sp - 8 \<in> frame_addrs bot (length rs)"
    then obtain k where "k < length rs" "slot bot k = slot bot (length rs)"
      using bot(2) by (auto simp: frame_addrs_def)
    then show False using slot_inj [of k "length rs" bot] Cons.prems(3) by simp
  qed
  have regs: "map (mc_reg m1) (rev rs) = map (mc_reg m) (rev rs)"
    using Cons.prems(1) by (auto simp: m1_def)
  have "mem' (sp - 8) = mc_reg m r" using mem'(3) out by (simp add: m1_def)
  then have "frame_at mem' bot (map (mc_reg m) (rev (r # rs)))"
    using mem'(2) bot(2) by (simp add: frame_at_append regs)
  moreover have "frame_addrs bot (length (r # rs)) = insert (sp - 8) (frame_addrs bot (length rs))"
    using bot(2) by (auto simp: frame_addrs_def lessThan_Suc)
  then have "\<forall>a. a \<notin> frame_addrs bot (length (r # rs)) \<longrightarrow> mem' a = mc_mem m a"
    using mem'(3) by (simp add: m1_def)
  moreover have "m1\<lparr>mc_reg := (mc_reg m1)(RSP := bot), mc_mem := mem'\<rparr>
      = m\<lparr>mc_reg := (mc_reg m)(RSP := bot), mc_mem := mem'\<rparr>" by (simp add: m1_def)
  then have "exec e (map PUSH (r # rs)) m = Inr (m\<lparr>mc_reg := (mc_reg m)(RSP := bot), mc_mem := mem'\<rparr>)"
    using st mem'(1) by simp
  ultimately show ?case unfolding sp_def [symmetric] bot_def [symmetric] by blast
qed

primrec load_regs :: "reg list \<Rightarrow> u64 list \<Rightarrow> (reg \<Rightarrow> u64) \<Rightarrow> reg \<Rightarrow> u64" where
  "load_regs [] vs f = f"
| "load_regs (r # rs) vs f = load_regs rs (tl vs) (f(r := hd vs))"

lemma load_regs_other: "r \<notin> set rs \<Longrightarrow> load_regs rs vs f r = f r"
  by (induction rs arbitrary: vs f) auto

lemma load_regs_nth:
  "distinct rs \<Longrightarrow> length vs = length rs \<Longrightarrow> k < length rs \<Longrightarrow> load_regs rs vs f (rs ! k) = vs ! k"
proof (induction rs arbitrary: vs f k)
  case (Cons r rs)
  then obtain v vs' where "vs = v # vs'" by (cases vs) auto
  then show ?case using Cons by (cases k) (auto simp: load_regs_other)
qed simp

lemma load_regs_map: "distinct rs \<Longrightarrow> r \<in> set rs \<Longrightarrow> load_regs rs (map g rs) f r = g r"
  using load_regs_nth [of rs "map g rs" _ f] by (auto simp: in_set_conv_nth)

lemma exec_pops:
  assumes "RSP \<notin> set rs" "aligned8 (mc_reg m RSP)" "frame_at (mc_mem m) (mc_reg m RSP) vs"
    "length vs = length rs"
  shows "exec e (map POP rs) m
    = Inr (m\<lparr>mc_reg := (load_regs rs vs (mc_reg m))(RSP := slot (mc_reg m RSP) (length rs))\<rparr>)"
  using assms
proof (induction rs arbitrary: m vs)
  case (Cons r rs)
  then obtain v vs' where vs: "vs = v # vs'" by (cases vs) auto
  define m1 where "m1 = m\<lparr>mc_reg := (mc_reg m)(RSP := mc_reg m RSP + 8, r := v)\<rparr>"
  have st: "step e (POP r) m = Inr m1"
    using Cons.prems vs by (simp add: pop_val_def Let_def m1_def)
  have sp: "mc_reg m1 RSP = mc_reg m RSP + 8" using Cons.prems(1) by (simp add: m1_def)
  have "exec e (map POP rs) m1
      = Inr (m1\<lparr>mc_reg := (load_regs rs vs' (mc_reg m1))(RSP := slot (mc_reg m1 RSP) (length rs))\<rparr>)"
    using Cons.prems vs sp by (intro Cons.IH) (auto simp: m1_def)
  moreover have "(load_regs rs vs' ((mc_reg m)(RSP := mc_reg m RSP + 8, r := v)))(RSP := x)
      = (load_regs rs vs' ((mc_reg m)(r := v)))(RSP := x)" for x
  proof
    have "load_regs ss ws (f(RSP := y)) q = load_regs ss ws f q" if "q \<noteq> RSP" for ss ws f y q
      using that by (induction ss arbitrary: ws f) (simp_all, metis fun_upd_twist fun_upd_upd)
    then show "((load_regs rs vs' ((mc_reg m)(RSP := mc_reg m RSP + 8, r := v)))(RSP := x)) q
      = ((load_regs rs vs' ((mc_reg m)(r := v)))(RSP := x)) q" for q
      using Cons.prems(1) by (simp add: fun_upd_twist)
  qed
  ultimately show ?case using st sp vs Cons.prems(1) by (simp add: m1_def slot_Suc fun_upd_def)
qed simp

lemma frame_at_drop: "frame_at mem sp vs \<Longrightarrow> n \<le> length vs \<Longrightarrow> frame_at mem (slot sp n) (drop n vs)"
  using frame_at_append [of mem sp "take n vs" "drop n vs"] by (simp add: min_absorb2)

lemma slot_outside:
  assumes "k < j \<or> j + n \<le> k" "k < 2 ^ 60" "j + n < 2 ^ 60"
  shows "slot sp k \<notin> frame_addrs (slot sp j) n"
proof
  assume "slot sp k \<in> frame_addrs (slot sp j) n"
  then obtain i where i: "i < n" "slot sp k = slot sp (j + i)" by (auto simp: frame_addrs_def slot_slot)
  then have "k = j + i" using assms by (intro slot_inj) simp_all
  then show False using i(1) assms(1) by simp
qed

lemma frame_addrs_drop: "a \<in> frame_addrs (slot sp n) k \<Longrightarrow> a \<in> frame_addrs sp (n + k)"
  by (auto simp: frame_addrs_def slot_slot)

subsection \<open>Saving and restoring a context\<close>

text \<open>
  The order in which both the thread and the coroutine routines pop the registers. A saved
  context is, from its lowest address: the flags, these fifteen registers, the return address.
\<close>

definition ctx_regs :: "reg list" where
  "ctx_regs = [RBP, RDI, RSI, RDX, RCX, RBX, RAX, R15, R14, R13, R12, R11, R10, R9, R8]"

definition context_at :: "(u64 \<Rightarrow> u64) \<Rightarrow> u64 \<Rightarrow> u64 \<Rightarrow> u64 list \<Rightarrow> u64 \<Rightarrow> bool" where
  "context_at mem sp fl vs ra \<longleftrightarrow> length vs = 15 \<and> frame_at mem sp (fl # vs @ [ra])"

lemma ctx_regs_props: "distinct ctx_regs" "length ctx_regs = 15" "RSP \<notin> set ctx_regs"
  by (simp_all add: ctx_regs_def)

lemma ctx_regs_all: "r \<noteq> RSP \<Longrightarrow> r \<in> set ctx_regs"
  by (cases r) (simp_all add: ctx_regs_def)

lemma context_at_cong:
  "context_at mem sp fl vs ra \<Longrightarrow> (\<And>a. a \<in> frame_addrs sp 17 \<Longrightarrow> mem' a = mem a) \<Longrightarrow> context_at mem' sp fl vs ra"
  unfolding context_at_def using frame_at_cong [of mem sp "fl # vs @ [ra]" mem'] by simp

text \<open>Popping a context: the machine that resumes it.\<close>

definition resumed :: "machine \<Rightarrow> u64 \<Rightarrow> u64 list \<Rightarrow> u64 \<Rightarrow> machine" where
  "resumed m fl vs ra = m\<lparr>mc_rflags := fl, mc_rip := ra,
     mc_reg := (load_regs ctx_regs vs (mc_reg m))(RSP := slot (mc_reg m RSP) 17)\<rparr>"

lemma exec_restore:
  assumes "aligned8 (mc_reg m RSP)" "context_at (mc_mem m) (mc_reg m RSP) fl vs ra"
  shows "exec e (POPFQ # map POP ctx_regs @ [RET]) m = Inr (resumed m fl vs ra)"
proof -
  let ?sp = "mc_reg m RSP"
  define m1 where "m1 = m\<lparr>mc_reg := (mc_reg m)(RSP := ?sp + 8), mc_rflags := fl\<rparr>"
  have fr: "mc_mem m ?sp = fl" "frame_at (mc_mem m) (?sp + 8) vs" "mc_mem m (slot (?sp + 8) 15) = ra" "length vs = 15"
    using assms(2) by (auto simp: context_at_def frame_at_append)
  have 1: "step e POPFQ m = Inr m1" using assms(1) fr by (simp add: pop_val_def m1_def)
  define m2 where "m2 = m1\<lparr>mc_reg := (load_regs ctx_regs vs (mc_reg m1))(RSP := slot (mc_reg m1 RSP) 15)\<rparr>"
  have 2: "exec e (map POP ctx_regs) m1 = Inr m2"
    using exec_pops [of ctx_regs m1 vs e] assms(1) fr ctx_regs_props by (simp add: m1_def m2_def)
  have 3: "step e RET m2 = Inr (m2\<lparr>mc_reg := (mc_reg m2)(RSP := slot (mc_reg m1 RSP) 15 + 8), mc_rip := ra\<rparr>)"
    using assms(1) fr by (simp add: pop_val_def m2_def m1_def)
  have 4: "(load_regs ctx_regs vs ((mc_reg m)(RSP := x)))(RSP := y) = (load_regs ctx_regs vs (mc_reg m))(RSP := y)" for x y
    by (rule ext) (auto simp: ctx_regs_def)
  have "slot (mc_reg m1 RSP) 15 + 8 = slot ?sp 17" by (simp add: m1_def slot_def)
  then show ?thesis using 1 2 3 4 by (simp add: exec_append m1_def m2_def resumed_def)
qed

lemma resumed_regs:
  "r \<noteq> RSP \<Longrightarrow> mc_reg (resumed m fl (map g ctx_regs) ra) r = g r"
  "mc_reg (resumed m fl vs ra) RSP = slot (mc_reg m RSP) 17"
  "mc_rflags (resumed m fl vs ra) = fl" "mc_rip (resumed m fl vs ra) = ra"
  "mc_mem (resumed m fl vs ra) = mc_mem m" "mc_rsp0 (resumed m fl vs ra) = mc_rsp0 m"
  "mc_sched_locked (resumed m fl vs ra) = mc_sched_locked m"
  using load_regs_map [OF ctx_regs_props(1) ctx_regs_all] by (simp_all add: resumed_def)

text \<open>Pushing a context: it lies below the return address that the caller's \<open>call\<close> left at \<open>rsp\<close>.\<close>

lemma exec_save:
  assumes "aligned8 (mc_reg m RSP)"
  shows "\<exists>mem'. exec e (map PUSH (rev ctx_regs) @ [PUSHFQ]) m
      = Inr (m\<lparr>mc_reg := (mc_reg m)(RSP := mc_reg m RSP - 128), mc_mem := mem'\<rparr>)
    \<and> context_at mem' (mc_reg m RSP - 128) (flags_image (mc_rflags m)) (map (mc_reg m) ctx_regs)
        (mc_mem m (mc_reg m RSP))
    \<and> (\<forall>a. a \<notin> frame_addrs (mc_reg m RSP - 128) 16 \<longrightarrow> mem' a = mc_mem m a)"
proof -
  let ?sp = "mc_reg m RSP"
  obtain mem1 where m1: "exec e (map PUSH (rev ctx_regs)) m
      = Inr (m\<lparr>mc_reg := (mc_reg m)(RSP := ?sp - 120), mc_mem := mem1\<rparr>)"
    "frame_at mem1 (?sp - 120) (map (mc_reg m) ctx_regs)"
    "\<forall>a. a \<notin> frame_addrs (?sp - 120) 15 \<longrightarrow> mem1 a = mc_mem m a"
    using exec_pushes [of "rev ctx_regs" m e] assms ctx_regs_props by auto
  define mem' where "mem' = mem1(?sp - 128 := flags_image (mc_rflags m))"
  have s1: "slot (?sp - 128) (Suc 0) = ?sp - 120" "slot (?sp - 128) 16 = ?sp" "slot (?sp - 120) 15 = ?sp" by (simp_all add: slot_def)
  have low: "?sp - 128 \<notin> frame_addrs (?sp - 120) 15" "?sp \<notin> frame_addrs (?sp - 128) 16"
    "?sp \<notin> frame_addrs (?sp - 120) 15" "?sp - 128 \<noteq> ?sp"
    using slot_outside [of 0 1 15 "?sp - 128"] slot_outside [of 16 0 16 "?sp - 128"]
      slot_outside [of 16 1 15 "?sp - 128"] by (simp_all add: s1)
  define m2 where "m2 = m\<lparr>mc_reg := (mc_reg m)(RSP := ?sp - 120), mc_mem := mem1\<rparr>"
  have al: "aligned8 (?sp - 120 - 8)"
    using aligned8_slot [of "?sp - 128" 16] assms by (simp add: s1)
  have "step e PUSHFQ m2 = Inr (m\<lparr>mc_reg := (mc_reg m)(RSP := ?sp - 128), mc_mem := mem'\<rparr>)"
    using al by (simp add: m2_def push_val_def Let_def mem'_def)
  moreover have "frame_at mem' (?sp - 120) (map (mc_reg m) ctx_regs)"
    using m1(2) low(1) by (intro frame_at_cong [OF m1(2)]) (auto simp: mem'_def ctx_regs_props)
  moreover have "mem' ?sp = mc_mem m ?sp" using m1(3) low by (simp add: mem'_def)
  moreover have "mem' a = mc_mem m a" if "a \<notin> frame_addrs (?sp - 128) 16" for a
  proof -
    have "a \<noteq> ?sp - 128" using that by (auto simp: frame_addrs_def intro: image_eqI [of _ _ 0])
    moreover have "a \<notin> frame_addrs (?sp - 120) 15"
      using that frame_addrs_drop [of a "?sp - 128" "Suc 0" 15] s1(1) by auto
    ultimately show ?thesis using m1(3) by (simp add: mem'_def)
  qed
  ultimately show ?thesis
    using m1(1) s1(3)
    by (intro exI [of _ mem'])
      (simp add: exec_append m2_def context_at_def frame_at_append ctx_regs_props mem'_def)
qed

end
