(* ===== verification/Alloc_Global.thy ===== *)
theory Alloc_Global
  imports Prelude
begin

text \<open>
  \<^verbatim>\<open>kernel/src/allocator/global.rs\<close> and \<^verbatim>\<open>kernel/src/consts.rs\<close>: address alignment, the memory
  layout constants, and the \<open>Layout\<close> values of Rust's allocation interface that both
  allocators take (\<open>from_size_align\<close>, \<open>align_to\<close>, \<open>pad_to_align\<close> of the standard library).
  The address of the kernel's end, a linker symbol, is a parameter.
\<close>

subsection \<open>Alignment\<close>

definition align_up :: "usize \<Rightarrow> usize \<Rightarrow> usize res" where
  "align_up addr align =
     and_then (uadd addr align) (\<lambda>s.
     and_then (usub s 1) (\<lambda>t.
     and_then (usub align 1) (\<lambda>m. Inr (t AND NOT m))))"

subsection \<open>Constants\<close>

definition PAGE_SIZE :: usize where
  "PAGE_SIZE = 4096"

definition HEAP_SIZE :: usize where
  "HEAP_SIZE = 16 * 1024 * 1024"

definition STACK_SIZE :: usize where
  "STACK_SIZE = 512 * 1024"

definition heap_start :: "usize \<Rightarrow> usize res" where
  "heap_start kernel_end = align_up kernel_end PAGE_SIZE"

subsection \<open>Layouts\<close>

record layout =
  lay_size :: usize
  lay_align :: usize

definition is_power_of_two :: "usize \<Rightarrow> bool" where
  "is_power_of_two w = list_ex (\<lambda>k. w = 2 ^ k) [0..<64]"

definition layout_valid :: "layout \<Rightarrow> bool" where
  "layout_valid l \<longleftrightarrow>
     is_power_of_two (lay_align l) \<and> uint (lay_size l) + uint (lay_align l) \<le> 2 ^ 63"

definition from_size_align :: "usize \<Rightarrow> usize \<Rightarrow> layout option" where
  "from_size_align sz al =
     (let l = \<lparr>lay_size = sz, lay_align = al\<rparr> in if layout_valid l then Some l else None)"

definition align_to :: "layout \<Rightarrow> usize \<Rightarrow> layout option" where
  "align_to l align = from_size_align (lay_size l) (max (lay_align l) align)"

text \<open>Rounds the size up; a valid layout rules the overflow out.\<close>

definition pad_to_align :: "layout \<Rightarrow> layout" where
  "pad_to_align l =
     l\<lparr>lay_size := (lay_size l + lay_align l - 1) AND NOT (lay_align l - 1)\<rparr>"

subsection \<open>Facts\<close>

lemma is_power_of_two_iff: "is_power_of_two w \<longleftrightarrow> (\<exists>k < 64. w = 2 ^ k)"
  by (auto simp: is_power_of_two_def list_ex_iff)

lemma layout_valid_nat:
  "layout_valid l \<longleftrightarrow>
     is_power_of_two (lay_align l) \<and> unat (lay_size l) + unat (lay_align l) \<le> 2 ^ 63"
proof -
  have "uint (lay_size l) + uint (lay_align l) = int (unat (lay_size l) + unat (lay_align l))" by simp
  moreover have "(2::int) ^ 63 = int (2 ^ 63)" by simp
  ultimately show ?thesis unfolding layout_valid_def by (simp only: of_nat_le_iff)
qed

lemma is_power_of_two_obtain:
  assumes "is_power_of_two w"
  obtains k where "k < 64" "w = 2 ^ k" "unat w = 2 ^ k"
  using assms by (auto simp: is_power_of_two_iff unat_power2)

lemma align_up_pow2:
  assumes k: "k < 64" and ov: "unat addr + 2 ^ k < 2 ^ 64"
  shows "\<exists>r. align_up addr (2 ^ k) = Inr r \<and> unat r = (unat addr + 2 ^ k - 1) div 2 ^ k * 2 ^ k"
proof -
  have u: "unat (2 ^ k :: usize) = 2 ^ k" using k by (intro unat_power2) simp
  then have one: "(1 :: usize) \<le> 2 ^ k" by (simp add: word_le_nat_alt)
  have s: "unat (addr + 2 ^ k) = unat addr + 2 ^ k" using ov u by (simp add: unat_add_noov)
  have "(1 :: nat) \<le> 2 ^ k" by simp
  with s have one': "1 \<le> addr + 2 ^ k" unfolding word_le_nat_alt unat_1 by linarith
  have t: "unat (addr + 2 ^ k - 1) = unat addr + 2 ^ k - 1"
    using s one' by (simp add: unat_sub_le)
  have "align_up addr (2 ^ k) = Inr ((addr + 2 ^ k - 1) AND NOT (mask k))"
    using ov u one one' by (simp add: align_up_def uadd_nat usub_def mask_eq_exp_minus_1)
  then show ?thesis using t by (simp add: unat_and_not_mask)
qed

text \<open>
  \<open>align_up\<close> with a power-of-two alignment, when the sum does not overflow, returns the
  least multiple of the alignment that is not below the address.
\<close>

theorem align_up_least_multiple:
  assumes "is_power_of_two align" and "unat addr + unat align < 2 ^ 64"
  shows "\<exists>r. align_up addr align = Inr r \<and> unat align dvd unat r \<and> addr \<le> r
     \<and> unat r < unat addr + unat align
     \<and> (\<forall>m. unat align dvd m \<longrightarrow> unat addr \<le> m \<longrightarrow> unat r \<le> m)"
proof -
  obtain k where k: "k < 64" "align = 2 ^ k" "unat align = 2 ^ k"
    using assms(1) by (rule is_power_of_two_obtain)
  obtain r where r: "align_up addr align = Inr r"
      "unat r = (unat addr + 2 ^ k - 1) div 2 ^ k * 2 ^ k"
    using align_up_pow2 [of k addr] k assms(2) by auto
  note b = round_up_bounds [of "2 ^ k" "unat addr"]
  have least: "unat r \<le> m" if dm: "unat align dvd m" and am: "unat addr \<le> m" for m
  proof (rule ccontr)
    assume "\<not> unat r \<le> m"
    then have "m < unat r" by simp
    moreover have "2 ^ k dvd m" "2 ^ k dvd unat r" using dm k b(1) r(2) by simp_all
    ultimately have "m + 2 ^ k \<le> unat r" by (intro dvd_gap)
    with b(3) r(2) am show False by simp
  qed
  then show ?thesis using r b k by (auto simp: word_le_nat_alt)
qed

theorem align_up_least_multiple_witness:
  "\<exists>r. align_up 0x1234 4096 = Inr r \<and> unat (4096 :: usize) dvd unat r \<and> 0x1234 \<le> r"
proof -
  have "is_power_of_two 4096"
    unfolding is_power_of_two_iff by (intro exI [of _ 12]) simp
  then show ?thesis using align_up_least_multiple [of 4096 "0x1234"] by auto
qed

end
