(* ===== verification/Thread.thy ===== *)
theory Thread
  imports X86 Alloc_Global
begin

text \<open>
  \<^verbatim>\<open>kernel/src/thread/thread.rs\<close>: threads, the preparation of their stacks, and the assembly
  routines that start a thread, switch between two threads and enter user mode. A \<open>Vec<u64>\<close>
  is the address of its buffer with its cells. Addresses that the linker or the allocator
  choose (of \<open>kickoff\<close> functions, of boxes and buffers) are arguments.
\<close>

subsection \<open>Threads\<close>

record vec64 =
  v_base :: usize
  v_cells :: "u64 list"

record thread =
  th_id :: usize
  th_is_kernel_thread :: bool
  th_kernel_stack :: vec64
  th_user_stack :: vec64
  th_stack_ptr :: usize
  th_entry :: u64

text \<open>The atomic counter returns its old value and wraps around.\<close>

definition next_id :: "usize \<Rightarrow> usize \<times> usize" where
  "next_id counter = (counter, counter + 1)"

text \<open>\<open>ptr::from_ref(&v[i])\<close>, with the bounds check of the index.\<close>

definition elem_addr :: "vec64 \<Rightarrow> nat \<Rightarrow> usize res" where
  "elem_addr v i = (if i < length (v_cells v) then Inr (slot (v_base v) i) else Inl IndexOutOfBounds)"

definition get_top_of_stack :: "vec64 \<Rightarrow> usize res" where
  "get_top_of_stack v =
     and_then (nsub (length (v_cells v)) 1) (\<lambda>i.
     and_then (elem_addr v i) (\<lambda>a. Inr (a + 8)))"

text \<open>A sequence of assignments \<open>stack[length - k] = v\<close>.\<close>

fun put_from_top :: "(nat \<times> u64) list \<Rightarrow> u64 list \<Rightarrow> u64 list res" where
  "put_from_top [] s = Inr s"
| "put_from_top ((k, v) # ps) s =
     and_then (nsub (length s) k) (\<lambda>i. and_then (set_index s i v) (put_from_top ps))"

definition prepare_kernel_stack :: "u64 \<Rightarrow> u64 \<Rightarrow> thread \<Rightarrow> thread res" where
  "prepare_kernel_stack kickoff self t =
     and_then (put_from_top
       [(1, kickoff),
        (2, 0), (3, 0), (4, 0), (5, 0), (6, 0), (7, 0), (8, 0), (9, 0),
        (10, 0), (11, 0), (12, 0), (13, 0), (14, 0),
        (15, self), (16, 0), (17, 0x2)] (v_cells (th_kernel_stack t))) (\<lambda>s.
     and_then (usub (th_stack_ptr t) (8 * 16)) (\<lambda>p.
       Inr (t\<lparr>th_kernel_stack := (th_kernel_stack t)\<lparr>v_cells := s\<rparr>, th_stack_ptr := p\<rparr>)))"

text \<open>
  \<open>cap\<close> is the capacity \<open>Vec::with_capacity(STACK_SIZE / 8)\<close> grants, \<open>base\<close> the address of the
  buffer, \<open>self\<close> the address of the boxed thread.
\<close>

definition new_kernel_thread ::
  "nat \<Rightarrow> usize \<Rightarrow> u64 \<Rightarrow> u64 \<Rightarrow> u64 \<Rightarrow> usize \<Rightarrow> (thread \<times> usize) res" where
  "new_kernel_thread cap base self kickoff entry counter =
     (let kernel_stack = \<lparr>v_base = base, v_cells = replicate cap 0\<rparr>;
          user_stack = \<lparr>v_base = 8, v_cells = []\<rparr>
      in and_then (nsub cap 1) (\<lambda>i.
         and_then (elem_addr kernel_stack i) (\<lambda>sp.
           case next_id counter of (tid, counter') \<Rightarrow>
             and_then (prepare_kernel_stack kickoff self
               \<lparr>th_id = tid, th_is_kernel_thread = True, th_kernel_stack = kernel_stack,
                th_user_stack = user_stack, th_stack_ptr = sp, th_entry = entry\<rparr>)
               (\<lambda>t. Inr (t, counter')))))"

text \<open>\<open>ubase\<close> is the address of the buffer the extended user stack gets.\<close>

definition new_user_thread ::
  "nat \<Rightarrow> usize \<Rightarrow> usize \<Rightarrow> u64 \<Rightarrow> u64 \<Rightarrow> u64 \<Rightarrow> usize \<Rightarrow> (thread \<times> usize) res" where
  "new_user_thread cap base ubase self kickoff entry counter =
     and_then (new_kernel_thread cap base self kickoff entry counter) (\<lambda>(t, counter').
       Inr (t\<lparr>th_is_kernel_thread := False,
              th_user_stack := \<lparr>v_base = ubase,
                v_cells = v_cells (th_user_stack t) @ replicate (unat (STACK_SIZE div 8)) 0\<rparr>\<rparr>,
            counter'))"

text \<open>
  The fake interrupt frame that \<open>switch_to_usermode\<close> writes 1 KiB below the top of the kernel
  stack; the result is the changed thread and the argument of \<open>thread_user_start\<close>.
\<close>

definition switch_to_usermode :: "u64 \<Rightarrow> u64 \<Rightarrow> thread \<Rightarrow> (thread \<times> usize) res" where
  "switch_to_usermode kickoff_user self t =
     (let ks = th_kernel_stack t; n = length (v_cells ks) in
      and_then (nsub n (1024 div 8)) (\<lambda>offset.
      and_then (set_index (v_cells ks) offset (push_bit 3 4 OR 3)) (\<lambda>s0.
      and_then (get_top_of_stack (th_user_stack t)) (\<lambda>top.
      and_then (usub (top AND NOT 0xf) 8) (\<lambda>rsp.
      and_then (nsub offset 1) (\<lambda>i1.
      and_then (set_index s0 i1 rsp) (\<lambda>s1.
      and_then (nsub offset 2) (\<lambda>i2.
      and_then (set_index s1 i2 (push_bit 9 1 OR push_bit 1 1)) (\<lambda>s2.
      and_then (nsub offset 3) (\<lambda>i3.
      and_then (set_index s2 i3 (push_bit 3 3 OR 3)) (\<lambda>s3.
      and_then (nsub offset 4) (\<lambda>i4.
      and_then (set_index s3 i4 kickoff_user) (\<lambda>s4.
      and_then (nsub offset 5) (\<lambda>i5.
      and_then (set_index s4 i5 self) (\<lambda>s5.
      and_then (elem_addr (ks\<lparr>v_cells := s5\<rparr>) i5) (\<lambda>p.
        Inr (t\<lparr>th_kernel_stack := ks\<lparr>v_cells := s5\<rparr>\<rparr>, p)))))))))))))))))"

definition thread_id :: "thread \<Rightarrow> usize" where
  "thread_id t = th_id t"

text \<open>What the kickoff functions do, as the sequence of their calls.\<close>

datatype kick_action =
    SetRsp0 usize
  | EnableInt
  | CallEntry u64
  | ThreadUserStart usize
  | SchedulerExit
  | UsrThreadExit

definition kickoff_kernel_thread :: "u64 \<Rightarrow> u64 \<Rightarrow> thread \<Rightarrow> (kick_action list \<times> thread) res" where
  "kickoff_kernel_thread kickoff_user self t =
     and_then (get_top_of_stack (th_kernel_stack t)) (\<lambda>rsp0.
       if th_is_kernel_thread t
       then Inr ([SetRsp0 rsp0, EnableInt, CallEntry (th_entry t), SchedulerExit], t)
       else and_then (switch_to_usermode kickoff_user self t) (\<lambda>(t', p).
              Inr ([SetRsp0 rsp0, ThreadUserStart p], t')))"

definition kickoff_user_thread :: "thread \<Rightarrow> kick_action list" where
  "kickoff_user_thread t = [CallEntry (th_entry t), UsrThreadExit]"

subsection \<open>The assembly routines\<close>

definition thread_start :: "instr list" where
  "thread_start =
     [MOV RSP RDI,
      CALL_unlock_scheduler,
      POPFQ,
      POP RBP, POP RDI, POP RSI, POP RDX, POP RCX, POP RBX, POP RAX,
      POP R15, POP R14, POP R13, POP R12, POP R11, POP R10, POP R9, POP R8,
      RET]"

definition thread_switch :: "instr list" where
  "thread_switch =
     [PUSH R8, PUSH R9, PUSH R10, PUSH R11, PUSH R12, PUSH R13, PUSH R14, PUSH R15,
      PUSH RAX, PUSH RBX, PUSH RCX, PUSH RDX, PUSH RSI, PUSH RDI, PUSH RBP,
      PUSHFQ,
      STORE RDI RSP,
      MOV RDI RDX,
      CALL_tss_set_rsp0,
      MOV RSP RSI,
      CALL_unlock_scheduler,
      POPFQ,
      POP RBP, POP RDI, POP RSI, POP RDX, POP RCX, POP RBX, POP RAX,
      POP R15, POP R14, POP R13, POP R12, POP R11, POP R10, POP R9, POP R8,
      RET]"

definition thread_user_start :: "instr list" where
  "thread_user_start = [MOV RSP RDI, POP RDI, IRETQ]"

text \<open>\<open>start\<close> and \<open>switch\<close>: the arguments go into \<open>rdi\<close>, \<open>rsi\<close>, \<open>rdx\<close>; \<open>cur_slot\<close> is the address of
  the current thread's \<open>stack_ptr\<close>.\<close>

definition start :: "env \<Rightarrow> thread \<Rightarrow> machine \<Rightarrow> machine res" where
  "start e t m = exec e thread_start (m\<lparr>mc_reg := (mc_reg m)(RDI := th_stack_ptr t)\<rparr>)"

definition switch :: "env \<Rightarrow> u64 \<Rightarrow> thread \<Rightarrow> machine \<Rightarrow> machine res" where
  "switch e cur_slot nxt m =
     and_then (get_top_of_stack (th_kernel_stack nxt)) (\<lambda>next_stack_end.
       exec e thread_switch (m\<lparr>mc_reg := (mc_reg m)
         (RDI := cur_slot, RSI := th_stack_ptr nxt, RDX := next_stack_end)\<rparr>))"

text \<open>\<open>Display\<close> of a thread.\<close>

fun dec_digits :: "nat \<Rightarrow> string" where
  "dec_digits n = (if n < 10 then [char_of (48 + n)] else dec_digits (n div 10) @ [char_of (48 + n mod 10)])"

declare dec_digits.simps [simp del]

definition thread_fmt :: "thread \<Rightarrow> string" where
  "thread_fmt t = ''T'' @ dec_digits (unat (th_id t))"

subsection \<open>Switching\<close>

text \<open>
  What a switch relies on: aligned stacks; the frame of the next thread and the slot that
  receives the stack pointer lie outside the part of the current stack the routine writes
  (the seventeen cells below \<open>rsp\<close>); and the called function respects both frames.
\<close>

definition frames_apart :: "callee \<Rightarrow> u64 \<Rightarrow> u64 \<Rightarrow> u64 \<Rightarrow> bool" where
  "frames_apart ce sp slot_addr nxt \<longleftrightarrow>
     aligned8 sp \<and> aligned8 slot_addr \<and> aligned8 nxt
     \<and> frame_addrs nxt 17 \<inter> insert slot_addr (frame_addrs (sp - 136) 17) = {}
     \<and> slot_addr \<notin> frame_addrs (sp - 136) 18
     \<and> (\<forall>a \<in> insert slot_addr (frame_addrs nxt 17 \<union> frame_addrs (sp - 128) 17). ce_mem ce a = None)"

definition switch_safe :: "env \<Rightarrow> machine \<Rightarrow> bool" where
  "switch_safe e m = frames_apart (en_callee e) (mc_reg m RSP) (mc_reg m RDI) (mc_reg m RSI)"

lemma thread_switch_split:
  "thread_switch = (map PUSH (rev ctx_regs) @ [PUSHFQ]) @
     [STORE RDI RSP, MOV RDI RDX, CALL_tss_set_rsp0, MOV RSP RSI, CALL_unlock_scheduler] @
     (POPFQ # map POP ctx_regs @ [RET])"
  by (simp add: thread_switch_def ctx_regs_def)

lemma thread_start_split:
  "thread_start = [MOV RSP RDI, CALL_unlock_scheduler] @ (POPFQ # map POP ctx_regs @ [RET])"
  by (simp add: thread_start_def ctx_regs_def)

lemma exec_thread_switch:
  assumes safe: "switch_safe e m" and ctx: "context_at (mc_mem m) (mc_reg m RSI) fl vs ra"
  shows "\<exists>m0. exec e thread_switch m = Inr (resumed m0 fl vs ra)
    \<and> mc_reg m0 RSP = mc_reg m RSI \<and> mc_rsp0 m0 = mc_reg m RDX \<and> \<not> mc_sched_locked m0
    \<and> mc_mem m0 (mc_reg m RDI) = mc_reg m RSP - 128
    \<and> context_at (mc_mem m0) (mc_reg m RSP - 128) (flags_image (mc_rflags m))
         (map (mc_reg m) ctx_regs) (mc_mem m (mc_reg m RSP))"
proof -
  let ?sp = "mc_reg m RSP" and ?slot = "mc_reg m RDI" and ?nxt = "mc_reg m RSI"
  have al: "aligned8 ?sp" "aligned8 ?slot" "aligned8 ?nxt"
    and dj: "frame_addrs ?nxt 17 \<inter> insert ?slot (frame_addrs (?sp - 136) 17) = {}"
      "?slot \<notin> frame_addrs (?sp - 136) 18"
    and ce: "\<forall>a \<in> insert ?slot (frame_addrs ?nxt 17 \<union> frame_addrs (?sp - 128) 17).
      ce_mem (en_callee e) a = None"
    using safe by (auto simp: switch_safe_def frames_apart_def)
  have s: "slot (?sp - 136) (Suc 0) = ?sp - 128" "slot (?sp - 136) 17 = ?sp" by (simp_all add: slot_def)
  have al': "aligned8 (?sp - 136)" using aligned8_slot [of "?sp - 136" 17] al(1) s(2) by simp
  obtain mem1 where m1: "exec e (map PUSH (rev ctx_regs) @ [PUSHFQ]) m
      = Inr (m\<lparr>mc_reg := (mc_reg m)(RSP := ?sp - 128), mc_mem := mem1\<rparr>)"
    "context_at mem1 (?sp - 128) (flags_image (mc_rflags m)) (map (mc_reg m) ctx_regs) (mc_mem m ?sp)"
    "\<forall>a. a \<notin> frame_addrs (?sp - 128) 16 \<longrightarrow> mem1 a = mc_mem m a"
    using exec_save [OF al(1)] by blast
  define mem2 where "mem2 = mem1(?slot := ?sp - 128, ?sp - 136 := en_ra e)"
  define m2 where "m2 = m\<lparr>mc_rsp0 := mc_reg m RDX, mc_mem := mem2,
    mc_reg := (mc_reg m)(RSP := ?nxt, RDI := mc_reg m RDX, RAX := en_tss e)\<rparr>"
  define m0 where "m0 = (rust_call (en_callee e) m2)\<lparr>mc_sched_locked := False\<rparr>"
  have mid: "exec e [STORE RDI RSP, MOV RDI RDX, CALL_tss_set_rsp0, MOV RSP RSI, CALL_unlock_scheduler]
      (m\<lparr>mc_reg := (mc_reg m)(RSP := ?sp - 128), mc_mem := mem1\<rparr>) = Inr m0"
    using al al' by (simp add: tss_set_rsp0_def m0_def m2_def mem2_def fun_upd_twist)
  have sp0: "mc_reg m0 RSP = ?nxt" by (simp add: m0_def m2_def rust_call_def callee_saved_def)
  have sub: "frame_addrs (?sp - 128) 17 \<subseteq> frame_addrs (?sp - 136) 18"
    "frame_addrs (?sp - 128) 16 \<subseteq> frame_addrs (?sp - 136) 17"
    using frame_addrs_drop [of _ "?sp - 136" "Suc 0" 17] frame_addrs_drop [of _ "?sp - 136" "Suc 0" 16] s(1)
    by auto
  have low: "?sp - 136 \<in> frame_addrs (?sp - 136) 17" "?sp - 136 \<in> frame_addrs (?sp - 136) 18"
    "?sp - 136 \<notin> frame_addrs (?sp - 128) 17"
    using slot_outside [of 0 "Suc 0" 17 "?sp - 136"] s(1)
    by (auto simp: frame_addrs_def intro: image_eqI [of _ _ 0])
  have mem0: "mc_mem m0 a = mem2 a" if "a \<in> insert ?slot (frame_addrs ?nxt 17 \<union> frame_addrs (?sp - 128) 17)" for a
  proof -
    have "ce_mem (en_callee e) a = None" by (rule bspec [OF ce that])
    then show ?thesis by (simp add: m0_def m2_def rust_call_def)
  qed
  have nxt: "context_at (mc_mem m0) ?nxt fl vs ra"
  proof (rule context_at_cong [OF ctx])
    fix a assume a: "a \<in> frame_addrs ?nxt 17"
    then have "a \<noteq> ?slot" "a \<noteq> ?sp - 136" "a \<notin> frame_addrs (?sp - 128) 16" using dj low(1) sub(2) by auto
    then show "mc_mem m0 a = mc_mem m a" using mem0 [of a] a m1(3) by (simp add: mem2_def)
  qed
  have own: "context_at (mc_mem m0) (?sp - 128) (flags_image (mc_rflags m)) (map (mc_reg m) ctx_regs) (mc_mem m ?sp)"
  proof (rule context_at_cong [OF m1(2)])
    fix a assume a: "a \<in> frame_addrs (?sp - 128) 17"
    then have "a \<noteq> ?slot" "a \<noteq> ?sp - 136" using dj(2) sub(1) low(3) by auto
    then show "mc_mem m0 a = mem1 a" using mem0 [of a] a by (simp add: mem2_def)
  qed
  have "mc_mem m0 ?slot = ?sp - 128" using mem0 [of ?slot] dj(2) low(2) by (auto simp: mem2_def)
  moreover have "mc_rsp0 m0 = mc_reg m RDX" "\<not> mc_sched_locked m0"
    by (simp_all add: m0_def m2_def rust_call_def)
  moreover have "exec e thread_switch m = Inr (resumed m0 fl vs ra)"
    unfolding thread_switch_split
    using m1(1) mid exec_restore [of m0 fl vs ra e] sp0 al(3) nxt by (simp only: exec_append and_then_simps)
  ultimately show ?thesis using sp0 own by blast
qed

lemma exec_thread_start:
  assumes "aligned8 (mc_reg m RDI)" and "context_at (mc_mem m) (mc_reg m RDI) fl vs ra"
    and "\<forall>a \<in> frame_addrs (mc_reg m RDI) 17. ce_mem (en_callee e) a = None"
  shows "\<exists>m0. exec e thread_start m = Inr (resumed m0 fl vs ra)
    \<and> mc_reg m0 RSP = mc_reg m RDI \<and> \<not> mc_sched_locked m0"
proof -
  define m1 where "m1 = m\<lparr>mc_reg := (mc_reg m)(RSP := mc_reg m RDI)\<rparr>"
  define m0 where "m0 = (rust_call (en_callee e) m1)\<lparr>mc_sched_locked := False\<rparr>"
  have pre: "exec e [MOV RSP RDI, CALL_unlock_scheduler] m = Inr m0"
    using assms(1) by (simp add: m0_def m1_def)
  have sp: "mc_reg m0 RSP = mc_reg m RDI" "\<not> mc_sched_locked m0"
    by (simp_all add: m0_def m1_def rust_call_def callee_saved_def)
  have "context_at (mc_mem m0) (mc_reg m RDI) fl vs ra"
    using assms(3) by (intro context_at_cong [OF assms(2)]) (simp add: m0_def m1_def rust_call_def)
  then have "exec e (POPFQ # map POP ctx_regs @ [RET]) m0 = Inr (resumed m0 fl vs ra)"
    using assms(1) sp(1) by (intro exec_restore) simp_all
  then show ?thesis using pre sp unfolding thread_start_split by (simp only: exec_append and_then_simps) blast
qed

subsection \<open>Fresh threads\<close>

lemma length_17: "length ys = 17 \<Longrightarrow> \<exists>a b c d e f g h i j k l n p q r s.
    ys = [a, b, c, d, e, f, g, h, i, j, k, l, n, p, q, r, s]"
  by (auto simp: numeral_eq_Suc length_Suc_conv)

definition fresh_context :: "u64 \<Rightarrow> u64 \<Rightarrow> u64 list" where
  "fresh_context kickoff self = [2, 0, self, 0, 0, 0, 0, 0, 0, 0, 0, 0, 0, 0, 0, 0, kickoff]"

lemma prepare_cells:
  assumes "17 \<le> length s"
  shows "put_from_top
       [(1, kickoff),
        (2, 0), (3, 0), (4, 0), (5, 0), (6, 0), (7, 0), (8, 0), (9, 0),
        (10, 0), (11, 0), (12, 0), (13, 0), (14, 0),
        (15, self), (16, 0), (17, 0x2)] s
    = Inr (take (length s - 17) s @ fresh_context kickoff self)"
proof -
  define xs ys where "xs = take (length s - 17) s" "ys = drop (length s - 17) s"
  then have s: "s = xs @ ys" "length ys = 17" using assms by simp_all
  obtain a b c d e f g h i j k l n p q r t where
    "ys = [a, b, c, d, e, f, g, h, i, j, k, l, n, p, q, r, t]"
    using length_17 [OF s(2)] by blast
  then show ?thesis
    unfolding s(1) by (simp add: nsub_def set_index_def list_update_append fresh_context_def)
qed

lemma new_kernel_thread_eq:
  assumes "17 \<le> cap" "unat base + 8 * cap < 2 ^ 64"
  shows "new_kernel_thread cap base self kickoff entry counter =
    Inr (\<lparr>th_id = counter, th_is_kernel_thread = True,
      th_kernel_stack = \<lparr>v_base = base, v_cells = replicate (cap - 17) 0 @ fresh_context kickoff self\<rparr>,
      th_user_stack = \<lparr>v_base = 8, v_cells = []\<rparr>,
      th_stack_ptr = slot base (cap - 17), th_entry = entry\<rparr>, counter + 1)"
proof -
  have i: "nsub cap 1 = Inr (cap - 1)" using assms(1) by (simp add: nsub_def)
  have "unat (8 * of_nat (cap - 1) :: u64) = 8 * (cap - 1)"
  proof -
    have "(8 * of_nat (cap - 1) :: u64) = of_nat (8 * (cap - 1))" by simp
    then have "unat (8 * of_nat (cap - 1) :: u64) = (8 * (cap - 1)) mod 2 ^ 64" by (simp only: unat_of_nat) simp
    then show ?thesis using assms by simp
  qed
  then have "unat (slot base (cap - 1)) = unat base + 8 * (cap - 1)"
    using assms unfolding slot_def by (subst unat_add_noov) simp_all
  then have ge: "128 \<le> slot base (cap - 1)" using assms(1) by (simp add: word_le_nat_alt)
  have sub: "slot base (cap - 1) - 128 = slot base (cap - 17)"
  proof -
    have "cap - 1 = cap - 17 + 16" using assms(1) by simp
    then have "slot base (cap - 1) = slot (slot base (cap - 17)) 16" by (simp only: slot_slot)
    then show ?thesis by (simp add: slot_def)
  qed
  show ?thesis
    using i ge sub assms(1) prepare_cells [of "replicate cap 0" kickoff self]
    by (simp add: new_kernel_thread_def elem_addr_def next_id_def prepare_kernel_stack_def usub_def)
qed

lemma fresh_context_at:
  assumes "17 \<le> cap" "frame_at mem base (replicate (cap - 17) 0 @ fresh_context kickoff self)"
  shows "context_at mem (slot base (cap - 17)) 2 (map ((\<lambda>_. 0)(RDI := self)) ctx_regs) kickoff"
  using assms by (simp add: context_at_def frame_at_append fresh_context_def ctx_regs_def)

lemma top_of_fresh:
  "0 < length (v_cells v) \<Longrightarrow> get_top_of_stack v = Inr (slot (v_base v) (length (v_cells v)))"
  by (simp add: get_top_of_stack_def nsub_def elem_addr_def Suc_le_eq)

subsection \<open>Properties\<close>

text \<open>
  C7. A thread that has been switched away from is resumed exactly where it was: whatever ran
  in between, as long as its saved frame was left alone, the switch back restores every
  general purpose register, the flags, the stack pointer of its caller and the return
  address, programs the new kernel stack into the TSS and leaves the scheduler unlocked.
\<close>

theorem thread_switch_roundtrip:
  assumes "switch_safe e m" and "context_at (mc_mem m) (mc_reg m RSI) fl vs ra"
    and "exec e thread_switch m = Inr m1"
    and "switch_safe e' m2" and "mc_reg m2 RSI = mc_mem m1 (mc_reg m RDI)"
    and "\<forall>a \<in> frame_addrs (mc_reg m RSP - 128) 17. mc_mem m2 a = mc_mem m1 a"
  shows "\<exists>m3. exec e' thread_switch m2 = Inr m3
    \<and> (\<forall>r. r \<noteq> RSP \<longrightarrow> mc_reg m3 r = mc_reg m r)
    \<and> mc_reg m3 RSP = mc_reg m RSP + 8 \<and> mc_rip m3 = mc_mem m (mc_reg m RSP)
    \<and> mc_rflags m3 = flags_image (mc_rflags m)
    \<and> mc_rsp0 m3 = mc_reg m2 RDX \<and> \<not> mc_sched_locked m3"
proof -
  let ?sp = "mc_reg m RSP"
  obtain m0 where m0: "m1 = resumed m0 fl vs ra" "mc_mem m0 (mc_reg m RDI) = ?sp - 128"
    "context_at (mc_mem m0) (?sp - 128) (flags_image (mc_rflags m)) (map (mc_reg m) ctx_regs) (mc_mem m ?sp)"
    using exec_thread_switch [OF assms(1,2)] assms(3) by auto
  have si: "mc_reg m2 RSI = ?sp - 128" using assms(5) m0(1,2) by (simp add: resumed_regs)
  have "context_at (mc_mem m2) (mc_reg m2 RSI) (flags_image (mc_rflags m)) (map (mc_reg m) ctx_regs) (mc_mem m ?sp)"
    unfolding si using assms(6) m0(1) by (intro context_at_cong [OF m0(3)]) (simp add: resumed_regs)
  from exec_thread_switch [OF assms(4) this] obtain m4 where
    "exec e' thread_switch m2 = Inr (resumed m4 (flags_image (mc_rflags m)) (map (mc_reg m) ctx_regs) (mc_mem m ?sp))"
    "mc_reg m4 RSP = ?sp - 128" "mc_rsp0 m4 = mc_reg m2 RDX" "\<not> mc_sched_locked m4"
    using si by auto
  then show ?thesis by (simp add: resumed_regs slot_def)
qed

definition demo_env :: env where
  "demo_env = \<lparr>en_callee = \<lparr>ce_reg = (\<lambda>_. 99), ce_rflags = 0x46, ce_mem = (\<lambda>_. None)\<rparr>,
     en_tss = 0x9000, en_ra = 0x1234\<rparr>"

definition demo_machine :: machine where
  "demo_machine = \<lparr>mc_reg = (\<lambda>_. 0)(RSP := 0x2000, RDI := 0x5000, RSI := 0x3000, RDX := 0x3088, RBX := 7),
     mc_rflags = 0x202, mc_rip = 0x100, mc_cs = 8, mc_ss = 16, mc_rsp0 = 0,
     mc_mem = (\<lambda>_. 0)(0x2000 := 0xabc), mc_sched_locked = True\<rparr>"

lemma demo_context: "context_at (mc_mem demo_machine) 0x3000 0 (replicate 15 0) 0"
  by code_simp

lemma demo_safe: "switch_safe demo_env demo_machine"
proof -
  have "frames_apart (en_callee demo_env) 0x2000 0x5000 0x3000" by code_simp
  then show ?thesis by (simp add: switch_safe_def demo_machine_def)
qed

lemma demo_safe2: "frames_apart (en_callee demo_env) 0x3088 0x6000 0x1f80"
  by code_simp

theorem thread_switch_roundtrip_witness:
  "\<exists>m1 m3. exec demo_env thread_switch demo_machine = Inr m1
    \<and> exec demo_env thread_switch (m1\<lparr>mc_reg := (mc_reg m1)(RSI := mc_mem m1 0x5000, RDI := 0x6000)\<rparr>) = Inr m3
    \<and> mc_reg m3 RBX = 7 \<and> mc_reg m3 RSP = 0x2008 \<and> mc_rip m3 = 0xabc \<and> mc_rflags m3 = 0x202"
proof -
  have regs: "mc_reg demo_machine RSI = 0x3000" "mc_reg demo_machine RDI = 0x5000"
    "mc_reg demo_machine RSP = 0x2000" "mc_reg demo_machine RBX = 7"
    "mc_rflags demo_machine = 0x202" "mc_mem demo_machine 0x2000 = 0xabc"
    by (simp_all add: demo_machine_def)
  have ctx: "context_at (mc_mem demo_machine) (mc_reg demo_machine RSI) 0 (replicate 15 0) 0"
    unfolding regs by (rule demo_context)
  obtain m0 where m0: "exec demo_env thread_switch demo_machine = Inr (resumed m0 0 (replicate 15 0) 0)"
    "mc_reg m0 RSP = 0x3000" "mc_mem m0 0x5000 = 0x1f80"
    using exec_thread_switch [OF demo_safe ctx] regs by auto
  define m1 where "m1 = resumed m0 0 (replicate 15 0) 0"
  define m2 where "m2 = m1\<lparr>mc_reg := (mc_reg m1)(RSI := mc_mem m1 0x5000, RDI := 0x6000)\<rparr>"
  have m2: "mc_reg m2 RSP = 0x3088" "mc_reg m2 RSI = 0x1f80" "mc_reg m2 RDI = 0x6000" "mc_mem m2 = mc_mem m1"
    "mc_mem m1 0x5000 = 0x1f80"
    using m0 by (simp_all add: m2_def m1_def resumed_regs slot_def)
  then have "switch_safe demo_env m2" using demo_safe2 by (simp add: switch_safe_def)
  from thread_switch_roundtrip [OF demo_safe ctx m0(1) this] obtain m3 where
    "exec demo_env thread_switch m2 = Inr m3" "mc_reg m3 RBX = 7" "mc_reg m3 RSP = 0x2008"
    "mc_rip m3 = 0xabc" "mc_rflags m3 = flags_image 0x202"
    using regs m2 by (auto simp: m1_def [symmetric])
  moreover have "exec demo_env thread_switch demo_machine = Inr m1" using m0(1) by (simp add: m1_def)
  moreover have "flags_image 0x202 = 0x202" by (simp add: flags_image_def)
  ultimately show ?thesis unfolding m2_def by (intro exI [of _ m1] exI [of _ m3] conjI) simp_all
qed

lemma slot_alignment:
  assumes "unat base + 8 * cap < 2 ^ 64" "aligned8 base"
  shows "unat (slot base cap) mod 8 = 0" "even cap \<Longrightarrow> unat (slot base cap) mod 16 = unat base mod 16"
proof -
  have "slot base cap = of_nat (unat base + 8 * cap)" by (simp add: slot_def)
  then have u: "unat (slot base cap) = unat base + 8 * cap"
    using assms(1) by (simp only: unat_of_nat mod_less) simp
  have "int (unat base) mod int 8 = 0" using assms(2) by (simp add: aligned8_def)
  then have "unat base mod 8 = 0" by (simp only: of_nat_mod [symmetric] of_nat_eq_0_iff)
  then show "unat (slot base cap) mod 8 = 0" unfolding u by simp
  show "unat (slot base cap) mod 16 = unat base mod 16" if "even cap"
  proof -
    obtain k where "cap = 2 * k" using \<open>even cap\<close> by (elim evenE)
    then show ?thesis unfolding u by simp
  qed
qed

text \<open>
  C32. A freshly created kernel thread starts correctly, both as the first thread and when it is
  switched to: execution begins at the kickoff function with the thread as its argument,
  interrupts disabled, all other registers zero, an empty kernel stack, and the scheduler
  lock released. The stack pointer is the end of the stack, a multiple of 8; modulo 16 it is
  what the address of the stack is, since a stack has an even number of cells. (User threads are
  entered with 8 modulo 16, as a compiled function expects.)
\<close>

theorem new_thread_starts:
  assumes "unat (STACK_SIZE div 8) \<le> cap" and "unat base + 8 * cap < 2 ^ 64" and "aligned8 base"
    and "new_kernel_thread cap base self kickoff entry counter = Inr (t, counter')"
    and "frame_at (mc_mem m) base (v_cells (th_kernel_stack t))"
    and "\<forall>a \<in> frame_addrs (th_stack_ptr t) 17. ce_mem (en_callee e) a = None"
    and "switch_safe e (m\<lparr>mc_reg := (mc_reg m)(RDI := cur, RSI := th_stack_ptr t, RDX := slot base cap)\<rparr>)"
  shows "th_id t = counter \<and> counter' = counter + 1
    \<and> (\<exists>m1 m2. start e t m = Inr m1 \<and> switch e cur t m = Inr m2 \<and> mc_rsp0 m2 = slot base cap
         \<and> (\<forall>m' \<in> {m1, m2}. mc_rip m' = kickoff \<and> mc_reg m' RDI = self \<and> mc_rflags m' = 2
              \<and> mc_reg m' RSP = slot base cap \<and> unat (mc_reg m' RSP) mod 8 = 0
              \<and> (even cap \<longrightarrow> unat (mc_reg m' RSP) mod 16 = unat base mod 16) \<and> \<not> mc_sched_locked m'
              \<and> (\<forall>r. r \<noteq> RSP \<longrightarrow> r \<noteq> RDI \<longrightarrow> mc_reg m' r = 0)))"
proof -
  have cap: "17 \<le> cap" using assms(1) by (simp add: STACK_SIZE_def)
  have t: "v_cells (th_kernel_stack t) = replicate (cap - 17) 0 @ fresh_context kickoff self"
    "v_base (th_kernel_stack t) = base" "th_stack_ptr t = slot base (cap - 17)"
    "th_id t = counter" "counter' = counter + 1"
    using new_kernel_thread_eq [OF cap assms(2), of self kickoff entry counter] assms(4) by auto
  let ?ms = "m\<lparr>mc_reg := (mc_reg m)(RDI := th_stack_ptr t)\<rparr>"
  let ?mw = "m\<lparr>mc_reg := (mc_reg m)(RDI := cur, RSI := th_stack_ptr t, RDX := slot base cap)\<rparr>"
  have ctx: "context_at (mc_mem m) (th_stack_ptr t) 2 (map ((\<lambda>_. 0)(RDI := self)) ctx_regs) kickoff"
    using fresh_context_at [OF cap] assms(5) t by simp
  have top: "get_top_of_stack (th_kernel_stack t) = Inr (slot base cap)"
  proof -
    have "length (v_cells (th_kernel_stack t)) = cap" using t(1) cap by (simp add: fresh_context_def)
    then show ?thesis using top_of_fresh [of "th_kernel_stack t"] t(2) cap by (metis less_le_trans zero_less_numeral)
  qed
  have sl: "slot (th_stack_ptr t) 17 = slot base cap" using t(3) cap by (simp add: slot_slot)
  obtain m1 where m1: "start e t m = Inr (resumed m1 2 (map ((\<lambda>_. 0)(RDI := self)) ctx_regs) kickoff)"
    "mc_reg m1 RSP = th_stack_ptr t" "\<not> mc_sched_locked m1"
    using exec_thread_start [of ?ms 2 _ kickoff e] ctx assms(3,6) t(3) by (auto simp: start_def)
  obtain m2 where m2: "switch e cur t m = Inr (resumed m2 2 (map ((\<lambda>_. 0)(RDI := self)) ctx_regs) kickoff)"
    "mc_reg m2 RSP = th_stack_ptr t" "mc_rsp0 m2 = slot base cap" "\<not> mc_sched_locked m2"
    using exec_thread_switch [OF assms(7), of 2 _ kickoff] ctx top by (auto simp: switch_def)
  show ?thesis using m1 m2 t(4,5) sl slot_alignment [OF assms(2,3)] by (simp add: resumed_regs)
qed

definition fresh_machine :: machine where
  "fresh_machine = demo_machine\<lparr>mc_mem := (\<lambda>_. 0)(0x87ff8 := 0x777, 0x87f88 := 0x4000, 0x87f78 := 2)\<rparr>"

text \<open>
  A thread with a stack at \<open>0x8000\<close>: its prepared frame occupies the last 17 of 65536 cells.
\<close>

lemma fresh_frame:
  assumes "frame_at mem (slot 0x8000 (65536 - 17)) (fresh_context 0x777 0x4000)"
    and "\<And>k. k < 65536 - 17 \<Longrightarrow> mem (slot 0x8000 k) = 0"
  shows "frame_at mem 0x8000 (replicate (65536 - 17) 0 @ fresh_context 0x777 0x4000)"
  unfolding frame_at_append using assms by (simp add: frame_at_def)

lemma slot_0x8000: "k < 65536 \<Longrightarrow> unat (slot 0x8000 k) = 0x8000 + 8 * k"
proof -
  assume k: "k < 65536"
  have "slot 0x8000 k = of_nat (0x8000 + 8 * k)" by (simp add: slot_def)
  then have "unat (slot 0x8000 k) = (0x8000 + 8 * k) mod 2 ^ 64" by (simp only: unat_of_nat) simp
  then show ?thesis using k by simp
qed

lemma fresh_machine_frame:
  "frame_at (mc_mem fresh_machine) 0x8000 (replicate (65536 - 17) 0 @ fresh_context 0x777 0x4000)"
proof (rule fresh_frame)
  show "frame_at (mc_mem fresh_machine) (slot 0x8000 (65536 - 17)) (fresh_context 0x777 0x4000)"
    by (simp add: fresh_machine_def fresh_context_def slot_def)
  show "mc_mem fresh_machine (slot 0x8000 k) = 0" if "k < 65536 - 17" for k
  proof -
    have "slot 0x8000 k \<notin> {0x87ff8, 0x87f88, 0x87f78}"
      using slot_0x8000 [of k] that by (auto simp: word_unat_eq_iff)
    then show ?thesis by (simp add: fresh_machine_def)
  qed
qed

theorem new_thread_starts_witness:
  "\<exists>t m1. new_kernel_thread 65536 0x8000 0x4000 0x777 0x888 5 = Inr (t, 6)
     \<and> start demo_env t fresh_machine = Inr m1 \<and> mc_rip m1 = 0x777 \<and> mc_reg m1 RDI = 0x4000"
proof -
  obtain t where t: "new_kernel_thread 65536 0x8000 0x4000 0x777 0x888 5 = Inr (t, 5 + 1)"
    "v_cells (th_kernel_stack t) = replicate (65536 - 17) 0 @ fresh_context 0x777 0x4000"
    "th_stack_ptr t = 0x87f78"
    using new_kernel_thread_eq [of 65536 "0x8000" "0x4000" "0x777" "0x888" 5] by (simp add: slot_def)
  have "frames_apart (en_callee demo_env) 0x2000 0x5000 0x87f78" by code_simp
  then have safe: "switch_safe demo_env (fresh_machine\<lparr>mc_reg := (mc_reg fresh_machine)
      (RDI := 0x5000, RSI := th_stack_ptr t, RDX := slot 0x8000 65536)\<rparr>)"
    by (simp add: switch_safe_def fresh_machine_def demo_machine_def t(3))
  have "unat (STACK_SIZE div 8) \<le> 65536" "aligned8 0x8000"
    by (simp_all add: STACK_SIZE_def aligned8_def)
  then show ?thesis
    using new_thread_starts [OF _ _ _ t(1) _ _ safe] fresh_machine_frame t
    by (auto simp: demo_env_def)
qed

subsection \<open>User mode\<close>

lemma length_6: "length ys = 6 \<Longrightarrow> \<exists>a b c d e f. ys = [a, b, c, d, e, f]"
  by (auto simp: numeral_eq_Suc length_Suc_conv)

lemma user_rsp:
  fixes tos :: usize
  assumes "16 \<le> unat tos"
  shows "\<exists>rsp. usub (tos AND NOT 0xf) 8 = Inr rsp \<and> unat rsp mod 16 = 8 \<and> rsp < tos
    \<and> unat tos \<le> unat rsp + 23"
proof -
  have m: "(0xf :: usize) = mask 4" by (simp add: mask_eq_exp_minus_1)
  have u: "unat (tos AND NOT 0xf) = unat tos div 16 * 16"
    unfolding m by (simp add: unat_and_not_mask)
  have d: "1 \<le> unat tos div 16" using assms by simp
  have le: "8 \<le> tos AND NOT 0xf" using u d by (simp add: word_le_nat_alt)
  have r: "unat ((tos AND NOT 0xf) - 8) = unat tos div 16 * 16 - 8"
    using unat_sub_le [OF le] u by simp
  obtain q where q: "unat tos div 16 = Suc q" using d by (cases "unat tos div 16") auto
  have "unat tos div 16 * 16 - 8 = q * 16 + 8" using q by simp
  then have m: "unat ((tos AND NOT 0xf) - 8) mod 16 = 8" using r by simp
  have "unat tos div 16 * 16 \<le> unat tos" "unat tos < unat tos div 16 * 16 + 16" by simp_all
  then show ?thesis
    using le r m q by (intro exI [of _ "(tos AND NOT 0xf) - 8"]) (auto simp: usub_def word_less_nat_alt)
qed

lemma switch_to_usermode_cells:
  assumes n: "133 \<le> length (v_cells (th_kernel_stack t))"
    and tos: "get_top_of_stack (th_user_stack t) = Inr tos" and rsp: "usub (tos AND NOT 0xf) 8 = Inr rsp"
  shows "\<exists>xs zs. switch_to_usermode ku self t =
      Inr (t\<lparr>th_kernel_stack := (th_kernel_stack t)
             \<lparr>v_cells := xs @ [self, ku, 0x1b, 0x202, rsp, 0x23] @ zs\<rparr>\<rparr>,
           slot (v_base (th_kernel_stack t)) (length xs))
    \<and> length xs + 133 = length (v_cells (th_kernel_stack t)) \<and> length zs = 127"
proof -
  define s where "s = v_cells (th_kernel_stack t)"
  define xs ys zs where "xs = take (length s - 133) s" "ys = take 6 (drop (length s - 133) s)"
    "zs = drop 6 (drop (length s - 133) s)"
  have s: "s = xs @ ys @ zs" "length ys = 6" "length zs = 127" "length s = length xs + 133"
    using n unfolding xs_ys_zs_def s_def by (simp_all only: append_take_drop_id) simp_all
  obtain a b c d e f where ys: "ys = [a, b, c, d, e, f]" using length_6 [OF s(2)] by blast
  have "switch_to_usermode ku self t =
      Inr (t\<lparr>th_kernel_stack := (th_kernel_stack t)
             \<lparr>v_cells := xs @ [self, ku, 0x1b, 0x202, rsp, 0x23] @ zs\<rparr>\<rparr>,
           slot (v_base (th_kernel_stack t)) (length xs))"
    using tos rsp s(3,4)
    by (simp add: switch_to_usermode_def Let_def s_def [symmetric] s(1) ys nsub_def set_index_def
        list_update_append elem_addr_def)
  then show ?thesis using s by (auto simp: s_def)
qed

text \<open>
  C33. Entering user mode: the frame written on the kernel stack takes \<open>thread_user_start\<close> to
  the user kickoff function in ring 3 (code and stack selectors with RPL 3) with the thread
  as argument and interrupts enabled, on a stack pointer at the top of the user stack that
  is aligned as the calling convention demands at a function entry.
\<close>

theorem usermode_entry:
  assumes "133 \<le> length (v_cells (th_kernel_stack t))" and "aligned8 (v_base (th_kernel_stack t))"
    and "get_top_of_stack (th_user_stack t) = Inr tos" and "16 \<le> unat tos"
  shows "\<exists>t' p. switch_to_usermode ku self t = Inr (t', p) \<and>
    (\<forall>m. mc_reg m RDI = p \<longrightarrow>
       frame_at (mc_mem m) (v_base (th_kernel_stack t')) (v_cells (th_kernel_stack t')) \<longrightarrow>
       (\<exists>m'. exec e thread_user_start m = Inr m' \<and> mc_rip m' = ku \<and> mc_reg m' RDI = self
          \<and> mc_cs m' = 0x1b \<and> mc_ss m' = 0x23 \<and> mc_rflags m' = 0x202
          \<and> unat (mc_reg m' RSP) mod 16 = 8 \<and> mc_reg m' RSP < tos \<and> unat tos \<le> unat (mc_reg m' RSP) + 23))"
proof -
  obtain rsp where rsp: "usub (tos AND NOT 0xf) 8 = Inr rsp" "unat rsp mod 16 = 8" "rsp < tos"
    "unat tos \<le> unat rsp + 23" using user_rsp [OF assms(4)] by blast
  let ?b = "v_base (th_kernel_stack t)"
  obtain xs zs where st: "switch_to_usermode ku self t =
      Inr (t\<lparr>th_kernel_stack := (th_kernel_stack t)
             \<lparr>v_cells := xs @ [self, ku, 0x1b, 0x202, rsp, 0x23] @ zs\<rparr>\<rparr>, slot ?b (length xs))"
    using switch_to_usermode_cells [OF assms(1,3) rsp(1)] by blast
  have run: "\<exists>m'. exec e thread_user_start m = Inr m' \<and> mc_rip m' = ku \<and> mc_reg m' RDI = self
      \<and> mc_cs m' = 0x1b \<and> mc_ss m' = 0x23 \<and> mc_rflags m' = 0x202 \<and> mc_reg m' RSP = rsp"
    if "mc_reg m RDI = slot ?b (length xs)"
      "frame_at (mc_mem m) ?b (xs @ [self, ku, 0x1b, 0x202, rsp, 0x23] @ zs)" for m
  proof -
    have "frame_at (mc_mem m) (mc_reg m RDI) [self, ku, 0x1b, 0x202, rsp, 0x23]" "aligned8 (mc_reg m RDI)"
      using that assms(2) unfolding frame_at_append by simp_all
    moreover have "aligned8 (16 + mc_reg m RDI)" "aligned8 (24 + mc_reg m RDI)"
      "aligned8 (32 + mc_reg m RDI)" "aligned8 (40 + mc_reg m RDI)"
      using aligned8_add_mult [of "mc_reg m RDI" 2] aligned8_add_mult [of "mc_reg m RDI" 3]
        aligned8_add_mult [of "mc_reg m RDI" 4] aligned8_add_mult [of "mc_reg m RDI" 5] calculation(2)
      by (simp_all add: add.commute)
    ultimately show ?thesis
      by (simp add: thread_user_start_def pop_val_def Let_def add.assoc [symmetric] del: slot_add8)
  qed
  show ?thesis using st run rsp by fastforce
qed

definition user_demo :: thread where
  "user_demo = \<lparr>th_id = 3, th_is_kernel_thread = False,
     th_kernel_stack = \<lparr>v_base = 0x8000, v_cells = replicate 200 0\<rparr>,
     th_user_stack = \<lparr>v_base = 0x4008, v_cells = replicate 16 0\<rparr>, th_stack_ptr = 0, th_entry = 0x888\<rparr>"

text \<open>A memory that holds the cells of one vector.\<close>

definition vec_mem :: "vec64 \<Rightarrow> u64 \<Rightarrow> u64" where
  "vec_mem v a = v_cells v ! (unat (a - v_base v) div 8)"

lemma frame_at_vec_mem:
  assumes "length (v_cells v) < 2 ^ 60"
  shows "frame_at (vec_mem v) (v_base v) (v_cells v)"
proof -
  have "unat (slot (v_base v) k - v_base v) = 8 * k" if "k < length (v_cells v)" for k
  proof -
    have "slot (v_base v) k - v_base v = of_nat (8 * k)" by (simp add: slot_def)
    then have "unat (slot (v_base v) k - v_base v) = (8 * k) mod 2 ^ 64" by (simp only: unat_of_nat) simp
    then show ?thesis using that assms by simp
  qed
  then show ?thesis by (simp add: frame_at_def vec_mem_def)
qed

theorem usermode_entry_witness:
  "\<exists>t' p m'. switch_to_usermode 0x777 0x4000 user_demo = Inr (t', p)
     \<and> exec demo_env thread_user_start (demo_machine\<lparr>mc_reg := (mc_reg demo_machine)(RDI := p),
          mc_mem := vec_mem (th_kernel_stack t')\<rparr>) = Inr m'
     \<and> mc_rip m' = 0x777 \<and> mc_cs m' = 0x1b \<and> unat (mc_reg m' RSP) mod 16 = 8"
proof -
  have tos: "get_top_of_stack (th_user_stack user_demo) = Inr 0x4088" by code_simp
  have pre: "133 \<le> length (v_cells (th_kernel_stack user_demo))"
    "aligned8 (v_base (th_kernel_stack user_demo))" "16 \<le> unat (0x4088 :: usize)"
    by (simp_all add: user_demo_def aligned8_def)
  note use = usermode_entry [OF pre(1,2) tos pre(3), of "0x777" "0x4000" demo_env]
  then obtain t' p where t': "switch_to_usermode 0x777 0x4000 user_demo = Inr (t', p)"
    and run: "\<And>m. mc_reg m RDI = p \<Longrightarrow>
       frame_at (mc_mem m) (v_base (th_kernel_stack t')) (v_cells (th_kernel_stack t')) \<Longrightarrow>
       \<exists>m'. exec demo_env thread_user_start m = Inr m' \<and> mc_rip m' = 0x777 \<and> mc_cs m' = 0x1b
         \<and> unat (mc_reg m' RSP) mod 16 = 8" by blast
  have "length (v_cells (th_kernel_stack t')) = 200"
    using switch_to_usermode_cells [OF pre(1) tos, of "0x4078" "0x777" "0x4000"] t'
    by (auto simp: usub_def user_demo_def)
  then have "frame_at (vec_mem (th_kernel_stack t')) (v_base (th_kernel_stack t')) (v_cells (th_kernel_stack t'))"
    by (intro frame_at_vec_mem) simp
  then show ?thesis
    using t' run [of "demo_machine\<lparr>mc_reg := (mc_reg demo_machine)(RDI := p),
      mc_mem := vec_mem (th_kernel_stack t')\<rparr>"] by auto
qed

end
