(* ===== verification/Coroutine.thy ===== *)
theory Coroutine
  imports Thread
begin

text \<open>
  \<^verbatim>\<open>kernel/src/coroutine/coroutine.rs\<close>: coroutines, chained into a ring by \<open>set_next\<close> and
  switched by assembly routines that save and restore the same context as those of the
  threads. Boxed coroutines live in a store from addresses to values, because \<open>switch\<close>
  follows the raw \<open>next\<close> pointer; address 0 is the null pointer.
\<close>

subsection \<open>Coroutines\<close>

record coroutine =
  co_id :: usize
  co_stack :: vec64
  co_stack_ptr :: usize
  co_entry :: u64
  co_next :: usize

type_synonym co_store = "usize \<Rightarrow> coroutine option"

definition prepare_stack :: "u64 \<Rightarrow> u64 \<Rightarrow> coroutine \<Rightarrow> coroutine res" where
  "prepare_stack kickoff self c =
     and_then (put_from_top
       [(1, kickoff),
        (2, 0), (3, 0), (4, 0), (5, 0), (6, 0), (7, 0), (8, 0), (9, 0),
        (10, 0), (11, 0), (12, 0), (13, 0), (14, 0),
        (15, self), (16, 0), (17, 0x2)] (v_cells (co_stack c))) (\<lambda>s.
     and_then (usub (co_stack_ptr c) (8 * 16)) (\<lambda>p.
       Inr (c\<lparr>co_stack := (co_stack c)\<lparr>v_cells := s\<rparr>, co_stack_ptr := p\<rparr>)))"

definition coroutine_new ::
  "nat \<Rightarrow> usize \<Rightarrow> u64 \<Rightarrow> u64 \<Rightarrow> u64 \<Rightarrow> usize \<Rightarrow> (coroutine \<times> usize) res" where
  "coroutine_new cap base self kickoff entry counter =
     (let stack = \<lparr>v_base = base, v_cells = replicate cap 0\<rparr> in
      and_then (nsub cap 1) (\<lambda>i.
      and_then (elem_addr stack i) (\<lambda>sp.
        case next_id counter of (cid, counter') \<Rightarrow>
          and_then (prepare_stack kickoff self
            \<lparr>co_id = cid, co_stack = stack, co_stack_ptr = sp, co_entry = entry, co_next = 0\<rparr>)
            (\<lambda>c. Inr (c, counter')))))"

definition set_next :: "usize \<Rightarrow> coroutine \<Rightarrow> coroutine" where
  "set_next n c = c\<lparr>co_next := n\<rparr>"

definition coroutine_id :: "coroutine \<Rightarrow> usize" where
  "coroutine_id c = co_id c"

definition coroutine_start :: "instr list" where
  "coroutine_start =
     [MOV RSP RDI,
      POPFQ,
      POP RBP, POP RDI, POP RSI, POP RDX, POP RCX, POP RBX, POP RAX,
      POP R15, POP R14, POP R13, POP R12, POP R11, POP R10, POP R9, POP R8,
      RET]"

definition coroutine_switch :: "instr list" where
  "coroutine_switch =
     [PUSH R8, PUSH R9, PUSH R10, PUSH R11, PUSH R12, PUSH R13, PUSH R14, PUSH R15,
      PUSH RAX, PUSH RBX, PUSH RCX, PUSH RDX, PUSH RSI, PUSH RDI, PUSH RBP,
      PUSHFQ,
      STORE RDI RSP,
      MOV RSP RSI,
      POPFQ,
      POP RBP, POP RDI, POP RSI, POP RDX, POP RCX, POP RBX, POP RAX,
      POP R15, POP R14, POP R13, POP R12, POP R11, POP R10, POP R9, POP R8,
      RET]"

definition co_start :: "env \<Rightarrow> coroutine \<Rightarrow> machine \<Rightarrow> machine res" where
  "co_start e c m = exec e coroutine_start (m\<lparr>mc_reg := (mc_reg m)(RDI := co_stack_ptr c)\<rparr>)"

text \<open>\<open>self_slot\<close> is the address of \<open>self.stack_ptr\<close>; a dangling or null \<open>next\<close> is a memory fault.\<close>

definition co_switch :: "env \<Rightarrow> co_store \<Rightarrow> u64 \<Rightarrow> coroutine \<Rightarrow> machine \<Rightarrow> machine res" where
  "co_switch e st self_slot self m =
     (case st (co_next self) of
        None \<Rightarrow> Inl MemoryFault
      | Some n \<Rightarrow> exec e coroutine_switch
          (m\<lparr>mc_reg := (mc_reg m)(RDI := self_slot, RSI := co_stack_ptr n)\<rparr>))"

text \<open>\<open>kickoff\<close> enables interrupts and calls the entry function; a return from it is a panic.\<close>

definition kickoff :: "coroutine \<Rightarrow> kick_action list \<times> unit res" where
  "kickoff c = ([EnableInt, CallEntry (co_entry c)],
     Inl (PanicMsg (''Coroutine '' @ dec_digits (unat (co_id c)) @ '' finished!'')))"

subsection \<open>Facts\<close>

lemma coroutine_switch_split:
  "coroutine_switch = (map PUSH (rev ctx_regs) @ [PUSHFQ]) @ [STORE RDI RSP, MOV RSP RSI] @
     (POPFQ # map POP ctx_regs @ [RET])"
  by (simp add: coroutine_switch_def ctx_regs_def)

definition co_switch_safe :: "machine \<Rightarrow> bool" where
  "co_switch_safe m \<longleftrightarrow>
     aligned8 (mc_reg m RSP) \<and> aligned8 (mc_reg m RDI) \<and> aligned8 (mc_reg m RSI)
     \<and> frame_addrs (mc_reg m RSI) 17 \<inter> insert (mc_reg m RDI) (frame_addrs (mc_reg m RSP - 128) 16) = {}
     \<and> mc_reg m RDI \<notin> frame_addrs (mc_reg m RSP - 128) 17"

lemma exec_coroutine_switch:
  assumes safe: "co_switch_safe m" and ctx: "context_at (mc_mem m) (mc_reg m RSI) fl vs ra"
  shows "\<exists>m0. exec e coroutine_switch m = Inr (resumed m0 fl vs ra) \<and> mc_reg m0 RSP = mc_reg m RSI
    \<and> mc_mem m0 (mc_reg m RDI) = mc_reg m RSP - 128
    \<and> context_at (mc_mem m0) (mc_reg m RSP - 128) (flags_image (mc_rflags m))
         (map (mc_reg m) ctx_regs) (mc_mem m (mc_reg m RSP))"
proof -
  let ?sp = "mc_reg m RSP" and ?slot = "mc_reg m RDI" and ?nxt = "mc_reg m RSI"
  have al: "aligned8 ?sp" "aligned8 ?slot" "aligned8 ?nxt"
    and dj: "frame_addrs ?nxt 17 \<inter> insert ?slot (frame_addrs (?sp - 128) 16) = {}"
      "?slot \<notin> frame_addrs (?sp - 128) 17"
    using safe by (auto simp: co_switch_safe_def)
  obtain mem1 where m1: "exec e (map PUSH (rev ctx_regs) @ [PUSHFQ]) m
      = Inr (m\<lparr>mc_reg := (mc_reg m)(RSP := ?sp - 128), mc_mem := mem1\<rparr>)"
    "context_at mem1 (?sp - 128) (flags_image (mc_rflags m)) (map (mc_reg m) ctx_regs) (mc_mem m ?sp)"
    "\<forall>a. a \<notin> frame_addrs (?sp - 128) 16 \<longrightarrow> mem1 a = mc_mem m a"
    using exec_save [OF al(1)] by blast
  define m0 where "m0 = m\<lparr>mc_mem := mem1(?slot := ?sp - 128), mc_reg := (mc_reg m)(RSP := ?nxt)\<rparr>"
  have mid: "exec e [STORE RDI RSP, MOV RSP RSI]
      (m\<lparr>mc_reg := (mc_reg m)(RSP := ?sp - 128), mc_mem := mem1\<rparr>) = Inr m0"
    using al by (simp add: m0_def)
  have nxt: "context_at (mc_mem m0) ?nxt fl vs ra"
    using dj(1) m1(3) by (intro context_at_cong [OF ctx]) (auto simp: m0_def)
  have own: "context_at (mc_mem m0) (?sp - 128) (flags_image (mc_rflags m)) (map (mc_reg m) ctx_regs) (mc_mem m ?sp)"
    using dj(2) by (intro context_at_cong [OF m1(2)]) (auto simp: m0_def)
  have "exec e coroutine_switch m = Inr (resumed m0 fl vs ra)"
    unfolding coroutine_switch_split
    using m1(1) mid exec_restore [of m0 fl vs ra e] al(3) nxt
    by (simp only: exec_append and_then_simps) (simp add: m0_def)
  then show ?thesis using own by (intro exI [of _ m0]) (simp add: m0_def)
qed

subsection \<open>Properties\<close>

text \<open>
  A coroutine that has switched away resumes exactly where it was: registers, flags, stack
  pointer and return address are restored by the switch back, whatever the other coroutines
  did in between, as long as they left its saved frame alone.
\<close>

theorem coroutine_switch_roundtrip:
  assumes "co_switch_safe m" and "context_at (mc_mem m) (mc_reg m RSI) fl vs ra"
    and "exec e coroutine_switch m = Inr m1"
    and "co_switch_safe m2" and "mc_reg m2 RSI = mc_mem m1 (mc_reg m RDI)"
    and "\<forall>a \<in> frame_addrs (mc_reg m RSP - 128) 17. mc_mem m2 a = mc_mem m1 a"
  shows "\<exists>m3. exec e' coroutine_switch m2 = Inr m3
    \<and> (\<forall>r. r \<noteq> RSP \<longrightarrow> mc_reg m3 r = mc_reg m r)
    \<and> mc_reg m3 RSP = mc_reg m RSP + 8 \<and> mc_rip m3 = mc_mem m (mc_reg m RSP)
    \<and> mc_rflags m3 = flags_image (mc_rflags m)"
proof -
  let ?sp = "mc_reg m RSP"
  obtain m0 where m0: "m1 = resumed m0 fl vs ra" "mc_mem m0 (mc_reg m RDI) = ?sp - 128"
    "context_at (mc_mem m0) (?sp - 128) (flags_image (mc_rflags m)) (map (mc_reg m) ctx_regs) (mc_mem m ?sp)"
    using exec_coroutine_switch [OF assms(1,2), of e] assms(3) by auto
  have si: "mc_reg m2 RSI = ?sp - 128" using assms(5) m0(1,2) by (simp add: resumed_regs)
  have "context_at (mc_mem m2) (mc_reg m2 RSI) (flags_image (mc_rflags m)) (map (mc_reg m) ctx_regs) (mc_mem m ?sp)"
    unfolding si using assms(6) m0(1) by (intro context_at_cong [OF m0(3)]) (simp add: resumed_regs)
  from exec_coroutine_switch [OF assms(4) this, of e'] obtain m4 where
    "exec e' coroutine_switch m2 = Inr (resumed m4 (flags_image (mc_rflags m)) (map (mc_reg m) ctx_regs) (mc_mem m ?sp))"
    "mc_reg m4 RSP = ?sp - 128"
    using si by auto
  then show ?thesis by (simp add: resumed_regs slot_def)
qed


lemma demo_co_safe: "co_switch_safe demo_machine"
proof -
  have "frame_addrs 0x3000 17 \<inter> insert 0x5000 (frame_addrs (0x2000 - 128) 16) = {}"
    "(0x5000 :: u64) \<notin> frame_addrs (0x2000 - 128) 17" by code_simp+
  then show ?thesis by (simp add: co_switch_safe_def demo_machine_def aligned8_def)
qed

lemma demo_co_back:
  assumes "mc_reg m RSP = 0x3088" "mc_reg m RDI = 0x6000" "mc_reg m RSI = 0x1f80"
  shows "co_switch_safe m"
proof -
  have "frame_addrs 0x1f80 17 \<inter> insert 0x6000 (frame_addrs (0x3088 - 128) 16) = {}"
    "(0x6000 :: u64) \<notin> frame_addrs (0x3088 - 128) 17" by code_simp+
  then show ?thesis using assms by (simp add: co_switch_safe_def aligned8_def)
qed

theorem coroutine_switch_roundtrip_witness:
  "\<exists>m1 m3. exec demo_env coroutine_switch demo_machine = Inr m1
    \<and> exec demo_env coroutine_switch (m1\<lparr>mc_reg := (mc_reg m1)(RSI := mc_mem m1 0x5000, RDI := 0x6000)\<rparr>) = Inr m3
    \<and> mc_reg m3 RBX = 7 \<and> mc_reg m3 RSP = 0x2008 \<and> mc_rip m3 = 0xabc"
proof -
  have regs: "mc_reg demo_machine RSI = 0x3000" "mc_reg demo_machine RDI = 0x5000"
    "mc_reg demo_machine RSP = 0x2000" "mc_reg demo_machine RBX = 7"
    "mc_mem demo_machine 0x2000 = 0xabc"
    by (simp_all add: demo_machine_def)
  have ctx: "context_at (mc_mem demo_machine) (mc_reg demo_machine RSI) 0 (replicate 15 0) 0"
    unfolding regs by (rule demo_context)
  obtain m0 where m0: "exec demo_env coroutine_switch demo_machine = Inr (resumed m0 0 (replicate 15 0) 0)"
    "mc_reg m0 RSP = 0x3000" "mc_mem m0 0x5000 = 0x1f80"
    using exec_coroutine_switch [OF demo_co_safe ctx, of demo_env] regs by auto
  define m1 where "m1 = resumed m0 0 (replicate 15 0) 0"
  define m2 where "m2 = m1\<lparr>mc_reg := (mc_reg m1)(RSI := mc_mem m1 0x5000, RDI := 0x6000)\<rparr>"
  have m2: "mc_reg m2 RSP = 0x3088" "mc_reg m2 RSI = 0x1f80" "mc_reg m2 RDI = 0x6000" "mc_mem m2 = mc_mem m1"
    "mc_mem m1 0x5000 = 0x1f80"
    using m0 by (simp_all add: m2_def m1_def resumed_regs slot_def)
  have "co_switch_safe m2" using m2 by (intro demo_co_back)
  from coroutine_switch_roundtrip [OF demo_co_safe ctx m0(1) this, of demo_env] obtain m3 where
    "exec demo_env coroutine_switch m2 = Inr m3" "mc_reg m3 RBX = 7" "mc_reg m3 RSP = 0x2008"
    "mc_rip m3 = 0xabc"
    using regs m2 by (auto simp: m1_def [symmetric])
  moreover have "exec demo_env coroutine_switch demo_machine = Inr m1" using m0(1) by (simp add: m1_def)
  ultimately show ?thesis unfolding m2_def by (intro exI [of _ m1] exI [of _ m3] conjI) simp_all
qed

end
