(* ===== verification/Spinlock.thy ===== *)
theory Spinlock
  imports Prelude
begin

text \<open>
  \<^verbatim>\<open>kernel/src/library/spinlock.rs\<close>: the spinlock every shared structure of the kernel is
  wrapped in. The first part is the lock as a value: an atomic flag beside the protected
  data, with one definition per method; the spinning \<open>lock\<close> is a partial function whose
  \<open>None\<close> is "spins forever", which is what a lock taken twice on one CPU does. The second
  part runs any number of threads over one lock as a step relation whose atomic steps are
  the atomic operations of the source.
\<close>

subsection \<open>The lock and its guard\<close>

record 'a spinlock =
  sl_lock :: bool
  sl_data :: 'a

definition spinlock_new :: "'a \<Rightarrow> 'a spinlock" where
  "spinlock_new d = \<lparr>sl_lock = False, sl_data = d\<rparr>"

text \<open>\<open>swap(true)\<close> returns the old flag: the guard is handed out when it was clear.\<close>

definition try_lock :: "'a spinlock \<Rightarrow> bool \<times> 'a spinlock" where
  "try_lock l = (if sl_lock l then (False, l\<lparr>sl_lock := True\<rparr>) else (True, l\<lparr>sl_lock := True\<rparr>))"

partial_function (option) lock :: "'a spinlock \<Rightarrow> 'a spinlock option" where
  "lock l = (case try_lock l of (got, l') \<Rightarrow> if got then Some l' else lock l')"

definition unlock :: "'a spinlock \<Rightarrow> 'a spinlock" where
  "unlock l = l\<lparr>sl_lock := False\<rparr>"

definition is_locked :: "'a spinlock \<Rightarrow> bool" where
  "is_locked l = sl_lock l"

definition force_unlock :: "'a spinlock \<Rightarrow> 'a spinlock" where
  "force_unlock l = unlock l"

definition inner :: "'a spinlock \<Rightarrow> 'a" where
  "inner l = sl_data l"

definition guard_deref :: "'a spinlock \<Rightarrow> 'a" where
  "guard_deref l = sl_data l"

definition guard_deref_mut :: "('a \<Rightarrow> 'a) \<Rightarrow> 'a spinlock \<Rightarrow> 'a spinlock" where
  "guard_deref_mut f l = l\<lparr>sl_data := f (sl_data l)\<rparr>"

definition guard_drop :: "'a spinlock \<Rightarrow> 'a spinlock" where
  "guard_drop l = unlock l"

lemmas spinlock_defs =
  spinlock_new_def try_lock_def unlock_def is_locked_def force_unlock_def inner_def
  guard_deref_def guard_deref_mut_def guard_drop_def

lemma inner_new [simp]: "inner (spinlock_new d) = d" "\<not> is_locked (spinlock_new d)"
  by (simp_all add: spinlock_defs)

lemma lock_free: "\<not> sl_lock l \<Longrightarrow> lock l = Some (l\<lparr>sl_lock := True\<rparr>)"
  by (subst lock.simps) (simp add: try_lock_def)

lemma lock_returns_free:
  assumes "lock l = Some l'"
  shows "\<not> sl_lock l"
proof (rule lock.raw_induct [where P = "\<lambda>l l'. \<not> sl_lock l", OF _ assms])
  fix f :: "'a spinlock \<Rightarrow> 'a spinlock option" and l l'
  assume IH: "\<And>l l'. f l = Some l' \<Longrightarrow> \<not> sl_lock l"
    and eq: "(case try_lock l of (got, l') \<Rightarrow> if got then Some l' else f l') = Some l'"
  show "\<not> sl_lock l"
  proof
    assume "sl_lock l"
    then have "f (l\<lparr>sl_lock := True\<rparr>) = Some l'"
      using eq by (simp add: try_lock_def)
    then show False using IH by fastforce
  qed
qed

lemma unlocked_new: "\<not> is_locked l \<Longrightarrow> l = spinlock_new (inner l)"
  by (cases l) (simp add: spinlock_defs)

lemma lock_eq: "lock l = (if sl_lock l then None else Some (l\<lparr>sl_lock := True\<rparr>))"
  using lock_free [of l] lock_returns_free [of l] by (cases "lock l") auto

text \<open>
  The sequential contract of the lock: \<open>lock\<close> returns exactly when the lock is free,
  then holds it with the data untouched; a second \<open>lock\<close> on a held lock never returns;
  dropping the guard makes the lock available again with the data the holder left.
\<close>

theorem spinlock_contract:
  "((\<exists>l'. lock l = Some l') \<longleftrightarrow> \<not> is_locked l)
   \<and> (lock l = Some l' \<longrightarrow>
        is_locked l' \<and> inner l' = inner l \<and> lock l' = None \<and> \<not> fst (try_lock l'))
   \<and> lock (guard_drop (guard_deref_mut f l)) = Some ((guard_deref_mut f l)\<lparr>sl_lock := True\<rparr>)"
  by (auto simp: lock_eq spinlock_defs split: if_splits)

theorem spinlock_contract_witness:
  "lock (spinlock_new (3::nat)) = Some \<lparr>sl_lock = True, sl_data = 3\<rparr>
   \<and> is_locked \<lparr>sl_lock = True, sl_data = 3::nat\<rparr>
   \<and> lock \<lparr>sl_lock = True, sl_data = 3::nat\<rparr> = None"
proof -
  have h: "lock (spinlock_new (3::nat)) = Some \<lparr>sl_lock = True, sl_data = 3\<rparr>"
    by (simp add: lock_eq spinlock_new_def)
  show ?thesis using h spinlock_contract [of "spinlock_new (3::nat)" "\<lparr>sl_lock = True, sl_data = 3\<rparr>" id] by simp
qed

subsection \<open>Threads sharing one lock\<close>

text \<open>
  A thread is outside or inside the critical section. Outside, each \<open>try_lock\<close> (alone or
  in the loop of \<open>lock\<close>) is one atomic step; inside, it may change the data through its
  guard and finally drop the guard.
\<close>

datatype lock_pc = Outside | Inside

record 'a lock_sys =
  ls_lock :: "'a spinlock"
  ls_pc :: "nat \<Rightarrow> lock_pc"

definition lock_sys_init :: "'a \<Rightarrow> 'a lock_sys" where
  "lock_sys_init d = \<lparr>ls_lock = spinlock_new d, ls_pc = (\<lambda>_. Outside)\<rparr>"

inductive spin_step :: "'a lock_sys \<Rightarrow> 'a lock_sys \<Rightarrow> bool" where
  attempt: "ls_pc s i = Outside \<Longrightarrow> try_lock (ls_lock s) = (got, l') \<Longrightarrow>
    spin_step s (s\<lparr>ls_lock := l', ls_pc := (ls_pc s)(i := (if got then Inside else Outside))\<rparr>)"
| mutate: "ls_pc s i = Inside \<Longrightarrow>
    spin_step s (s\<lparr>ls_lock := guard_deref_mut f (ls_lock s)\<rparr>)"
| release: "ls_pc s i = Inside \<Longrightarrow>
    spin_step s (s\<lparr>ls_lock := guard_drop (ls_lock s), ls_pc := (ls_pc s)(i := Outside)\<rparr>)"

inductive spin_reachable :: "'a \<Rightarrow> 'a lock_sys \<Rightarrow> bool" for d where
  start: "spin_reachable d (lock_sys_init d)"
| step: "spin_reachable d s \<Longrightarrow> spin_step s t \<Longrightarrow> spin_reachable d t"

text \<open>The flag is set exactly while one thread, and only one, is inside.\<close>

definition spin_inv :: "'a lock_sys \<Rightarrow> bool" where
  "spin_inv s \<longleftrightarrow>
     (is_locked (ls_lock s) \<longleftrightarrow> (\<exists>i. ls_pc s i = Inside)) \<and>
     (\<forall>i j. ls_pc s i = Inside \<longrightarrow> ls_pc s j = Inside \<longrightarrow> i = j)"

lemma spin_inv_init: "spin_inv (lock_sys_init d)"
  by (simp add: spin_inv_def lock_sys_init_def spinlock_defs)

lemma spin_inv_acquire:
  "spin_inv s \<Longrightarrow> \<not> is_locked (ls_lock s) \<Longrightarrow>
     spin_inv (s\<lparr>ls_lock := (ls_lock s)\<lparr>sl_lock := True\<rparr>, ls_pc := (ls_pc s)(i := Inside)\<rparr>)"
  by (auto simp: spin_inv_def is_locked_def)

lemma spin_inv_release:
  "spin_inv s \<Longrightarrow> ls_pc s i = Inside \<Longrightarrow>
     spin_inv (s\<lparr>ls_lock := guard_drop (ls_lock s), ls_pc := (ls_pc s)(i := Outside)\<rparr>)"
  by (auto simp: spin_inv_def spinlock_defs)

lemma spin_inv_fail:
  "spin_inv s \<Longrightarrow> is_locked (ls_lock s) \<Longrightarrow> ls_pc s i = Outside \<Longrightarrow>
     spin_inv (s\<lparr>ls_lock := (ls_lock s)\<lparr>sl_lock := True\<rparr>, ls_pc := (ls_pc s)(i := Outside)\<rparr>)"
  by (simp add: spin_inv_def is_locked_def) (metis lock_pc.distinct(1))

lemma spin_step_inv [inv_intros]: "spin_step s t \<Longrightarrow> spin_inv s \<Longrightarrow> spin_inv t"
proof (induction rule: spin_step.induct)
  case (attempt s i got l')
  then show ?case
    using spin_inv_acquire [of s i] spin_inv_fail [of s i]
    by (auto simp: try_lock_def is_locked_def split: if_splits)
next
  case (mutate s i f)
  then show ?case by (simp add: spin_inv_def spinlock_defs)
next
  case (release s i)
  then show ?case by (intro spin_inv_release)
qed

lemma spin_reachable_inv: "spin_reachable d s \<Longrightarrow> spin_inv s"
  by (induction rule: spin_reachable.induct) (auto intro: spin_inv_init spin_step_inv)

text \<open>
  C17. Mutual exclusion: in every state any number of threads can reach through \<open>try_lock\<close>,
  \<open>lock\<close>, guarded updates and guard drops, at most one thread is inside, and the flag is
  set exactly while one is, so \<open>try_lock\<close> fails only when another thread holds the lock.
\<close>

theorem spinlock_mutual_exclusion:
  assumes "spin_reachable d s"
  shows "(ls_pc s i = Inside \<longrightarrow> ls_pc s j = Inside \<longrightarrow> i = j)
    \<and> (fst (try_lock (ls_lock s)) \<longleftrightarrow> (\<forall>i. ls_pc s i = Outside))"
proof -
  have all: "(\<forall>i. ls_pc s i = Outside) \<longleftrightarrow> \<not> (\<exists>i. ls_pc s i = Inside)"
    by (metis lock_pc.distinct(1) lock_pc.exhaust)
  show ?thesis
    using spin_reachable_inv [OF assms] unfolding all
    by (auto simp: spin_inv_def try_lock_def is_locked_def)
qed

definition one_inside :: "nat lock_sys" where
  "one_inside = (lock_sys_init 7)\<lparr>ls_lock := \<lparr>sl_lock = True, sl_data = 7\<rparr>,
     ls_pc := (\<lambda>_. Outside)(2 := Inside)\<rparr>"

lemma one_inside_reachable: "spin_reachable 7 one_inside"
proof -
  have "spin_step (lock_sys_init 7) one_inside"
    using spin_step.attempt [of "lock_sys_init 7" 2 True "\<lparr>sl_lock = True, sl_data = 7\<rparr>"]
    by (simp add: one_inside_def lock_sys_init_def spinlock_defs)
  then show ?thesis by (rule spin_reachable.step [OF spin_reachable.start])
qed

theorem spinlock_mutual_exclusion_witness:
  "ls_pc one_inside 2 = Inside \<and> ls_pc one_inside 3 = Outside
   \<and> \<not> fst (try_lock (ls_lock one_inside))"
  using spinlock_mutual_exclusion [OF one_inside_reachable, of 2 3]
  by (auto simp: one_inside_def)

subsection \<open>Forced unlocking\<close>

text \<open>
  \<open>force_unlock\<close> is unsafe in the source: it may be called by a thread that does not hold
  the lock. \<open>forced_step\<close> adds that step.
\<close>

inductive forced_step :: "'a lock_sys \<Rightarrow> 'a lock_sys \<Rightarrow> bool" where
  normal: "spin_step s t \<Longrightarrow> forced_step s t"
| force: "forced_step s (s\<lparr>ls_lock := force_unlock (ls_lock s)\<rparr>)"

lemma forced_second_holder:
  "\<exists>s. forced_step\<^sup>*\<^sup>* one_inside s \<and> ls_pc s 2 = Inside \<and> ls_pc s 5 = Inside"
proof -
  define u where "u = one_inside\<lparr>ls_lock := force_unlock (ls_lock one_inside)\<rparr>"
  define s where "s = u\<lparr>ls_lock := \<lparr>sl_lock = True, sl_data = 7\<rparr>, ls_pc := (ls_pc u)(5 := Inside)\<rparr>"
  have "forced_step one_inside u" unfolding u_def by (rule forced_step.force)
  moreover have "spin_step u s"
    using spin_step.attempt [of u 5 True "\<lparr>sl_lock = True, sl_data = 7\<rparr>"]
    by (simp add: u_def s_def one_inside_def lock_sys_init_def spinlock_defs)
  ultimately have "forced_step\<^sup>*\<^sup>* one_inside s"
    by (meson forced_step.normal rtranclp.intros)
  then show ?thesis by (intro exI [of _ s]) (simp add: s_def u_def one_inside_def)
qed

end
