(* ===== verification/Once.thy ===== *)
theory Once
  imports Prelude
begin

text \<open>
  \<^verbatim>\<open>kernel/src/library/once.rs\<close>: the one-time initialised cell behind every lazily created
  global of the kernel. The value is a \<open>MaybeUninit\<close>: \<^term>\<open>None\<close> in \<open>on_value\<close> stands for
  memory that was never written, and reading it is undefined behaviour, the result
  \<^term>\<open>Inl UninitRead\<close>. The second part interleaves the atomic steps of several threads
  that call \<open>init\<close> and \<open>get\<close>.
\<close>

subsection \<open>The cell\<close>

record 'a once =
  on_initialized :: bool
  on_value :: "'a option"

definition once_new :: "'a once" where
  "once_new = \<lparr>on_initialized = False, on_value = None\<rparr>"

definition assume_init_ref :: "'a once \<Rightarrow> 'a res" where
  "assume_init_ref c = (case on_value c of Some v \<Rightarrow> Inr v | None \<Rightarrow> Inl UninitRead)"

definition once_get :: "'a once \<Rightarrow> 'a option res" where
  "once_get c =
     (if on_initialized c then and_then (assume_init_ref c) (\<lambda>v. Inr (Some v)) else Inr None)"

text \<open>\<open>init\<close> run without interference; \<open>v\<close> is what the initialiser closure returns.\<close>

definition once_init :: "'a \<Rightarrow> 'a once \<Rightarrow> 'a res \<times> 'a once" where
  "once_init v c =
     (let c' = (if \<not> on_initialized c then c\<lparr>on_initialized := True, on_value := Some v\<rparr> else c)
      in (assume_init_ref c', c'))"

definition once_ok :: "'a once \<Rightarrow> bool" where
  "once_ok c \<longleftrightarrow> (on_initialized c \<longleftrightarrow> on_value c \<noteq> None)"

lemma once_ok_new: "once_ok once_new"
  by (simp add: once_ok_def once_new_def)

lemma once_ok_init [inv_intros]: "once_ok c \<Longrightarrow> once_ok (snd (once_init v c))"
  by (simp add: once_ok_def once_init_def Let_def)

text \<open>
  Called one after the other, \<open>init\<close> stores the value of the first initialiser only:
  the first call returns its own value, every later call and every later \<open>get\<close> return that
  same value whatever initialiser is passed, and a \<open>get\<close> before any \<open>init\<close> answers \<open>None\<close>.
\<close>

theorem once_first_init_wins:
  "once_get once_new = Inr None
   \<and> fst (once_init v once_new) = Inr v
   \<and> fst (once_init w (snd (once_init v once_new))) = Inr v
   \<and> snd (once_init w (snd (once_init v once_new))) = snd (once_init v once_new)
   \<and> once_get (snd (once_init v once_new)) = Inr (Some v)"
  by (simp add: once_get_def once_init_def once_new_def assume_init_ref_def)

subsection \<open>Threads racing on one cell\<close>

text \<open>
  \<open>init\<close> is two separate steps: the atomic swap of the flag, and for the winner the plain
  write of the value. \<open>Finished r\<close> records what the caller read at the end (\<^term>\<open>None\<close>: memory
  that was not written yet).
\<close>

datatype 'a once_pc = Idle | Writing | Reading | Finished "'a option"

record 'a once_sys =
  os_cell :: "'a once"
  os_pc :: "nat \<Rightarrow> 'a once_pc"

definition once_sys_init :: "'a once_sys" where
  "once_sys_init = \<lparr>os_cell = once_new, os_pc = (\<lambda>_. Idle)\<rparr>"

inductive once_step :: "'a once_sys \<Rightarrow> 'a once_sys \<Rightarrow> bool" where
  swap_first: "os_pc s i = Idle \<Longrightarrow> \<not> on_initialized (os_cell s) \<Longrightarrow>
    once_step s (s\<lparr>os_cell := (os_cell s)\<lparr>on_initialized := True\<rparr>, os_pc := (os_pc s)(i := Writing)\<rparr>)"
| swap_later: "os_pc s i = Idle \<Longrightarrow> on_initialized (os_cell s) \<Longrightarrow>
    once_step s (s\<lparr>os_pc := (os_pc s)(i := Reading)\<rparr>)"
| store: "os_pc s i = Writing \<Longrightarrow>
    once_step s (s\<lparr>os_cell := (os_cell s)\<lparr>on_value := Some v\<rparr>, os_pc := (os_pc s)(i := Reading)\<rparr>)"
| load: "os_pc s i = Reading \<Longrightarrow>
    once_step s (s\<lparr>os_pc := (os_pc s)(i := Finished (on_value (os_cell s)))\<rparr>)"
| again: "os_pc s i = Finished r \<Longrightarrow> once_step s (s\<lparr>os_pc := (os_pc s)(i := Idle)\<rparr>)"

inductive once_reachable :: "'a once_sys \<Rightarrow> bool" where
  start: "once_reachable once_sys_init"
| step: "once_reachable s \<Longrightarrow> once_step s t \<Longrightarrow> once_reachable t"

text \<open>
  The flag is set exactly when a thread is about to write or the value is there; only one
  thread is ever about to write, and only while the value is not there.
\<close>

definition once_inv :: "'a once_sys \<Rightarrow> bool" where
  "once_inv s \<longleftrightarrow>
     (on_initialized (os_cell s) \<longleftrightarrow> on_value (os_cell s) \<noteq> None \<or> (\<exists>i. os_pc s i = Writing)) \<and>
     (\<forall>i. os_pc s i = Writing \<longrightarrow> on_value (os_cell s) = None) \<and>
     (\<forall>i j. os_pc s i = Writing \<longrightarrow> os_pc s j = Writing \<longrightarrow> i = j)"

lemma once_inv_init: "once_inv once_sys_init"
  by (simp add: once_inv_def once_sys_init_def once_new_def)

lemma once_inv_pc:
  "once_inv s \<Longrightarrow> os_pc s i \<noteq> Writing \<Longrightarrow> p \<noteq> Writing \<Longrightarrow> once_inv (s\<lparr>os_pc := (os_pc s)(i := p)\<rparr>)"
  by (simp add: once_inv_def) metis

lemma once_inv_write:
  assumes inv: "once_inv s" and w: "os_pc s i = Writing"
  shows "once_inv (s\<lparr>os_cell := (os_cell s)\<lparr>on_value := Some v\<rparr>, os_pc := (os_pc s)(i := Reading)\<rparr>)"
proof -
  from inv w have flag: "on_initialized (os_cell s)" by (auto simp: once_inv_def)
  from inv w have "\<And>j. os_pc s j = Writing \<Longrightarrow> j = i" by (auto simp: once_inv_def)
  with flag show ?thesis by (auto simp: once_inv_def)
qed

lemma once_step_inv [inv_intros]: "once_step s t \<Longrightarrow> once_inv s \<Longrightarrow> once_inv t"
proof (induction rule: once_step.induct)
  case (swap_first s i)
  then show ?case by (auto simp: once_inv_def)
qed (auto intro: once_inv_pc once_inv_write)

lemma once_reachable_inv: "once_reachable s \<Longrightarrow> once_inv s"
  by (induction rule: once_reachable.induct) (auto intro: once_inv_init once_step_inv)

lemma once_value_stable:
  "once_step s t \<Longrightarrow> once_inv s \<Longrightarrow> on_value (os_cell s) = Some v \<Longrightarrow> on_value (os_cell t) = Some v"
  by (induction rule: once_step.induct) (auto simp: once_inv_def)

text \<open>
  However many threads race, the value is written at most once: two threads are never
  both about to write it, and a value that is there is never changed by any step. Once the
  value is there, every read returns it.
\<close>

theorem once_written_once:
  assumes "once_reachable s"
  shows "(os_pc s i = Writing \<longrightarrow> os_pc s j = Writing \<longrightarrow> i = j)
    \<and> (once_step s t \<longrightarrow> on_value (os_cell s) = Some v \<longrightarrow>
         on_value (os_cell t) = Some v \<and> once_get (os_cell t) = Inr (Some v))"
proof -
  have inv: "once_inv s" by (rule once_reachable_inv [OF assms])
  have "once_step s t \<Longrightarrow> on_value (os_cell s) = Some v \<Longrightarrow>
      on_value (os_cell t) = Some v \<and> on_initialized (os_cell t)"
    using once_value_stable [OF _ inv, of t v] once_step_inv [OF _ inv, of t]
    by (auto simp: once_inv_def)
  then show ?thesis using inv by (auto simp: once_inv_def once_get_def assume_init_ref_def)
qed

text \<open>A concrete race: thread 1 wins the swap, thread 2 passes \<open>init\<close> before the value is written.\<close>

definition race_swapped :: "nat once_sys" where
  "race_swapped = \<lparr>os_cell = \<lparr>on_initialized = True, on_value = None\<rparr>,
     os_pc = (\<lambda>_. Idle)(1 := Writing)\<rparr>"

definition race_reading :: "nat once_sys" where
  "race_reading = race_swapped\<lparr>os_pc := (os_pc race_swapped)(2 := Reading)\<rparr>"

definition race_finished :: "nat once_sys" where
  "race_finished = race_reading\<lparr>os_pc := (os_pc race_reading)(2 := Finished None)\<rparr>"

definition race_written :: "nat once_sys" where
  "race_written = race_swapped\<lparr>os_cell := \<lparr>on_initialized = True, on_value = Some 9\<rparr>,
     os_pc := (\<lambda>_. Idle)(1 := Reading)\<rparr>"

lemma race_swapped_reachable: "once_reachable race_swapped"
proof -
  have "once_step once_sys_init race_swapped"
    using once_step.swap_first [of once_sys_init 1]
    by (simp add: race_swapped_def once_sys_init_def once_new_def)
  then show ?thesis by (rule once_reachable.step [OF once_reachable.start])
qed

lemma race_written_reachable: "once_reachable race_written"
proof -
  have "once_step race_swapped race_written"
    using once_step.store [of race_swapped 1 9]
    by (simp add: race_written_def race_swapped_def)
  then show ?thesis by (rule once_reachable.step [OF race_swapped_reachable])
qed

lemma race_written_step:
  "once_step race_written (race_written\<lparr>os_pc := (os_pc race_written)(1 := Finished (Some 9))\<rparr>)"
  using once_step.load [of race_written 1] by (simp add: race_written_def)

theorem once_written_once_witness:
  "once_get (os_cell (race_written\<lparr>os_pc := (os_pc race_written)(1 := Finished (Some 9))\<rparr>)) = Inr (Some 9)"
  using once_written_once [OF race_written_reachable,
      of 1 1 "race_written\<lparr>os_pc := (os_pc race_written)(1 := Finished (Some 9))\<rparr>" 9]
    race_written_step
  by (simp add: race_written_def)

text \<open>
  C38. The two steps of \<open>init\<close> can be split: a state is reachable in which one thread has set
  the flag but not yet written the value, \<open>get\<close> reads uninitialised memory there, and
  another thread's \<open>init\<close> returns a reference to it.
\<close>

theorem once_init_race:
  "\<exists>s::nat once_sys. once_reachable s \<and> once_get (os_cell s) = Inl UninitRead
     \<and> os_pc s 2 = Finished None"
proof -
  have "once_step race_swapped race_reading"
    using once_step.swap_later [of race_swapped 2]
    by (simp add: race_reading_def race_swapped_def)
  moreover have "once_step race_reading race_finished"
    using once_step.load [of race_reading 2]
    by (simp add: race_finished_def race_reading_def race_swapped_def)
  ultimately have "once_reachable race_finished"
    using race_swapped_reachable by (blast intro: once_reachable.step)
  then show ?thesis
    by (intro exI [of _ race_finished])
      (simp add: race_finished_def race_reading_def race_swapped_def once_get_def assume_init_ref_def)
qed

end
