(* ===== verification/Tarfs.thy ===== *)
theory Tarfs
  imports Spinlock Once
begin

text \<open>
  \<^verbatim>\<open>kernel/src/filesystem/tarfs.rs\<close>: the read-only file system over a tar archive. The archive
  is parsed by the crate \<open>tar_no_std\<close>: here it is the list of the entries it returns, each with
  its name (\<^term>\<open>None\<close> when the name is no valid string), its data and its size field. File
  positions are natural numbers, offsets integers of the width of \<open>isize\<close>. Every method takes
  the lock of the handle table: \<^term>\<open>None\<close> is a lock that is never released. Panics and
  \<open>FsError\<close> values are separate.
\<close>

subsection \<open>State\<close>

record entry =
  en_filename :: "string option"
  en_data :: "u8 list"
  en_size :: nat

datatype fs_error = FileNotFound | InvalidHandle | EndOfFile

datatype seek_mode = Start | Current | End

record open_file =
  of_data :: entry
  of_position :: nat

type_synonym handles = "usize \<rightharpoonup> open_file"

record tarfs =
  fs_archive :: "entry list"
  fs_open_handles :: "handles spinlock"
  fs_next_handle :: usize

definition tarfs_new :: "entry list \<Rightarrow> tarfs" where
  "tarfs_new archive =
     \<lparr>fs_archive = archive, fs_open_handles = spinlock_new Map.empty, fs_next_handle = 0\<rparr>"

definition init_filesystem :: "entry list \<Rightarrow> tarfs once \<Rightarrow> tarfs once" where
  "init_filesystem archive c = snd (once_init (tarfs_new archive) c)"

definition filesystem :: "tarfs once \<Rightarrow> tarfs res" where
  "filesystem c = and_then (once_get c) (\<lambda>r.
     case r of Some fs \<Rightarrow> Inr fs | None \<Rightarrow> Inl (ExpectFailed ''Filesystem not initialized''))"

definition next_handle_id :: "tarfs \<Rightarrow> usize \<times> tarfs" where
  "next_handle_id fs = (fs_next_handle fs, fs\<lparr>fs_next_handle := fs_next_handle fs + 1\<rparr>)"

text \<open>Run \<open>f\<close> on the handle table under its lock.\<close>

definition with_handles :: "(handles \<Rightarrow> ('a \<times> handles) res) \<Rightarrow> tarfs \<Rightarrow> ('a \<times> tarfs) res option" where
  "with_handles f fs =
     (case lock (fs_open_handles fs) of
        None \<Rightarrow> None
      | Some g \<Rightarrow> Some (and_then (f (guard_deref g)) (\<lambda>(x, hs).
          Inr (x, fs\<lparr>fs_open_handles := guard_drop (guard_deref_mut (\<lambda>_. hs) g)\<rparr>))))"

subsection \<open>Operations\<close>

text \<open>The loop over the entries: the first one with the wanted name; a bad name before it panics.\<close>

fun find_entry :: "string \<Rightarrow> entry list \<Rightarrow> entry option res" where
  "find_entry path [] = Inr None"
| "find_entry path (e # es) =
     and_then (unwrap (en_filename e)) (\<lambda>n. if n \<noteq> path then find_entry path es else Inr (Some e))"

definition strip_slash :: "string \<Rightarrow> string" where
  "strip_slash path = (case path of c # cs \<Rightarrow> if c = CHR ''/'' then cs else path | [] \<Rightarrow> path)"

definition open_path :: "string \<Rightarrow> tarfs \<Rightarrow> ((fs_error + usize) \<times> tarfs) res option" where
  "open_path path fs =
     (case find_entry (strip_slash path) (fs_archive fs) of
        Inl e \<Rightarrow> Some (Inl e)
      | Inr None \<Rightarrow> Some (Inr (Inl FileNotFound, fs))
      | Inr (Some entry) \<Rightarrow>
          (case next_handle_id fs of (handle, fs1) \<Rightarrow>
             with_handles (\<lambda>hs. Inr (Inr handle, hs(handle \<mapsto> \<lparr>of_data = entry, of_position = 0\<rparr>))) fs1))"

text \<open>\<open>read\<close> also returns the buffer with the bytes copied to its front.\<close>

definition read_handle ::
  "usize \<Rightarrow> u8 list \<Rightarrow> tarfs \<Rightarrow> ((fs_error + nat \<times> u8 list) \<times> tarfs) res option" where
  "read_handle handle buffer = with_handles (\<lambda>hs.
     case hs handle of
       None \<Rightarrow> Inr (Inl InvalidHandle, hs)
     | Some f \<Rightarrow>
         let data = en_data (of_data f); data_len = length data in
         if of_position f \<ge> data_len then Inr (Inl EndOfFile, hs)
         else
           let n = min (data_len - of_position f) (length buffer);
               buffer' = take n (drop (of_position f) data) @ drop n buffer
           in and_then (nadd (of_position f) n) (\<lambda>p.
                Inr (Inr (n, buffer'), hs(handle \<mapsto> f\<lparr>of_position := p\<rparr>))))"

definition iadd :: "int \<Rightarrow> int \<Rightarrow> int res" where
  "iadd a b = (if - (2 ^ 63) \<le> a + b \<and> a + b < 2 ^ 63 then Inr (a + b) else Inl ArithOverflow)"

definition clamp :: "int \<Rightarrow> int \<Rightarrow> int \<Rightarrow> int" where
  "clamp x lo hi = (if x < lo then lo else if x > hi then hi else x)"

definition seek :: "usize \<Rightarrow> int \<Rightarrow> seek_mode \<Rightarrow> tarfs \<Rightarrow> ((fs_error + nat) \<times> tarfs) res option" where
  "seek handle offset mode = with_handles (\<lambda>hs.
     case hs handle of
       None \<Rightarrow> Inr (Inl InvalidHandle, hs)
     | Some f \<Rightarrow>
         let data_len = length (en_data (of_data f)) in
         and_then (case mode of
             Start \<Rightarrow> Inr offset
           | Current \<Rightarrow> iadd (int (of_position f)) offset
           | End \<Rightarrow> iadd (int data_len) offset) (\<lambda>new_position.
           let clamped_position = nat (clamp new_position 0 (int data_len))
           in Inr (Inr clamped_position, hs(handle \<mapsto> f\<lparr>of_position := clamped_position\<rparr>))))"

definition size_of_handle :: "usize \<Rightarrow> tarfs \<Rightarrow> ((fs_error + nat) \<times> tarfs) res option" where
  "size_of_handle handle = with_handles (\<lambda>hs.
     Inr (case hs handle of None \<Rightarrow> Inl InvalidHandle | Some f \<Rightarrow> Inr (en_size (of_data f)), hs))"

definition close :: "usize \<Rightarrow> tarfs \<Rightarrow> (unit \<times> tarfs) res option" where
  "close handle = with_handles (\<lambda>hs. Inr ((), hs(handle := None)))"

subsection \<open>The invariant\<close>

abbreviation handles_of :: "tarfs \<Rightarrow> handles" where
  "handles_of fs \<equiv> inner (fs_open_handles fs)"

text \<open>
  The lock is free, files are smaller than \<open>2 ^ 63\<close> bytes, positions stay inside their file, and
  the handles in use are below the counter.
\<close>

definition file_ok :: "open_file \<Rightarrow> bool" where
  "file_ok f \<longleftrightarrow> of_position f \<le> length (en_data (of_data f)) \<and> length (en_data (of_data f)) < 2 ^ 63"

definition fs_ok :: "tarfs \<Rightarrow> bool" where
  "fs_ok fs \<longleftrightarrow> \<not> is_locked (fs_open_handles fs)
     \<and> (\<forall>e \<in> set (fs_archive fs). length (en_data e) < 2 ^ 63 \<and> en_size e = length (en_data e))
     \<and> (\<forall>h f. handles_of fs h = Some f \<longrightarrow> file_ok f \<and> h < fs_next_handle fs \<and> of_data f \<in> set (fs_archive fs))"

lemma with_handles_eq:
  assumes "\<not> is_locked (fs_open_handles fs)"
  shows "with_handles f fs = Some (and_then (f (handles_of fs)) (\<lambda>(x, hs).
    Inr (x, fs\<lparr>fs_open_handles := spinlock_new hs\<rparr>)))"
  using assms by (cases "fs_open_handles fs") (simp add: with_handles_def lock_eq spinlock_defs)

lemma find_entry_found: "find_entry path es = Inr (Some e) \<Longrightarrow> e \<in> set es \<and> en_filename e = Some path"
  by (induction es) (auto simp: and_then_eq_Inr unwrap_def split: if_splits option.splits)

lemma find_entry_names:
  assumes "\<forall>e \<in> set es. en_filename e \<noteq> None"
  shows "find_entry path es = Inr (List.find (\<lambda>e. en_filename e = Some path) es)"
  using assms by (induction es) (auto simp: unwrap_def split: option.splits)

lemma fs_ok_update:
  assumes "fs_ok fs"
    and "\<And>h f. hs h = Some f \<Longrightarrow> handles_of fs h \<noteq> Some f \<Longrightarrow>
      file_ok f \<and> h < fs_next_handle fs \<and> of_data f \<in> set (fs_archive fs)"
  shows "fs_ok (fs\<lparr>fs_open_handles := spinlock_new hs\<rparr>)"
  using assms by (fastforce simp: fs_ok_def spinlock_defs)

lemma open_spec:
  assumes ok: "fs_ok fs" and names: "\<forall>e \<in> set (fs_archive fs). en_filename e \<noteq> None"
    and more: "fs_next_handle fs + 1 \<noteq> 0"
  shows "case List.find (\<lambda>e. en_filename e = Some (strip_slash path)) (fs_archive fs) of
      None \<Rightarrow> open_path path fs = Some (Inr (Inl FileNotFound, fs))
    | Some e \<Rightarrow> \<exists>fs'. open_path path fs = Some (Inr (Inr (fs_next_handle fs), fs')) \<and> fs_ok fs'
        \<and> handles_of fs' = (handles_of fs)(fs_next_handle fs \<mapsto> \<lparr>of_data = e, of_position = 0\<rparr>)
        \<and> handles_of fs (fs_next_handle fs) = None"
proof (cases "List.find (\<lambda>e. en_filename e = Some (strip_slash path)) (fs_archive fs)")
  case None
  then show ?thesis using find_entry_names [OF names] by (simp add: open_path_def)
next
  case (Some e)
  let ?n = "fs_next_handle fs"
  have e: "e \<in> set (fs_archive fs)" using Some by (auto simp: find_Some_iff)
  define fs1 where "fs1 = fs\<lparr>fs_next_handle := ?n + 1\<rparr>"
  have lt: "?n < ?n + 1" using unatSuc [of ?n] more by (simp add: word_less_nat_alt add.commute)
  have "fs_ok fs1" using ok lt by (fastforce simp: fs1_def fs_ok_def)
  have h: "handles_of fs1 = handles_of fs" "fs_open_handles fs1 = fs_open_handles fs" by (simp_all add: fs1_def)
  have "open_path path fs = Some (Inr (Inr ?n,
      fs1\<lparr>fs_open_handles := spinlock_new ((handles_of fs)(?n \<mapsto> \<lparr>of_data = e, of_position = 0\<rparr>))\<rparr>))"
    using find_entry_names [OF names, of "strip_slash path"] Some ok h
    by (simp add: open_path_def next_handle_id_def fs1_def [symmetric] with_handles_eq fs_ok_def)
  moreover have "fs_ok (fs1\<lparr>fs_open_handles := spinlock_new ((handles_of fs)(?n \<mapsto> \<lparr>of_data = e, of_position = 0\<rparr>))\<rparr>)"
    using \<open>fs_ok fs1\<close> ok e lt h
    by (intro fs_ok_update) (auto simp: file_ok_def fs_ok_def fs1_def split: if_splits)
  moreover have "handles_of fs ?n = None" using ok by (cases "handles_of fs ?n") (auto simp: fs_ok_def)
  ultimately show ?thesis using Some by simp
qed


lemma read_spec:
  assumes ok: "fs_ok fs" and f: "handles_of fs h = Some f"
  shows "if of_position f = length (en_data (of_data f))
    then read_handle h buf fs = Some (Inr (Inl EndOfFile, fs))
    else \<exists>fs'. read_handle h buf fs = Some (Inr (Inr
          (min (length (en_data (of_data f)) - of_position f) (length buf),
           take (length buf) (drop (of_position f) (en_data (of_data f)))
             @ drop (length (en_data (of_data f)) - of_position f) buf), fs')) \<and> fs_ok fs'
      \<and> fs_next_handle fs' = fs_next_handle fs \<and> fs_archive fs' = fs_archive fs
      \<and> handles_of fs' = (handles_of fs)(h \<mapsto> f\<lparr>of_position :=
          min (length (en_data (of_data f))) (of_position f + length buf)\<rparr>)"
proof -
  let ?d = "en_data (of_data f)" and ?p = "of_position f"
  have fo: "?p \<le> length ?d" "length ?d < 2 ^ 63" "h < fs_next_handle fs" "of_data f \<in> set (fs_archive fs)"
    and ul: "\<not> is_locked (fs_open_handles fs)" using ok f by (auto simp: fs_ok_def file_ok_def)
  show ?thesis
  proof (cases "?p = length ?d")
    case True
    have "fs\<lparr>fs_open_handles := spinlock_new (handles_of fs)\<rparr> = fs"
      using ul by (cases "fs_open_handles fs") (cases fs, simp add: spinlock_defs)
    then show ?thesis using True f by (simp add: read_handle_def with_handles_eq [OF ul])
  next
    case False
    let ?n = "min (length ?d - ?p) (length buf)"
    let ?hs = "(handles_of fs)(h \<mapsto> f\<lparr>of_position := ?p + ?n\<rparr>)"
    have n: "nadd ?p ?n = Inr (?p + ?n)" "?p + ?n = min (length ?d) (?p + length buf)"
      using fo(1,2) by (auto simp: nadd_def)
    have t: "take ?n (drop ?p ?d) @ drop ?n buf = take (length buf) (drop ?p ?d) @ drop (length ?d - ?p) buf"
      by (simp add: min_def)
    have "read_handle h buf fs = Some (Inr (Inr (?n, take ?n (drop ?p ?d) @ drop ?n buf),
        fs\<lparr>fs_open_handles := spinlock_new ?hs\<rparr>))"
      using False fo(1) f n(1) by (simp add: read_handle_def with_handles_eq [OF ul] Let_def)
    moreover have "fs_ok (fs\<lparr>fs_open_handles := spinlock_new ?hs\<rparr>)"
      using fo by (intro fs_ok_update [OF ok]) (auto simp: file_ok_def split: if_splits)
    ultimately show ?thesis using False n(2) t by simp
  qed
qed

lemma seek_spec:
  assumes ok: "fs_ok fs" and f: "handles_of fs h = Some f"
    and np: "(case mode of Start \<Rightarrow> Inr off | Current \<Rightarrow> iadd (int (of_position f)) off
        | End \<Rightarrow> iadd (int (length (en_data (of_data f)))) off) = Inr np"
  shows "\<exists>fs'. seek h off mode fs = Some (Inr (Inr (nat (min (max np 0) (int (length (en_data (of_data f)))))), fs'))
    \<and> fs_ok fs' \<and> handles_of fs' = (handles_of fs)(h \<mapsto> f\<lparr>of_position :=
          nat (min (max np 0) (int (length (en_data (of_data f)))))\<rparr>)"
proof -
  let ?len = "length (en_data (of_data f))"
  let ?q = "nat (min (max np 0) (int ?len))"
  let ?hs = "(handles_of fs)(h \<mapsto> f\<lparr>of_position := ?q\<rparr>)"
  have fo: "file_ok f" "h < fs_next_handle fs" "of_data f \<in> set (fs_archive fs)"
    and ul: "\<not> is_locked (fs_open_handles fs)" using ok f by (auto simp: fs_ok_def)
  have c: "clamp np 0 (int ?len) = min (max np 0) (int ?len)" by (auto simp: clamp_def)
  have "seek h off mode fs = Some (Inr (Inr ?q, fs\<lparr>fs_open_handles := spinlock_new ?hs\<rparr>))"
    using f np c by (simp add: seek_def with_handles_eq [OF ul] Let_def)
  moreover have "fs_ok (fs\<lparr>fs_open_handles := spinlock_new ?hs\<rparr>)"
    using fo by (intro fs_ok_update [OF ok]) (auto simp: file_ok_def split: if_splits)
  ultimately show ?thesis by simp
qed

lemma invalid_handle_spec:
  assumes ok: "fs_ok fs" and h: "handles_of fs h = None"
  shows "read_handle h buf fs = Some (Inr (Inl InvalidHandle, fs)) \<and> seek h off mode fs = Some (Inr (Inl InvalidHandle, fs))
    \<and> size_of_handle h fs = Some (Inr (Inl InvalidHandle, fs))"
proof -
  have ul: "\<not> is_locked (fs_open_handles fs)" using ok by (simp add: fs_ok_def)
  have "fs\<lparr>fs_open_handles := spinlock_new (handles_of fs)\<rparr> = fs"
    using ul by (cases "fs_open_handles fs") (cases fs, simp add: spinlock_defs)
  then show ?thesis using h by (simp add: read_handle_def seek_def size_of_handle_def with_handles_eq [OF ul])
qed

lemma close_spec:
  assumes ok: "fs_ok fs"
  shows "\<exists>fs'. close h fs = Some (Inr ((), fs')) \<and> fs_ok fs' \<and> handles_of fs' = (handles_of fs)(h := None)"
proof -
  have ul: "\<not> is_locked (fs_open_handles fs)" using ok by (simp add: fs_ok_def)
  have "fs_ok (fs\<lparr>fs_open_handles := spinlock_new ((handles_of fs)(h := None))\<rparr>)"
    by (intro fs_ok_update [OF ok]) (auto split: if_splits)
  then show ?thesis by (simp add: close_def with_handles_eq [OF ul])
qed

text \<open>Opening a file and reading as many bytes as it has delivers it.\<close>

lemma whole_file:
  assumes ok: "fs_ok fs" and names: "\<forall>e \<in> set (fs_archive fs). en_filename e \<noteq> None" and more: "fs_next_handle fs + 1 \<noteq> 0"
    and f: "List.find (\<lambda>e. en_filename e = Some (strip_slash path)) (fs_archive fs) = Some e" and ne: "en_data e \<noteq> []"
  obtains fs1 fs2 where "open_path path fs = Some (Inr (Inr (fs_next_handle fs), fs1))"
    "size_of_handle (fs_next_handle fs) fs1 = Some (Inr (Inr (length (en_data e)), fs1))"
    "read_handle (fs_next_handle fs) (replicate (length (en_data e)) 0) fs1 = Some (Inr (Inr (length (en_data e), en_data e), fs2))"
    "fs_ok fs2"
proof -
  let ?h = "fs_next_handle fs" and ?f = "\<lparr>of_data = e, of_position = 0\<rparr>"
  obtain fs1 where o: "open_path path fs = Some (Inr (Inr ?h, fs1))" "fs_ok fs1" "handles_of fs1 ?h = Some ?f"
    using open_spec [OF ok names more, of path] f by auto
  have e: "e \<in> set (fs_archive fs1)" using o(2,3) by (force simp: fs_ok_def)
  then have n: "en_size e = length (en_data e)" using o(2) by (simp add: fs_ok_def)
  have ul: "\<not> is_locked (fs_open_handles fs1)" using o(2) by (simp add: fs_ok_def)
  have same: "fs1\<lparr>fs_open_handles := spinlock_new (handles_of fs1)\<rparr> = fs1"
    using ul by (cases "fs_open_handles fs1") (cases fs1, simp add: spinlock_defs)
  have s: "size_of_handle ?h fs1 = Some (Inr (Inr (length (en_data e)), fs1))"
    using o(3) n same by (simp add: size_of_handle_def with_handles_eq [OF ul])
  have "\<exists>fs2. read_handle ?h (replicate (length (en_data e)) 0) fs1
      = Some (Inr (Inr (length (en_data e), en_data e), fs2)) \<and> fs_ok fs2"
    using read_spec [OF o(2,3), of "replicate (length (en_data e)) 0"] ne by auto
  then show ?thesis using that o(1) s by blast
qed

subsection \<open>Properties\<close>

text \<open>Consecutive reads with buffers of the given sizes: the error or the bytes of every one of them.\<close>

fun read_chunks :: "usize \<Rightarrow> nat list \<Rightarrow> tarfs \<Rightarrow> ((fs_error + u8 list) list \<times> tarfs) res option" where
  "read_chunks h [] fs = Some (Inr ([], fs))"
| "read_chunks h (n # ns) fs =
     (case read_handle h (replicate n 0) fs of
        None \<Rightarrow> None
      | Some (Inl e) \<Rightarrow> Some (Inl e)
      | Some (Inr (r, fs1)) \<Rightarrow>
          (case read_chunks h ns fs1 of
             None \<Rightarrow> None
           | Some rs \<Rightarrow> Some (and_then rs (\<lambda>(xs, fs2).
               Inr ((case r of Inl err \<Rightarrow> Inl err | Inr (cnt, buf) \<Rightarrow> Inr (take cnt buf)) # xs, fs2)))))"

text \<open>What a file with the bytes \<open>rest\<close> left should answer, and the bytes in those answers.\<close>

fun file_answers :: "u8 list \<Rightarrow> nat list \<Rightarrow> (fs_error + u8 list) list" where
  "file_answers rest [] = []"
| "file_answers rest (n # ns) =
     (if rest = [] then Inl EndOfFile else Inr (take n rest)) # file_answers (drop n rest) ns"

definition delivered :: "(fs_error + u8 list) list \<Rightarrow> u8 list" where
  "delivered rs = concat (map (\<lambda>r. case r of Inl _ \<Rightarrow> [] | Inr bs \<Rightarrow> bs) rs)"

lemma delivered_answers: "delivered (file_answers rest ns) = take (sum_list ns) rest"
  by (induction rest ns rule: file_answers.induct) (auto simp: delivered_def take_add)

lemma read_chunks_spec:
  assumes "fs_ok fs" "handles_of fs h = Some f"
  shows "\<exists>fs'. read_chunks h ns fs = Some (Inr (file_answers (drop (of_position f) (en_data (of_data f))) ns, fs'))
    \<and> fs_ok fs' \<and> handles_of fs' h = Some (f\<lparr>of_position :=
        min (length (en_data (of_data f))) (of_position f + sum_list ns)\<rparr>)"
  using assms
proof (induction ns arbitrary: fs f)
  case Nil
  have "min (length (en_data (of_data f))) (of_position f) = of_position f"
    using Nil.prems by (auto simp: fs_ok_def file_ok_def)
  then show ?case using Nil by simp
next
  case (Cons n ns)
  let ?d = "en_data (of_data f)" and ?p = "of_position f"
  have p: "?p \<le> length ?d" using Cons.prems by (auto simp: fs_ok_def file_ok_def)
  show ?case
  proof (cases "?p = length ?d")
    case True
    then have "read_handle h (replicate n 0) fs = Some (Inr (Inl EndOfFile, fs))"
      using read_spec [OF Cons.prems, of "replicate n 0"] by simp
    then show ?thesis using True Cons.IH [OF Cons.prems] by auto
  next
    case False
    let ?f = "f\<lparr>of_position := min (length ?d) (?p + n)\<rparr>"
    obtain fs1 where r: "read_handle h (replicate n 0) fs = Some (Inr (Inr (min (length ?d - ?p) n,
          take n (drop ?p ?d) @ drop (length ?d - ?p) (replicate n 0)), fs1))" "fs_ok fs1"
      "handles_of fs1 = (handles_of fs)(h \<mapsto> ?f)"
      using read_spec [OF Cons.prems, of "replicate n 0"] False by auto
    obtain fs2 where 2: "read_chunks h ns fs1
        = Some (Inr (file_answers (drop (of_position ?f) (en_data (of_data ?f))) ns, fs2))" "fs_ok fs2"
      "handles_of fs2 h = Some (?f\<lparr>of_position := min (length ?d) (min (length ?d) (?p + n) + sum_list ns)\<rparr>)"
      using Cons.IH [OF r(2), of ?f] r(3) by auto
    have "take (min (length ?d - ?p) n) (take n (drop ?p ?d) @ drop (length ?d - ?p) (replicate n 0))
        = take n (drop ?p ?d)" by (simp add: min_def)
    moreover have "drop (min (length ?d) (?p + n)) ?d = drop n (drop ?p ?d)"
      by (simp add: min_def add.commute)
    moreover have "min (length ?d) (min (length ?d) (?p + n) + sum_list ns) = min (length ?d) (?p + (n + sum_list ns))"
      by auto
    ultimately show ?thesis using r(1) 2 False p by simp
  qed
qed

text \<open>
  C15. Reading a file back: after opening a path (with or without leading slash) of an archive
  whose names are valid, consecutive reads with buffers of any sizes answer exactly what the
  data of the first entry with that name calls for: as many of the bytes that are left as fit
  the buffer, and \<open>EndOfFile\<close> once none are left, an empty file included. Together they deliver
  the first bytes of the file; with enough buffer space they deliver all of it, and every
  further read answers \<open>EndOfFile\<close> and changes nothing. A name that is not in the archive is
  reported as such.
\<close>

theorem open_read_delivers_file:
  assumes "fs_ok fs" and "\<forall>e \<in> set (fs_archive fs). en_filename e \<noteq> None" and "fs_next_handle fs + 1 \<noteq> 0"
  shows "case List.find (\<lambda>e. en_filename e = Some (strip_slash path)) (fs_archive fs) of
      None \<Rightarrow> open_path path fs = Some (Inr (Inl FileNotFound, fs))
    | Some e \<Rightarrow> \<exists>h fs1 fs2. open_path path fs = Some (Inr (Inr h, fs1)) \<and> handles_of fs h = None
        \<and> read_chunks h ns fs1 = Some (Inr (file_answers (en_data e) ns, fs2))
        \<and> delivered (file_answers (en_data e) ns) = take (sum_list ns) (en_data e)
        \<and> (length (en_data e) \<le> sum_list ns \<longrightarrow> delivered (file_answers (en_data e) ns) = en_data e
             \<and> read_handle h buf fs2 = Some (Inr (Inl EndOfFile, fs2)))"
proof (cases "List.find (\<lambda>e. en_filename e = Some (strip_slash path)) (fs_archive fs)")
  case None
  then show ?thesis using open_spec [OF assms, of path] by simp
next
  case (Some e)
  let ?n = "fs_next_handle fs"
  obtain fs1 where o: "open_path path fs = Some (Inr (Inr ?n, fs1))" "fs_ok fs1"
    "handles_of fs1 = (handles_of fs)(?n \<mapsto> \<lparr>of_data = e, of_position = 0\<rparr>)" "handles_of fs ?n = None"
    using open_spec [OF assms, of path] Some by auto
  obtain fs2 where r: "read_chunks ?n ns fs1 = Some (Inr (file_answers (en_data e) ns, fs2))" "fs_ok fs2"
    "handles_of fs2 ?n = Some \<lparr>of_data = e, of_position = min (length (en_data e)) (sum_list ns)\<rparr>"
    using read_chunks_spec [OF o(2), of ?n "\<lparr>of_data = e, of_position = 0\<rparr>" ns] o(3) by auto
  have "read_handle ?n buf fs2 = Some (Inr (Inl EndOfFile, fs2))" if "length (en_data e) \<le> sum_list ns"
    using read_spec [OF r(2,3), of buf] that by simp
  then show ?thesis using Some o r(1) delivered_answers [of "en_data e" ns] by auto
qed

definition demo_archive :: "entry list" where
  "demo_archive = [\<lparr>en_filename = Some ''readme'', en_data = [1, 2, 3], en_size = 3\<rparr>,
     \<lparr>en_filename = Some ''a.txt'', en_data = [10, 20, 30, 40, 50], en_size = 5\<rparr>]"

lemma demo_fs_ok: "fs_ok (tarfs_new demo_archive)"
  by (simp add: fs_ok_def tarfs_new_def demo_archive_def)

theorem open_read_delivers_file_witness:
  "\<exists>h fs1 fs2. open_path ''/a.txt'' (tarfs_new demo_archive) = Some (Inr (Inr h, fs1))
     \<and> read_chunks h [2, 4, 1] fs1 = Some (Inr ([Inr [10, 20], Inr [30, 40, 50], Inl EndOfFile], fs2))
     \<and> read_handle h [0, 0] fs2 = Some (Inr (Inl EndOfFile, fs2))"
proof -
  have "List.find (\<lambda>e. en_filename e = Some (strip_slash ''/a.txt'')) (fs_archive (tarfs_new demo_archive))
      = Some \<lparr>en_filename = Some ''a.txt'', en_data = [10, 20, 30, 40, 50], en_size = 5\<rparr>"
    by (simp add: tarfs_new_def demo_archive_def strip_slash_def)
  moreover have "\<forall>e \<in> set (fs_archive (tarfs_new demo_archive)). en_filename e \<noteq> None"
    "fs_next_handle (tarfs_new demo_archive) + 1 \<noteq> 0"
    by (simp_all add: tarfs_new_def demo_archive_def)
  ultimately show ?thesis
    using open_read_delivers_file [OF demo_fs_ok, of "''/a.txt''" "[2, 4, 1]" "[0, 0]"] by auto
qed

text \<open>
  Every operation keeps the file system well formed: positions never leave their file, a
  handle that is returned is fresh, a seek lands on the requested position clamped to the
  file, other handles are untouched, and a handle that is not open, a closed one included,
  is answered with \<open>InvalidHandle\<close>.
\<close>

theorem seek_clamps_and_close_invalidates:
  assumes "fs_ok fs" and "handles_of fs h = Some f" and "h' \<noteq> h"
    and "- (2 ^ 62) \<le> off" and "off < 2 ^ 62" and "length (en_data (of_data f)) < 2 ^ 62"
  shows "(\<exists>fs'. seek h off mode fs = Some (Inr (Inr (nat (min (max
          ((case mode of Start \<Rightarrow> 0 | Current \<Rightarrow> int (of_position f) | End \<Rightarrow> int (length (en_data (of_data f)))) + off) 0)
          (int (length (en_data (of_data f)))))), fs'))
        \<and> fs_ok fs' \<and> handles_of fs' h' = handles_of fs h')
    \<and> (\<exists>fs'. close h fs = Some (Inr ((), fs')) \<and> fs_ok fs' \<and> handles_of fs' h' = handles_of fs h'
        \<and> read_handle h buf fs' = Some (Inr (Inl InvalidHandle, fs'))
        \<and> seek h off mode fs' = Some (Inr (Inl InvalidHandle, fs'))
        \<and> size_of_handle h fs' = Some (Inr (Inl InvalidHandle, fs')))"
proof -
  have p: "of_position f \<le> length (en_data (of_data f))" using assms(1,2) by (auto simp: fs_ok_def file_ok_def)
  let ?np = "(case mode of Start \<Rightarrow> 0 | Current \<Rightarrow> int (of_position f) | End \<Rightarrow> int (length (en_data (of_data f)))) + off"
  have "(case mode of Start \<Rightarrow> Inr off | Current \<Rightarrow> iadd (int (of_position f)) off
        | End \<Rightarrow> iadd (int (length (en_data (of_data f)))) off) = Inr ?np"
    using assms(4-6) p by (auto simp: iadd_def split: seek_mode.splits)
  from seek_spec [OF assms(1,2) this] have s: "\<exists>fs'. seek h off mode fs = Some (Inr (Inr (nat (min (max ?np 0)
      (int (length (en_data (of_data f)))))), fs')) \<and> fs_ok fs' \<and> handles_of fs' h' = handles_of fs h'"
    using assms(3) by auto
  obtain fs' where c: "close h fs = Some (Inr ((), fs'))" "fs_ok fs'" "handles_of fs' = (handles_of fs)(h := None)"
    using close_spec [OF assms(1)] by blast
  show ?thesis using s c invalid_handle_spec [OF c(2), of h buf off mode] assms(3) by auto
qed

definition demo_open :: tarfs where
  "demo_open = (tarfs_new demo_archive)\<lparr>fs_next_handle := 1,
     fs_open_handles := spinlock_new [0 \<mapsto> \<lparr>of_data = demo_archive ! 0, of_position = 1\<rparr>]\<rparr>"

lemma demo_open_ok: "fs_ok demo_open"
  by (auto simp: fs_ok_def demo_open_def tarfs_new_def demo_archive_def file_ok_def split: if_splits)

theorem seek_clamps_and_close_invalidates_witness:
  "\<exists>fs'. seek 0 100 Current demo_open = Some (Inr (Inr 3, fs')) \<and> fs_ok fs'"
proof -
  have "handles_of demo_open 0 = Some \<lparr>of_data = demo_archive ! 0, of_position = 1\<rparr>" by (simp add: demo_open_def)
  then show ?thesis
    using seek_clamps_and_close_invalidates [OF demo_open_ok, of 0 "\<lparr>of_data = demo_archive ! 0, of_position = 1\<rparr>" 1 100 Current "[]"]
    by (auto simp: demo_archive_def)
qed

text \<open>
  A large offset is not clamped as documented: seeking by the largest offset from a position
  other than the start overflows, although the target lies beyond the end of the file.
\<close>

theorem seek_overflows:
  "seek 0 (2 ^ 63 - 1) Current demo_open = Some (Inl ArithOverflow)"
  by (simp add: seek_def with_handles_eq demo_open_def iadd_def Let_def)

end
