(* ===== verification/Alloc_Bump.thy ===== *)
theory Alloc_Bump
  imports Alloc_Global
begin

text \<open>
  \<^verbatim>\<open>kernel/src/allocator/bump.rs\<close>: the bump allocator, the simpler alternative to the
  linked-list allocator. It never looks at the end of the heap and frees everything at once
  when the last allocation is returned.
\<close>

subsection \<open>The allocator\<close>

record bump_allocator =
  ba_heap_start :: usize
  ba_heap_end :: usize
  ba_next :: usize
  ba_allocations :: usize

definition bump_new :: bump_allocator where
  "bump_new = \<lparr>ba_heap_start = 0, ba_heap_end = 0, ba_next = 0, ba_allocations = 0\<rparr>"

definition bump_init :: "usize \<Rightarrow> usize \<Rightarrow> bump_allocator \<Rightarrow> bump_allocator res" where
  "bump_init hs sz b =
     and_then (uadd hs sz) (\<lambda>he. Inr (b\<lparr>ba_heap_start := hs, ba_heap_end := he, ba_next := hs\<rparr>))"

text \<open>The new \<open>next\<close> is computed with \<open>wrapping_add\<close>.\<close>

definition bump_alloc :: "layout \<Rightarrow> bump_allocator \<Rightarrow> (usize \<times> bump_allocator) res" where
  "bump_alloc l b =
     and_then (align_up (ba_next b) (lay_align l)) (\<lambda>aligned_ptr.
     and_then (uadd (ba_allocations b) 1) (\<lambda>n.
       Inr (aligned_ptr, b\<lparr>ba_next := aligned_ptr + lay_size l, ba_allocations := n\<rparr>)))"

definition bump_dealloc :: "usize \<Rightarrow> layout \<Rightarrow> bump_allocator \<Rightarrow> bump_allocator res" where
  "bump_dealloc ptr l b =
     and_then (usub (ba_allocations b) 1) (\<lambda>n.
       let b' = b\<lparr>ba_allocations := n\<rparr>
       in Inr (if n = 0 then b'\<lparr>ba_next := ba_heap_start b\<rparr> else b'))"

text \<open>The number of free bytes that the debug output prints; it underflows past the heap's end.\<close>

definition bump_free_bytes :: "bump_allocator \<Rightarrow> usize res" where
  "bump_free_bytes b = usub (ba_heap_end b) (ba_next b)"

subsection \<open>Clients\<close>

definition block :: "usize \<times> layout \<Rightarrow> nat set" where
  "block x = {unat (fst x)..<unat (fst x) + unat (lay_size (snd x))}"

text \<open>
  Live allocations in the order of their creation, newest first. A client asks for valid
  layouts that leave the address space room, and returns what it got.
\<close>

inductive bump_step :: "bump_allocator \<times> (usize \<times> layout) list \<Rightarrow> bump_allocator \<times> (usize \<times> layout) list \<Rightarrow> bool" where
  allocate: "layout_valid l \<Longrightarrow> unat (ba_next b) + unat (lay_align l) + unat (lay_size l) < 2 ^ 64 \<Longrightarrow>
    bump_alloc l b = Inr (p, b') \<Longrightarrow> bump_step (b, live) (b', (p, l) # live)"
| release: "x \<in> set live \<Longrightarrow> bump_dealloc (fst x) (snd x) b = Inr b' \<Longrightarrow> bump_step (b, live) (b', remove1 x live)"

inductive bump_reachable :: "usize \<Rightarrow> usize \<Rightarrow> bump_allocator \<times> (usize \<times> layout) list \<Rightarrow> bool" for hs sz where
  boot: "bump_init hs sz bump_new = Inr b \<Longrightarrow> bump_reachable hs sz (b, [])"
| step: "bump_reachable hs sz x \<Longrightarrow> bump_step x y \<Longrightarrow> bump_reachable hs sz y"

text \<open>
  Blocks are pairwise disjoint, aligned, between the start of the heap and \<open>next\<close>, and the
  counter counts them.
\<close>

definition bump_inv :: "usize \<Rightarrow> bump_allocator \<times> (usize \<times> layout) list \<Rightarrow> bool" where
  "bump_inv hs x \<longleftrightarrow> (case x of (b, live) \<Rightarrow>
     ba_heap_start b = hs \<and> hs \<le> ba_next b \<and> unat (ba_allocations b) = length live
     \<and> (\<forall>y \<in> set live. unat hs \<le> unat (fst y) \<and> unat (fst y) + unat (lay_size (snd y)) \<le> unat (ba_next b)
          \<and> unat (lay_align (snd y)) dvd unat (fst y))
     \<and> sorted_wrt (\<lambda>y z. block y \<inter> block z = {}) live)"


lemma sorted_wrt_remove1: "sorted_wrt P xs \<Longrightarrow> sorted_wrt P (remove1 x xs)"
  by (induction xs) (use set_remove1_subset in fastforce)+

lemma bump_alloc_spec:
  assumes "layout_valid l" and "unat (ba_next b) + unat (lay_align l) + unat (lay_size l) < 2 ^ 64"
    and "unat (ba_allocations b) + 1 < 2 ^ 64"
  shows "\<exists>p. bump_alloc l b = Inr (p, b\<lparr>ba_next := p + lay_size l, ba_allocations := ba_allocations b + 1\<rparr>)
    \<and> unat (lay_align l) dvd unat p \<and> ba_next b \<le> p \<and> unat (p + lay_size l) = unat p + unat (lay_size l)
    \<and> unat (ba_allocations b + 1) = unat (ba_allocations b) + 1"
proof -
  obtain k where k: "k < 64" "lay_align l = 2 ^ k" "unat (lay_align l) = 2 ^ k"
    using assms(1) by (auto simp: layout_valid_def elim: is_power_of_two_obtain)
  obtain p where p: "align_up (ba_next b) (lay_align l) = Inr p"
      "unat p = (unat (ba_next b) + 2 ^ k - 1) div 2 ^ k * 2 ^ k"
    using align_up_pow2 [of k "ba_next b"] k assms(2) by auto
  note rb = round_up_bounds [of "2 ^ k" "unat (ba_next b)", folded p(2)]
  have "unat p + unat (lay_size l) < 2 ^ 64" using rb(3) k assms(2) by simp
  then have "unat (p + lay_size l) = unat p + unat (lay_size l)" by (intro unat_add_noov) simp
  moreover have "uadd (ba_allocations b) 1 = Inr (ba_allocations b + 1)" "unat (ba_allocations b + 1) = unat (ba_allocations b) + 1"
    using assms(3) by (simp_all add: uadd_nat unat_add_noov)
  ultimately show ?thesis using p(1) rb(1,2) k by (simp add: bump_alloc_def word_le_nat_alt)
qed

lemma bump_step_inv [inv_intros]:
  assumes "bump_step x y" "bump_inv hs x"
  shows "bump_inv hs y"
  using assms
proof (induction rule: bump_step.induct)
  case (allocate l b p b' live)
  have n: "unat (ba_allocations b) + 1 < 2 ^ 64"
    using allocate.hyps(3) by (auto simp: bump_alloc_def and_then_eq_Inr uadd_eq_Inr)
  have a: "b' = b\<lparr>ba_next := p + lay_size l, ba_allocations := ba_allocations b + 1\<rparr>"
    "unat (lay_align l) dvd unat p" "ba_next b \<le> p" "unat (p + lay_size l) = unat p + unat (lay_size l)"
    "unat (ba_allocations b + 1) = unat (ba_allocations b) + 1"
    using bump_alloc_spec [OF allocate.hyps(1,2) n] allocate.hyps(3) by auto
  have old: "unat (fst y) + unat (lay_size (snd y)) \<le> unat (ba_next b)" if "y \<in> set live" for y
    using allocate.prems that by (simp add: bump_inv_def)
  have le: "unat (ba_next b) \<le> unat p" using a(3) by (simp add: word_le_nat_alt)
  have "block (p, l) \<inter> block y = {}" if "y \<in> set live" for y
    using old [OF that] le by (auto simp: block_def)
  then show ?case
    using allocate.prems a le old by (fastforce simp: bump_inv_def word_le_nat_alt)
next
  case (release x live b b')
  define n where "n = ba_allocations b - 1"
  have len: "unat (ba_allocations b) = length live" "0 < length live"
    using release by (auto simp: bump_inv_def length_pos_if_in_set)
  have "1 \<le> length live" using len(2) by linarith
  then have "1 \<le> ba_allocations b" using len(1) by (simp only: word_le_nat_alt unat_1)
  then have n: "usub (ba_allocations b) 1 = Inr n" "unat n = length live - 1"
    using len(1) by (simp_all add: usub_def n_def unat_sub_le)
  have b': "b' = (if n = 0 then b\<lparr>ba_allocations := n, ba_next := ba_heap_start b\<rparr> else b\<lparr>ba_allocations := n\<rparr>)"
    using release.hyps(2) n(1) by (simp add: bump_dealloc_def Let_def split: if_splits)
  have len1: "length (remove1 x live) = unat n" using release.hyps(1) n(2) by (simp add: length_remove1)
  have "remove1 x live = []" if "n = 0" using len1 that by simp
  moreover have "set (remove1 x live) \<subseteq> set live" by (rule set_remove1_subset)
  ultimately show ?case
    using release.prems b' len1 by (auto simp: bump_inv_def sorted_wrt_remove1)
qed

lemma bump_reachable_inv:
  "bump_reachable hs sz x \<Longrightarrow> bump_inv hs x"
proof (induction rule: bump_reachable.induct)
  case (boot b)
  then show ?case by (auto simp: bump_inv_def bump_init_def bump_new_def and_then_eq_Inr)
next
  case (step x y)
  then show ?case by (blast intro: bump_step_inv)
qed

subsection \<open>Properties\<close>

text \<open>
  The bump allocator hands out aligned, pairwise disjoint blocks above the start of the
  heap, for any sequence of requests and releases that leaves the address space room, and
  its counter equals the number of live blocks, so memory is reused only when none is left.
\<close>

theorem bump_blocks_disjoint:
  assumes "bump_reachable hs sz (b, live)"
  shows "sorted_wrt (\<lambda>y z. block y \<inter> block z = {}) live \<and> unat (ba_allocations b) = length live
    \<and> (\<forall>y \<in> set live. unat hs \<le> unat (fst y) \<and> unat (lay_align (snd y)) dvd unat (fst y)
         \<and> unat (fst y) + unat (lay_size (snd y)) \<le> unat (ba_next b))"
  using bump_reachable_inv [OF assms] by (simp add: bump_inv_def)

abbreviation bump_lay :: layout where
  "bump_lay \<equiv> \<lparr>lay_size = 64, lay_align = 16\<rparr>"

lemma bump_demo:
  "bump_reachable 0x1008 0x20
     (\<lparr>ba_heap_start = 0x1008, ba_heap_end = 0x1028, ba_next = 0x1050, ba_allocations = 1\<rparr>, [(0x1010, bump_lay)])"
proof -
  let ?b0 = "\<lparr>ba_heap_start = 0x1008, ba_heap_end = 0x1028, ba_next = 0x1008, ba_allocations = 0\<rparr>"
  have 0: "bump_reachable 0x1008 0x20 (?b0, [])" by (rule bump_reachable.boot) code_simp
  have "is_power_of_two 16" unfolding is_power_of_two_iff by (intro exI [of _ 4]) simp
  then have v: "layout_valid bump_lay" by (simp add: layout_valid_nat)
  have a: "bump_alloc bump_lay ?b0
      = Inr (0x1010, \<lparr>ba_heap_start = 0x1008, ba_heap_end = 0x1028, ba_next = 0x1050, ba_allocations = 1\<rparr>)"
    by code_simp
  show ?thesis by (rule bump_reachable.step [OF 0 bump_step.allocate [OF v _ a]]) simp
qed

theorem bump_blocks_disjoint_witness:
  "unat (0x1008 :: usize) \<le> unat (0x1010 :: usize) \<and> unat (16 :: usize) dvd unat (0x1010 :: usize)
   \<and> length [(0x1010 :: usize, bump_lay)] = unat (1 :: usize)"
  using bump_blocks_disjoint [OF bump_demo] by simp

text \<open>
  The bump allocator does not check the end of the heap: on a heap of 32 bytes a request for
  64 bytes succeeds with a block that reaches beyond the heap, and the debug output of the
  free memory then underflows.
\<close>

theorem bump_exceeds_heap:
  "\<exists>p b'. bump_alloc bump_lay \<lparr>ba_heap_start = 0x1008, ba_heap_end = 0x1028, ba_next = 0x1008, ba_allocations = 0\<rparr>
       = Inr (p, b') \<and> ba_heap_end b' < p + 64 \<and> bump_free_bytes b' = Inl ArithOverflow"
proof -
  have "bump_alloc bump_lay \<lparr>ba_heap_start = 0x1008, ba_heap_end = 0x1028, ba_next = 0x1008, ba_allocations = 0\<rparr>
      = Inr (0x1010, \<lparr>ba_heap_start = 0x1008, ba_heap_end = 0x1028, ba_next = 0x1050, ba_allocations = 1\<rparr>)"
    by code_simp
  then show ?thesis by (simp add: bump_free_bytes_def usub_def)
qed

end
