(* ===== verification/Alloc_List.thy ===== *)
theory Alloc_List
  imports Alloc_Global
begin

text \<open>
  \<^verbatim>\<open>kernel/src/allocator/list.rs\<close>: the linked-list heap allocator the kernel runs on. A free
  block is described by a \<open>ListNode\<close> stored at its own start address and owned by its
  predecessor; the model keeps a node as its address and size, and the chain that hangs off
  the allocator's \<open>head\<close> as a list of nodes. The \<open>head\<close> itself is the dummy node of size 0 of
  the source. The loops of \<open>add_free_block\<close> and \<open>find_free_block\<close> are the recursive functions
  \<open>insert_block\<close> and \<open>find_in\<close> over that chain; every addition is checked, every \<open>panic!\<close> and
  \<open>expect\<close> is an error value.
\<close>

subsection \<open>Nodes\<close>

record list_node =
  ln_addr :: usize
  ln_size :: usize

definition SIZE_OF_LIST_NODE :: usize where
  "SIZE_OF_LIST_NODE = 16"

definition ALIGN_OF_LIST_NODE :: usize where
  "ALIGN_OF_LIST_NODE = 8"

definition start_addr :: "list_node \<Rightarrow> usize" where
  "start_addr n = ln_addr n"

definition end_addr :: "list_node \<Rightarrow> usize res" where
  "end_addr n = uadd (start_addr n) (ln_size n)"

record list_allocator =
  la_head :: list_node
  la_free :: "list_node list"
  la_heap_start :: usize
  la_heap_end :: usize

definition list_allocator_new :: list_allocator where
  "list_allocator_new =
     \<lparr>la_head = \<lparr>ln_addr = 0, ln_size = 0\<rparr>, la_free = [], la_heap_start = 0, la_heap_end = 0\<rparr>"

subsection \<open>Inserting a free block\<close>

definition merge_blocks :: "list_node \<Rightarrow> list_node \<Rightarrow> list_node res" where
  "merge_blocks prev nx =
     and_then (end_addr prev) (\<lambda>e.
       if e = start_addr nx
       then and_then (uadd (ln_size prev) (ln_size nx)) (\<lambda>s. Inr (prev\<lparr>ln_size := s\<rparr>))
       else Inl (PanicMsg ''Cannot merge blocks''))"

text \<open>The overlap test at the head of the loop body: the new block starts inside \<open>nx\<close>.\<close>

definition starts_inside :: "list_node \<Rightarrow> list_node \<Rightarrow> bool res" where
  "starts_inside new nx =
     (if start_addr new \<ge> start_addr nx
      then and_then (end_addr nx) (\<lambda>e. Inr (start_addr new < e))
      else Inr False)"

text \<open>The code after the loop: merge the new node into \<open>cur\<close>, or link it behind \<open>cur\<close>.\<close>

definition place_after :: "list_node \<Rightarrow> list_node \<Rightarrow> list_node list \<Rightarrow> (list_node \<times> list_node list) res" where
  "place_after cur new rest =
     (if ln_size cur > 0
      then and_then (end_addr cur) (\<lambda>e.
             if e = start_addr new
             then and_then (merge_blocks cur new) (\<lambda>c. Inr (c, rest))
             else Inr (cur, new # rest))
      else Inr (cur, new # rest))"

fun insert_block :: "list_node \<Rightarrow> list_node list \<Rightarrow> list_node \<Rightarrow> (list_node \<times> list_node list) res" where
  "insert_block cur [] new = place_after cur new []"
| "insert_block cur (nx # rest) new =
     and_then (starts_inside new nx) (\<lambda>overlap.
       if overlap then Inl (PanicMsg ''Double free or overlapping block detected'')
       else and_then (end_addr new) (\<lambda>ne.
         if ne < start_addr nx then place_after cur new (nx # rest)
         else if ne = start_addr nx
         then and_then (merge_blocks new nx) (\<lambda>m. place_after cur m rest)
         else and_then (insert_block nx rest new) (\<lambda>(nx', rest'). Inr (cur, nx' # rest'))))"

definition add_free_block :: "usize \<Rightarrow> usize \<Rightarrow> list_allocator \<Rightarrow> list_allocator res" where
  "add_free_block addr sz a =
     and_then (insert_block (la_head a) (la_free a) \<lparr>ln_addr = addr, ln_size = sz\<rparr>)
       (\<lambda>(h, fr). Inr (a\<lparr>la_head := h, la_free := fr\<rparr>))"

definition init :: "usize \<Rightarrow> usize \<Rightarrow> list_allocator \<Rightarrow> list_allocator res" where
  "init hs sz a =
     and_then (add_free_block hs sz a) (\<lambda>a'.
     and_then (uadd hs sz) (\<lambda>he. Inr (a'\<lparr>la_heap_start := hs, la_heap_end := he\<rparr>)))"

subsection \<open>Searching and allocating\<close>

definition check_block_for_alloc :: "list_node \<Rightarrow> usize \<Rightarrow> usize \<Rightarrow> usize option res" where
  "check_block_for_alloc block sz align =
     and_then (align_up (start_addr block) align) (\<lambda>alloc_start.
       case checked_add alloc_start sz of
         None \<Rightarrow> Inr None
       | Some alloc_end \<Rightarrow>
           and_then (end_addr block) (\<lambda>be.
             if alloc_end > be then Inr None
             else and_then (usub be alloc_end) (\<lambda>excess.
               if excess > 0 \<and> excess < SIZE_OF_LIST_NODE then Inr None
               else Inr (Some alloc_start))))"

fun find_in :: "list_node list \<Rightarrow> usize \<Rightarrow> usize \<Rightarrow> ((list_node \<times> usize) option \<times> list_node list) res" where
  "find_in [] sz align = Inr (None, [])"
| "find_in (block # rest) sz align =
     and_then (check_block_for_alloc block sz align) (\<lambda>r.
       case r of
         Some alloc_start \<Rightarrow> Inr (Some (block, alloc_start), rest)
       | None \<Rightarrow> and_then (find_in rest sz align) (\<lambda>(f, rest'). Inr (f, block # rest')))"

definition find_free_block ::
  "usize \<Rightarrow> usize \<Rightarrow> list_allocator \<Rightarrow> ((list_node \<times> usize) option \<times> list_allocator) res" where
  "find_free_block sz align a =
     and_then (find_in (la_free a) sz align) (\<lambda>(f, fr). Inr (f, a\<lparr>la_free := fr\<rparr>))"

definition size_align :: "layout \<Rightarrow> (usize \<times> usize) res" where
  "size_align l =
     (case align_to l ALIGN_OF_LIST_NODE of
        None \<Rightarrow> Inl (ExpectFailed ''adjusting alignment failed'')
      | Some l' \<Rightarrow>
          let l'' = pad_to_align l'
          in Inr (max (lay_size l'') SIZE_OF_LIST_NODE, lay_align l''))"

text \<open>\<open>alloc\<close> returns the null pointer, address 0, when no block fits.\<close>

definition alloc :: "layout \<Rightarrow> list_allocator \<Rightarrow> (usize \<times> list_allocator) res" where
  "alloc l a =
     and_then (size_align l) (\<lambda>(sz, align).
     and_then (find_free_block sz align a) (\<lambda>(found, a').
       case found of
         None \<Rightarrow> Inr (0, a')
       | Some (node, alloc_start) \<Rightarrow>
           (case checked_add alloc_start sz of
              None \<Rightarrow> Inl (ExpectFailed ''overflow'')
            | Some alloc_end \<Rightarrow>
                and_then (end_addr node) (\<lambda>ne.
                and_then (usub ne alloc_end) (\<lambda>excess.
                  if excess > 0
                  then and_then (add_free_block alloc_end excess a') (\<lambda>a''. Inr (alloc_start, a''))
                  else Inr (alloc_start, a'))))))"

definition dealloc :: "usize \<Rightarrow> layout \<Rightarrow> list_allocator \<Rightarrow> list_allocator res" where
  "dealloc ptr l a = and_then (size_align l) (\<lambda>(sz, align). add_free_block ptr sz a)"

subsection \<open>Address ranges and the shape of the free list\<close>

definition lo :: "list_node \<Rightarrow> nat" where
  "lo n = unat (ln_addr n)"

definition hi :: "list_node \<Rightarrow> nat" where
  "hi n = unat (ln_addr n) + unat (ln_size n)"

definition span :: "list_node \<Rightarrow> nat set" where
  "span n = {lo n..<hi n}"

definition bytes :: "list_node list \<Rightarrow> nat set" where
  "bytes ns = (\<Union>n \<in> set ns. span n)"

definition block_ok :: "nat \<Rightarrow> nat \<Rightarrow> list_node \<Rightarrow> bool" where
  "block_ok hs he n \<longleftrightarrow> hs \<le> lo n \<and> hi n \<le> he \<and> 16 \<le> unat (ln_size n) \<and> 8 dvd lo n \<and> 8 dvd hi n"

definition free_ok :: "nat \<Rightarrow> nat \<Rightarrow> list_node list \<Rightarrow> bool" where
  "free_ok hs he ns \<longleftrightarrow> (\<forall>n \<in> set ns. block_ok hs he n) \<and> sorted_wrt (\<lambda>m n. hi m < lo n) ns"

lemma bytes_simps [simp]:
  "bytes [] = {}" "bytes (n # ns) = span n \<union> bytes ns" "bytes (ms @ ns) = bytes ms \<union> bytes ns"
  by (auto simp: bytes_def)

lemma free_ok_simps [simp]:
  "free_ok hs he []"
  "free_ok hs he (n # ns) \<longleftrightarrow> block_ok hs he n \<and> (\<forall>m \<in> set ns. hi n < lo m) \<and> free_ok hs he ns"
  by (auto simp: free_ok_def)

lemma block_ok_lo_hi: "block_ok hs he n \<Longrightarrow> lo n + 16 \<le> hi n"
  by (auto simp: block_ok_def lo_def hi_def)

lemma end_addr_ok: "hi n < 2 ^ 64 \<Longrightarrow> end_addr n = Inr (ln_addr n + ln_size n)"
  by (simp add: end_addr_def start_addr_def hi_def uadd_nat)

lemma unat_end: "hi n < 2 ^ 64 \<Longrightarrow> unat (ln_addr n + ln_size n) = hi n"
  by (simp add: hi_def unat_add_noov)

lemma end_eq_start: "hi n < 2 ^ 64 \<Longrightarrow> ln_addr n + ln_size n = start_addr m \<longleftrightarrow> hi n = lo m"
  by (simp add: word_unat_eq_iff unat_end start_addr_def lo_def)

lemma end_less_start: "hi n < 2 ^ 64 \<Longrightarrow> ln_addr n + ln_size n < start_addr m \<longleftrightarrow> hi n < lo m"
  by (simp add: word_less_nat_alt unat_end start_addr_def lo_def)

lemma merge_blocks_ok:
  assumes "hi p = lo n" "hi n < 2 ^ 64"
  shows "\<exists>m. merge_blocks p n = Inr m \<and> ln_addr m = ln_addr p \<and> lo m = lo p \<and> hi m = hi n
    \<and> unat (ln_size m) = unat (ln_size p) + unat (ln_size n)"
proof -
  have lt: "hi p < 2 ^ 64" "unat (ln_size p) + unat (ln_size n) < 2 ^ 64"
    using assms by (auto simp: hi_def lo_def)
  have "merge_blocks p n = Inr (p\<lparr>ln_size := ln_size p + ln_size n\<rparr>)"
    using lt assms(1) by (simp add: merge_blocks_def end_addr_ok end_eq_start uadd_nat)
  then show ?thesis
    using lt assms by (auto simp: lo_def hi_def unat_add_noov)
qed

lemma starts_inside_False:
  assumes "hi new \<le> lo nx \<or> hi nx \<le> lo new" "lo new < hi new" "hi nx < 2 ^ 64"
  shows "starts_inside new nx = Inr False"
  using assms
  by (auto simp: starts_inside_def end_addr_ok word_le_nat_alt word_less_nat_alt unat_end
      start_addr_def lo_def)

lemma place_after_head: "ln_size cur = 0 \<Longrightarrow> place_after cur new rest = Inr (cur, new # rest)"
  by (simp add: place_after_def)

definition chain :: "list_node \<Rightarrow> list_node list \<Rightarrow> list_node list" where
  "chain cur rest = (if ln_size cur = 0 then rest else cur # rest)"

definition inserted :: "nat \<Rightarrow> nat \<Rightarrow> list_node \<Rightarrow> list_node list \<Rightarrow> list_node
    \<Rightarrow> list_node \<times> list_node list \<Rightarrow> bool" where
  "inserted hs he cur rest new r \<longleftrightarrow>
     (case r of (cur', rest') \<Rightarrow>
        ln_addr cur' = ln_addr cur \<and> (ln_size cur = 0 \<longrightarrow> cur' = cur)
        \<and> (ln_size cur \<noteq> 0 \<longrightarrow> ln_size cur' \<noteq> 0)
        \<and> free_ok hs he (chain cur' rest')
        \<and> bytes (chain cur' rest') = bytes (chain cur rest) \<union> span new)"

lemma place_after_ok:
  assumes cur: "ln_size cur \<noteq> 0 \<Longrightarrow> block_ok hs he cur \<and> hi cur \<le> lo new"
    and new: "block_ok hs he new" and rest: "free_ok hs he (new # rest)" and he: "he < 2 ^ 64"
  shows "\<exists>r. place_after cur new rest = Inr r \<and> inserted hs he cur rest new r"
proof (cases "ln_size cur = 0")
  case True
  then show ?thesis
    using rest by (auto simp: place_after_head inserted_def chain_def)
next
  case False
  with cur have c: "block_ok hs he cur" "hi cur \<le> lo new" by auto
  have lt: "hi cur < 2 ^ 64" "hi new < 2 ^ 64" using c new he by (auto simp: block_ok_def)
  show ?thesis
  proof (cases "hi cur = lo new")
    case True
    obtain m where m: "merge_blocks cur new = Inr m" "ln_addr m = ln_addr cur" "lo m = lo cur"
      "hi m = hi new" "unat (ln_size m) = unat (ln_size cur) + unat (ln_size new)"
      using merge_blocks_ok [OF True lt(2)] by auto
    have sz: "ln_size m \<noteq> 0" using m(5) False by (auto simp: word_unat_eq_iff)
    have "place_after cur new rest = Inr (m, rest)"
      using False True lt m(1) by (simp add: place_after_def end_addr_ok end_eq_start word_gt_0)
    moreover have "block_ok hs he m" using c new m by (auto simp: block_ok_def)
    moreover have "span m = span cur \<union> span new"
      using True m block_ok_lo_hi [OF c(1)] block_ok_lo_hi [OF new] by (auto simp: span_def)
    ultimately show ?thesis
      using m sz False rest by (auto simp: inserted_def chain_def)
  next
    case nadj: False
    then have "place_after cur new rest = Inr (cur, new # rest)"
      using False lt by (simp add: place_after_def end_addr_ok end_eq_start word_gt_0)
    moreover have "\<forall>m \<in> set (new # rest). hi cur < lo m"
      using nadj c rest block_ok_lo_hi [OF new] by fastforce
    ultimately show ?thesis
      using False c rest by (auto simp: inserted_def chain_def)
  qed
qed

lemma insert_block_ok:
  assumes "free_ok hs he (chain cur rest)" "block_ok hs he new" "he < 2 ^ 64"
    and "span new \<inter> bytes (chain cur rest) = {}"
    and "ln_size cur \<noteq> 0 \<Longrightarrow> hi cur \<le> lo new"
  shows "\<exists>r. insert_block cur rest new = Inr r \<and> inserted hs he cur rest new r"
  using assms
proof (induction rest arbitrary: cur)
  case Nil
  then show ?case
    using place_after_ok [of cur hs he new "[]"] by (auto simp: chain_def split: if_splits)
next
  case (Cons nx rest)
  have cur: "ln_size cur \<noteq> 0 \<Longrightarrow> block_ok hs he cur \<and> hi cur \<le> lo new"
    using Cons.prems by (auto simp: chain_def)
  have nx: "block_ok hs he nx" "free_ok hs he (nx # rest)"
    using Cons.prems(1) by (auto simp: chain_def split: if_splits)
  have dj: "span new \<inter> span nx = {}" "span new \<inter> bytes (nx # rest) = {}"
    using Cons.prems(4) by (auto simp: chain_def split: if_splits)
  note nn = block_ok_lo_hi [OF Cons.prems(2)] block_ok_lo_hi [OF nx(1)]
  have lt: "hi new < 2 ^ 64" "hi nx < 2 ^ 64"
    using Cons.prems(2,3) nx by (auto simp: block_ok_def)
  have sep: "hi new \<le> lo nx \<or> hi nx \<le> lo new"
    using dj(1) nn by (auto simp: span_def ivl_disj_un)
  have si: "starts_inside new nx = Inr False"
    using sep nn lt by (intro starts_inside_False) auto
  consider (before) "hi new < lo nx" | (adj) "hi new = lo nx" | (after) "hi nx \<le> lo new"
    using sep by linarith
  then show ?case
  proof cases
    case before
    have "insert_block cur (nx # rest) new = place_after cur new (nx # rest)"
      using before lt si by (simp add: end_addr_ok end_less_start)
    moreover have "free_ok hs he (new # nx # rest)"
      using before nx Cons.prems(2) nn by auto
    ultimately show ?thesis
      using place_after_ok [OF cur Cons.prems(2) _ Cons.prems(3), of "nx # rest"] by auto
  next
    case adj
    obtain m where m: "merge_blocks new nx = Inr m" "ln_addr m = ln_addr new" "lo m = lo new"
      "hi m = hi nx" "unat (ln_size m) = unat (ln_size new) + unat (ln_size nx)"
      using merge_blocks_ok [OF adj lt(2)] by auto
    have mo: "block_ok hs he m" using m nx Cons.prems(2) by (auto simp: block_ok_def)
    have sp: "span m = span new \<union> span nx" using m adj nn by (auto simp: span_def)
    have "insert_block cur (nx # rest) new = place_after cur m rest"
      using adj lt si m by (simp add: end_addr_ok end_less_start end_eq_start)
    moreover have "free_ok hs he (m # rest)" using mo nx m by auto
    moreover have "ln_size cur \<noteq> 0 \<Longrightarrow> block_ok hs he cur \<and> hi cur \<le> lo m" using cur m by auto
    ultimately obtain r where "insert_block cur (nx # rest) new = Inr r" "inserted hs he cur rest m r"
      using place_after_ok [of cur hs he m rest] mo Cons.prems(3) by auto
    moreover have "bytes (chain cur rest) \<union> span m = bytes (chain cur (nx # rest)) \<union> span new"
      using sp by (auto simp: chain_def)
    ultimately show ?thesis by (auto simp: inserted_def)
  next
    case after
    have ne: "\<not> hi new < lo nx" "hi new \<noteq> lo nx" using after nn by auto
    have sz: "ln_size nx \<noteq> 0" using nx by (auto simp: block_ok_def)
    obtain nx' rest' where r: "insert_block nx rest new = Inr (nx', rest')"
      "inserted hs he nx rest new (nx', rest')"
      using Cons.IH [of nx] nx dj(2) after sz Cons.prems(2,3) by (auto simp: chain_def)
    have "insert_block cur (nx # rest) new = Inr (cur, nx' # rest')"
      using ne lt si r by (simp add: end_addr_ok end_less_start end_eq_start)
    moreover have sz': "ln_size nx' \<noteq> 0" using r(2) sz by (simp add: inserted_def)
    moreover have f: "free_ok hs he (nx' # rest')" "lo nx' = lo nx"
      "bytes (nx' # rest') = bytes (nx # rest) \<union> span new"
      using r(2) sz sz' unfolding inserted_def chain_def lo_def by auto
    moreover have "\<forall>m \<in> set (nx' # rest'). hi cur < lo m" if "ln_size cur \<noteq> 0"
    proof -
      from that Cons.prems(1) f(2) have c: "hi cur < lo nx'" by (simp add: chain_def)
      from f(1) have "lo nx' + 16 \<le> hi nx'" "\<forall>m \<in> set rest'. hi nx' < lo m"
        using block_ok_lo_hi [of hs he nx'] by auto
      with c show ?thesis by fastforce
    qed
    ultimately show ?thesis using cur by (auto simp: inserted_def chain_def)
  qed
qed

lemma bytes_disjoint_mid:
  assumes "free_ok hs he (pre @ b # post)"
  shows "free_ok hs he (pre @ post)" "span b \<inter> bytes (pre @ post) = {}"
    "block_ok hs he b"
proof -
  from assms have "\<forall>n \<in> set pre. hi n < lo b" "\<forall>n \<in> set post. hi b < lo n"
    by (auto simp: free_ok_def sorted_wrt_append)
  moreover have "\<forall>n \<in> set (pre @ post). lo n \<le> hi n" by (simp add: lo_def hi_def)
  ultimately show "span b \<inter> bytes (pre @ post) = {}"
    by (fastforce simp: bytes_def span_def)
  from assms show "free_ok hs he (pre @ post)" "block_ok hs he b"
    by (auto simp: free_ok_def sorted_wrt_append)
qed

lemma lo_in_bytes: "free_ok hs he (n # ns) \<Longrightarrow> lo n \<in> bytes (n # ns)"
  by (auto simp: span_def dest!: block_ok_lo_hi)

lemma free_ok_unique:
  "free_ok hs he xs \<Longrightarrow> free_ok hs he ys \<Longrightarrow> bytes xs = bytes ys \<Longrightarrow> xs = ys"
proof (induction xs arbitrary: ys)
  case Nil
  then show ?case using lo_in_bytes by (cases ys) fastforce+
next
  case (Cons x xs)
  have "bytes ys \<noteq> {}" using Cons.prems(3) lo_in_bytes [OF Cons.prems(1)] by blast
  then obtain y ys' where ys: "ys = y # ys'" by (cases ys) simp_all
  have gen: "lo u \<le> b" if "free_ok hs he (u # us)" "b \<in> bytes (u # us)" for u us b
    using that by (fastforce simp: bytes_def span_def dest: block_ok_lo_hi)
  have gap: "hi u \<notin> bytes (u # us)" if "free_ok hs he (u # us)" for u us
    using that by (fastforce simp: bytes_def span_def)
  have mem: "b \<in> bytes (u # us)" if "lo u \<le> b" "b < hi u" for u us b
    using that by (auto simp: span_def)
  have x: "free_ok hs he (x # xs)" "lo x < hi x" and y: "free_ok hs he (y # ys')" "lo y < hi y"
    using Cons.prems ys by (auto dest!: block_ok_lo_hi)
  have eq: "bytes (x # xs) = bytes (y # ys')" using Cons.prems(3) ys by simp
  have lo: "lo x = lo y"
    using gen [OF x(1), of "lo y"] gen [OF y(1), of "lo x"] mem [of x "lo x" xs] mem [of y "lo y" ys'] x y eq
    by (metis le_antisym order_refl)
  have hi: "hi x = hi y"
  proof (rule ccontr)
    assume "hi x \<noteq> hi y"
    then consider "hi x < hi y" | "hi y < hi x" by linarith
    then show False
    proof cases
      case 1
      then show False using mem [of y "hi x" ys'] gap [OF x(1)] lo x eq by auto
    next
      case 2
      then show False using mem [of x "hi y" xs] gap [OF y(1)] lo y eq by auto
    qed
  qed
  have xy: "x = y"
    using lo hi by (intro list_node.equality) (auto simp: lo_def hi_def word_unat_eq_iff)
  have "span x \<inter> bytes xs = {}" "span x \<inter> bytes ys' = {}"
    using bytes_disjoint_mid [of hs he "[]" x xs] bytes_disjoint_mid [of hs he "[]" y ys'] x y xy by auto
  with eq xy have "bytes xs = bytes ys'" by auto
  with Cons.IH [of ys'] x y have "xs = ys'" by auto
  with xy ys show ?case by simp
qed

definition round_up :: "nat \<Rightarrow> nat \<Rightarrow> nat" where
  "round_up a n = (a + n - 1) div n * n"

definition fits :: "list_node \<Rightarrow> usize \<Rightarrow> usize \<Rightarrow> bool" where
  "fits b sz al \<longleftrightarrow>
     (let e = round_up (lo b) (unat al) + unat sz in e = hi b \<or> e + 16 \<le> hi b)"

definition request_ok :: "usize \<Rightarrow> usize \<Rightarrow> bool" where
  "request_ok sz al \<longleftrightarrow> is_power_of_two al \<and> 8 dvd unat al \<and> unat al \<le> 2 ^ 63
     \<and> 16 \<le> unat sz \<and> 8 dvd unat sz \<and> unat sz \<le> 2 ^ 63"

lemma check_block_ok:
  assumes b: "block_ok hs he b" and he: "he \<le> 2 ^ 63" and rq: "request_ok sz al"
  shows "\<exists>st. check_block_for_alloc b sz al = Inr (if fits b sz al then Some st else None)
    \<and> unat st = round_up (lo b) (unat al)"
proof -
  obtain k where k: "k < 64" "al = 2 ^ k" "unat al = 2 ^ k"
    using rq by (auto simp: request_ok_def elim: is_power_of_two_obtain)
  have bnd: "lo b < 2 ^ 63" "hi b \<le> 2 ^ 63" "unat al \<le> 2 ^ 63" "unat sz \<le> 2 ^ 63"
    using b he rq block_ok_lo_hi [OF b] by (auto simp: block_ok_def request_ok_def)
  have sum: "unat (ln_addr b) + 2 ^ k < 2 ^ 64" using bnd k by (simp add: lo_def)
  obtain st where st: "align_up (ln_addr b) al = Inr st" "unat st = round_up (lo b) (unat al)"
    using align_up_pow2 [OF k(1) sum] k by (auto simp: round_up_def lo_def)
  have e: "end_addr b = Inr (ln_addr b + ln_size b)" "unat (ln_addr b + ln_size b) = hi b"
    using bnd by (simp_all add: end_addr_ok unat_end)
  show ?thesis
  proof (cases "unat st + unat sz < 2 ^ 64")
    case True
    then have ue: "unat (st + sz) = round_up (lo b) (unat al) + unat sz"
      using st by (simp add: unat_add_noov)
    then show ?thesis
      using st e True
      by (intro exI [of _ st])
        (auto simp: check_block_for_alloc_def checked_add_nat start_addr_def usub_def fits_def Let_def
          SIZE_OF_LIST_NODE_def word_less_nat_alt word_le_nat_alt unat_sub_le)
  next
    case False
    then have "\<not> fits b sz al" using st bnd by (auto simp: fits_def Let_def)
    then show ?thesis
      using st False
      by (intro exI [of _ st]) (simp add: check_block_for_alloc_def checked_add_nat start_addr_def)
  qed
qed

lemma find_in_ok:
  assumes "free_ok hs he fr" "he \<le> 2 ^ 63" "request_ok sz al"
  shows "(find_in fr sz al = Inr (None, fr) \<and> (\<forall>b \<in> set fr. \<not> fits b sz al))
    \<or> (\<exists>pre b post st. fr = pre @ b # post \<and> find_in fr sz al = Inr (Some (b, st), pre @ post)
         \<and> (\<forall>p \<in> set pre. \<not> fits p sz al) \<and> fits b sz al \<and> unat st = round_up (lo b) (unat al))"
  using assms(1)
proof (induction fr)
  case (Cons b fr)
  obtain st where st: "check_block_for_alloc b sz al = Inr (if fits b sz al then Some st else None)"
      "unat st = round_up (lo b) (unat al)"
    using check_block_ok [OF _ assms(2,3), of hs b] Cons.prems by auto
  show ?case
  proof (cases "fits b sz al")
    case True
    then have "find_in (b # fr) sz al = Inr (Some (b, st), [] @ fr)" using st by simp
    then show ?thesis using True st(2) by (metis append_Nil empty_iff empty_set)
  next
    case False
    have IH: "(find_in fr sz al = Inr (None, fr) \<and> (\<forall>b \<in> set fr. \<not> fits b sz al))
      \<or> (\<exists>pre b post st. fr = pre @ b # post \<and> find_in fr sz al = Inr (Some (b, st), pre @ post)
         \<and> (\<forall>p \<in> set pre. \<not> fits p sz al) \<and> fits b sz al \<and> unat st = round_up (lo b) (unat al))"
      using Cons by auto
    then show ?thesis
    proof
      assume "find_in fr sz al = Inr (None, fr) \<and> (\<forall>b \<in> set fr. \<not> fits b sz al)"
      then show ?thesis using st False by auto
    next
      assume "\<exists>pre c post t. fr = pre @ c # post \<and> find_in fr sz al = Inr (Some (c, t), pre @ post)
         \<and> (\<forall>p \<in> set pre. \<not> fits p sz al) \<and> fits c sz al \<and> unat t = round_up (lo c) (unat al)"
      then obtain pre c post t where *: "fr = pre @ c # post"
        "find_in fr sz al = Inr (Some (c, t), pre @ post)"
        "\<forall>p \<in> set pre. \<not> fits p sz al" "fits c sz al" "unat t = round_up (lo c) (unat al)"
        by blast
      have "find_in (b # fr) sz al = Inr (Some (c, t), (b # pre) @ post)" using st False * by simp
      moreover have "b # fr = (b # pre) @ c # post" using * by simp
      ultimately show ?thesis using * False by (metis set_ConsD)
    qed
  qed
qed simp

lemma size_align_ok:
  assumes l: "layout_valid l" and sz: "unat (lay_size l) + 8 \<le> 2 ^ 63"
  shows "\<exists>n al. size_align l = Inr (n, al) \<and> request_ok n al \<and> unat (lay_align l) dvd unat al
    \<and> lay_size l \<le> n"
proof -
  obtain k where k: "k < 64" "lay_align l = 2 ^ k" "unat (lay_align l) = 2 ^ k"
    using l by (auto simp: layout_valid_nat elim: is_power_of_two_obtain)
  have k63: "k \<le> 63" using k by simp
  define j where "j = max k 3"
  have j: "j < 64" "k \<le> j" "3 \<le> j" using k by (auto simp: j_def)
  have uj: "unat (2 ^ j :: usize) = 2 ^ j" using j by (intro unat_power2) simp
  have mx: "max (lay_align l) ALIGN_OF_LIST_NODE = 2 ^ j"
  proof (cases "3 \<le> k")
    case True
    then have "(2::nat) ^ 3 \<le> 2 ^ k" by (intro power_increasing) simp_all
    then have "ALIGN_OF_LIST_NODE \<le> lay_align l"
      using k by (simp add: ALIGN_OF_LIST_NODE_def word_le_nat_alt)
    then show ?thesis using True k by (simp add: j_def max_def)
  next
    case False
    then have "k = 0 \<or> k = 1 \<or> k = 2" by linarith
    then show ?thesis using k by (auto simp: j_def ALIGN_OF_LIST_NODE_def max_def word_le_nat_alt)
  qed
  have le: "unat (lay_size l) + 2 ^ j \<le> 2 ^ 63"
    using l sz k by (auto simp: j_def max_def layout_valid_nat)
  define l' where "l' = \<lparr>lay_size = lay_size l, lay_align = (2::usize) ^ j\<rparr>"
  have at: "align_to l ALIGN_OF_LIST_NODE = Some l'"
    using mx le uj j unfolding align_to_def from_size_align_def l'_def
    by (auto simp: Let_def layout_valid_nat is_power_of_two_iff)
  have one: "(1::nat) \<le> 2 ^ j" by simp
  have s: "unat (lay_size l + 2 ^ j) = unat (lay_size l) + 2 ^ j"
    using le uj by (simp add: unat_add_noov)
  have "1 \<le> lay_size l + 2 ^ j" using s one unfolding word_le_nat_alt unat_1 by linarith
  then have t: "unat (lay_size l + 2 ^ j - 1) = unat (lay_size l) + 2 ^ j - 1"
    using s by (simp add: unat_sub_le)
  define n where "n = max ((lay_size l + 2 ^ j - 1) AND NOT (mask j)) SIZE_OF_LIST_NODE"
  have pad: "unat ((lay_size l + 2 ^ j - 1) AND NOT (mask j)) = round_up (unat (lay_size l)) (2 ^ j)"
    using t by (simp add: unat_and_not_mask round_up_def)
  have sa: "size_align l = Inr (n, 2 ^ j)"
    using at by (simp add: size_align_def Let_def pad_to_align_def l'_def n_def mask_eq_exp_minus_1)
  have un: "unat n = max (round_up (unat (lay_size l)) (2 ^ j)) 16"
    using pad by (auto simp: n_def SIZE_OF_LIST_NODE_def max_def word_le_nat_alt)
  note rb = round_up_bounds [of "2 ^ j" "unat (lay_size l)", folded round_up_def]
  have d8: "(8::nat) dvd 2 ^ j"
    using le_imp_power_dvd [OF j(3), of "2::nat"] by simp
  have j63: "(2::nat) ^ j \<le> 2 ^ 63" using j by (intro power_increasing) simp_all
  have "8 dvd unat n"
    using un rb(1) d8 by (auto simp: max_def intro: dvd_trans)
  moreover have "unat (lay_size l) \<le> unat n" "16 \<le> unat n" using un rb(2) by simp_all
  moreover have "unat n \<le> 2 ^ 63" using un rb(3) le by (simp add: max_def)
  moreover have "is_power_of_two (2 ^ j)" using j by (auto simp: is_power_of_two_iff)
  ultimately show ?thesis
    using sa uj d8 j63 k j by (auto simp: request_ok_def word_le_nat_alt le_imp_power_dvd)
qed

definition heap_ok :: "list_allocator \<Rightarrow> bool" where
  "heap_ok a \<longleftrightarrow> ln_size (la_head a) = 0 \<and> 0 < unat (la_heap_start a) \<and> unat (la_heap_end a) \<le> 2 ^ 63
     \<and> free_ok (unat (la_heap_start a)) (unat (la_heap_end a)) (la_free a)"

definition same_heap :: "list_allocator \<Rightarrow> list_allocator \<Rightarrow> bool" where
  "same_heap a a' \<longleftrightarrow> la_head a' = la_head a \<and> la_heap_start a' = la_heap_start a
     \<and> la_heap_end a' = la_heap_end a"

lemma add_free_block_ok:
  assumes a: "heap_ok a"
    and n: "block_ok (unat (la_heap_start a)) (unat (la_heap_end a)) \<lparr>ln_addr = p, ln_size = n\<rparr>"
    and dj: "{unat p..<unat p + unat n} \<inter> bytes (la_free a) = {}"
  shows "\<exists>a'. add_free_block p n a = Inr a' \<and> heap_ok a' \<and> same_heap a a'
    \<and> bytes (la_free a') = bytes (la_free a) \<union> {unat p..<unat p + unat n}"
proof -
  let ?new = "\<lparr>ln_addr = p, ln_size = n\<rparr>"
  let ?hs = "unat (la_heap_start a)" and ?he = "unat (la_heap_end a)"
  have head: "ln_size (la_head a) = 0" "free_ok ?hs ?he (la_free a)" "?he < 2 ^ 64"
    using a by (auto simp: heap_ok_def)
  have sp: "span ?new = {unat p..<unat p + unat n}" by (simp add: span_def lo_def hi_def)
  obtain c r where r: "insert_block (la_head a) (la_free a) ?new = Inr (c, r)"
    "inserted ?hs ?he (la_head a) (la_free a) ?new (c, r)"
    using insert_block_ok [of ?hs ?he "la_head a" "la_free a" ?new] head n dj sp by (auto simp: chain_def)
  have c: "c = la_head a" using r(2) head(1) by (simp add: inserted_def)
  then have r': "c = la_head a" "free_ok ?hs ?he r" "bytes r = bytes (la_free a) \<union> span ?new"
    using r(2) head(1) by (simp_all add: inserted_def chain_def)
  have "add_free_block p n a = Inr (a\<lparr>la_head := la_head a, la_free := r\<rparr>)"
    using r(1) r'(1) by (simp add: add_free_block_def)
  then show ?thesis using a r' sp by (auto simp: heap_ok_def same_heap_def)
qed

text \<open>What a successful allocation of \<open>n\<close> bytes at \<open>p\<close> out of the free block \<open>b\<close> does.\<close>

definition allocated :: "list_allocator \<Rightarrow> usize \<Rightarrow> usize \<Rightarrow> usize \<Rightarrow> list_allocator \<Rightarrow> list_node \<Rightarrow> bool" where
  "allocated a n al p a' b \<longleftrightarrow> p \<noteq> 0 \<and> heap_ok a' \<and> same_heap a a' \<and> b \<in> set (la_free a)
     \<and> List.find (\<lambda>c. fits c n al) (la_free a) = Some b
     \<and> unat p = round_up (lo b) (unat al) \<and> unat p + unat n \<le> hi b
     \<and> bytes (la_free a') = bytes (la_free a) - {lo b..<unat p + unat n}"

lemma find_first: "(\<forall>p \<in> set pre. \<not> P p) \<Longrightarrow> P b \<Longrightarrow> List.find P (pre @ b # post) = Some b"
  by (induction pre) auto

lemma bytes_cut:
  assumes "free_ok hs he (pre @ b # post)" "lo b \<le> e" "e \<le> hi b"
  shows "bytes (pre @ post) \<union> {e..<hi b} = bytes (pre @ b # post) - {lo b..<e}"
proof -
  have "{lo b..<e} \<subseteq> span b" "span b = {lo b..<e} \<union> {e..<hi b}" "{lo b..<e} \<inter> {e..<hi b} = {}"
    using assms(2,3) by (auto simp: span_def)
  then show ?thesis using bytes_disjoint_mid(2) [OF assms(1)] unfolding bytes_simps by blast
qed

lemma alloc_ok:
  assumes a: "heap_ok a" and sa: "size_align l = Inr (n, al)" and rq: "request_ok n al"
  shows "(alloc l a = Inr (0, a) \<and> (\<forall>b \<in> set (la_free a). \<not> fits b n al))
    \<or> (\<exists>p a' b. alloc l a = Inr (p, a') \<and> allocated a n al p a' b)"
proof -
  let ?hs = "unat (la_heap_start a)" and ?he = "unat (la_heap_end a)"
  have fo: "free_ok ?hs ?he (la_free a)" and he: "?he \<le> 2 ^ 63" and hs: "0 < ?hs"
    using a by (auto simp: heap_ok_def)
  from find_in_ok [OF fo he rq] show ?thesis
  proof
    assume *: "find_in (la_free a) n al = Inr (None, la_free a) \<and> (\<forall>b \<in> set (la_free a). \<not> fits b n al)"
    then have "alloc l a = Inr (0, a)" using sa by (simp add: alloc_def find_free_block_def)
    then show ?thesis using * by simp
  next
    assume "\<exists>pre b post st. la_free a = pre @ b # post
        \<and> find_in (la_free a) n al = Inr (Some (b, st), pre @ post)
        \<and> (\<forall>p \<in> set pre. \<not> fits p n al) \<and> fits b n al \<and> unat st = round_up (lo b) (unat al)"
    then obtain pre b post st where *: "la_free a = pre @ b # post"
      "find_in (la_free a) n al = Inr (Some (b, st), pre @ post)"
      "fits b n al" "unat st = round_up (lo b) (unat al)" "\<forall>p \<in> set pre. \<not> fits p n al"
      by blast
    have ff: "List.find (\<lambda>c. fits c n al) (la_free a) = Some b"
      unfolding *(1) using *(3,5) by (intro find_first) auto
    note mid = bytes_disjoint_mid [OF fo [unfolded *(1)]]
    have al: "0 < unat al" "8 dvd unat al" "8 dvd unat n"
      using rq by (auto simp: request_ok_def elim: is_power_of_two_obtain)
    note rb = round_up_bounds [OF al(1), of "lo b", folded round_up_def, folded *(4)]
    have b: "hi b \<le> 2 ^ 63" "?hs \<le> lo b" "8 dvd hi b" using mid(3) he by (auto simp: block_ok_def)
    have fit: "unat st + unat n = hi b \<or> unat st + unat n + 16 \<le> hi b"
      using *(3,4) by (simp add: fits_def Let_def)
    then have le: "unat st + unat n \<le> hi b" by auto
    have e: "end_addr b = Inr (ln_addr b + ln_size b)" "unat (ln_addr b + ln_size b) = hi b"
      using b by (simp_all add: end_addr_ok unat_end)
    have ae: "checked_add st n = Some (st + n)" "unat (st + n) = unat st + unat n"
      using le b by (simp_all add: checked_add_nat unat_add_noov)
    define ex where "ex = ln_addr b + ln_size b - (st + n)"
    have ge: "st + n \<le> ln_addr b + ln_size b" using le ae e by (simp add: word_le_nat_alt)
    have exn: "unat ex = hi b - (unat st + unat n)"
      using ge e ae by (simp add: ex_def unat_sub_le)
    define a1 where "a1 = a\<lparr>la_free := pre @ post\<rparr>"
    have a1: "heap_ok a1" "same_heap a a1" using a mid by (auto simp: a1_def heap_ok_def same_heap_def)
    have al1: "alloc l a = (if ex > 0
        then and_then (add_free_block (st + n) ex a1) (\<lambda>a''. Inr (st, a'')) else Inr (st, a1))"
      using sa * ae e ge by (simp add: alloc_def find_free_block_def usub_def ex_def a1_def)
    have cut: "bytes (pre @ post) \<union> {unat st + unat n..<hi b} = bytes (la_free a) - {lo b..<unat st + unat n}"
      using bytes_cut [OF fo [unfolded *(1)], of "unat st + unat n"] le rb *(1) by simp
    have st0: "st \<noteq> 0" using rb(2) b(2) hs by (auto simp: word_unat_eq_iff)
    have alc: "allocated a n al st a2 b"
      if "heap_ok a2" "same_heap a a2"
        "bytes (la_free a2) = bytes (pre @ post) \<union> {unat st + unat n..<hi b}" for a2
      using that st0 cut * ff le by (simp add: allocated_def)
    show ?thesis
    proof (cases "ex > 0")
      case False
      then have "unat st + unat n = hi b" using exn le by (simp add: word_gt_0)
      then have "allocated a n al st a1 b" using a1 by (intro alc) (auto simp: a1_def)
      then show ?thesis using al1 False by auto
    next
      case True
      then have ex16: "unat st + unat n + 16 \<le> hi b" using fit exn by (auto simp: word_less_nat_alt)
      have "8 dvd unat st" using rb(1) al(2) by (rule dvd_trans [rotated])
      then have d8: "8 dvd unat st + unat n" using al by simp
      have blk: "block_ok ?hs ?he \<lparr>ln_addr = st + n, ln_size = ex\<rparr>"
        using ex16 exn ae d8 b rb mid(3) by (auto simp: block_ok_def lo_def hi_def)
      have "{unat (st + n)..<unat (st + n) + unat ex} \<subseteq> span b"
        using ae exn le rb by (auto simp: span_def)
      then have "{unat (st + n)..<unat (st + n) + unat ex} \<inter> bytes (la_free a1) = {}"
        using mid(2) by (auto simp: a1_def)
      then obtain a2 where a2: "add_free_block (st + n) ex a1 = Inr a2" "heap_ok a2" "same_heap a1 a2"
        "bytes (la_free a2) = bytes (la_free a1) \<union> {unat (st + n)..<unat (st + n) + unat ex}"
        using add_free_block_ok [OF a1(1), of "st + n" ex] blk by (auto simp: a1_def)
      have "allocated a n al st a2 b"
        using a2 a1 ae exn le by (intro alc) (auto simp: a1_def same_heap_def)
      then show ?thesis using al1 True a2 by auto
    qed
  qed
qed

lemma dealloc_ok:
  assumes "heap_ok a" "size_align l = Inr (n, al)"
    and "block_ok (unat (la_heap_start a)) (unat (la_heap_end a)) \<lparr>ln_addr = p, ln_size = n\<rparr>"
    and "{unat p..<unat p + unat n} \<inter> bytes (la_free a) = {}"
  shows "\<exists>a'. dealloc p l a = Inr a' \<and> heap_ok a' \<and> same_heap a a'
    \<and> bytes (la_free a') = bytes (la_free a) \<union> {unat p..<unat p + unat n}"
  using add_free_block_ok [OF assms(1,3,4)] assms(2) by (simp add: dealloc_def)


subsection \<open>Clients of the heap\<close>

definition live_span :: "usize \<times> layout \<Rightarrow> nat set" where
  "live_span x =
     (case size_align (snd x) of
        Inl _ \<Rightarrow> {}
      | Inr (n, _) \<Rightarrow> {unat (fst x)..<unat (fst x) + unat n})"

definition serviceable :: "nat \<Rightarrow> layout \<Rightarrow> bool" where
  "serviceable amax l \<longleftrightarrow> layout_valid l \<and> unat (lay_size l) + 8 \<le> 2 ^ 63 \<and> unat (lay_align l) \<le> amax"

type_synonym heap_sys = "list_allocator \<times> (usize \<times> layout) set"

inductive heap_step :: "nat \<Rightarrow> heap_sys \<Rightarrow> heap_sys \<Rightarrow> bool" for amax where
  allocate: "serviceable amax l \<Longrightarrow> alloc l a = Inr (p, a') \<Longrightarrow> p \<noteq> 0 \<Longrightarrow>
    heap_step amax (a, live) (a', insert (p, l) live)"
| exhausted: "serviceable amax l \<Longrightarrow> alloc l a = Inr (0, a') \<Longrightarrow> heap_step amax (a, live) (a', live)"
| free: "(p, l) \<in> live \<Longrightarrow> dealloc p l a = Inr a' \<Longrightarrow>
    heap_step amax (a, live) (a', live - {(p, l)})"

inductive heap_reachable :: "nat \<Rightarrow> usize \<Rightarrow> usize \<Rightarrow> heap_sys \<Rightarrow> bool" for amax hs sz where
  boot: "init hs sz list_allocator_new = Inr a \<Longrightarrow> heap_reachable amax hs sz (a, {})"
| step: "heap_reachable amax hs sz s \<Longrightarrow> heap_step amax s t \<Longrightarrow> heap_reachable amax hs sz t"

definition boot_ok :: "usize \<Rightarrow> usize \<Rightarrow> bool" where
  "boot_ok hs sz \<longleftrightarrow> 0 < unat hs \<and> 8 dvd unat hs \<and> 8 dvd unat sz \<and> 16 \<le> unat sz
     \<and> unat hs + unat sz \<le> 2 ^ 63"

definition live_ok :: "nat \<Rightarrow> list_allocator \<Rightarrow> usize \<times> layout \<Rightarrow> bool" where
  "live_ok amax a x \<longleftrightarrow> serviceable amax (snd x) \<and> unat (lay_align (snd x)) dvd unat (fst x)
     \<and> (\<exists>n al. size_align (snd x) = Inr (n, al) \<and> lay_size (snd x) \<le> n
          \<and> block_ok (unat (la_heap_start a)) (unat (la_heap_end a)) \<lparr>ln_addr = fst x, ln_size = n\<rparr>)
     \<and> live_span x \<inter> bytes (la_free a) = {}"

definition heap_inv :: "nat \<Rightarrow> usize \<Rightarrow> usize \<Rightarrow> heap_sys \<Rightarrow> bool" where
  "heap_inv amax hs sz s \<longleftrightarrow> (case s of (a, live) \<Rightarrow>
     heap_ok a \<and> la_heap_start a = hs \<and> unat (la_heap_end a) = unat hs + unat sz
     \<and> (\<forall>x \<in> live. live_ok amax a x)
     \<and> (\<forall>x \<in> live. \<forall>y \<in> live. x \<noteq> y \<longrightarrow> live_span x \<inter> live_span y = {})
     \<and> (amax \<le> 8 \<longrightarrow> bytes (la_free a) \<union> (\<Union>x \<in> live. live_span x) = {unat hs..<unat hs + unat sz}))"

lemma init_ok:
  assumes "boot_ok hs sz"
  shows "\<exists>a. init hs sz list_allocator_new = Inr a \<and> heap_inv amax hs sz (a, {})"
proof -
  have he: "unat (hs + sz) = unat hs + unat sz" "uadd hs sz = Inr (hs + sz)"
    using assms by (auto simp: boot_ok_def uadd_nat unat_add_noov)
  define a where "a = \<lparr>la_head = \<lparr>ln_addr = 0, ln_size = 0\<rparr>,
      la_free = [\<lparr>ln_addr = hs, ln_size = sz\<rparr>], la_heap_start = hs, la_heap_end = hs + sz\<rparr>"
  have "init hs sz list_allocator_new = Inr a"
    using he by (simp add: init_def add_free_block_def list_allocator_new_def place_after_def a_def)
  moreover have "heap_inv amax hs sz (a, {})"
    using assms he
    by (auto simp: heap_inv_def heap_ok_def a_def block_ok_def lo_def hi_def span_def boot_ok_def)
  ultimately show ?thesis by blast
qed

lemma round_up_multiple: "0 < n \<Longrightarrow> n dvd a \<Longrightarrow> round_up a n = a"
  using round_up_bounds [of n a] dvd_gap [of n a "round_up a n"]
  by (auto simp: round_up_def) (metis le_neq_implies_less not_less)

lemma size_align_le8:
  assumes "serviceable 8 l" "size_align l = Inr (n, al)"
  shows "unat al = 8"
proof -
  have "align_to l ALIGN_OF_LIST_NODE \<noteq> None"
    using assms(2) by (auto simp: size_align_def split: option.splits)
  then have "al = max (lay_align l) ALIGN_OF_LIST_NODE"
    using assms(2)
    by (auto simp: size_align_def align_to_def from_size_align_def pad_to_align_def Let_def
        split: option.splits if_splits)
  then show ?thesis
    using assms(1) by (auto simp: serviceable_def ALIGN_OF_LIST_NODE_def max_def word_le_nat_alt)
qed

lemma live_span_eq: "size_align (snd x) = Inr (n, al) \<Longrightarrow> live_span x = {unat (fst x)..<unat (fst x) + unat n}"
  by (simp add: live_span_def)

lemma heap_inv_alloc:
  assumes inv: "heap_inv amax hs sz (a, live)" and sv: "serviceable amax l"
    and al: "alloc l a = Inr (p, a')" "p \<noteq> 0"
  shows "heap_inv amax hs sz (a', insert (p, l) live)"
proof -
  have a: "heap_ok a" using inv by (simp add: heap_inv_def)
  obtain n m where sa: "size_align l = Inr (n, m)" "request_ok n m"
      "unat (lay_align l) dvd unat m" "lay_size l \<le> n"
    using size_align_ok [of l] sv by (auto simp: serviceable_def)
  obtain b where b: "allocated a n m p a' b"
    using alloc_ok [OF a sa(1,2)] al by auto
  let ?s = "{unat p..<unat p + unat n}" and ?cut = "{lo b..<unat p + unat n}"
  have sp: "live_span (p, l) = ?s" using sa by (simp add: live_span_def)
  have m: "0 < unat m" using sa(2) by (auto simp: request_ok_def elim: is_power_of_two_obtain)
  note rb = round_up_bounds [OF m, of "lo b", folded round_up_def]
  have bb: "b \<in> set (la_free a)" "unat p = round_up (lo b) (unat m)" "unat p + unat n \<le> hi b"
    "bytes (la_free a') = bytes (la_free a) - ?cut" "heap_ok a'" "same_heap a a'"
    using b by (auto simp: allocated_def)
  have blk: "block_ok (unat (la_heap_start a)) (unat (la_heap_end a)) b"
    using a bb(1) by (auto simp: heap_ok_def free_ok_def)
  have sub: "?s \<subseteq> ?cut" "?cut \<subseteq> bytes (la_free a)"
    using bb rb by (auto simp: bytes_def span_def)
  have dv: "unat m dvd unat p" "8 dvd unat p" "8 dvd unat n" "16 \<le> unat n"
    using rb(1) bb(2) sa(2) by (auto simp: request_ok_def intro: dvd_trans)
  have new: "live_ok amax a' (p, l)"
    using sv sa bb blk rb dv sub sp dvd_trans [OF sa(3) dv(1)]
    by (auto simp: live_ok_def same_heap_def block_ok_def lo_def hi_def)
  have old: "live_ok amax a' x \<and> live_span x \<inter> live_span (p, l) = {}" if "x \<in> live" for x
  proof -
    have x: "live_ok amax a x" using inv that by (simp add: heap_inv_def)
    then have "live_span x \<inter> bytes (la_free a) = {}" by (simp add: live_ok_def)
    moreover from this have "live_span x \<inter> ?s = {}" using sub by blast
    ultimately show ?thesis using x sp bb(4,6) by (auto simp: live_ok_def same_heap_def)
  qed
  have whole: "bytes (la_free a') \<union> (\<Union>x \<in> insert (p, l) live. live_span x) = {unat hs..<unat hs + unat sz}"
    if "amax \<le> 8"
  proof -
    have "serviceable 8 l" using sv that by (auto simp: serviceable_def)
    then have "unat m = 8" using sa(1) by (rule size_align_le8)
    then have "unat p = lo b" using bb(2) blk round_up_multiple [of 8 "lo b"] by (simp add: block_ok_def)
    then have "?cut = ?s" by simp
    then have "bytes (la_free a') \<union> live_span (p, l) = bytes (la_free a)"
      using bb(4) sp sub by auto
    then show ?thesis using inv that by (auto simp: heap_inv_def)
  qed
  have "\<forall>x \<in> insert (p, l) live. \<forall>y \<in> insert (p, l) live. x \<noteq> y \<longrightarrow> live_span x \<inter> live_span y = {}"
  proof -
    have "\<forall>x \<in> live. \<forall>y \<in> live. x \<noteq> y \<longrightarrow> live_span x \<inter> live_span y = {}"
      using inv by (simp add: heap_inv_def)
    then show ?thesis using old by (metis inf_commute insertE)
  qed
  then show ?thesis
    using inv new old whole bb(5,6) by (auto simp: heap_inv_def same_heap_def)
qed

lemma heap_inv_dealloc:
  assumes inv: "heap_inv amax hs sz (a, live)" and x: "(p, l) \<in> live"
  shows "\<exists>a'. dealloc p l a = Inr a' \<and> heap_inv amax hs sz (a', live - {(p, l)})"
proof -
  have a: "heap_ok a" and lv: "live_ok amax a (p, l)" using inv x by (auto simp: heap_inv_def)
  obtain n m where sa: "size_align l = Inr (n, m)"
    "block_ok (unat (la_heap_start a)) (unat (la_heap_end a)) \<lparr>ln_addr = p, ln_size = n\<rparr>"
    using lv by (auto simp: live_ok_def)
  have sp: "live_span (p, l) = {unat p..<unat p + unat n}" using sa by (simp add: live_span_def)
  have dj: "{unat p..<unat p + unat n} \<inter> bytes (la_free a) = {}" using lv sp by (simp add: live_ok_def)
  obtain a' where a': "dealloc p l a = Inr a'" "heap_ok a'" "same_heap a a'"
    "bytes (la_free a') = bytes (la_free a) \<union> live_span (p, l)"
    using dealloc_ok [OF a sa dj] sp by auto
  have rest: "live_ok amax a' y" if "y \<in> live - {(p, l)}" for y
  proof -
    have "live_ok amax a y" "live_span y \<inter> live_span (p, l) = {}"
      using inv that x by (auto simp: heap_inv_def)
    then show ?thesis using a' by (auto simp: live_ok_def same_heap_def)
  qed
  have "bytes (la_free a') \<union> (\<Union>y \<in> live - {(p, l)}. live_span y) = bytes (la_free a) \<union> (\<Union>y \<in> live. live_span y)"
    using a'(4) x by auto
  then have "heap_inv amax hs sz (a', live - {(p, l)})"
    using inv rest a' by (auto simp: heap_inv_def same_heap_def)
  with a'(1) show ?thesis by blast
qed

lemma heap_inv_alloc_total:
  assumes inv: "heap_inv amax hs sz (a, live)" and sv: "serviceable amax l"
  shows "\<exists>r. alloc l a = Inr r \<and> (fst r = 0 \<longrightarrow> snd r = a)"
proof -
  have a: "heap_ok a" using inv by (simp add: heap_inv_def)
  obtain n m where sa: "size_align l = Inr (n, m)" "request_ok n m"
    using size_align_ok [of l] sv by (auto simp: serviceable_def)
  show ?thesis using alloc_ok [OF a sa] by (auto simp: allocated_def)
qed

lemma heap_step_inv [inv_intros]:
  assumes "heap_step amax s t" "heap_inv amax hs sz s"
  shows "heap_inv amax hs sz t"
  using assms
proof (induction rule: heap_step.induct)
  case (allocate l a p a' live)
  then show ?case by (blast intro: heap_inv_alloc)
next
  case (exhausted l a a' live)
  then show ?case using heap_inv_alloc_total by fastforce
next
  case (free p l live a a')
  then show ?case using heap_inv_dealloc by fastforce
qed

lemma heap_reachable_inv: "heap_reachable amax hs sz s \<Longrightarrow> boot_ok hs sz \<Longrightarrow> heap_inv amax hs sz s"
proof (induction rule: heap_reachable.induct)
  case (boot a)
  then show ?case using init_ok [of hs sz amax] by auto
next
  case (step s t)
  then show ?case by (blast intro: heap_step_inv)
qed

lemma insert_block_double_free:
  assumes "free_ok hs he rest" "he < 2 ^ 64" "lo new \<in> bytes rest" "hi new < 2 ^ 64" "lo new < hi new"
  shows "insert_block cur rest new = Inl (PanicMsg ''Double free or overlapping block detected'')"
  using assms(1,3)
proof (induction rest arbitrary: cur)
  case (Cons nx rest)
  have nx: "block_ok hs he nx" "hi nx < 2 ^ 64" "lo nx < hi nx"
    using Cons.prems assms(2) block_ok_lo_hi [of hs he nx] by (auto simp: block_ok_def)
  show ?case
  proof (cases "lo new \<in> span nx")
    case True
    then have "starts_inside new nx = Inr True"
      using nx by (auto simp: starts_inside_def end_addr_ok word_le_nat_alt word_less_nat_alt
          unat_end start_addr_def lo_def span_def)
    then show ?thesis by simp
  next
    case False
    then have "lo new \<in> bytes rest" using Cons.prems(2) by simp
    moreover have "hi nx < lo new"
      using calculation Cons.prems(1) by (fastforce simp: bytes_def span_def)
    moreover have "starts_inside new nx = Inr False"
      using calculation nx assms(5) by (intro starts_inside_False) auto
    moreover have "\<not> hi new < lo nx" "hi new \<noteq> lo nx" using calculation nx assms(5) by auto
    ultimately show ?thesis
      using Cons assms(4) by (simp add: end_addr_ok end_less_start end_eq_start)
  qed
qed simp

subsection \<open>A concrete heap\<close>

text \<open>
  A heap of one page at \<open>0x100000\<close> and two requests on it, the second one over-aligned: the
  states the witnesses of the properties evaluate.
\<close>

definition demo_heap :: "list_node list \<Rightarrow> list_allocator" where
  "demo_heap fr = \<lparr>la_head = \<lparr>ln_addr = 0, ln_size = 0\<rparr>, la_free = fr,
     la_heap_start = 0x100000, la_heap_end = 0x101000\<rparr>"

abbreviation demo_free0 :: "list_node list" where
  "demo_free0 \<equiv> [\<lparr>ln_addr = 0x100000, ln_size = 0x1000\<rparr>]"

abbreviation demo_free1 :: "list_node list" where
  "demo_free1 \<equiv> [\<lparr>ln_addr = 0x100018, ln_size = 0xfe8\<rparr>]"

abbreviation demo_free2 :: "list_node list" where
  "demo_free2 \<equiv> [\<lparr>ln_addr = 0x100080, ln_size = 0xf80\<rparr>]"

abbreviation demo_lay1 :: layout where
  "demo_lay1 \<equiv> \<lparr>lay_size = 20, lay_align = 4\<rparr>"

abbreviation demo_lay2 :: layout where
  "demo_lay2 \<equiv> \<lparr>lay_size = 16, lay_align = 64\<rparr>"

lemma demo_init: "init 0x100000 0x1000 list_allocator_new = Inr (demo_heap demo_free0)"
  by code_simp

lemma demo_alloc1: "alloc demo_lay1 (demo_heap demo_free0) = Inr (0x100000, demo_heap demo_free1)"
  by code_simp

lemma demo_alloc2: "alloc demo_lay2 (demo_heap demo_free1) = Inr (0x100040, demo_heap demo_free2)"
  by code_simp

lemma demo_boot_ok: "boot_ok 0x100000 0x1000"
  by (simp add: boot_ok_def)

lemma demo_serviceable: "serviceable 8 demo_lay1" "serviceable 64 demo_lay1" "serviceable 64 demo_lay2"
proof -
  have "is_power_of_two 4" "is_power_of_two 64"
    unfolding is_power_of_two_iff by (intro exI [of _ 2], simp) (intro exI [of _ 6], simp)
  then show "serviceable 8 demo_lay1" "serviceable 64 demo_lay1" "serviceable 64 demo_lay2"
    by (simp_all add: serviceable_def layout_valid_nat)
qed

lemma demo_reachable1:
  assumes "serviceable amax demo_lay1"
  shows "heap_reachable amax 0x100000 0x1000 (demo_heap demo_free1, {(0x100000, demo_lay1)})"
  using heap_reachable.step [OF heap_reachable.boot [OF demo_init]
      heap_step.allocate [OF assms demo_alloc1, where live = "{}"]] by simp

lemma demo_reachable2:
  "heap_reachable 64 0x100000 0x1000
     (demo_heap demo_free2, {(0x100040, demo_lay2), (0x100000, demo_lay1)})"
  using heap_reachable.step [OF demo_reachable1 [OF demo_serviceable(2)]
      heap_step.allocate [OF demo_serviceable(3) demo_alloc2]] by simp

lemma demo_heap_ok: "heap_ok (demo_heap demo_free0)"
  using init_ok [OF demo_boot_ok, of 8] demo_init by (simp add: heap_inv_def)

subsection \<open>Properties\<close>

text \<open>
  C1. In every state the heap reaches from its initialisation by any sequence of \<open>alloc\<close> and
  \<open>dealloc\<close> calls of well-behaved clients (requests with valid layouts, each block freed at
  most once), a live allocation lies inside the heap, is aligned as requested, has at least
  the requested size, and overlaps neither another live allocation nor the free list.
\<close>

theorem heap_live_blocks_disjoint:
  assumes "boot_ok hs sz" and "heap_reachable amax hs sz (a, live)"
    and "x \<in> live"
  shows "(\<forall>y \<in> live. y \<noteq> x \<longrightarrow> live_span x \<inter> live_span y = {})
    \<and> live_span x \<inter> bytes (la_free a) = {}
    \<and> live_span x \<subseteq> {unat hs..<unat hs + unat sz}
    \<and> unat (lay_align (snd x)) dvd unat (fst x)
    \<and> unat (lay_size (snd x)) \<le> card (live_span x)"
proof -
  have inv: "heap_inv amax hs sz (a, live)" using heap_reachable_inv assms by blast
  then have x: "live_ok amax a x" and h: "la_heap_start a = hs" "unat (la_heap_end a) = unat hs + unat sz"
    using assms(3) by (auto simp: heap_inv_def)
  obtain n al where n: "size_align (snd x) = Inr (n, al)" "lay_size (snd x) \<le> n"
    "block_ok (unat hs) (unat hs + unat sz) \<lparr>ln_addr = fst x, ln_size = n\<rparr>"
    using x h by (auto simp: live_ok_def)
  then have "live_span x \<subseteq> {unat hs..<unat hs + unat sz}" "unat (lay_size (snd x)) \<le> card (live_span x)"
    by (auto simp: live_span_def block_ok_def lo_def hi_def word_le_nat_alt)
  then show ?thesis using inv x assms(3) by (simp add: heap_inv_def live_ok_def)
qed

theorem heap_live_blocks_disjoint_witness:
  "live_span (0x100040, demo_lay2) \<inter> live_span (0x100000, demo_lay1) = {}
    \<and> unat (64 :: usize) dvd unat (0x100040 :: usize)"
  using heap_live_blocks_disjoint [OF demo_boot_ok demo_reachable2, of "(0x100040, demo_lay2)"] by simp

text \<open>
  C18. On such a heap initialisation succeeds, and no request and no release of a live block ever
  panics; a failed request (null pointer) leaves the allocator unchanged.
\<close>

theorem heap_never_panics:
  assumes "boot_ok hs sz" and "heap_reachable amax hs sz (a, live)"
  shows "(\<exists>a0. init hs sz list_allocator_new = Inr a0)
    \<and> (serviceable amax l \<longrightarrow> (\<exists>p a'. alloc l a = Inr (p, a') \<and> (p = 0 \<longrightarrow> a' = a)))
    \<and> ((p, m) \<in> live \<longrightarrow> (\<exists>a'. dealloc p m a = Inr a'))"
proof -
  have inv: "heap_inv amax hs sz (a, live)" using heap_reachable_inv assms by blast
  show ?thesis
    using init_ok [OF assms(1)] heap_inv_alloc_total [OF inv, of l] heap_inv_dealloc [OF inv, of p m]
    by auto
qed

theorem heap_never_panics_witness:
  "(\<exists>p a'. alloc demo_lay2 (demo_heap demo_free2) = Inr (p, a'))
    \<and> (\<exists>a'. dealloc 0x100000 demo_lay1 (demo_heap demo_free2) = Inr a')"
  using heap_never_panics [OF demo_boot_ok demo_reachable2, of demo_lay2 "0x100000" demo_lay1]
    demo_serviceable by blast

text \<open>
  C9. For clients whose alignment is at most 8 the allocator loses no byte: free list and live
  allocations always cover the heap exactly, and when everything has been freed the free
  list is again the single block that \<open>init\<close> made, so coalescing is complete.
\<close>

theorem heap_never_leaks:
  assumes "boot_ok hs sz" and "heap_reachable 8 hs sz (a, live)"
  shows "bytes (la_free a) \<union> (\<Union>x \<in> live. live_span x) = {unat hs..<unat hs + unat sz}
    \<and> (live = {} \<longrightarrow> la_free a = [\<lparr>ln_addr = hs, ln_size = sz\<rparr>])"
proof -
  have inv: "heap_inv 8 hs sz (a, live)" using heap_reachable_inv assms by blast
  let ?b = "\<lparr>ln_addr = hs, ln_size = sz\<rparr>"
  have "la_free a = [?b]" if "live = {}"
  proof (rule free_ok_unique)
    show "free_ok (unat hs) (unat hs + unat sz) (la_free a)"
    proof -
      have "free_ok (unat (la_heap_start a)) (unat (la_heap_end a)) (la_free a)" "la_heap_start a = hs"
        "unat (la_heap_end a) = unat hs + unat sz" using inv by (auto simp: heap_inv_def heap_ok_def)
      then show ?thesis by simp
    qed
    show "free_ok (unat hs) (unat hs + unat sz) [?b]"
      using assms(1) by (simp add: block_ok_def lo_def hi_def boot_ok_def)
    show "bytes (la_free a) = bytes [?b]"
      using inv that by (simp add: heap_inv_def span_def lo_def hi_def)
  qed
  then show ?thesis using inv by (simp add: heap_inv_def)
qed

theorem heap_never_leaks_witness:
  "bytes demo_free1 \<union> live_span (0x100000, demo_lay1) = {unat (0x100000 :: usize)..<unat (0x100000 :: usize) + unat (0x1000 :: usize)}"
  using heap_never_leaks [OF demo_boot_ok demo_reachable1 [OF demo_serviceable(1)]]
  by (simp add: demo_heap_def)

text \<open>
  \<open>alloc\<close> is first fit and complete: it returns null, changing nothing, exactly when no free
  block fits the request, and otherwise it allocates at the aligned start of the first one
  that fits and removes exactly the bytes up to the end of the allocation from the free list.
\<close>

theorem alloc_first_fit:
  assumes "heap_ok a" and "serviceable amax l"
  shows "\<exists>n al. size_align l = Inr (n, al) \<and>
    (case List.find (\<lambda>b. fits b n al) (la_free a) of
       None \<Rightarrow> alloc l a = Inr (0, a)
     | Some b \<Rightarrow> \<exists>p a'. alloc l a = Inr (p, a') \<and> p \<noteq> 0 \<and> heap_ok a'
         \<and> unat p = round_up (lo b) (unat al)
         \<and> bytes (la_free a') = bytes (la_free a) - {lo b..<unat p + unat n})"
proof -
  obtain n al where sa: "size_align l = Inr (n, al)" "request_ok n al"
    using size_align_ok [of l] assms(2) by (auto simp: serviceable_def)
  show ?thesis
  proof (cases "List.find (\<lambda>b. fits b n al) (la_free a)")
    case None
    then show ?thesis using alloc_ok [OF assms(1) sa] sa(1) by (auto simp: allocated_def)
  next
    case (Some b)
    then have "\<exists>c \<in> set (la_free a). fits c n al" by (auto simp: find_Some_iff)
    then show ?thesis using alloc_ok [OF assms(1) sa] sa(1) Some by (auto simp: allocated_def)
  qed
qed

theorem alloc_first_fit_witness:
  "\<exists>n al. size_align demo_lay1 = Inr (n, al) \<and>
    (case List.find (\<lambda>b. fits b n al) demo_free0 of
       None \<Rightarrow> alloc demo_lay1 (demo_heap demo_free0) = Inr (0, demo_heap demo_free0)
     | Some b \<Rightarrow> \<exists>p a'. alloc demo_lay1 (demo_heap demo_free0) = Inr (p, a') \<and> p \<noteq> 0)"
  using alloc_first_fit [OF demo_heap_ok demo_serviceable(1)]
  by (fastforce simp: demo_heap_def split: option.splits)

text \<open>
  Freeing a block of alignment at most 8 right after its allocation restores the allocator
  exactly, list structure included.
\<close>

theorem alloc_dealloc_restores:
  assumes "heap_ok a" and "serviceable 8 l" and "alloc l a = Inr (p, a')" and "p \<noteq> 0"
  shows "dealloc p l a' = Inr a"
proof -
  obtain n al where sa: "size_align l = Inr (n, al)" "request_ok n al"
    using size_align_ok [of l] assms(2) by (auto simp: serviceable_def)
  obtain b where b: "allocated a n al p a' b" using alloc_ok [OF assms(1) sa] assms(3,4) by auto
  let ?hs = "unat (la_heap_start a)" and ?he = "unat (la_heap_end a)"
  let ?s = "{unat p..<unat p + unat n}"
  have al8: "unat al = 8" using assms(2) sa(1) by (rule size_align_le8)
  have blk: "block_ok ?hs ?he b" "free_ok ?hs ?he (la_free a)" "b \<in> set (la_free a)"
    using assms(1) b by (auto simp: heap_ok_def free_ok_def allocated_def)
  have p: "unat p = lo b" "unat p + unat n \<le> hi b" "bytes (la_free a') = bytes (la_free a) - ?s"
    "heap_ok a'" "same_heap a a'"
    using b al8 blk(1) round_up_multiple [of 8 "lo b"] by (simp_all add: allocated_def block_ok_def)
  have sub: "?s \<subseteq> bytes (la_free a)" using p blk(3) by (auto simp: bytes_def span_def)
  have "block_ok (unat (la_heap_start a')) (unat (la_heap_end a')) \<lparr>ln_addr = p, ln_size = n\<rparr>"
    using blk(1) p sa(2) by (auto simp: block_ok_def lo_def hi_def same_heap_def request_ok_def)
  then obtain a2 where a2: "dealloc p l a' = Inr a2" "heap_ok a2" "same_heap a' a2"
    "bytes (la_free a2) = bytes (la_free a') \<union> ?s"
    using dealloc_ok [OF p(4) sa(1), of p] p(3) by auto
  have "la_free a2 = la_free a"
    using a2 p blk(2) sub by (intro free_ok_unique [of ?hs ?he]) (auto simp: heap_ok_def same_heap_def)
  then have "a2 = a" using a2(3) p(5) by (simp add: same_heap_def)
  with a2(1) show ?thesis by simp
qed

theorem alloc_dealloc_restores_witness:
  "dealloc 0x100000 demo_lay1 (demo_heap demo_free1) = Inr (demo_heap demo_free0)"
  using alloc_dealloc_restores [OF demo_heap_ok demo_serviceable(1) demo_alloc1] by simp

text \<open>
  Freeing an address that lies in a free block, a double free in particular, is reported by
  the overlap panic and never corrupts the list.
\<close>

theorem double_free_detected:
  assumes "heap_ok a" and "serviceable amax l" and "unat p \<in> bytes (la_free a)"
  shows "dealloc p l a = Inl (PanicMsg ''Double free or overlapping block detected'')"
proof -
  obtain n al where sa: "size_align l = Inr (n, al)" "request_ok n al"
    using size_align_ok [of l] assms(2) by (auto simp: serviceable_def)
  let ?new = "\<lparr>ln_addr = p, ln_size = n\<rparr>"
  have "unat p < 2 ^ 63"
    using assms(1,3) by (fastforce simp: heap_ok_def free_ok_def bytes_def span_def block_ok_def)
  then have "hi ?new < 2 ^ 64" "lo ?new < hi ?new" using sa(2) by (auto simp: hi_def lo_def request_ok_def)
  then have "insert_block (la_head a) (la_free a) ?new
      = Inl (PanicMsg ''Double free or overlapping block detected'')"
    using assms(1,3) by (intro insert_block_double_free [of "unat (la_heap_start a)" "unat (la_heap_end a)"]) (auto simp: heap_ok_def lo_def)
  then show ?thesis using sa(1) by (simp add: dealloc_def add_free_block_def)
qed

theorem double_free_detected_witness:
  "dealloc 0x100010 demo_lay1 (demo_heap demo_free0)
     = Inl (PanicMsg ''Double free or overlapping block detected'')"
proof -
  have "unat (0x100010 :: usize) \<in> bytes (la_free (demo_heap demo_free0))"
    by (simp add: demo_heap_def bytes_def span_def lo_def hi_def)
  then show ?thesis using double_free_detected [OF demo_heap_ok demo_serviceable(1)] by blast
qed

text \<open>
  The overlap test only looks at where the new block starts: releasing a block that starts
  below a free block and reaches into it is accepted, and leaves the free list unsorted with
  two overlapping blocks.
\<close>

theorem overlap_from_below_undetected:
  "dealloc 0x100000 \<lparr>lay_size = 0x40, lay_align = 8\<rparr>
       (demo_heap [\<lparr>ln_addr = 0x100020, ln_size = 0x40\<rparr>])
     = Inr (demo_heap [\<lparr>ln_addr = 0x100020, ln_size = 0x40\<rparr>, \<lparr>ln_addr = 0x100000, ln_size = 0x40\<rparr>])
   \<and> \<not> heap_ok (demo_heap [\<lparr>ln_addr = 0x100020, ln_size = 0x40\<rparr>, \<lparr>ln_addr = 0x100000, ln_size = 0x40\<rparr>])"
proof
  show "dealloc 0x100000 \<lparr>lay_size = 0x40, lay_align = 8\<rparr>
       (demo_heap [\<lparr>ln_addr = 0x100020, ln_size = 0x40\<rparr>])
     = Inr (demo_heap [\<lparr>ln_addr = 0x100020, ln_size = 0x40\<rparr>, \<lparr>ln_addr = 0x100000, ln_size = 0x40\<rparr>])"
    by code_simp
qed (simp add: heap_ok_def demo_heap_def lo_def hi_def)

end
