(* ===== verification/Heap.thy ===== *)
theory Heap
  imports Alloc_List Alloc_Bump Spinlock
begin

text \<open>
  \<^verbatim>\<open>kernel/src/allocator/global.rs\<close>: the allocators behind a spinlock (\<open>Locked\<close>), as Rust's
  global allocator uses them, and the set-up of the kernel heap. The locale \<open>allocator\<close> is what
  the locked wrapper relies on; the linked-list allocator is interpreted as one. \<^term>\<open>None\<close> is a
  lock that is never released.
\<close>

subsection \<open>Locked allocators\<close>

definition locked_new :: "'a \<Rightarrow> 'a spinlock" where
  "locked_new a = spinlock_new a"

definition locked_alloc ::
  "(layout \<Rightarrow> 'a \<Rightarrow> (usize \<times> 'a) res) \<Rightarrow> layout \<Rightarrow> 'a spinlock \<Rightarrow> (usize \<times> 'a spinlock) res option" where
  "locked_alloc al l s =
     (case lock s of
        None \<Rightarrow> None
      | Some g \<Rightarrow> Some (and_then (al l (guard_deref g)) (\<lambda>(p, a).
          Inr (p, guard_drop (guard_deref_mut (\<lambda>_. a) g)))))"

definition locked_dealloc ::
  "(usize \<Rightarrow> layout \<Rightarrow> 'a \<Rightarrow> 'a res) \<Rightarrow> usize \<Rightarrow> layout \<Rightarrow> 'a spinlock \<Rightarrow> 'a spinlock res option" where
  "locked_dealloc de p l s =
     (case lock s of
        None \<Rightarrow> None
      | Some g \<Rightarrow> Some (and_then (de p l (guard_deref g)) (\<lambda>a.
          Inr (guard_drop (guard_deref_mut (\<lambda>_. a) g)))))"

subsection \<open>The global allocator\<close>

definition is_allocator_locked :: "list_allocator spinlock \<Rightarrow> bool" where
  "is_allocator_locked s = is_locked s"

definition init_allocator :: "usize \<Rightarrow> usize \<Rightarrow> list_allocator spinlock \<Rightarrow> list_allocator spinlock res option" where
  "init_allocator hs sz s =
     (case lock s of
        None \<Rightarrow> None
      | Some g \<Rightarrow> Some (and_then (init hs sz (guard_deref g)) (\<lambda>a.
          Inr (guard_drop (guard_deref_mut (\<lambda>_. a) g)))))"

definition global_alloc :: "layout \<Rightarrow> list_allocator spinlock \<Rightarrow> (usize \<times> list_allocator spinlock) res option" where
  "global_alloc = locked_alloc alloc"

definition global_dealloc :: "usize \<Rightarrow> layout \<Rightarrow> list_allocator spinlock \<Rightarrow> list_allocator spinlock res option" where
  "global_dealloc = locked_dealloc dealloc"

subsection \<open>The contract of an allocator\<close>

text \<open>
  An allocator keeps its invariant \<open>ok\<close> under the requests it can serve (\<open>fine\<close>) without
  panicking, and under releases of blocks it owns (\<open>owned\<close>).
\<close>

locale allocator =
  fixes al :: "layout \<Rightarrow> 'a \<Rightarrow> (usize \<times> 'a) res"
    and de :: "usize \<Rightarrow> layout \<Rightarrow> 'a \<Rightarrow> 'a res"
    and ok :: "'a \<Rightarrow> bool"
    and fine :: "layout \<Rightarrow> bool"
    and owned :: "usize \<Rightarrow> layout \<Rightarrow> 'a \<Rightarrow> bool"
  assumes al_ok: "ok a \<Longrightarrow> fine l \<Longrightarrow> \<exists>p a'. al l a = Inr (p, a') \<and> ok a' \<and> (p \<noteq> 0 \<longrightarrow> owned p l a')"
    and de_ok: "ok a \<Longrightarrow> fine l \<Longrightarrow> owned p l a \<Longrightarrow> \<exists>a'. de p l a = Inr a' \<and> ok a'"
begin

lemma locked_alloc_returns:
  assumes "\<not> is_locked s" "ok (inner s)" "fine l"
  shows "\<exists>p s'. locked_alloc al l s = Some (Inr (p, s')) \<and> al l (inner s) = Inr (p, inner s')
    \<and> \<not> is_locked s' \<and> ok (inner s') \<and> (p \<noteq> 0 \<longrightarrow> owned p l (inner s'))"
  using assms al_ok [OF assms(2,3)] by (auto simp: locked_alloc_def lock_eq spinlock_defs)

lemma locked_dealloc_returns:
  assumes "\<not> is_locked s" "ok (inner s)" "fine l" "owned p l (inner s)"
  shows "\<exists>s'. locked_dealloc de p l s = Some (Inr s') \<and> \<not> is_locked s' \<and> ok (inner s')"
  using assms de_ok [OF assms(2,3,4)] by (auto simp: locked_dealloc_def lock_eq spinlock_defs)

lemma locked_roundtrip:
  assumes "\<not> is_locked s" "ok (inner s)" "fine l" "locked_alloc al l s = Some (Inr (p, s'))" "p \<noteq> 0"
  shows "\<exists>s''. locked_dealloc de p l s' = Some (Inr s'') \<and> \<not> is_locked s'' \<and> ok (inner s'')"
  using locked_alloc_returns [OF assms(1-3)] assms(4,5) locked_dealloc_returns [of s' l p] assms(3) by auto

end

text \<open>The block at \<open>p\<close> lies in the heap and none of it is in the free list.\<close>

definition owned_block :: "usize \<Rightarrow> layout \<Rightarrow> list_allocator \<Rightarrow> bool" where
  "owned_block p l a \<longleftrightarrow> (\<exists>n m. size_align l = Inr (n, m)
     \<and> block_ok (unat (la_heap_start a)) (unat (la_heap_end a)) \<lparr>ln_addr = p, ln_size = n\<rparr>
     \<and> {unat p..<unat p + unat n} \<inter> bytes (la_free a) = {})"

lemma alloc_owned:
  assumes a: "heap_ok a" and sv: "serviceable amax l"
  shows "\<exists>p a'. alloc l a = Inr (p, a') \<and> heap_ok a' \<and> (p \<noteq> 0 \<longrightarrow> owned_block p l a')"
proof -
  obtain n m where sa: "size_align l = Inr (n, m)" "request_ok n m"
    using size_align_ok [of l] sv by (auto simp: serviceable_def)
  from alloc_ok [OF a sa] show ?thesis
  proof
    assume "alloc l a = Inr (0, a) \<and> (\<forall>b \<in> set (la_free a). \<not> fits b n m)"
    then show ?thesis using a by blast
  next
    assume "\<exists>p a' b. alloc l a = Inr (p, a') \<and> allocated a n m p a' b"
    then obtain p a' b where b: "alloc l a = Inr (p, a')" "allocated a n m p a' b" by blast
    have m: "0 < unat m" using sa(2) by (auto simp: request_ok_def elim: is_power_of_two_obtain)
    note rb = round_up_bounds [OF m, of "lo b", folded round_up_def]
    have bb: "b \<in> set (la_free a)" "unat p = round_up (lo b) (unat m)" "unat p + unat n \<le> hi b"
      "bytes (la_free a') = bytes (la_free a) - {lo b..<unat p + unat n}" "heap_ok a'" "same_heap a a'"
      using b(2) by (auto simp: allocated_def)
    have blk: "block_ok (unat (la_heap_start a)) (unat (la_heap_end a)) b"
      using a bb(1) by (auto simp: heap_ok_def free_ok_def)
    have "8 dvd unat p" "8 dvd unat n" "16 \<le> unat n"
      using rb(1) bb(2) sa(2) by (auto simp: request_ok_def intro: dvd_trans)
    then have "owned_block p l a'"
      using sa(1) bb blk rb by (auto simp: owned_block_def same_heap_def block_ok_def lo_def hi_def)
    then show ?thesis using b(1) bb(5) by blast
  qed
qed

interpretation la: allocator alloc dealloc heap_ok "serviceable amax" owned_block for amax
proof unfold_locales
  show "\<exists>p a'. alloc l a = Inr (p, a') \<and> heap_ok a' \<and> (p \<noteq> 0 \<longrightarrow> owned_block p l a')"
    if "heap_ok a" "serviceable amax l" for a l using that by (rule alloc_owned)
  show "\<exists>a'. dealloc p l a = Inr a' \<and> heap_ok a'" if "heap_ok a" "serviceable amax l" "owned_block p l a" for a l p
    using that dealloc_ok [of a l _ _ p] by (auto simp: owned_block_def)
qed

subsection \<open>Properties\<close>

lemma heap_boots:
  assumes "0 < kernel_end" "unat kernel_end < 2 ^ 62"
  shows "\<exists>hs a. heap_start kernel_end = Inr hs \<and> 4096 dvd unat hs \<and> unat kernel_end \<le> unat hs
    \<and> unat hs < unat kernel_end + 4096 \<and> heap_ok a \<and> la_free a = [\<lparr>ln_addr = hs, ln_size = HEAP_SIZE\<rparr>]
    \<and> init_allocator hs HEAP_SIZE (locked_new list_allocator_new) = Some (Inr (spinlock_new a))"
proof -
  obtain hs where hs: "heap_start kernel_end = Inr hs" "unat hs = (unat kernel_end + 2 ^ 12 - 1) div 2 ^ 12 * 2 ^ 12"
    using align_up_pow2 [of 12 kernel_end] assms(2) by (auto simp: heap_start_def PAGE_SIZE_def)
  note rb = round_up_bounds [of "2 ^ 12" "unat kernel_end", folded hs(2)]
  have d: "4096 dvd unat hs" "unat kernel_end \<le> unat hs" "unat hs < unat kernel_end + 4096" using rb by simp_all
  have boot: "boot_ok hs HEAP_SIZE"
    using d assms(1,2) dvd_trans [OF _ d(1), of 8] by (auto simp: boot_ok_def HEAP_SIZE_def word_less_nat_alt)
  have he: "uadd hs HEAP_SIZE = Inr (hs + HEAP_SIZE)" using boot by (auto simp: boot_ok_def uadd_nat)
  obtain a where a: "init hs HEAP_SIZE list_allocator_new = Inr a" "heap_ok a" "la_free a = [\<lparr>ln_addr = hs, ln_size = HEAP_SIZE\<rparr>]"
    using init_ok [OF boot, of 0] he
    by (auto simp: heap_inv_def init_def add_free_block_def list_allocator_new_def place_after_def)
  have "init_allocator hs HEAP_SIZE (locked_new list_allocator_new) = Some (Inr (spinlock_new a))"
    using a(1) by (simp add: init_allocator_def locked_new_def lock_eq spinlock_defs)
  then show ?thesis using hs(1) d a(2,3) by blast
qed

text \<open>
  Booting the heap: for any end of the kernel image in the lower half of the address space
  the heap starts at the next page boundary, \<open>init_allocator\<close> with the kernel's constants
  succeeds and leaves a well-formed, unlocked allocator with one free block of 16 MiB; from then on
  every serviceable request returns with the lock released, and a block that was handed out
  can be returned.
\<close>

theorem kernel_heap_boots:
  assumes "0 < kernel_end" and "unat kernel_end < 2 ^ 62" and "serviceable amax l"
  shows "\<exists>hs s. heap_start kernel_end = Inr hs \<and> 4096 dvd unat hs \<and> kernel_end \<le> hs \<and> unat hs < unat kernel_end + 4096
    \<and> init_allocator hs HEAP_SIZE (locked_new list_allocator_new) = Some (Inr s) \<and> \<not> is_allocator_locked s
    \<and> la_free (inner s) = [\<lparr>ln_addr = hs, ln_size = HEAP_SIZE\<rparr>]
    \<and> (\<exists>p s'. global_alloc l s = Some (Inr (p, s')) \<and> \<not> is_allocator_locked s'
         \<and> (p \<noteq> 0 \<longrightarrow> (\<exists>s''. global_dealloc p l s' = Some (Inr s'') \<and> \<not> is_allocator_locked s'')))"
proof -
  obtain hs a where b: "heap_start kernel_end = Inr hs" "4096 dvd unat hs" "unat kernel_end \<le> unat hs"
    "unat hs < unat kernel_end + 4096" "heap_ok a" "la_free a = [\<lparr>ln_addr = hs, ln_size = HEAP_SIZE\<rparr>]"
    "init_allocator hs HEAP_SIZE (locked_new list_allocator_new) = Some (Inr (spinlock_new a))"
    using heap_boots [OF assms(1,2)] by blast
  define s where "s = spinlock_new a"
  obtain p s' where r: "locked_alloc alloc l s = Some (Inr (p, s'))" "\<not> is_locked s'"
    using la.locked_alloc_returns [of s amax l] b(5) assms(3) by (auto simp: s_def)
  then have "p \<noteq> 0 \<longrightarrow> (\<exists>s''. locked_dealloc dealloc p l s' = Some (Inr s'') \<and> \<not> is_locked s'')"
    using la.locked_roundtrip [of s amax l p s'] b(5) assms(3) by (auto simp: s_def)
  then show ?thesis
    using b r
    by (intro exI [of _ hs] exI [of _ s])
      (auto simp: s_def is_allocator_locked_def global_alloc_def global_dealloc_def word_le_nat_alt)
qed

theorem kernel_heap_boots_witness:
  "\<exists>hs s. heap_start 0x1901234 = Inr hs \<and> 4096 dvd unat hs
     \<and> init_allocator hs HEAP_SIZE (locked_new list_allocator_new) = Some (Inr s)
     \<and> (\<exists>p s'. global_alloc demo_lay1 s = Some (Inr (p, s')))"
  using kernel_heap_boots [of "0x1901234", OF _ _ demo_serviceable(1)] by fastforce

end
