(* ===== verification/Cpu.thy ===== *)
theory Cpu
  imports Prelude
begin

text \<open>
  \<^verbatim>\<open>kernel/src/device/cpu.rs\<close>: I/O ports, the interrupt flag and the control register CR0.
  The processor keeps its flags, CR0 and the history of port accesses, newest first. What a
  port read returns depends on the hardware: it is the argument \<open>hw\<close>, a function of the
  history and the port. Polling loops are partial functions whose \<^term>\<open>None\<close> means that the
  hardware never answers.
\<close>

subsection \<open>Ports\<close>

datatype io_event =
    Out8 u16 u8
  | Out16 u16 u16
  | Out32 u16 u32
  | In8 u16 u8
  | In16 u16 u16
  | In32 u16 u32

type_synonym hw = "io_event list \<Rightarrow> u16 \<Rightarrow> u32"

record cpu =
  cpu_rflags :: u64
  cpu_cr0 :: u64
  cpu_trace :: "io_event list"

definition outb :: "u16 \<Rightarrow> u8 \<Rightarrow> cpu \<Rightarrow> cpu" where
  "outb port data c = c\<lparr>cpu_trace := Out8 port data # cpu_trace c\<rparr>"

definition outw :: "u16 \<Rightarrow> u16 \<Rightarrow> cpu \<Rightarrow> cpu" where
  "outw port data c = c\<lparr>cpu_trace := Out16 port data # cpu_trace c\<rparr>"

definition outdw :: "u16 \<Rightarrow> u32 \<Rightarrow> cpu \<Rightarrow> cpu" where
  "outdw port data c = c\<lparr>cpu_trace := Out32 port data # cpu_trace c\<rparr>"

definition inb :: "hw \<Rightarrow> u16 \<Rightarrow> cpu \<Rightarrow> u8 \<times> cpu" where
  "inb hw port c =
     (let v = ucast (hw (cpu_trace c) port) in (v, c\<lparr>cpu_trace := In8 port v # cpu_trace c\<rparr>))"

definition inw :: "hw \<Rightarrow> u16 \<Rightarrow> cpu \<Rightarrow> u16 \<times> cpu" where
  "inw hw port c =
     (let v = ucast (hw (cpu_trace c) port) in (v, c\<lparr>cpu_trace := In16 port v # cpu_trace c\<rparr>))"

definition indw :: "hw \<Rightarrow> u16 \<Rightarrow> cpu \<Rightarrow> u32 \<times> cpu" where
  "indw hw port c =
     (let v = hw (cpu_trace c) port in (v, c\<lparr>cpu_trace := In32 port v # cpu_trace c\<rparr>))"

definition io_wait :: "cpu \<Rightarrow> cpu" where
  "io_wait c = outb 0x80 0 c"

lemmas port_defs = outb_def outw_def outdw_def inb_def inw_def indw_def io_wait_def Let_def

text \<open>The values written to the ports, oldest first.\<close>

fun is_output :: "io_event \<Rightarrow> bool" where
  "is_output (Out8 _ _) = True"
| "is_output (Out16 _ _) = True"
| "is_output (Out32 _ _) = True"
| "is_output _ = False"

definition outputs :: "cpu \<Rightarrow> io_event list" where
  "outputs c = filter is_output (rev (cpu_trace c))"

lemma outputs_ports [simp]:
  "outputs (outb p d c) = outputs c @ [Out8 p d]"
  "outputs (outw p w c) = outputs c @ [Out16 p w]"
  "outputs (outdw p l c) = outputs c @ [Out32 p l]"
  "outputs (snd (inb hw p c)) = outputs c"
  "outputs (snd (inw hw p c)) = outputs c"
  "outputs (snd (indw hw p c)) = outputs c"
  by (simp_all add: outputs_def port_defs)

subsection \<open>The interrupt flag\<close>

definition RFLAGS_IF :: u64 where
  "RFLAGS_IF = push_bit 9 1"

definition get_flags :: "cpu \<Rightarrow> u64" where
  "get_flags c = cpu_rflags c"

definition is_int_enabled :: "cpu \<Rightarrow> bool" where
  "is_int_enabled c \<longleftrightarrow> cpu_rflags c AND RFLAGS_IF \<noteq> 0"

definition enable_int :: "cpu \<Rightarrow> cpu" where
  "enable_int c = c\<lparr>cpu_rflags := cpu_rflags c OR RFLAGS_IF\<rparr>"

definition disable_int :: "cpu \<Rightarrow> cpu" where
  "disable_int c = c\<lparr>cpu_rflags := cpu_rflags c AND NOT RFLAGS_IF\<rparr>"

definition disable_int_nested :: "cpu \<Rightarrow> bool \<times> cpu" where
  "disable_int_nested c = (is_int_enabled c, disable_int c)"

definition enable_int_nested :: "bool \<Rightarrow> cpu \<Rightarrow> cpu" where
  "enable_int_nested was_enabled c = (if was_enabled then enable_int c else c)"

definition without_interrupts :: "(cpu \<Rightarrow> 'r \<times> cpu) \<Rightarrow> cpu \<Rightarrow> 'r \<times> cpu" where
  "without_interrupts f c =
     (case disable_int_nested c of (ie, c1) \<Rightarrow>
      case f c1 of (ret, c2) \<Rightarrow> (ret, enable_int_nested ie c2))"

subsection \<open>CR0\<close>

definition CR0_EMULATION :: u64 where "CR0_EMULATION = push_bit 2 1"
definition CR0_TASK_SWITCHED :: u64 where "CR0_TASK_SWITCHED = push_bit 3 1"
definition CR0_WRITE_PROTECT :: u64 where "CR0_WRITE_PROTECT = push_bit 16 1"
definition CR0_PAGING :: u64 where "CR0_PAGING = push_bit 31 1"

definition read_cr0 :: "cpu \<Rightarrow> u64" where
  "read_cr0 c = cpu_cr0 c"

definition write_cr0 :: "u64 \<Rightarrow> cpu \<Rightarrow> cpu" where
  "write_cr0 flags c = c\<lparr>cpu_cr0 := flags\<rparr>"

subsection \<open>Facts\<close>

lemma bit_RFLAGS_IF: "bit RFLAGS_IF n \<longleftrightarrow> n = 9"
  by (simp only: RFLAGS_IF_def bit_push_bit_iff bit_1_iff) auto

lemma is_int_enabled_bit: "is_int_enabled c \<longleftrightarrow> bit (cpu_rflags c) 9"
proof -
  have "cpu_rflags c AND RFLAGS_IF = (if bit (cpu_rflags c) 9 then RFLAGS_IF else 0)"
    by (rule bit_word_eqI) (auto simp: bit_and_iff bit_RFLAGS_IF)
  moreover have "RFLAGS_IF \<noteq> 0" by (simp add: RFLAGS_IF_def)
  ultimately show ?thesis by (simp add: is_int_enabled_def)
qed

lemma int_flag_simps [simp]:
  "is_int_enabled (enable_int c)" "\<not> is_int_enabled (disable_int c)"
  by (simp_all add: is_int_enabled_bit enable_int_def disable_int_def bit_and_iff bit_or_iff bit_not_iff
      bit_RFLAGS_IF)

lemma ports_keep_flags [simp]:
  "cpu_rflags (outb p d c) = cpu_rflags c" "cpu_rflags (outw p d' c) = cpu_rflags c"
  "cpu_rflags (outdw p d'' c) = cpu_rflags c" "cpu_rflags (snd (inb hw p c)) = cpu_rflags c"
  "cpu_rflags (snd (inw hw p c)) = cpu_rflags c" "cpu_rflags (snd (indw hw p c)) = cpu_rflags c"
  "cpu_rflags (io_wait c) = cpu_rflags c"
  by (simp_all add: port_defs)

text \<open>
  \<open>without_interrupts\<close> runs its closure with interrupts disabled and restores the interrupt
  flag the caller had, also when calls are nested: for any closure that itself leaves a
  cleared flag cleared (as a nested \<open>without_interrupts\<close> does), the flag afterwards is the
  flag before, and the closure cannot observe an enabled flag.
\<close>

theorem without_interrupts_restores:
  assumes "\<And>c. \<not> is_int_enabled c \<Longrightarrow> \<not> is_int_enabled (snd (f c))"
  shows "is_int_enabled (snd (without_interrupts f c)) = is_int_enabled c
    \<and> fst (without_interrupts f c) = fst (f (disable_int c)) \<and> \<not> is_int_enabled (disable_int c)
    \<and> (\<not> is_int_enabled c \<longrightarrow> \<not> is_int_enabled (snd (without_interrupts (without_interrupts f) c)))"
proof -
  have "\<not> is_int_enabled (snd (f (disable_int c)))" for c by (rule assms) simp
  moreover have other: "is_int_enabled (snd (without_interrupts g d)) = is_int_enabled d"
    if "\<not> is_int_enabled (snd (g (disable_int d)))" for g :: "cpu \<Rightarrow> 'a \<times> cpu" and d
    using that by (auto simp: without_interrupts_def disable_int_nested_def enable_int_nested_def split: prod.splits)
  ultimately have r: "is_int_enabled (snd (without_interrupts f d)) = is_int_enabled d" for d
    by blast
  then have "is_int_enabled (snd (without_interrupts (without_interrupts f) c)) = is_int_enabled c"
    using other [of "without_interrupts f" c] by simp
  moreover have "fst (without_interrupts f c) = fst (f (disable_int c))"
    by (simp add: without_interrupts_def disable_int_nested_def split: prod.splits)
  ultimately show ?thesis using r by simp
qed

theorem without_interrupts_restores_witness:
  "is_int_enabled (snd (without_interrupts (inb (\<lambda>_ _. 7) 0x60) \<lparr>cpu_rflags = 0x202, cpu_cr0 = 0, cpu_trace = []\<rparr>))
   \<and> fst (without_interrupts (inb (\<lambda>_ _. 7) 0x60) \<lparr>cpu_rflags = 0x202, cpu_cr0 = 0, cpu_trace = []\<rparr>) = 7"
proof -
  have "is_int_enabled \<lparr>cpu_rflags = 0x202, cpu_cr0 = 0, cpu_trace = []\<rparr>"
    by (simp add: is_int_enabled_def RFLAGS_IF_def)
  then show ?thesis
    using without_interrupts_restores [of "inb (\<lambda>_ _. 7) 0x60" "\<lparr>cpu_rflags = 0x202, cpu_cr0 = 0, cpu_trace = []\<rparr>"]
    by (simp add: is_int_enabled_bit) (simp add: port_defs)
qed

end
