(* ===== verification/Pages.thy ===== *)
theory Pages
  imports Cpu
begin

text \<open>
  \<^verbatim>\<open>kernel/src/paging/pages.rs\<close>: setting the user bit in every entry of the page tables that
  the boot loader left behind. Physical memory is a function from addresses to 64-bit
  entries; page tables may be shared or even refer to themselves, so the recursion descends
  on the level.
\<close>

subsection \<open>Entries\<close>

type_synonym memory = "u64 \<Rightarrow> u64"

definition PRESENT :: u64 where "PRESENT = push_bit 0 1"
definition USER :: u64 where "USER = push_bit 2 1"
definition HUGE_PAGE :: u64 where "HUGE_PAGE = push_bit 7 1"

text \<open>\<open>from_bits_truncate\<close> keeps the nine bits that have a name.\<close>

definition PageFlags_all :: u64 where "PageFlags_all = 0x1ff"

definition ADDRESS_MASK :: u64 where "ADDRESS_MASK = 0x000ffffffffff000"

definition entry_addr :: "u64 \<Rightarrow> nat \<Rightarrow> u64" where
  "entry_addr table i = table + 8 * of_nat i"

subsection \<open>The traversal\<close>

text \<open>The body of the loop over the entries of one table; \<open>descend\<close> is the recursive call.\<close>

definition visit_entry :: "(u64 \<Rightarrow> memory \<Rightarrow> memory) \<Rightarrow> nat \<Rightarrow> u64 \<Rightarrow> nat \<Rightarrow> memory \<Rightarrow> memory" where
  "visit_entry descend level table i mem =
     (let a = entry_addr table i; entry = mem a in
      if entry \<noteq> 0 then
        let flags = (entry AND PageFlags_all) OR USER;
            mem1 = mem(a := entry OR flags)
        in if level > 1 \<and> flags AND HUGE_PAGE = 0
           then descend (entry AND ADDRESS_MASK) mem1
           else mem1
      else mem)"

primrec setup_initial_page_map :: "nat \<Rightarrow> u64 \<Rightarrow> memory \<Rightarrow> memory" where
  "setup_initial_page_map 0 table mem = fold (visit_entry (\<lambda>_ m. m) 0 table) [0..<512] mem"
| "setup_initial_page_map (Suc l) table mem =
     fold (visit_entry (setup_initial_page_map l) (Suc l) table) [0..<512] mem"

definition read_cr3 :: "u64 \<Rightarrow> u64" where
  "read_cr3 cr3 = cr3 AND 0xfffffffffffff000"

definition setup_initial_paging :: "u64 \<Rightarrow> cpu \<times> memory \<Rightarrow> cpu \<times> memory" where
  "setup_initial_paging cr3 s =
     (case s of (c, mem) \<Rightarrow>
        let c1 = write_cr0 (read_cr0 c AND NOT CR0_WRITE_PROTECT) c;
            mem1 = setup_initial_page_map 4 (read_cr3 cr3) mem;
            c2 = write_cr0 (read_cr0 c1 OR CR0_WRITE_PROTECT) c1
        in (c2, mem1))"

subsection \<open>What the traversal may change\<close>

definition user_only :: "memory \<Rightarrow> memory \<Rightarrow> bool" where
  "user_only m m' \<longleftrightarrow> (\<forall>a. m' a = m a \<or> m a \<noteq> 0 \<and> m' a = m a OR USER)"

lemma bit_USER: "bit USER n \<longleftrightarrow> n = 2"
  by (simp only: USER_def bit_push_bit_iff bit_1_iff) auto

lemma or_flags: "entry OR ((entry AND PageFlags_all) OR USER) = entry OR USER"
  by (rule bit_word_eqI) (auto simp: bit_or_iff bit_and_iff)

lemma user_only_refl [simp]: "user_only m m"
  by (simp add: user_only_def)

lemma user_only_trans:
  assumes "user_only m m'" "user_only m' m''"
  shows "user_only m m''"
  unfolding user_only_def
proof
  fix a
  have "m' a = m a \<or> m a \<noteq> 0 \<and> m' a = m a OR USER" "m'' a = m' a \<or> m' a \<noteq> 0 \<and> m'' a = m' a OR USER"
    using assms by (auto simp: user_only_def)
  then show "m'' a = m a \<or> m a \<noteq> 0 \<and> m'' a = m a OR USER"
    by (elim disjE conjE) (simp_all add: or.assoc)
qed

lemma user_only_set: "m a \<noteq> 0 \<Longrightarrow> user_only m (m(a := m a OR USER))"
  by (simp add: user_only_def)

text \<open>Neither the address nor the size bit of an entry depends on the user bit.\<close>

lemma user_bit_irrelevant:
  "(e OR USER) AND ADDRESS_MASK = e AND ADDRESS_MASK" "(e OR USER) AND HUGE_PAGE = e AND HUGE_PAGE"
  "((e AND PageFlags_all) OR USER) AND HUGE_PAGE = e AND HUGE_PAGE"
proof -
  have z: "USER AND ADDRESS_MASK = 0" "USER AND HUGE_PAGE = 0" "PageFlags_all AND HUGE_PAGE = HUGE_PAGE"
    by (simp_all add: USER_def ADDRESS_MASK_def HUGE_PAGE_def PageFlags_all_def)
  show "(e OR USER) AND ADDRESS_MASK = e AND ADDRESS_MASK" "(e OR USER) AND HUGE_PAGE = e AND HUGE_PAGE"
    using z(1,2) by (simp_all add: bit.conj_disj_distrib2)
  show "((e AND PageFlags_all) OR USER) AND HUGE_PAGE = e AND HUGE_PAGE"
    using z(2,3) by (simp add: bit.conj_disj_distrib2 and.assoc)
qed

lemma user_only_nonzero: "user_only m m' \<Longrightarrow> m' a = 0 \<longleftrightarrow> m a = 0"
proof -
  assume u: "user_only m m'"
  have "x OR USER \<noteq> 0" for x
    using bit_USER [of 2] by (metis bit_0_eq bit_or_iff bot_apply bot_bool_def)
  then show ?thesis using u by (auto simp: user_only_def) (metis)+
qed

lemma user_only_same:
  assumes "user_only m m'"
  shows "m' a AND ADDRESS_MASK = m a AND ADDRESS_MASK" "m' a AND HUGE_PAGE = m a AND HUGE_PAGE"
proof -
  have "m' a = m a \<or> m' a = m a OR USER" using assms by (auto simp: user_only_def)
  then show "m' a AND ADDRESS_MASK = m a AND ADDRESS_MASK" "m' a AND HUGE_PAGE = m a AND HUGE_PAGE"
    using user_bit_irrelevant by auto
qed

lemma user_only_keeps_user: "user_only m m' \<Longrightarrow> bit (m a) 2 \<Longrightarrow> bit (m' a) 2"
  by (auto simp: user_only_def bit_or_iff) (metis bit_or_iff)

lemma fold_user_only:
  assumes "\<And>i m. user_only m (f i m)"
  shows "user_only m (fold f is m)"
  by (induction "is" arbitrary: m) (auto intro: user_only_trans assms)

lemma visit_entry_user_only:
  assumes "\<And>t m. user_only m (d t m)"
  shows "user_only m (visit_entry d level table i m)"
  using user_only_set [of m "entry_addr table i"]
  by (auto simp: visit_entry_def Let_def or_flags intro: user_only_trans assms)

lemma setup_user_only: "user_only m (setup_initial_page_map level table m)"
  by (induction level arbitrary: table m) (auto intro!: fold_user_only visit_entry_user_only)

subsection \<open>Completeness of the traversal\<close>

text \<open>
  The addresses of the non-zero entries in the tables that hang off \<open>table\<close>, as the processor
  lays them out: bit 7 marks an entry that maps a large page instead of a table, bits 12 to 51
  are the frame of the next table.
\<close>

definition frame_of :: "u64 \<Rightarrow> u64" where
  "frame_of e = push_bit 12 (take_bit 40 (drop_bit 12 e))"

inductive mapped :: "memory \<Rightarrow> nat \<Rightarrow> u64 \<Rightarrow> u64 \<Rightarrow> bool" for m where
  here: "i < 512 \<Longrightarrow> m (table + 8 * of_nat i) \<noteq> 0 \<Longrightarrow> mapped m level table (table + 8 * of_nat i)"
| below: "i < 512 \<Longrightarrow> m (table + 8 * of_nat i) \<noteq> 0 \<Longrightarrow> \<not> bit (m (table + 8 * of_nat i)) 7 \<Longrightarrow> 1 \<le> level \<Longrightarrow>
    mapped m level (frame_of (m (table + 8 * of_nat i))) a \<Longrightarrow> mapped m (Suc level) table a"

lemma bit_ADDRESS_MASK: "bit ADDRESS_MASK n \<longleftrightarrow> 12 \<le> n \<and> n < 52"
proof -
  have m: "ADDRESS_MASK = push_bit 12 (mask 40)" by (simp add: ADDRESS_MASK_def mask_eq_exp_minus_1)
  show ?thesis unfolding m bit_push_bit_iff bit_mask_iff by auto
qed

lemma ADDRESS_MASK_frame: "e AND ADDRESS_MASK = frame_of e"
proof (rule bit_word_eqI)
  fix n assume "n < LENGTH(64)"
  then show "bit (e AND ADDRESS_MASK) n \<longleftrightarrow> bit (frame_of e) n"
    by (cases "12 \<le> n") (auto simp: frame_of_def bit_simps bit_ADDRESS_MASK)
qed

lemma HUGE_PAGE_bit: "e AND HUGE_PAGE = 0 \<longleftrightarrow> \<not> bit e 7"
proof -
  have b: "bit HUGE_PAGE n \<longleftrightarrow> n = 7" for n by (simp only: HUGE_PAGE_def bit_push_bit_iff bit_1_iff) auto
  have "e AND HUGE_PAGE = (if bit e 7 then HUGE_PAGE else 0)"
    by (intro bit_word_eqI) (auto simp: bit_and_iff b)
  moreover have "HUGE_PAGE \<noteq> 0" by (simp add: HUGE_PAGE_def)
  ultimately show ?thesis by simp
qed

lemmas mapped_hereI = mapped.here [folded entry_addr_def]
lemmas mapped_belowI = mapped.below [folded entry_addr_def ADDRESS_MASK_frame HUGE_PAGE_bit]
lemmas mapped_induct = mapped.induct [folded entry_addr_def ADDRESS_MASK_frame HUGE_PAGE_bit, consumes 1, case_names here below]

text \<open>Two memories that agree on what the descent looks at describe the same tables.\<close>

definition same_tables :: "memory \<Rightarrow> memory \<Rightarrow> bool" where
  "same_tables m m' \<longleftrightarrow> (\<forall>a. (m' a = 0 \<longleftrightarrow> m a = 0)
     \<and> m' a AND ADDRESS_MASK = m a AND ADDRESS_MASK \<and> m' a AND HUGE_PAGE = m a AND HUGE_PAGE)"

lemma user_only_same_tables: "user_only m m' \<Longrightarrow> same_tables m m'"
  using user_only_nonzero user_only_same by (simp add: same_tables_def)

lemma mapped_same_tables: "mapped m level table a \<Longrightarrow> same_tables m m' \<Longrightarrow> mapped m' level table a"
proof (induction rule: mapped_induct)
  case (here i table level)
  then show ?case by (intro mapped_hereI) (auto simp: same_tables_def)
next
  case (below i table level a)
  then show ?case
    by (intro mapped_belowI [of i m' table level a]) (auto simp: same_tables_def)
qed

lemma mapped_iff: "user_only m m' \<Longrightarrow> mapped m' level table a \<longleftrightarrow> mapped m level table a"
  using mapped_same_tables [of m' level table a m] mapped_same_tables [of m level table a m'] user_only_same_tables [of m m']
  by (auto simp: same_tables_def)

lemma mapped_nonzero: "mapped m level table a \<Longrightarrow> m a \<noteq> 0"
  by (induction rule: mapped.induct) auto

lemmas mapped_mono = mapped_iff [THEN iffD2, rotated]

lemma visit_sets_user:
  assumes "\<And>t m. user_only m (d t m)" "m (entry_addr table i) \<noteq> 0"
  shows "bit (visit_entry d level table i m (entry_addr table i)) 2"
proof -
  let ?a = "entry_addr table i"
  have "bit ((m(?a := m ?a OR USER)) ?a) 2" by (simp add: bit_or_iff bit_USER)
  then show ?thesis
    using assms(2) user_only_keeps_user [OF assms(1)] by (auto simp: visit_entry_def Let_def or_flags)
qed

lemma visit_descends:
  assumes "m (entry_addr table i) \<noteq> 0" "m (entry_addr table i) AND HUGE_PAGE = 0" "1 < level"
  shows "visit_entry d level table i m
    = d (m (entry_addr table i) AND ADDRESS_MASK) (m(entry_addr table i := m (entry_addr table i) OR USER))"
proof -
  let ?e = "m (entry_addr table i)"
  have "((?e AND PageFlags_all) OR USER) AND HUGE_PAGE = 0" using assms(2) by (simp only: user_bit_irrelevant(3))
  then have "(level > 1 \<and> ((?e AND PageFlags_all) OR USER) AND HUGE_PAGE = 0) = True" using assms(3) by blast
  then show ?thesis using assms(1) unfolding visit_entry_def Let_def or_flags by simp
qed

lemma fold_at:
  assumes "i < n" and "\<And>j m. user_only m (f j m)"
  shows "\<exists>m1. user_only m m1 \<and> user_only (f i m1) (fold f [0..<n] m)"
proof -
  have "[0..<n] = [0..<i] @ i # [Suc i..<n]"
    using assms(1) upt_add_eq_append [of 0 i "n - i"] upt_conv_Cons [of i n] by simp
  then have "fold f [0..<n] m = fold f [Suc i..<n] (f i (fold f [0..<i] m))" by simp
  then show ?thesis using fold_user_only [of f] assms(2) by (intro exI [of _ "fold f [0..<i] m"]) auto
qed

lemma setup_reaches:
  "mapped m level table a \<Longrightarrow> bit (setup_initial_page_map level table m a) 2"
proof (induction level arbitrary: table m a)
  case 0
  then obtain i where i: "i < 512" "a = entry_addr table i" "m a \<noteq> 0" by (auto simp: entry_addr_def elim: mapped.cases)
  let ?f = "visit_entry (\<lambda>_ m. m) 0 table"
  have u: "user_only m (?f j m)" for j m by (intro visit_entry_user_only) simp
  obtain m1 where m1: "user_only m m1" "user_only (?f i m1) (setup_initial_page_map 0 table m)"
    using fold_at [of i 512 ?f m, OF i(1) u] by auto
  have "bit (?f i m1 a) 2" using i user_only_nonzero [OF m1(1)] unfolding i(2) by (intro visit_sets_user) auto
  then show ?case by (rule user_only_keeps_user [OF m1(2)])
next
  case (Suc l)
  let ?f = "visit_entry (setup_initial_page_map l) (Suc l) table"
  have u: "user_only m (?f j m)" for j m by (intro visit_entry_user_only setup_user_only)
  have run: "\<exists>m1. user_only m m1 \<and> user_only (?f i m1) (setup_initial_page_map (Suc l) table m)" if "i < 512" for i
    using fold_at [of i 512 ?f m, OF that u] by auto
  from Suc.prems show ?case
  proof (cases rule: mapped.cases)
    case (here i)
    note here = here [folded entry_addr_def]
    obtain m1 where m1: "user_only m m1" "user_only (?f i m1) (setup_initial_page_map (Suc l) table m)"
      using run here by blast
    have "bit (?f i m1 a) 2"
      using here user_only_nonzero [OF m1(1)] unfolding here(1) by (intro visit_sets_user setup_user_only) auto
    then show ?thesis by (rule user_only_keeps_user [OF m1(2)])
  next
    case (below i)
    note below = below [folded entry_addr_def ADDRESS_MASK_frame HUGE_PAGE_bit]
    obtain m1 where m1: "user_only m m1" "user_only (?f i m1) (setup_initial_page_map (Suc l) table m)"
      using run below by blast
    let ?e = "entry_addr table i"
    have e: "m1 ?e \<noteq> 0" "m1 ?e AND HUGE_PAGE = 0" "m1 ?e AND ADDRESS_MASK = m ?e AND ADDRESS_MASK"
      using below user_only_nonzero [OF m1(1), of ?e] user_only_same [OF m1(1), of ?e] by auto
    have "?f i m1 = setup_initial_page_map l (m ?e AND ADDRESS_MASK) (m1(?e := m1 ?e OR USER))"
      using visit_descends [of m1 table i "Suc l"] e below by simp
    moreover have "user_only m (m1(?e := m1 ?e OR USER))"
      by (rule user_only_trans [OF m1(1)]) (rule user_only_set [of m1 ?e, OF e(1)])
    then have "mapped (m1(?e := m1 ?e OR USER)) l (m ?e AND ADDRESS_MASK) a"
      using mapped_mono below by blast
    ultimately have "bit (?f i m1 a) 2" using Suc.IH by simp
    then show ?thesis by (rule user_only_keeps_user [OF m1(2)])
  qed
qed

subsection \<open>Nothing outside the tables changes\<close>

lemma fold_changes:
  assumes "\<And>j m. user_only m (f j m)"
    and "\<And>j m1. j \<in> set xs \<Longrightarrow> user_only m m1 \<Longrightarrow> f j m1 a \<noteq> m1 a \<Longrightarrow> P"
    and "fold f xs m1 a \<noteq> m1 a" "user_only m m1"
  shows P
  using assms(2-)
proof (induction xs arbitrary: m1)
  case (Cons j xs)
  show ?case
  proof (cases "f j m1 a = m1 a")
    case True
    have u: "user_only m (f j m1)" using user_only_trans [OF Cons.prems(3)] assms(1) by blast
    have ch: "fold f xs (f j m1) a \<noteq> f j m1 a" using Cons.prems(2) True by simp
    have p: P if "i \<in> set xs" "user_only m m2" "f i m2 a \<noteq> m2 a" for i m2
      using Cons.prems(1) [of i m2] that by simp
    show ?thesis by (rule Cons.IH [OF p ch u])
  next
    case False
    then show ?thesis using Cons.prems(1) [of j m1] Cons.prems(3) by simp
  qed
qed simp

lemma visit_changes:
  assumes "visit_entry d level table i m a \<noteq> m a"
  shows "m (entry_addr table i) \<noteq> 0 \<and> (a = entry_addr table i
    \<or> 1 < level \<and> m (entry_addr table i) AND HUGE_PAGE = 0
      \<and> (let m1 = m(entry_addr table i := m (entry_addr table i) OR USER) in
          d (m (entry_addr table i) AND ADDRESS_MASK) m1 a \<noteq> m1 a))"
  using assms unfolding visit_entry_def Let_def or_flags user_bit_irrelevant(3) by (auto split: if_splits)

lemma setup_changes:
  "setup_initial_page_map level table m a \<noteq> m a \<Longrightarrow> mapped m level table a"
proof (induction level arbitrary: table m a)
  case 0
  show ?case
  proof (rule fold_changes [where f = "visit_entry (\<lambda>_ m. m) 0 table" and m = m and ?m1.0 = m and xs = "[0..<512]" and a = a])
    fix j m1 assume j: "j \<in> set [0..<512]" and u: "user_only m m1" and "visit_entry (\<lambda>_ m. m) 0 table j m1 a \<noteq> m1 a"
    then have "m1 (entry_addr table j) \<noteq> 0" "a = entry_addr table j" using visit_changes by fastforce+
    then show "mapped m 0 table a" using j user_only_nonzero [OF u] by (auto intro: mapped_hereI)
  qed (use 0 in \<open>auto intro: visit_entry_user_only\<close>)
next
  case (Suc l)
  let ?f = "visit_entry (setup_initial_page_map l) (Suc l) table"
  show ?case
  proof (rule fold_changes [where f = ?f and m = m and ?m1.0 = m and xs = "[0..<512]" and a = a])
    fix j m1 assume j: "j \<in> set [0..<512]" and u: "user_only m m1" and ch: "?f j m1 a \<noteq> m1 a"
    let ?e = "entry_addr table j"
    let ?m2 = "m1(?e := m1 ?e OR USER)"
    note v = visit_changes [OF ch]
    show "mapped m (Suc l) table a"
    proof (cases "a = ?e")
      case True
      then show ?thesis using j v user_only_nonzero [OF u] by (auto intro: mapped_hereI)
    next
      case False
      then have d: "1 \<le> l" "m1 ?e \<noteq> 0" "m1 ?e AND HUGE_PAGE = 0"
          "setup_initial_page_map l (m1 ?e AND ADDRESS_MASK) ?m2 a \<noteq> ?m2 a"
        using v by (auto simp: Let_def)
      have "user_only m ?m2" using user_only_trans [OF u user_only_set [of m1 ?e, OF d(2)]] .
      then have "mapped m l (m1 ?e AND ADDRESS_MASK) a" using d(4) [THEN Suc.IH] mapped_iff [of m ?m2] by blast
      then have "mapped m l (m ?e AND ADDRESS_MASK) a" using user_only_same [OF u] by simp
      then show ?thesis
        using j d user_only_nonzero [OF u] user_only_same [OF u] by (intro mapped_belowI [of j m table l a]) auto
    qed
  qed (use Suc.prems in \<open>auto intro: visit_entry_user_only setup_user_only\<close>)
qed

lemma setup_exact:
  "setup_initial_page_map level table m a = (if mapped m level table a then m a OR USER else m a)"
proof -
  let ?m = "setup_initial_page_map level table m"
  have "?m a = m a \<or> ?m a = m a OR USER" using setup_user_only [of m level table] by (auto simp: user_only_def)
  moreover have "?m a = ?m a OR USER" if "bit (?m a) 2"
    using that by (intro bit_word_eqI) (auto simp: bit_or_iff bit_USER)
  ultimately show ?thesis using setup_reaches setup_changes by metis
qed

subsection \<open>Translating an address\<close>

text \<open>The addresses of the entries that the processor reads when it translates \<open>v\<close>.\<close>

fun walk :: "memory \<Rightarrow> nat \<Rightarrow> u64 \<Rightarrow> u64 \<Rightarrow> u64 list" where
  "walk m level table v =
     (let a = entry_addr table (unat (drop_bit (12 + 9 * (level - 1)) v) mod 512) in
      a # (if level > 1 \<and> m a \<noteq> 0 \<and> m a AND HUGE_PAGE = 0
           then walk m (level - 1) (m a AND ADDRESS_MASK) v else []))"

declare walk.simps [simp del]

lemma walk_mapped: "a \<in> set (walk m level table v) \<Longrightarrow> m a \<noteq> 0 \<Longrightarrow> 1 \<le> level \<Longrightarrow> mapped m level table a"
proof (induction m level table v rule: walk.induct)
  case (1 m level table v)
  define i where "i = unat (drop_bit (12 + 9 * (level - 1)) v) mod 512"
  define b where "b = entry_addr table i"
  have i: "i < 512" by (simp add: i_def)
  have w: "set (walk m level table v) = insert b
      (if level > 1 \<and> m b \<noteq> 0 \<and> m b AND HUGE_PAGE = 0 then set (walk m (level - 1) (m b AND ADDRESS_MASK) v) else {})"
    unfolding walk.simps [of m level] Let_def i_def [symmetric] b_def [symmetric] by (auto split: if_splits)
  show ?case
  proof (cases "a = b")
    case True
    then show ?thesis using 1 i by (simp add: b_def mapped_hereI)
  next
    case False
    then have c: "level > 1" "m b \<noteq> 0" "m b AND HUGE_PAGE = 0" "a \<in> set (walk m (level - 1) (m b AND ADDRESS_MASK) v)"
      using 1(2) w by (auto split: if_splits)
    then have "mapped m (level - 1) (m b AND ADDRESS_MASK) a"
      using 1 by (auto simp: b_def i_def)
    then have "mapped m (Suc (level - 1)) table a"
      using c i by (intro mapped_belowI [of i m table "level - 1" a]) (auto simp: b_def)
    then show ?thesis using c(1) by simp
  qed
qed

lemma walk_same: "user_only m m' \<Longrightarrow> walk m' level table v = walk m level table v"
proof (induction m level table v rule: walk.induct)
  case (1 m level table v)
  show ?case
    using 1 user_only_nonzero [OF 1(2)] user_only_same [OF 1(2)]
    by (subst (1 2) walk.simps) (simp add: Let_def)
qed

subsection \<open>Properties\<close>

text \<open>
  C21. \<open>setup_initial_paging\<close> opens the existing page tables to user mode and changes nothing else:
  a memory word gets the user bit if and only if it is a non-zero entry of a table that hangs
  off the root, where an entry with the large-page bit is a leaf, and every other word, page
  contents included, is as before. So every translation takes the same path as before, all its
  non-zero entries carry the user bit afterwards, and write protection is on at the end.
\<close>

theorem paging_opened_to_user:
  "case setup_initial_paging root (c, m) of (c', m') \<Rightarrow>
     (\<forall>a. m' a = (if mapped m 4 (read_cr3 root) a then m a OR 4 else m a))
     \<and> walk m' 4 (read_cr3 root) v = walk m 4 (read_cr3 root) v
     \<and> (\<forall>a \<in> set (walk m 4 (read_cr3 root) v). m a \<noteq> 0 \<longrightarrow> bit (m' a) 2)
     \<and> bit (cpu_cr0 c') 16"
proof -
  define m' where "m' = setup_initial_page_map 4 (read_cr3 root) m"
  have u: "user_only m m'" by (simp add: m'_def setup_user_only del: setup_initial_page_map.simps)
  have "m' a = (if mapped m 4 (read_cr3 root) a then m a OR 4 else m a)" for a
    unfolding m'_def setup_exact by (simp add: USER_def)
  moreover have "bit (m' a) 2" if "a \<in> set (walk m 4 (read_cr3 root) v)" "m a \<noteq> 0" for a
    unfolding m'_def using walk_mapped [OF that] by (intro setup_reaches) simp
  moreover have "bit CR0_WRITE_PROTECT 16" by (simp only: CR0_WRITE_PROTECT_def bit_push_bit_iff bit_1_iff) simp
  ultimately show ?thesis
    using walk_same [OF u]
    by (simp add: setup_initial_paging_def Let_def m'_def [symmetric] write_cr0_def bit_or_iff
        del: setup_initial_page_map.simps)
qed

text \<open>
  A root table whose first entry refers to a table, whose first entry maps a large page; the
  data in that page is left alone.
\<close>

definition demo_tables :: memory where
  "demo_tables = (\<lambda>_. 0)(0x1000 := 0x2003, 0x2000 := 0x40000083, 0x40000000 := 0x55)"

lemma demo_tables_unmapped: "\<not> mapped demo_tables 4 0x1000 0x40000000"
proof
  have low: "x + 8 * of_nat i < (0x3000 :: u64)" if "i < 512" "x = 0x1000 \<or> x = 0x2000" for i and x :: u64
    using that by (auto simp: word_less_nat_alt unat_word_ariths unat_of_nat)
  have leaf: "i = 0" if "i < 512" "x = 0x1000 \<or> x = 0x2000" "demo_tables (x + 8 * of_nat i) \<noteq> 0" for i and x :: u64
  proof -
    have "unat (x + 8 * of_nat i) = unat x + 8 * i" using that(1,2) by (auto simp: unat_word_ariths unat_of_nat)
    moreover have "x + 8 * of_nat i = 0x1000 \<or> x + 8 * of_nat i = 0x2000"
      using that(3) low [OF that(1,2)] by (auto simp: demo_tables_def split: if_splits)
    then have "unat (x + 8 * of_nat i) = 0x1000 \<or> unat (x + 8 * of_nat i) = 0x2000" by auto
    ultimately show ?thesis using that(1,2) by auto
  qed
  have low_mapped: "a < 0x3000" if "mapped demo_tables l x a" "x = 0x1000 \<or> x = 0x2000" for l x a
    using that
  proof (induction rule: mapped.induct)
    case (here i table level)
    then show ?case using low by blast
  next
    case (below i table level a)
    then have "i = 0" using leaf by blast
    then have "table = 0x1000" using below by (auto simp: demo_tables_def)
    then show ?case using below \<open>i = 0\<close> by (simp add: demo_tables_def frame_of_def)
  qed
  assume "mapped demo_tables 4 0x1000 0x40000000"
  then show False using low_mapped [of 4 "0x1000" "0x40000000"] by simp
qed

theorem paging_opened_to_user_witness:
  "case setup_initial_paging 0x1000 (\<lparr>cpu_rflags = 2, cpu_cr0 = 0, cpu_trace = []\<rparr>, demo_tables) of (c', m') \<Rightarrow>
     bit (m' 0x1000) 2 \<and> bit (m' 0x2000) 2 \<and> m' 0x3000 = 0 \<and> m' 0x40000000 = 0x55"
proof -
  have "walk demo_tables 4 (read_cr3 0x1000) 0 = [0x1000, 0x2000]"
    by (subst walk.simps, subst walk.simps)
      (simp add: Let_def entry_addr_def demo_tables_def read_cr3_def HUGE_PAGE_def ADDRESS_MASK_def)
  moreover have "\<not> mapped demo_tables 4 0x1000 0x3000"
    using mapped_nonzero by (fastforce simp: demo_tables_def)
  moreover have "read_cr3 0x1000 = 0x1000" by (simp add: read_cr3_def)
  moreover have "demo_tables 0x1000 \<noteq> 0" "demo_tables 0x2000 \<noteq> 0" "demo_tables 0x3000 = 0" "demo_tables 0x40000000 = 0x55"
    by (simp_all add: demo_tables_def)
  ultimately show ?thesis
    using paging_opened_to_user [where root = "0x1000" and c = "\<lparr>cpu_rflags = 2, cpu_cr0 = 0, cpu_trace = []\<rparr>"
        and m = demo_tables and v = 0] demo_tables_unmapped
    by (auto split: prod.splits)
qed

end
