(* ===== verification/Pic.thy ===== *)
theory Pic
  imports Cpu
begin

text \<open>
  \<^verbatim>\<open>kernel/src/device/pic.rs\<close>: the two cascaded interrupt controllers. After the
  initialisation sequence the data port of each controller is its mask register.
\<close>

subsection \<open>The driver\<close>

definition Command1 :: u16 where "Command1 = 0x20"
definition Command2 :: u16 where "Command2 = 0xa0"
definition Data1 :: u16 where "Data1 = 0x21"
definition Data2 :: u16 where "Data2 = 0xa1"
definition Initialize :: u8 where "Initialize = 0x11"

datatype irq =
    Timer | Keyboard | Cascade | Com2 | Com1 | Lpt2 | Floppy | Lpt1
  | Rtc | Free1 | Free2 | Free3 | Mouse | Fpu | PrimaryAta | SecondaryAta

fun irq_number :: "irq \<Rightarrow> u8" where
  "irq_number Timer = 0x00"
| "irq_number Keyboard = 0x01"
| "irq_number Cascade = 0x02"
| "irq_number Com2 = 0x03"
| "irq_number Com1 = 0x04"
| "irq_number Lpt2 = 0x05"
| "irq_number Floppy = 0x06"
| "irq_number Lpt1 = 0x07"
| "irq_number Rtc = 0x08"
| "irq_number Free1 = 0x09"
| "irq_number Free2 = 0x0a"
| "irq_number Free3 = 0x0b"
| "irq_number Mouse = 0x0c"
| "irq_number Fpu = 0x0d"
| "irq_number PrimaryAta = 0x0e"
| "irq_number SecondaryAta = 0x0f"

text \<open>One write of the initialisation followed by the short delay.\<close>

definition outb_wait :: "u16 \<Rightarrow> u8 \<Rightarrow> cpu \<Rightarrow> cpu" where
  "outb_wait p v c = io_wait (outb p v c)"

definition pic_init :: "cpu \<Rightarrow> cpu" where
  "pic_init c =
     outb_wait Data2 0xff (outb_wait Data1 0xfb
     (outb_wait Data2 0x03 (outb_wait Data1 0x03
     (outb_wait Data2 0x02 (outb_wait Data1 0x04
     (outb_wait Data2 40 (outb_wait Data1 32
     (outb_wait Command2 Initialize (outb_wait Command1 Initialize c)))))))))"

text \<open>The port and the mask bit of a line.\<close>

definition irq_select :: "irq \<Rightarrow> (u16 \<times> u8) res" where
  "irq_select irq =
     (let irq_num = irq_number irq in
      if irq_num < 8 then Inr (Data1, push_bit (unat irq_num) 1)
      else and_then (usub irq_num 8) (\<lambda>n. Inr (Data2, push_bit (unat n) 1)))"

definition allow :: "hw \<Rightarrow> irq \<Rightarrow> cpu \<Rightarrow> cpu res" where
  "allow hw irq c =
     and_then (irq_select irq) (\<lambda>(port, m).
       case inb hw port c of (current, c') \<Rightarrow> Inr (outb port (current AND NOT m) c'))"

definition forbid :: "hw \<Rightarrow> irq \<Rightarrow> cpu \<Rightarrow> cpu res" where
  "forbid hw irq c =
     and_then (irq_select irq) (\<lambda>(port, m).
       case inb hw port c of (current, c') \<Rightarrow> Inr (outb port (current OR m) c'))"

definition status :: "hw \<Rightarrow> irq \<Rightarrow> cpu \<Rightarrow> (bool \<times> cpu) res" where
  "status hw irq c =
     and_then (irq_select irq) (\<lambda>(port, m).
       case inb hw port c of (current, c') \<Rightarrow> Inr (current AND m = 0, c'))"

subsection \<open>The mask registers\<close>

text \<open>The last byte written to a port, which is what a mask register returns.\<close>

fun last_out :: "u16 \<Rightarrow> io_event list \<Rightarrow> u8" where
  "last_out p (Out8 q v # tr) = (if q = p then v else last_out p tr)"
| "last_out p (_ # tr) = last_out p tr"
| "last_out p [] = 0"

definition masks_readable :: "hw \<Rightarrow> bool" where
  "masks_readable hw \<longleftrightarrow>
     (\<forall>tr. (ucast (hw tr Data1) :: u8) = last_out Data1 tr \<and> (ucast (hw tr Data2) :: u8) = last_out Data2 tr)"

text \<open>The sixteen lines as one function: whether a line reaches the processor.\<close>

definition enabled :: "cpu \<Rightarrow> irq \<Rightarrow> bool" where
  "enabled c irq \<longleftrightarrow>
     (if irq_number irq < 8 then \<not> bit (last_out Data1 (cpu_trace c)) (unat (irq_number irq))
      else \<not> bit (last_out Data2 (cpu_trace c)) (unat (irq_number irq) - 8))"

definition single :: "nat \<Rightarrow> u8" where "single n = push_bit n 1"

lemma bit_line: "bit (single n) m \<longleftrightarrow> m = n \<and> n < 8"
  by (simp only: single_def bit_push_bit_iff bit_1_iff) auto

lemma and_line: "x AND single n = 0 \<longleftrightarrow> \<not> (n < 8 \<and> bit x n)"
  by (auto simp: bit_eq_iff [of "x AND single n"] bit_and_iff bit_line)

lemma irq_select_eq:
  "irq_select irq = Inr (if irq_number irq < 8 then (Data1, single (unat (irq_number irq)))
     else (Data2, single (unat (irq_number irq) - 8)))"
  by (cases irq) (simp_all add: irq_select_def single_def usub_def)

lemma irq_numbers:
  "unat (irq_number irq) < 16" "irq_number i = irq_number j \<longleftrightarrow> i = j"
  "unat (irq_number i) = unat (irq_number j) \<longleftrightarrow> i = j"
proof -
  show 1: "irq_number i = irq_number j \<longleftrightarrow> i = j" by (cases i; cases j) simp_all
  show "unat (irq_number irq) < 16" by (cases irq) simp_all
  show "unat (irq_number i) = unat (irq_number j) \<longleftrightarrow> i = j" using 1 by (simp add: word_unat_eq_iff)
qed

text \<open>The facts about one line that the operations rest on.\<close>

lemma line_facts:
  "unat (irq_number j) < 16" "irq_number j < 8 \<longleftrightarrow> unat (irq_number j) < 8" "unat (irq_number j) - 8 < 8"
  "unat (irq_number j) = unat (irq_number irq) \<longleftrightarrow> j = irq"
  "\<not> unat (irq_number j) < 8 \<Longrightarrow> \<not> unat (irq_number irq) < 8 \<Longrightarrow>
     unat (irq_number j) - 8 = unat (irq_number irq) - 8 \<longleftrightarrow> j = irq"
  "Data1 \<noteq> Data2" "Data2 \<noteq> Data1"
  using irq_numbers(1) [of j] irq_numbers(3) [of j irq] by (auto simp: word_less_nat_alt Data1_def Data2_def)

lemma mask_reads:
  assumes "masks_readable hw"
  shows "inb hw Data1 c = (last_out Data1 (cpu_trace c), c\<lparr>cpu_trace := In8 Data1 (last_out Data1 (cpu_trace c)) # cpu_trace c\<rparr>)"
    "inb hw Data2 c = (last_out Data2 (cpu_trace c), c\<lparr>cpu_trace := In8 Data2 (last_out Data2 (cpu_trace c)) # cpu_trace c\<rparr>)"
  using assms by (simp_all add: inb_def Let_def masks_readable_def)

lemma init_enables: "enabled (pic_init c) irq \<longleftrightarrow> irq = Cascade"
  by (cases irq) (simp_all add: enabled_def pic_init_def outb_wait_def io_wait_def outb_def Data1_def Data2_def)

lemma allow_enables:
  assumes "masks_readable hw"
  shows "\<exists>c'. allow hw irq c = Inr c' \<and> (\<forall>j. enabled c' j \<longleftrightarrow> j = irq \<or> enabled c j) \<and> cpu_rflags c' = cpu_rflags c"
  using line_facts(1-3,6,7) line_facts(4,5) [of _ irq]
  by (auto simp: allow_def irq_select_eq mask_reads [OF assms] enabled_def outb_def bit_and_iff bit_not_iff bit_line
      dest: bit_imp_le_length split: if_splits)

lemma forbid_disables:
  assumes "masks_readable hw"
  shows "\<exists>c'. forbid hw irq c = Inr c' \<and> (\<forall>j. enabled c' j \<longleftrightarrow> j \<noteq> irq \<and> enabled c j)"
  using line_facts(1-3,6,7) line_facts(4,5) [of _ irq]
  by (auto simp: forbid_def irq_select_eq mask_reads [OF assms] enabled_def outb_def bit_or_iff bit_line split: if_splits)

lemma status_reports:
  assumes "masks_readable hw"
  shows "\<exists>c'. status hw irq c = Inr (enabled c irq, c') \<and> (\<forall>j. enabled c' j \<longleftrightarrow> enabled c j)"
  using line_facts(2,3)
  by (auto simp: status_def irq_select_eq mask_reads [OF assms] enabled_def and_line split: if_splits)

text \<open>
  After \<open>init\<close> every line but the cascade line is masked and the controllers deliver to the vectors
  32 to 47; from then on \<open>allow\<close> and \<open>forbid\<close> switch exactly the line they are given, \<open>status\<close>
  reports it, and none of them ever panics.
\<close>

theorem pic_lines:
  assumes "masks_readable hw"
  shows "(enabled (pic_init c) irq \<longleftrightarrow> irq = Cascade)
    \<and> (\<exists>c'. allow hw irq c = Inr c' \<and> (\<forall>j. enabled c' j \<longleftrightarrow> j = irq \<or> enabled c j))
    \<and> (\<exists>c'. forbid hw irq c = Inr c' \<and> (\<forall>j. enabled c' j \<longleftrightarrow> j \<noteq> irq \<and> enabled c j))
    \<and> (\<exists>c'. status hw irq c = Inr (enabled c irq, c') \<and> (\<forall>j. enabled c' j \<longleftrightarrow> enabled c j))"
  using init_enables [of c irq] allow_enables [OF assms, of irq c] forbid_disables [OF assms, of irq c]
    status_reports [OF assms, of irq c] by blast

definition mask_hw :: hw where
  "mask_hw tr p = ucast (last_out p tr)"

lemma mask_hw_readable: "masks_readable mask_hw"
proof -
  have "(ucast (ucast x :: u32) :: u8) = x" for x :: u8
    by (rule bit_word_eqI) (auto simp: bit_ucast_iff dest: bit_imp_le_length)
  then show ?thesis by (simp add: masks_readable_def mask_hw_def)
qed

theorem pic_lines_witness:
  "\<exists>c'. allow mask_hw Timer (pic_init \<lparr>cpu_rflags = 2, cpu_cr0 = 0, cpu_trace = []\<rparr>) = Inr c'
     \<and> enabled c' Timer \<and> enabled c' Cascade \<and> \<not> enabled c' Keyboard"
  using pic_lines [OF mask_hw_readable, of "pic_init \<lparr>cpu_rflags = 2, cpu_cr0 = 0, cpu_trace = []\<rparr>" Timer]
    pic_lines [OF mask_hw_readable, of "\<lparr>cpu_rflags = 2, cpu_cr0 = 0, cpu_trace = []\<rparr>" Cascade]
    pic_lines [OF mask_hw_readable, of "\<lparr>cpu_rflags = 2, cpu_cr0 = 0, cpu_trace = []\<rparr>" Keyboard]
  by auto

end
