(* ===== verification/Interrupt.thy ===== *)
theory Interrupt
  imports Cpu Spinlock
begin

text \<open>
  \<^verbatim>\<open>kernel/src/interrupt/idt.rs\<close> and \<^verbatim>\<open>kernel/src/interrupt/dispatcher.rs\<close>: the interrupt
  descriptor table as it lies in memory and as the processor decodes it, and the map from
  vectors to registered interrupt service routines. The addresses of the wrapper functions
  that the macro \<open>interrupt_handler!\<close> generates are the argument \<open>wrapper\<close>; service routines
  are values of any type.
\<close>

subsection \<open>Descriptor table\<close>

definition IDT_SIZE :: nat where
  "IDT_SIZE = 256"

record idt_entry =
  ie_offset_low :: u16
  ie_selector :: u16
  ie_options :: u16
  ie_offset_mid :: u16
  ie_offset_high :: u32
  ie_reserved :: u32

type_synonym idt = "idt_entry list"

definition idt_entry_new :: "u64 \<Rightarrow> u16 \<Rightarrow> idt_entry" where
  "idt_entry_new offset options =
     \<lparr>ie_offset_low = ucast offset, ie_selector = 8, ie_options = options,
      ie_offset_mid = ucast (drop_bit 16 offset), ie_offset_high = ucast (drop_bit 32 offset),
      ie_reserved = 0\<rparr>"

definition without_error_code :: "u64 \<Rightarrow> idt_entry" where
  "without_error_code handler = idt_entry_new handler 0x8e00"

definition with_error_code :: "u64 \<Rightarrow> idt_entry" where
  "with_error_code handler = idt_entry_new handler 0x8e00"

definition new_trap_gate :: "u64 \<Rightarrow> idt_entry" where
  "new_trap_gate offset = idt_entry_new offset 0xef00"

definition syscall_gate :: "u64 \<Rightarrow> idt_entry" where
  "syscall_gate handler = new_trap_gate handler"

text \<open>
  The macro \<open>interrupt_handler!\<close>; \<open>wrapper n err\<close> is the address of the wrapper it generates for
  vector \<open>n\<close>, with or without error code parameter.
\<close>

definition pushes_error_code :: "nat \<Rightarrow> bool" where
  "pushes_error_code n \<longleftrightarrow> n \<in> {0x08, 0x0a, 0x0b, 0x0c, 0x0d, 0x0e, 0x11, 0x15, 0x1d, 0x1e}"

definition interrupt_handler :: "(nat \<Rightarrow> bool \<Rightarrow> u64) \<Rightarrow> nat \<Rightarrow> idt_entry" where
  "interrupt_handler wrapper n =
     (if pushes_error_code n then with_error_code (wrapper n True) else without_error_code (wrapper n False))"

definition idt_low :: "(nat \<Rightarrow> bool \<Rightarrow> u64) \<Rightarrow> idt" where
  "idt_low wrapper = map (interrupt_handler wrapper) [0x00..<0x80]"

definition idt_high :: "(nat \<Rightarrow> bool \<Rightarrow> u64) \<Rightarrow> idt" where
  "idt_high wrapper = map (interrupt_handler wrapper) [0x81..<0x100]"

definition idt_new :: "(nat \<Rightarrow> bool \<Rightarrow> u64) \<Rightarrow> u64 \<Rightarrow> idt" where
  "idt_new wrapper dispatch_syscall = idt_low wrapper @ [syscall_gate dispatch_syscall] @ idt_high wrapper"

definition set_entry :: "nat \<Rightarrow> idt_entry \<Rightarrow> idt \<Rightarrow> idt res" where
  "set_entry index entry t = set_index t index entry"

record idt_descriptor =
  id_limit :: u16
  id_address :: u64

definition idt_descriptor_new :: "u64 \<Rightarrow> idt_descriptor" where
  "idt_descriptor_new address = \<lparr>id_limit = ucast (of_nat (16 * IDT_SIZE - 1) :: usize), id_address = address\<rparr>"

text \<open>\<open>load\<close> executes \<open>lidt\<close>: the new content of the IDT register.\<close>

definition load :: "u64 \<Rightarrow> idt_descriptor" where
  "load address = idt_descriptor_new address"

subsection \<open>How the processor reads a gate\<close>

text \<open>The sixteen bytes of a packed entry, as two little-endian quadwords.\<close>

definition entry_lo :: "idt_entry \<Rightarrow> u64" where
  "entry_lo x = ucast (ie_offset_low x) OR push_bit 16 (ucast (ie_selector x))
     OR push_bit 32 (ucast (ie_options x)) OR push_bit 48 (ucast (ie_offset_mid x))"

definition entry_hi :: "idt_entry \<Rightarrow> u64" where
  "entry_hi x = ucast (ie_offset_high x) OR push_bit 32 (ucast (ie_reserved x))"

record gate =
  gt_offset :: u64
  gt_selector :: u64
  gt_ist :: u64
  gt_type :: u64
  gt_dpl :: u64
  gt_present :: bool

text \<open>The format of a 64-bit gate descriptor in the processor manuals.\<close>

definition decode_gate :: "u64 \<Rightarrow> u64 \<Rightarrow> gate" where
  "decode_gate lo hi =
     \<lparr>gt_offset = (lo AND 0xffff) OR (push_bit 16 (drop_bit 48 lo)) OR (push_bit 32 (hi AND 0xffffffff)),
      gt_selector = drop_bit 16 lo AND 0xffff,
      gt_ist = drop_bit 32 lo AND 0x7,
      gt_type = drop_bit 40 lo AND 0xf,
      gt_dpl = drop_bit 45 lo AND 0x3,
      gt_present = bit lo 47\<rparr>"

definition gate_of :: "idt_entry \<Rightarrow> gate" where
  "gate_of x = decode_gate (entry_lo x) (entry_hi x)"

subsection \<open>Dispatching\<close>

type_synonym 'isr int_vectors = "'isr option list"

datatype (plugins only: code) interrupt_vector =
    DivisionByZero | Debug | NonMaskableInterrupt | Breakpoint
  | Overflow | BoundRangeExceeded | InvalidOpcode | DeviceNotAvailable
  | DoubleFault | CoprocessorSegmentOverrun | InvalidTaskStateSegment | SegmentNotPresent
  | StackSegmentFault | GeneralProtectionFault | PageFault | X87FloatingPointException
  | AlignmentCheck | MachineCheck | SimdFloatingPointException | VirtualizationException
  | ControlProtectionException | HypervisorInjectionException | VmmCommunicationException | SecurityException
  | Pit | Keyboard | Cascade | Com2
  | Com1 | Lpt2 | Floppy | Lpt1
  | Rtc | Free1 | Free2 | Free3
  | Mouse | Fpu | PrimaryAta | SecondaryAta

fun vector_number :: "interrupt_vector \<Rightarrow> nat" where
  "vector_number DivisionByZero = 0"
| "vector_number Debug = 1"
| "vector_number NonMaskableInterrupt = 2"
| "vector_number Breakpoint = 3"
| "vector_number Overflow = 4"
| "vector_number BoundRangeExceeded = 5"
| "vector_number InvalidOpcode = 6"
| "vector_number DeviceNotAvailable = 7"
| "vector_number DoubleFault = 8"
| "vector_number CoprocessorSegmentOverrun = 9"
| "vector_number InvalidTaskStateSegment = 10"
| "vector_number SegmentNotPresent = 11"
| "vector_number StackSegmentFault = 12"
| "vector_number GeneralProtectionFault = 13"
| "vector_number PageFault = 14"
| "vector_number X87FloatingPointException = 16"
| "vector_number AlignmentCheck = 17"
| "vector_number MachineCheck = 18"
| "vector_number SimdFloatingPointException = 19"
| "vector_number VirtualizationException = 20"
| "vector_number ControlProtectionException = 21"
| "vector_number HypervisorInjectionException = 28"
| "vector_number VmmCommunicationException = 29"
| "vector_number SecurityException = 30"
| "vector_number Pit = 0x20"
| "vector_number Keyboard = 0x21"
| "vector_number Cascade = 0x22"
| "vector_number Com2 = 0x23"
| "vector_number Com1 = 0x24"
| "vector_number Lpt2 = 0x25"
| "vector_number Floppy = 0x26"
| "vector_number Lpt1 = 0x27"
| "vector_number Rtc = 0x28"
| "vector_number Free1 = 0x29"
| "vector_number Free2 = 0x2a"
| "vector_number Free3 = 0x2b"
| "vector_number Mouse = 0x2c"
| "vector_number Fpu = 0x2d"
| "vector_number PrimaryAta = 0x2e"
| "vector_number SecondaryAta = 0x2f"

definition int_vectors_new :: "'isr int_vectors" where
  "int_vectors_new = []"

definition int_vectors_init :: "'isr int_vectors \<Rightarrow> 'isr int_vectors res" where
  "int_vectors_init m =
     (if m \<noteq> [] then Inl (PanicMsg ''ISR map is already initialized!'')
      else Inr (fold (\<lambda>_ m'. m' @ [None]) [0..<IDT_SIZE] m))"

text \<open>
  Registration takes the lock of the map with interrupts disabled; \<^term>\<open>None\<close> is a lock that is
  never released.
\<close>

definition replace_entry :: "nat \<Rightarrow> 'isr \<Rightarrow> 'isr int_vectors spinlock \<Rightarrow> 'isr int_vectors spinlock res option" where
  "replace_entry vector isr s =
     (case lock s of
        None \<Rightarrow> None
      | Some g \<Rightarrow> Some (
          if vector < length (guard_deref g)
          then Inr (guard_drop (guard_deref_mut (\<lambda>m. m[vector := Some isr]) g))
          else Inl UnwrapNone))"

definition register_dynamic ::
  "nat \<Rightarrow> 'isr \<Rightarrow> 'isr int_vectors spinlock \<Rightarrow> cpu \<Rightarrow> 'isr int_vectors spinlock res option \<times> cpu" where
  "register_dynamic vector isr s = without_interrupts (\<lambda>c. (replace_entry vector isr s, c))"

definition register ::
  "interrupt_vector \<Rightarrow> 'isr \<Rightarrow> 'isr int_vectors spinlock \<Rightarrow> cpu \<Rightarrow> 'isr int_vectors spinlock res option \<times> cpu" where
  "register vector isr s = without_interrupts (\<lambda>c. (replace_entry (vector_number vector) isr s, c))"

text \<open>\<open>report\<close>: the routine that is triggered, if one is registered.\<close>

definition report :: "u8 \<Rightarrow> 'isr int_vectors \<Rightarrow> 'isr option res" where
  "report vector m = (if unat vector < length m then Inr (m ! unat vector) else Inl UnwrapNone)"

text \<open>
  \<open>dispatch_interrupt\<close> holds the lock of the vector map while the routine runs: \<^term>\<open>None\<close> says that
  it spins on that lock, otherwise the routine that runs together with the lock it holds.
\<close>

definition dispatch_interrupt ::
  "u8 \<Rightarrow> 'isr int_vectors spinlock \<Rightarrow> ('isr \<times> 'isr int_vectors spinlock) res option" where
  "dispatch_interrupt vector s =
     (case lock s of
        None \<Rightarrow> None
      | Some g \<Rightarrow> Some (and_then (report vector (guard_deref g)) (\<lambda>r.
          case r of
            None \<Rightarrow> Inl (PanicMsg ''No ISR registered for interrupt'')
          | Some isr \<Rightarrow> Inr (isr, g))))"

definition unlock_int_vectors :: "'isr int_vectors spinlock \<Rightarrow> 'isr int_vectors spinlock" where
  "unlock_int_vectors s = force_unlock s"


subsection \<open>Facts\<close>

lemma masks:
  "(x :: u64) AND 0xffff = take_bit 16 x" "(x :: u64) AND 0xffffffff = take_bit 32 x"
  "(x :: u64) AND 0x7 = take_bit 3 x" "(x :: u64) AND 0xf = take_bit 4 x" "(x :: u64) AND 0x3 = take_bit 2 x"
  by (simp_all add: take_bit_eq_mask mask_eq_exp_minus_1)

lemma entry_lo_bits:
  "bit (entry_lo x) n \<longleftrightarrow>
     (n < 16 \<and> bit (ie_offset_low x) n \<or> 16 \<le> n \<and> n < 32 \<and> bit (ie_selector x) (n - 16)
      \<or> 32 \<le> n \<and> n < 48 \<and> bit (ie_options x) (n - 32) \<or> 48 \<le> n \<and> n < 64 \<and> bit (ie_offset_mid x) (n - 48))"
proof -
  have "bit (w :: u16) k \<Longrightarrow> k < 16" for w k using bit_imp_le_length [of w k] by simp
  then show ?thesis by (fastforce simp: entry_lo_def bit_simps)
qed

lemma entry_hi_bits:
  "bit (entry_hi x) n \<longleftrightarrow>
     (n < 32 \<and> bit (ie_offset_high x) n \<or> 32 \<le> n \<and> n < 64 \<and> bit (ie_reserved x) (n - 32))"
proof -
  have "bit (w :: u32) k \<Longrightarrow> k < 32" for w k using bit_imp_le_length [of w k] by simp
  then show ?thesis by (fastforce simp: entry_hi_def bit_simps)
qed

lemma gate_offset: "gt_offset (gate_of (idt_entry_new off opts)) = off"
proof (rule bit_word_eqI)
  fix n assume "n < LENGTH(64)"
  then consider "n < 16" | "16 \<le> n" "n < 32" | "32 \<le> n" "n < 64" "32 + (n - 32) = n" by fastforce
  then show "bit (gt_offset (gate_of (idt_entry_new off opts))) n = bit off n"
    by cases
      (auto simp: gate_of_def decode_gate_def masks bit_simps entry_lo_bits entry_hi_bits idt_entry_new_def)
qed

lemma gate_options:
  "gt_selector (gate_of x) = ucast (ie_selector x)"
  "gt_type (gate_of x) = ucast (take_bit 4 (drop_bit 8 (ie_options x)))"
  "gt_dpl (gate_of x) = ucast (take_bit 2 (drop_bit 13 (ie_options x)))"
  "gt_ist (gate_of x) = ucast (take_bit 3 (ie_options x))"
  "gt_present (gate_of x) = bit (ie_options x) 15"
proof -
  show "gt_selector (gate_of x) = ucast (ie_selector x)"
    by (rule bit_word_eqI) (auto simp: gate_of_def decode_gate_def masks bit_simps entry_lo_bits dest: bit_imp_le_length)
  show "gt_type (gate_of x) = ucast (take_bit 4 (drop_bit 8 (ie_options x)))"
    by (rule bit_word_eqI) (auto simp: gate_of_def decode_gate_def masks bit_simps entry_lo_bits)
  show "gt_dpl (gate_of x) = ucast (take_bit 2 (drop_bit 13 (ie_options x)))"
    by (rule bit_word_eqI) (auto simp: gate_of_def decode_gate_def masks bit_simps entry_lo_bits)
  show "gt_ist (gate_of x) = ucast (take_bit 3 (ie_options x))"
    by (rule bit_word_eqI) (auto simp: gate_of_def decode_gate_def masks bit_simps entry_lo_bits)
  show "gt_present (gate_of x) = bit (ie_options x) 15"
    by (simp add: gate_of_def decode_gate_def entry_lo_bits)
qed

definition interrupt_gate :: "u64 \<Rightarrow> gate" where
  "interrupt_gate handler = \<lparr>gt_offset = handler, gt_selector = 8, gt_ist = 0, gt_type = 0xe, gt_dpl = 0, gt_present = True\<rparr>"

definition user_trap_gate :: "u64 \<Rightarrow> gate" where
  "user_trap_gate handler = \<lparr>gt_offset = handler, gt_selector = 8, gt_ist = 0, gt_type = 0xf, gt_dpl = 3, gt_present = True\<rparr>"

lemma gates:
  "gate_of (without_error_code h) = interrupt_gate h" "gate_of (with_error_code h) = interrupt_gate h"
  "gate_of (syscall_gate h) = user_trap_gate h"
proof -
  have e: "g = h" if "gt_offset g = gt_offset h" "gt_selector g = gt_selector h" "gt_ist g = gt_ist h"
    "gt_type g = gt_type h" "gt_dpl g = gt_dpl h" "gt_present g = gt_present h" for g h :: gate
    using that by simp
  show "gate_of (without_error_code h) = interrupt_gate h"
    by (rule e) (simp_all add: without_error_code_def interrupt_gate_def gate_offset gate_options, simp_all add: idt_entry_new_def)
  show "gate_of (with_error_code h) = interrupt_gate h"
    by (rule e) (simp_all add: with_error_code_def interrupt_gate_def gate_offset gate_options, simp_all add: idt_entry_new_def)
  show "gate_of (syscall_gate h) = user_trap_gate h"
    by (rule e) (simp_all add: syscall_gate_def new_trap_gate_def user_trap_gate_def gate_offset gate_options, simp_all add: idt_entry_new_def)
qed

lemma idt_new_length: "length (idt_new w d) = IDT_SIZE"
  by (simp add: idt_new_def idt_low_def idt_high_def IDT_SIZE_def)

lemma idt_new_nth:
  assumes "n < IDT_SIZE"
  shows "idt_new w d ! n = (if n = 0x80 then syscall_gate d else interrupt_handler w n)"
proof -
  have len: "length (idt_low w) = 128" "length (idt_high w) = 127" by (simp_all add: idt_low_def idt_high_def)
  consider "n < 128" | "n = 128" | "128 < n" "n < 256" using assms by (fastforce simp: IDT_SIZE_def)
  then show ?thesis
  proof cases
    case 1
    then show ?thesis using len by (simp add: idt_new_def nth_append) (simp add: idt_low_def del: upt_rec_numeral)
  next
    case 2
    then show ?thesis using len by (simp add: idt_new_def nth_append)
  next
    case 3
    then have "n - 128 = Suc (n - 129)" "n - 129 < 127" by simp_all
    then show ?thesis
      using 3 len by (simp add: idt_new_def nth_append) (simp add: idt_high_def del: upt_rec_numeral)
  qed
qed

lemma fold_push_none: "fold (\<lambda>_ m'. m' @ [None]) xs ys = ys @ replicate (length xs) None"
  by (induction xs arbitrary: ys) simp_all

lemma int_vectors_init_eq: "int_vectors_init int_vectors_new = Inr (replicate IDT_SIZE None)"
  by (simp add: int_vectors_init_def int_vectors_new_def fold_push_none)

subsection \<open>Properties\<close>

text \<open>
  C31. The processor reads the table as intended: it has 256 gates within its limit, vector
  \<open>0x80\<close> is a present trap gate that user mode may call and that leads to \<open>dispatch_syscall\<close>, and
  every other vector is a present interrupt gate for the kernel only that leads to its own
  wrapper, with the error code parameter exactly where the processor pushes one. The
  handler address survives the split into three fields.
\<close>

theorem idt_gates:
  "length (idt_new w d) = 256 \<and> unat (id_limit (load a)) + 1 = 16 * length (idt_new w d) \<and> id_address (load a) = a
   \<and> (\<forall>n < 256. gate_of (idt_new w d ! n)
        = (if n = 0x80 then user_trap_gate d else interrupt_gate (w n (pushes_error_code n))))"
proof -
  have "gate_of (interrupt_handler w n) = interrupt_gate (w n (pushes_error_code n))" for n
    by (simp add: interrupt_handler_def gates)
  then show ?thesis
    using idt_new_length [of w d] idt_new_nth [of _ w d]
    by (simp add: IDT_SIZE_def load_def idt_descriptor_new_def gates)
qed

theorem idt_gates_witness:
  "gate_of (idt_new (\<lambda>n e. of_nat n + (if e then 1 else 0)) 0xffff800000001234 ! 0x80) = user_trap_gate 0xffff800000001234
   \<and> gate_of (idt_new (\<lambda>n e. of_nat n + (if e then 1 else 0)) 0xffff800000001234 ! 0x0e) = interrupt_gate 0x0f"
  using idt_gates [of "\<lambda>n e. of_nat n + (if e then 1 else 0)" "0xffff800000001234" 0]
  by (simp add: pushes_error_code_def)

text \<open>
  C25. Dispatching calls exactly the routine registered for the vector: after a registration
  (which restores the interrupt flag) that vector reaches the new routine and every other
  vector what it reached before, an unregistered vector panics, no vector is out of range,
  and a further interrupt that arrives while the routine still holds the vector map spins
  for ever unless the routine unlocks the map first.
\<close>

theorem registered_isr_dispatched:
  assumes "length m = IDT_SIZE" and "vector < IDT_SIZE"
  shows "\<exists>s' c'. register_dynamic vector isr (spinlock_new m) c = (Some (Inr s'), c')
    \<and> is_int_enabled c' = is_int_enabled c \<and> length (inner s') = IDT_SIZE
    \<and> (\<forall>v. \<exists>g. dispatch_interrupt v s' = Some
          (case (if unat v = vector then Some isr else m ! unat v) of
             Some i \<Rightarrow> Inr (i, g)
           | None \<Rightarrow> Inl (PanicMsg ''No ISR registered for interrupt''))
         \<and> dispatch_interrupt v g = None \<and> unlock_int_vectors g = s')"
proof -
  define s' where "s' = spinlock_new (m[vector := Some isr])"
  have r: "replace_entry vector isr (spinlock_new m) = Some (Inr s')"
    using assms by (simp add: replace_entry_def lock_eq spinlock_defs s'_def)
  have "\<exists>c'. register_dynamic vector isr (spinlock_new m) c = (Some (Inr s'), c') \<and> is_int_enabled c' = is_int_enabled c"
    by (simp add: register_dynamic_def without_interrupts_def r disable_int_nested_def enable_int_nested_def)
  moreover have "\<exists>g. dispatch_interrupt v s' = Some
          (case (if unat v = vector then Some isr else m ! unat v) of
             Some i \<Rightarrow> Inr (i, g)
           | None \<Rightarrow> Inl (PanicMsg ''No ISR registered for interrupt''))
         \<and> dispatch_interrupt v g = None \<and> unlock_int_vectors g = s'" for v
  proof -
    have "unat v < IDT_SIZE" using unsigned_less [of v, where 'a = nat] by (simp add: IDT_SIZE_def)
    then show ?thesis
      using assms
      by (intro exI [of _ "s'\<lparr>sl_lock := True\<rparr>"])
        (simp add: dispatch_interrupt_def report_def lock_eq s'_def spinlock_defs unlock_int_vectors_def
          split: option.split)
  qed
  moreover have "length (inner s') = IDT_SIZE" using assms by (simp add: s'_def spinlock_defs)
  ultimately show ?thesis by blast
qed

theorem registered_isr_dispatched_witness:
  "\<exists>m s' g c'. int_vectors_init int_vectors_new = Inr m
     \<and> register_dynamic 0x21 (7 :: nat) (spinlock_new m) \<lparr>cpu_rflags = 0x202, cpu_cr0 = 0, cpu_trace = []\<rparr> = (Some (Inr s'), c')
     \<and> dispatch_interrupt 0x21 s' = Some (Inr (7, g))
     \<and> dispatch_interrupt 0x22 s' = Some (Inl (PanicMsg ''No ISR registered for interrupt''))"
proof -
  let ?m = "replicate IDT_SIZE None :: nat int_vectors"
  obtain s' c' where s: "register_dynamic 0x21 (7 :: nat) (spinlock_new ?m)
      \<lparr>cpu_rflags = 0x202, cpu_cr0 = 0, cpu_trace = []\<rparr> = (Some (Inr s'), c')"
    and d: "\<And>v. \<exists>g. dispatch_interrupt v s' = Some
          (case (if unat v = 0x21 then Some 7 else ?m ! unat v) of
             Some i \<Rightarrow> Inr (i, g)
           | None \<Rightarrow> Inl (PanicMsg ''No ISR registered for interrupt''))"
    using registered_isr_dispatched [of ?m "0x21" 7 "\<lparr>cpu_rflags = 0x202, cpu_cr0 = 0, cpu_trace = []\<rparr>"]
    by (fastforce simp: IDT_SIZE_def)
  show ?thesis using s d [of "0x21"] d [of "0x22"] int_vectors_init_eq by (auto simp: IDT_SIZE_def)
qed

end
