(* ===== verification/Queue.thy ===== *)
theory Queue
  imports Prelude
begin

text \<open>
  \<^verbatim>\<open>kernel/src/library/queue.rs\<close>: the singly linked queue that the scheduler keeps its
  threads in. A node owns its successor (\<^verbatim>\<open>Option<Box<Node<T>>>\<close>), so the chain is a
  datatype; \<open>enqueue\<close> and \<open>remove\<close> walk it exactly as the loops of the source do. The
  abstraction \<open>elems\<close> reads the chain as a list. The locale \<open>fifo\<close> is the contract the
  scheduler relies on; the linked queue is interpreted as an instance of it.
\<close>

subsection \<open>The data structure\<close>

datatype 'a node = Node (node_data: 'a) (node_next: "'a node option")

record 'a linked_queue =
  q_head :: "'a node option"

definition node_new :: "'a \<Rightarrow> 'a node" where
  "node_new d = Node d None"

definition queue_new :: "'a linked_queue" where
  "queue_new = \<lparr>q_head = None\<rparr>"

text \<open>The loop of \<open>enqueue\<close>: follow \<open>next\<close> to the last node and hang the new node there.\<close>

fun append_node :: "'a node \<Rightarrow> 'a node \<Rightarrow> 'a node" where
  "append_node new (Node d None) = Node d (Some new)"
| "append_node new (Node d (Some n)) = Node d (Some (append_node new n))"

definition enqueue :: "'a \<Rightarrow> 'a linked_queue \<Rightarrow> 'a linked_queue" where
  "enqueue d q =
     (let new_node = node_new d in
      case q_head q of
        None \<Rightarrow> q\<lparr>q_head := Some new_node\<rparr>
      | Some node \<Rightarrow> q\<lparr>q_head := Some (append_node new_node node)\<rparr>)"

definition dequeue :: "'a linked_queue \<Rightarrow> 'a option \<times> 'a linked_queue" where
  "dequeue q =
     (case q_head q of
        Some (Node d n) \<Rightarrow> (Some d, q\<lparr>q_head := n\<rparr>)
      | None \<Rightarrow> (None, q))"

text \<open>The cursor loop of \<open>remove\<close>: the chain with the first match unlinked, and whether one was.\<close>

fun unlink_first :: "('a \<Rightarrow> bool) \<Rightarrow> 'a node option \<Rightarrow> bool \<times> 'a node option" where
  "unlink_first f None = (False, None)"
| "unlink_first f (Some (Node d n)) =
     (if f d then (True, n)
      else (case unlink_first f n of (found, n') \<Rightarrow> (found, Some (Node d n'))))"

definition remove :: "('a \<Rightarrow> bool) \<Rightarrow> 'a linked_queue \<Rightarrow> bool \<times> 'a linked_queue" where
  "remove f q = (case unlink_first f (q_head q) of (found, h) \<Rightarrow> (found, q\<lparr>q_head := h\<rparr>))"

text \<open>\<open>Display\<close>: the elements separated by a comma and a space, in brackets.\<close>

fun fmt_nodes :: "('a \<Rightarrow> string) \<Rightarrow> 'a node option \<Rightarrow> string" where
  "fmt_nodes sh None = ''''"
| "fmt_nodes sh (Some (Node d None)) = sh d"
| "fmt_nodes sh (Some (Node d (Some n))) = sh d @ '', '' @ fmt_nodes sh (Some n)"

definition queue_fmt :: "('a \<Rightarrow> string) \<Rightarrow> 'a linked_queue \<Rightarrow> string" where
  "queue_fmt sh q = ''['' @ fmt_nodes sh (q_head q) @ '']''"

subsection \<open>The abstraction to lists\<close>

fun node_elems :: "'a node option \<Rightarrow> 'a list" where
  "node_elems None = []"
| "node_elems (Some (Node d n)) = d # node_elems n"

definition elems :: "'a linked_queue \<Rightarrow> 'a list" where
  "elems q = node_elems (q_head q)"

text \<open>The list function that \<open>remove\<close> implements: delete the first element with the property.\<close>

fun remove_first :: "('a \<Rightarrow> bool) \<Rightarrow> 'a list \<Rightarrow> 'a list" where
  "remove_first f [] = []"
| "remove_first f (x # xs) = (if f x then xs else x # remove_first f xs)"

fun sep_by :: "'b list \<Rightarrow> 'b list list \<Rightarrow> 'b list" where
  "sep_by s [] = []"
| "sep_by s [x] = x"
| "sep_by s (x # y # ys) = x @ s @ sep_by s (y # ys)"

lemma node_elems_append [simp]:
  "node_elems (Some (append_node new n)) = node_elems (Some n) @ node_elems (Some new)"
  by (induction new n rule: append_node.induct) simp_all

lemma elems_new [simp]: "elems queue_new = []"
  by (simp add: elems_def queue_new_def)

lemma elems_enqueue [simp]: "elems (enqueue d q) = elems q @ [d]"
  by (simp add: elems_def enqueue_def node_new_def Let_def split: option.split)

lemma dequeue_elems:
  "dequeue q = (case elems q of [] \<Rightarrow> (None, q) | x # xs \<Rightarrow> (Some x, snd (dequeue q)))"
  "elems (snd (dequeue q)) = tl (elems q)"
  by (auto simp: dequeue_def elems_def split: option.split node.split)

lemma dequeue_None_iff: "fst (dequeue q) = None \<longleftrightarrow> elems q = []"
  by (auto simp: dequeue_def elems_def split: option.split node.split)

lemma dequeue_Some: "fst (dequeue q) = Some x \<Longrightarrow> elems q = x # elems (snd (dequeue q))"
  by (auto simp: dequeue_def elems_def split: option.splits node.splits)

lemma unlink_first_spec:
  "fst (unlink_first f n) \<longleftrightarrow> (\<exists>x \<in> set (node_elems n). f x)"
  "node_elems (snd (unlink_first f n)) = remove_first f (node_elems n)"
  by (induction f n rule: unlink_first.induct) (auto split: prod.splits)

lemma elems_remove:
  "elems (snd (remove f q)) = remove_first f (elems q)"
  "fst (remove f q) \<longleftrightarrow> (\<exists>x \<in> set (elems q). f x)"
  using unlink_first_spec [of f "q_head q"]
  by (auto simp: remove_def elems_def split: prod.splits)

lemma remove_first_id: "\<forall>x \<in> set xs. \<not> f x \<Longrightarrow> remove_first f xs = xs"
  by (induction xs) auto

lemma set_remove_first_sub: "set (remove_first f xs) \<subseteq> set xs"
  by (induction xs) auto

lemma distinct_map_remove_first: "distinct (map g xs) \<Longrightarrow> distinct (map g (remove_first f xs))"
  by (induction xs) (use set_remove_first_sub in fastforce)+

lemma remove_first_distinct:
  assumes "distinct (map g xs)"
  shows "remove_first (\<lambda>x. g x = k) xs = filter (\<lambda>x. g x \<noteq> k) xs"
  using assms
proof (induction xs)
  case (Cons x xs)
  show ?case
  proof (cases "g x = k")
    case True
    from Cons.prems have "g x \<notin> g ` set xs" by simp
    with True have "\<forall>y \<in> set xs. g y \<noteq> k" by (metis imageI)
    then have "filter (\<lambda>y. g y \<noteq> k) xs = xs" by (rule filter_True)
    with True show ?thesis by simp
  next
    case False
    with Cons show ?thesis by simp
  qed
qed simp

lemma fmt_nodes_sep: "fmt_nodes sh n = sep_by '', '' (map sh (node_elems n))"
proof (induction sh n rule: fmt_nodes.induct)
  case (3 sh d n)
  then show ?case by (cases n) simp
qed simp_all

subsection \<open>The queue contract\<close>

text \<open>
  What a first-in first-out queue promises its client. \<open>drain deq n\<close> takes \<open>n\<close> elements
  off with the given dequeue operation.
\<close>

primrec drain :: "('q \<Rightarrow> 'a option \<times> 'q) \<Rightarrow> nat \<Rightarrow> 'q \<Rightarrow> 'a list \<times> 'q" where
  "drain deq 0 q = ([], q)"
| "drain deq (Suc n) q =
     (case deq q of
        (None, q') \<Rightarrow> ([], q')
      | (Some x, q') \<Rightarrow> (x # fst (drain deq n q'), snd (drain deq n q')))"

locale fifo =
  fixes empty :: "'q"
    and enq :: "'a \<Rightarrow> 'q \<Rightarrow> 'q"
    and deq :: "'q \<Rightarrow> 'a option \<times> 'q"
    and list_of :: "'q \<Rightarrow> 'a list"
  assumes list_empty: "list_of empty = []"
    and list_enq: "list_of (enq x q) = list_of q @ [x]"
    and deq_empty: "list_of q = [] \<Longrightarrow> deq q = (None, q)"
    and deq_nonempty: "list_of q = x # xs \<Longrightarrow> fst (deq q) = Some x \<and> list_of (snd (deq q)) = xs"
begin

lemma drain_list:
  "n \<le> length (list_of q) \<Longrightarrow>
     fst (drain deq n q) = take n (list_of q) \<and> list_of (snd (drain deq n q)) = drop n (list_of q)"
proof (induction n arbitrary: q)
  case (Suc n)
  then obtain x xs where xs: "list_of q = x # xs" and n: "n \<le> length xs"
    by (cases "list_of q") auto
  obtain q' where q': "deq q = (Some x, q')" "list_of q' = xs"
    using deq_nonempty [OF xs] by (cases "deq q") auto
  have "fst (drain deq n q') = take n xs \<and> list_of (snd (drain deq n q')) = drop n xs"
    using Suc.IH [of q'] n q'(2) by simp
  then show ?case using q' xs by simp
qed simp

lemma list_enq_all: "list_of (fold enq xs q) = list_of q @ xs"
  by (induction xs arbitrary: q) (simp_all add: list_enq)

lemma fifo_order: "fst (drain deq (length xs) (fold enq xs empty)) = xs"
  using drain_list [of "length xs" "fold enq xs empty"]
  by (simp add: list_enq_all list_empty)

end

lemma linked_queue_deq_empty: "elems q = [] \<Longrightarrow> dequeue q = (None, q)"
  using dequeue_elems(1) [of q] by simp

lemma linked_queue_deq_nonempty:
  "elems q = x # xs \<Longrightarrow> fst (dequeue q) = Some x \<and> elems (snd (dequeue q)) = xs"
  using dequeue_elems [of q] by (metis fst_conv list.sel(3) list.simps(5))

interpretation lq: fifo queue_new enqueue dequeue elems
  by unfold_locales (simp_all add: linked_queue_deq_empty linked_queue_deq_nonempty)

text \<open>
  The linked queue is first-in first-out: enqueueing any sequence of elements into a
  fresh queue and dequeueing as many returns exactly that sequence in order, and a queue
  answers \<open>None\<close> exactly when it holds nothing.
\<close>

theorem linked_queue_fifo:
  "fst (drain dequeue (length xs) (fold enqueue xs queue_new)) = xs
   \<and> (fst (dequeue q) = None \<longleftrightarrow> elems q = [])"
  using lq.fifo_order [of xs] dequeue_None_iff [of q] by simp

text \<open>
  \<open>remove\<close> deletes the first matching element and nothing else, keeps the order of the
  others, reports whether there was one, and leaves the queue alone when there was none.
\<close>

theorem linked_queue_remove:
  "elems (snd (remove f q)) = remove_first f (elems q)
   \<and> (fst (remove f q) \<longleftrightarrow> (\<exists>x \<in> set (elems q). f x))
   \<and> (\<not> fst (remove f q) \<longrightarrow> elems (snd (remove f q)) = elems q)"
  using elems_remove [of f q] remove_first_id [of "elems q" f] by auto

theorem linked_queue_remove_witness:
  "elems (snd (remove (\<lambda>x. x = (5::nat)) (enqueue 5 (enqueue 7 (enqueue 5 queue_new)))))
     = [7, 5]
   \<and> \<not> fst (remove (\<lambda>x. x = (3::nat)) (enqueue 7 queue_new))
   \<and> elems (snd (remove (\<lambda>x. x = (3::nat)) (enqueue 7 queue_new))) = [7]"
  using linked_queue_remove [of "\<lambda>x::nat. x = 5" "enqueue 5 (enqueue 7 (enqueue 5 queue_new))"]
    linked_queue_remove [of "\<lambda>x::nat. x = 3" "enqueue 7 queue_new"]
  by simp

end
