(* ===== verification/Scheduler.thy ===== *)
theory Scheduler
  imports Thread Queue Spinlock "HOL-Library.Multiset"
begin

text \<open>
  \<^verbatim>\<open>kernel/src/thread/scheduler.rs\<close> and \<^verbatim>\<open>idle_thread.rs\<close>: the round-robin scheduler. Its
  state is the record below inside a spinlock, with the thread queues being linked queues.
  Each method is a function on the locked state whose outcome says how the call ends: it
  returns, it starts a thread, it switches from one thread to another, it panics, or it
  spins for ever on its own lock. A switch stores the stack pointer of the thread that is
  left (the argument \<open>sp\<close>) and releases the lock, as \<open>thread_switch\<close> does.
\<close>

subsection \<open>State\<close>

record sched_state =
  ss_active :: "thread option"
  ss_ready :: "thread linked_queue"
  ss_terminated :: "thread linked_queue"
  ss_initialized :: bool

type_synonym scheduler = "sched_state spinlock"

datatype 'a outcome =
    Done 'a scheduler
  | Started thread scheduler
  | Switched thread thread scheduler
  | Panicked panic
  | Spins

text \<open>\<open>idle\<close> is the idle thread that \<open>Thread::new_kernel_thread(idle_thread)\<close> returned.\<close>

definition scheduler_new :: "thread \<Rightarrow> scheduler" where
  "scheduler_new idle = spinlock_new
     \<lparr>ss_active = Some idle, ss_ready = queue_new, ss_terminated = queue_new, ss_initialized = False\<rparr>"

definition unlock_scheduler :: "scheduler \<Rightarrow> scheduler" where
  "unlock_scheduler s = force_unlock s"

subsection \<open>Methods\<close>

definition get_active_tid :: "scheduler \<Rightarrow> usize outcome" where
  "get_active_tid s =
     (case lock s of
        None \<Rightarrow> Spins
      | Some g \<Rightarrow>
          (case ss_active (guard_deref g) of
             None \<Rightarrow> Panicked UnwrapNone
           | Some t \<Rightarrow> Done (thread_id t) (guard_drop g)))"

definition schedule :: "scheduler \<Rightarrow> unit outcome" where
  "schedule s =
     (case lock s of
        None \<Rightarrow> Spins
      | Some g \<Rightarrow>
          let g = guard_deref_mut (ss_initialized_update (\<lambda>_. True)) g in
          (case ss_active (guard_deref g) of
             None \<Rightarrow> Panicked UnwrapNone
           | Some t \<Rightarrow> Started t (unlock_scheduler g)))"

definition ready :: "thread \<Rightarrow> scheduler \<Rightarrow> unit outcome" where
  "ready t s =
     (case lock s of
        None \<Rightarrow> Spins
      | Some g \<Rightarrow> Done () (guard_drop (guard_deref_mut (ss_ready_update (enqueue t)) g)))"

definition exit :: "usize \<Rightarrow> scheduler \<Rightarrow> unit outcome" where
  "exit sp s =
     (case lock s of
        None \<Rightarrow> Spins
      | Some g \<Rightarrow>
          let st = guard_deref g in
          (case ss_active st of
             None \<Rightarrow> Panicked UnwrapNone
           | Some current \<Rightarrow>
               (case dequeue (ss_ready st) of
                  (None, _) \<Rightarrow> Panicked UnwrapNone
                | (Some nxt, q) \<Rightarrow>
                    let current' = current\<lparr>th_stack_ptr := sp\<rparr>;
                        st' = st\<lparr>ss_active := Some nxt, ss_ready := q,
                                 ss_terminated := enqueue current' (ss_terminated st)\<rparr>
                    in Switched current' nxt (unlock_scheduler (guard_deref_mut (\<lambda>_. st') g)))))"

lemma dequeue_shorter: "(Some t, q') = dequeue q \<Longrightarrow> length (elems q') < length (elems q)"
  using dequeue_Some [of q t] by (metis fst_conv length_Cons lessI snd_conv)

text \<open>The loop that drops the terminated threads one by one.\<close>

function drop_all :: "thread linked_queue \<Rightarrow> thread linked_queue" where
  "drop_all q = (case dequeue q of (Some t, q') \<Rightarrow> drop_all q' | (None, q') \<Rightarrow> q')"
  by auto
termination
  by (relation "measure (\<lambda>q. length (elems q))") (auto dest: dequeue_shorter)

declare drop_all.simps [simp del]

definition cleanup_terminated_threads :: "scheduler \<Rightarrow> unit outcome" where
  "cleanup_terminated_threads s =
     (case try_lock s of
        (False, s') \<Rightarrow> Done () s'
      | (True, g) \<Rightarrow> Done () (guard_drop (guard_deref_mut (ss_terminated_update drop_all) g)))"

text \<open>\<open>alloc_locked\<close> is the answer of \<open>is_allocator_locked()\<close>.\<close>

definition yield_cpu :: "bool \<Rightarrow> usize \<Rightarrow> scheduler \<Rightarrow> unit outcome" where
  "yield_cpu alloc_locked sp s =
     (case try_lock s of
        (False, s') \<Rightarrow> Done () s'
      | (True, g) \<Rightarrow>
          let st = guard_deref g in
          if \<not> ss_initialized st then Done () (guard_drop g)
          else if alloc_locked then Done () (guard_drop g)
          else
            (case dequeue (ss_ready st) of
               (None, _) \<Rightarrow> Done () (guard_drop g)
             | (Some nxt, q) \<Rightarrow>
                 (case ss_active st of
                    None \<Rightarrow> Panicked UnwrapNone
                  | Some current \<Rightarrow>
                      let current' = current\<lparr>th_stack_ptr := sp\<rparr>;
                          st' = st\<lparr>ss_active := Some nxt, ss_ready := enqueue current' q\<rparr>
                      in Switched current' nxt (unlock_scheduler (guard_deref_mut (\<lambda>_. st') g)))))"

definition kill :: "usize \<Rightarrow> scheduler \<Rightarrow> unit outcome" where
  "kill to_kill_id s =
     (case lock s of
        None \<Rightarrow> Spins
      | Some g \<Rightarrow> Done () (guard_drop (guard_deref_mut
          (ss_ready_update (\<lambda>q. snd (remove (\<lambda>t. thread_id t = to_kill_id) q))) g)))"

definition scheduler_fmt :: "scheduler \<Rightarrow> string outcome" where
  "scheduler_fmt s =
     (case lock s of
        None \<Rightarrow> Spins
      | Some g \<Rightarrow>
          (case ss_active (guard_deref g) of
             None \<Rightarrow> Panicked UnwrapNone
           | Some t \<Rightarrow> Done (''active: '' @ thread_fmt t @ '', ready: '' @
                queue_fmt thread_fmt (ss_ready (guard_deref g))) (guard_drop g)))"

text \<open>One round of the endless loop of the idle thread.\<close>

definition idle_round :: "bool \<Rightarrow> usize \<Rightarrow> scheduler \<Rightarrow> unit outcome" where
  "idle_round alloc_locked sp s =
     (case cleanup_terminated_threads s of
        Done _ s' \<Rightarrow> yield_cpu alloc_locked sp s'
      | r \<Rightarrow> r)"

subsection \<open>The methods on a free lock\<close>

lemma unlocked_eq: "\<not> is_locked s \<Longrightarrow> s = spinlock_new (inner s)"
  by (simp add: spinlock_defs)

lemma lock_new [simp]: "lock (spinlock_new d) = Some \<lparr>sl_lock = True, sl_data = d\<rparr>"
  by (simp add: lock_eq spinlock_new_def)

lemma try_lock_new [simp]: "try_lock (spinlock_new d) = (True, \<lparr>sl_lock = True, sl_data = d\<rparr>)"
  by (simp add: spinlock_defs)

lemma held_simps [simp]:
  "guard_deref \<lparr>sl_lock = b, sl_data = d\<rparr> = d"
  "guard_deref_mut f \<lparr>sl_lock = b, sl_data = d\<rparr> = \<lparr>sl_lock = b, sl_data = f d\<rparr>"
  "guard_drop \<lparr>sl_lock = b, sl_data = d\<rparr> = spinlock_new d"
  "unlock_scheduler \<lparr>sl_lock = b, sl_data = d\<rparr> = spinlock_new d"
  by (simp_all add: spinlock_defs unlock_scheduler_def)

lemma dequeue_cases:
  obtains (empty) "elems q = []" "dequeue q = (None, q)"
  | (first) x q' where "elems q = x # elems q'" "dequeue q = (Some x, q')"
proof (cases "elems q")
  case Nil
  then show ?thesis using empty linked_queue_deq_empty by blast
next
  case (Cons x xs)
  then show ?thesis
    using first [of x "snd (dequeue q)"] linked_queue_deq_nonempty [OF Cons] by (cases "dequeue q") simp
qed

lemma elems_drop_all [simp]: "elems (drop_all q) = []"
proof (induction q rule: drop_all.induct)
  case (1 q)
  show ?case
    by (cases q rule: dequeue_cases) (use 1 in \<open>subst drop_all.simps; simp\<close>)+
qed

text \<open>The state that the scheduler is in after a call that comes back to some thread.\<close>

fun after :: "'a outcome \<Rightarrow> scheduler option" where
  "after (Done _ s) = Some s"
| "after (Started _ s) = Some s"
| "after (Switched _ _ s) = Some s"
| "after (Panicked _) = None"
| "after Spins = None"

lemma yield_cases [consumes 1, case_names stay switch]:
  assumes "ss_active st = Some a"
  obtains (stay) "\<not> ss_initialized st \<or> al \<or> elems (ss_ready st) = []"
      "yield_cpu al sp (spinlock_new st) = Done () (spinlock_new st)"
  | (switch) nxt q where "ss_initialized st" "\<not> al" "elems (ss_ready st) = nxt # elems q"
      "yield_cpu al sp (spinlock_new st) = Switched (a\<lparr>th_stack_ptr := sp\<rparr>) nxt
         (spinlock_new (st\<lparr>ss_active := Some nxt, ss_ready := enqueue (a\<lparr>th_stack_ptr := sp\<rparr>) q\<rparr>))"
  using assms
  by (cases "ss_ready st" rule: dequeue_cases; cases "ss_initialized st"; cases al)
    (auto simp: yield_cpu_def Let_def)

lemma exit_cases [consumes 1, case_names none switch]:
  assumes "ss_active st = Some a"
  obtains (none) "elems (ss_ready st) = []" "exit sp (spinlock_new st) = Panicked UnwrapNone"
  | (switch) nxt q where "elems (ss_ready st) = nxt # elems q"
      "exit sp (spinlock_new st) = Switched (a\<lparr>th_stack_ptr := sp\<rparr>) nxt
         (spinlock_new (st\<lparr>ss_active := Some nxt, ss_ready := q,
            ss_terminated := enqueue (a\<lparr>th_stack_ptr := sp\<rparr>) (ss_terminated st)\<rparr>))"
  using assms by (cases "ss_ready st" rule: dequeue_cases) (auto simp: exit_def Let_def)

lemma calm_methods:
  "ready t (spinlock_new st) = Done () (spinlock_new (st\<lparr>ss_ready := enqueue t (ss_ready st)\<rparr>))"
  "kill k (spinlock_new st) = Done () (spinlock_new
     (st\<lparr>ss_ready := snd (remove (\<lambda>t. thread_id t = k) (ss_ready st))\<rparr>))"
  "cleanup_terminated_threads (spinlock_new st) = Done () (spinlock_new
     (st\<lparr>ss_terminated := drop_all (ss_terminated st)\<rparr>))"
  "ss_active st = Some a \<Longrightarrow> schedule (spinlock_new st) = Started a (spinlock_new (st\<lparr>ss_initialized := True\<rparr>))"
  "ss_active st = Some a \<Longrightarrow> get_active_tid (spinlock_new st) = Done (thread_id a) (spinlock_new st)"
  by (cases st; simp add: ready_def kill_def cleanup_terminated_threads_def schedule_def get_active_tid_def Let_def)+

subsection \<open>Histories of the scheduler\<close>

text \<open>
  A history is a sequence of calls by the running thread. \<open>U\<close> collects the thread identifiers
  handed out so far, which \<open>next_id\<close> never repeats before the counter wraps around. Two
  conditions are the ones the comments of the source state: the idle thread never exits, and
  it is not killed.
\<close>

inductive sched_step :: "usize \<Rightarrow> scheduler \<times> usize set \<Rightarrow> scheduler \<times> usize set \<Rightarrow> bool" for idle where
  do_ready: "th_id t \<notin> U \<Longrightarrow> after (ready t s) = Some s' \<Longrightarrow> sched_step idle (s, U) (s', insert (th_id t) U)"
| do_yield: "after (yield_cpu al sp s) = Some s' \<Longrightarrow> sched_step idle (s, U) (s', U)"
| do_exit: "get_active_tid s = Done i s0 \<Longrightarrow> i \<noteq> idle \<Longrightarrow> after (exit sp s) = Some s' \<Longrightarrow> sched_step idle (s, U) (s', U)"
| do_kill: "k \<noteq> idle \<Longrightarrow> after (kill k s) = Some s' \<Longrightarrow> sched_step idle (s, U) (s', U)"
| do_cleanup: "after (cleanup_terminated_threads s) = Some s' \<Longrightarrow> sched_step idle (s, U) (s', U)"
| do_schedule: "after (schedule s) = Some s' \<Longrightarrow> sched_step idle (s, U) (s', U)"

inductive sched_reachable :: "thread \<Rightarrow> scheduler \<times> usize set \<Rightarrow> bool" for idle where
  boot: "sched_reachable idle (scheduler_new idle, {th_id idle})"
| more: "sched_reachable idle c \<Longrightarrow> sched_step (th_id idle) c c' \<Longrightarrow> sched_reachable idle c'"

definition ids :: "thread linked_queue \<Rightarrow> usize list" where
  "ids q = map th_id (elems q)"

lemma ids_simps [simp]:
  "ids queue_new = []" "ids (enqueue t q) = ids q @ [th_id t]" "ids (drop_all q) = []"
  by (simp_all add: ids_def)

lemma ids_Cons: "elems q = t # elems q' \<Longrightarrow> ids q = th_id t # ids q'"
  by (simp add: ids_def)

lemma ids_remove: "distinct (ids q) \<Longrightarrow> ids (snd (remove (\<lambda>t. thread_id t = k) q)) = filter (\<lambda>i. i \<noteq> k) (ids q)"
  by (simp add: ids_def elems_remove thread_id_def remove_first_distinct filter_map o_def)

definition sched_inv :: "usize \<Rightarrow> scheduler \<times> usize set \<Rightarrow> bool" where
  "sched_inv idle c \<longleftrightarrow>
     (\<exists>st a U. c = (spinlock_new st, U) \<and> ss_active st = Some a
        \<and> (th_id a = idle \<or> idle \<in> set (ids (ss_ready st))) \<and> idle \<notin> set (ids (ss_terminated st))
        \<and> distinct (th_id a # ids (ss_ready st) @ ids (ss_terminated st)) \<and> set (th_id a # ids (ss_ready st) @ ids (ss_terminated st)) \<subseteq> U)"

lemma sched_inv_boot: "sched_inv (th_id idle) (scheduler_new idle, {th_id idle})"
  by (auto simp: sched_inv_def scheduler_new_def)

lemma sched_invI:
  "ss_active st = Some a \<Longrightarrow> th_id a = idle \<or> idle \<in> set (ids (ss_ready st)) \<Longrightarrow> idle \<notin> set (ids (ss_terminated st))
   \<Longrightarrow> distinct (th_id a # ids (ss_ready st) @ ids (ss_terminated st)) \<Longrightarrow> set (th_id a # ids (ss_ready st) @ ids (ss_terminated st)) \<subseteq> U
   \<Longrightarrow> sched_inv idle (spinlock_new st, U)"
  unfolding sched_inv_def by blast

lemma sched_inv_step:
  assumes "sched_step idle c c'" "sched_inv idle c"
  shows "sched_inv idle c'"
proof -
  obtain st a U where c: "c = (spinlock_new st, U)" "ss_active st = Some a"
    and i: "th_id a = idle \<or> idle \<in> set (ids (ss_ready st))" "idle \<notin> set (ids (ss_terminated st))"
    and d: "distinct (th_id a # ids (ss_ready st) @ ids (ss_terminated st))" "set (th_id a # ids (ss_ready st) @ ids (ss_terminated st)) \<subseteq> U"
    using assms(2) unfolding sched_inv_def by blast
  note known = c(2) i d
  from assms(1) show ?thesis unfolding c(1)
  proof (cases rule: sched_step.cases)
    case (do_ready t s')
    then show ?thesis using known by (auto simp: calm_methods intro!: sched_invI)
  next
    case (do_yield al sp s')
    from c(2) show ?thesis
    proof (cases rule: yield_cases [where al = al and sp = sp])
      case stay
      then show ?thesis using do_yield assms(2) c by simp
    next
      case (switch nxt q)
      then show ?thesis
        using do_yield known ids_Cons [OF switch(3)] by (auto intro!: sched_invI [of _ nxt])
    qed
  next
    case (do_exit i s0 sp s')
    have ne: "th_id a \<noteq> idle" using do_exit calm_methods(5) [OF c(2)] by (simp add: thread_id_def)
    from c(2) show ?thesis
    proof (cases rule: exit_cases [where sp = sp])
      case none
      then show ?thesis using do_exit by simp
    next
      case (switch nxt q)
      then show ?thesis
        using do_exit known ne ids_Cons [OF switch(1)] by (auto intro!: sched_invI [of _ nxt])
    qed
  next
    case (do_kill k s')
    have "distinct (ids (ss_ready st))" using d by simp
    then show ?thesis using do_kill known
      by (auto simp: calm_methods ids_remove intro!: sched_invI)
  next
    case (do_cleanup s')
    then show ?thesis using known by (auto simp: calm_methods intro!: sched_invI)
  next
    case (do_schedule s')
    then show ?thesis using known by (auto simp: calm_methods intro!: sched_invI)
  qed
qed

lemma sched_reachable_inv: "sched_reachable idle c \<Longrightarrow> sched_inv (th_id idle) c"
  by (induction rule: sched_reachable.induct) (auto intro: sched_inv_boot sched_inv_step)

subsection \<open>Round robin\<close>

text \<open>
  The threads that successive calls of \<open>yield_cpu\<close> switch to; \<open>sps\<close> are the stack pointers the
  threads leave with.
\<close>

fun yields :: "usize list \<Rightarrow> scheduler \<Rightarrow> usize list \<times> scheduler" where
  "yields [] s = ([], s)"
| "yields (sp # sps) s =
     (case yield_cpu False sp s of
        Switched _ nxt s' \<Rightarrow> (case yields sps s' of (is, s'') \<Rightarrow> (thread_id nxt # is, s''))
      | Done _ s' \<Rightarrow> yields sps s'
      | _ \<Rightarrow> ([], s))"

definition running :: "thread \<Rightarrow> thread linked_queue \<Rightarrow> thread linked_queue \<Rightarrow> scheduler" where
  "running a q z = spinlock_new \<lparr>ss_active = Some a, ss_ready = q, ss_terminated = z, ss_initialized = True\<rparr>"

lemma running_tid: "get_active_tid (running a q z) = Done (th_id a) (running a q z)"
  by (simp add: running_def calm_methods thread_id_def)

definition saved :: "thread \<Rightarrow> usize \<Rightarrow> thread" where
  "saved t sp = t\<lparr>th_stack_ptr := sp\<rparr>"

lemma yield_running:
  assumes "elems q = t # ts"
  obtains q' where "elems q' = ts @ [saved a sp]"
    "yield_cpu False sp (running a q z) = Switched (saved a sp) t (running t q' z)"
proof -
  obtain q1 where "dequeue q = (Some t, q1)" "elems q1 = ts"
    using linked_queue_deq_nonempty [OF assms] by (cases "dequeue q") auto
  then show ?thesis
    by (intro that [of "enqueue (saved a sp) q1"]) (auto simp: running_def yield_cpu_def Let_def saved_def)
qed

text \<open>As many calls as there are threads in front of the queue.\<close>

lemma yields_prefix:
  assumes "elems q = ts @ us" "length sps = length ts"
  shows "\<exists>q'. elems q' = us @ map2 saved (butlast (a # ts)) sps \<and>
    yields (sps @ rest) (running a q z) =
      (case yields rest (running (last (a # ts)) q' z) of (is, s') \<Rightarrow> (map th_id ts @ is, s'))"
  using assms
proof (induction ts arbitrary: a q us sps)
  case Nil
  then show ?case by (auto simp: split_def)
next
  case (Cons t ts)
  then obtain sp sps' where sps: "sps = sp # sps'" "length sps' = length ts" by (cases sps) auto
  obtain q1 where q1: "elems q1 = ts @ (us @ [saved a sp])"
    "yield_cpu False sp (running a q z) = Switched (saved a sp) t (running t q1 z)"
    using yield_running [of q t "ts @ us" a sp z] Cons.prems(1) by auto
  from Cons.IH [OF q1(1) sps(2), of t] obtain q2 where
    "elems q2 = (us @ [saved a sp]) @ map2 saved (butlast (t # ts)) sps'"
    "yields (sps' @ rest) (running t q1 z) =
       (case yields rest (running (last (t # ts)) q2 z) of (is, s') \<Rightarrow> (map th_id ts @ is, s'))" by blast
  then show ?case
    by (intro exI [of _ q2]) (simp add: sps(1) q1(2) thread_id_def split_def)
qed

lemma zip_saved_snoc:
  "length ts = length sps \<Longrightarrow> ts \<noteq> [] \<Longrightarrow>
     map2 saved (butlast ts) (butlast sps) @ [saved (last ts) (last sps)] = map2 saved ts sps"
  by (induction ts sps rule: list_induct2) (auto simp: neq_Nil_conv)

text \<open>
  C11. Round robin: when every one of the \<open>n + 1\<close> runnable threads calls \<open>yield_cpu\<close> once, the
  processor goes to each of the \<open>n\<close> waiting threads exactly once, in queue order, and back
  to the first one; afterwards the queue has its old order and every thread has exactly
  the stack pointer that it left with.
\<close>

theorem yield_round_robin:
  assumes "\<not> is_locked s" "ss_initialized (inner s)" "ss_active (inner s) = Some a"
    and "elems (ss_ready (inner s)) = ts" "ts \<noteq> []" "length sps = Suc (length ts)"
  shows "\<exists>s'. yields sps s = (map th_id ts @ [th_id a], s')
    \<and> \<not> is_locked s' \<and> ss_active (inner s') = Some (a\<lparr>th_stack_ptr := hd sps\<rparr>)
    \<and> elems (ss_ready (inner s')) = map2 (\<lambda>t sp. t\<lparr>th_stack_ptr := sp\<rparr>) ts (tl sps)"
proof -
  let ?q = "ss_ready (inner s)" and ?z = "ss_terminated (inner s)"
  obtain b bs where ts: "ts = b # bs" using assms(5) by (cases ts) auto
  obtain sp ps p where sps: "sps = sp # ps @ [p]" "length ps = length bs"
    using assms(6) ts by (cases sps; cases "tl sps" rule: rev_cases) auto
  have "inner s = \<lparr>ss_active = Some a, ss_ready = ?q, ss_terminated = ?z, ss_initialized = True\<rparr>"
    using assms(2,3) by (cases "inner s") simp
  then have "s = running a ?q ?z" using unlocked_eq [OF assms(1)] by (simp add: running_def)
  moreover obtain q1 where q1: "elems q1 = map2 saved (butlast (a # ts)) (sp # ps)"
    "yields sps (running a ?q ?z) = (case yields [p] (running (last ts) q1 ?z) of (is, s') \<Rightarrow> (map th_id ts @ is, s'))"
    using yields_prefix [of ?q ts "[]" "sp # ps" a "[p]" ?z] assms(4) sps ts by auto
  moreover have e: "elems q1 = saved a sp # map2 saved (butlast ts) ps" using q1(1) ts by simp
  obtain q2 where q2: "elems q2 = map2 saved (butlast ts) ps @ [saved (last ts) p]"
    "yield_cpu False p (running (last ts) q1 ?z) = Switched (saved (last ts) p) (saved a sp) (running (saved a sp) q2 ?z)"
    using yield_running [OF e] by blast
  moreover have "elems q2 = map2 saved ts (ps @ [p])"
    using q2(1) zip_saved_snoc [of ts "ps @ [p]"] sps(2) ts by simp
  ultimately show ?thesis
    using sps(1) by (intro exI [of _ "running (saved a sp) q2 ?z"])
      (simp add: running_def saved_def thread_id_def)
qed

definition demo_thread :: "usize \<Rightarrow> thread" where
  "demo_thread i = \<lparr>th_id = i, th_is_kernel_thread = True, th_kernel_stack = \<lparr>v_base = 0, v_cells = []\<rparr>,
     th_user_stack = \<lparr>v_base = 0, v_cells = []\<rparr>, th_stack_ptr = 0, th_entry = 0\<rparr>"

theorem yield_round_robin_witness:
  "fst (yields [10, 20, 30] (running (demo_thread 1) (enqueue (demo_thread 3) (enqueue (demo_thread 2) queue_new)) queue_new))
     = [2, 3, 1]"
  using yield_round_robin [of "running (demo_thread 1) (enqueue (demo_thread 3) (enqueue (demo_thread 2) queue_new)) queue_new"
      "demo_thread 1" "[demo_thread 2, demo_thread 3]" "[10, 20, 30]"]
  by (auto simp: running_def demo_thread_def)

subsection \<open>Progress and termination\<close>

text \<open>
  C2. In every history in which the idle thread is not killed and does not exit, no scheduler call
  panics or spins: the lock is free between calls, some thread is active, the idle thread is
  running or waiting, so a thread that exits always finds a successor.
\<close>

theorem scheduler_never_stuck:
  assumes "sched_reachable idle (s, U)"
  shows "\<not> is_locked s
    \<and> (\<exists>a :: thread. get_active_tid s = Done (th_id a) s
         \<and> (th_id a = th_id idle \<or> th_id idle \<in> th_id ` set (elems (ss_ready (inner s))))
         \<and> (th_id a \<noteq> th_id idle \<longrightarrow> (\<exists>c n s'. exit sp s = Switched c n s' \<and> th_id c = th_id a)))
    \<and> after (yield_cpu al sp s) \<noteq> None \<and> after (ready t s) \<noteq> None \<and> after (kill k s) \<noteq> None
    \<and> after (cleanup_terminated_threads s) \<noteq> None \<and> after (schedule s) \<noteq> None
    \<and> after (idle_round al sp s) \<noteq> None"
proof -
  obtain st a where s: "s = spinlock_new st" and a: "ss_active st = Some a"
    and i: "th_id a = th_id idle \<or> th_id idle \<in> set (ids (ss_ready st))"
    using sched_reachable_inv [OF assms] unfolding sched_inv_def by blast
  have i': "th_id a = th_id idle \<or> th_id idle \<in> th_id ` set (elems (ss_ready st))"
    using i by (simp add: ids_def)
  have y: "after (yield_cpu al sp (spinlock_new st')) \<noteq> None" if "ss_active st' = Some a" for st' al sp
    using that by (cases rule: yield_cases [where al = al and sp = sp]) simp_all
  have "th_id a \<noteq> th_id idle \<longrightarrow> (\<exists>c n s'. exit sp s = Switched c n s' \<and> th_id c = th_id a)"
    using a unfolding s by (cases rule: exit_cases [where sp = sp]) (use i in \<open>auto simp: ids_def\<close>)
  then show ?thesis
    using i' y [of st] y [of "st\<lparr>ss_terminated := drop_all (ss_terminated st)\<rparr>"] a
    by (simp add: s calm_methods thread_id_def idle_round_def) (intro exI [of _ a], simp)
qed

text \<open>A short history: two threads besides the idle thread, one of which exits.\<close>

definition demo_sched :: scheduler where
  "demo_sched = running (demo_thread 1) (enqueue (demo_thread 0) queue_new) queue_new"

lemma demo_reachable: "\<exists>U. sched_reachable (demo_thread 0) (demo_sched, U)"
proof -
  let ?i = "demo_thread 0" and ?t = "demo_thread 1"
  have "sched_reachable ?i (scheduler_new ?i, {0})"
    using sched_reachable.boot [of ?i] by (simp add: demo_thread_def)
  moreover have "sched_step (th_id ?i) (scheduler_new ?i, {0}) (spinlock_new
      \<lparr>ss_active = Some ?i, ss_ready = enqueue ?t queue_new, ss_terminated = queue_new, ss_initialized = False\<rparr>, {1, 0})"
    using sched_step.do_ready [of ?t "{0}" "scheduler_new ?i" _ "th_id ?i"]
    by (simp add: calm_methods scheduler_new_def demo_thread_def)
  moreover have "sched_step (th_id ?i) (spinlock_new
      \<lparr>ss_active = Some ?i, ss_ready = enqueue ?t queue_new, ss_terminated = queue_new, ss_initialized = False\<rparr>, {1, 0})
      (running ?i (enqueue ?t queue_new) queue_new, {1, 0})"
    by (rule sched_step.do_schedule) (simp add: calm_methods running_def)
  moreover have "sched_step (th_id ?i) (running ?i (enqueue ?t queue_new) queue_new, {1, 0}) (demo_sched, {1, 0})"
    by (rule sched_step.do_yield [of False 0])
      (simp add: yield_cpu_def running_def demo_sched_def dequeue_def enqueue_def queue_new_def node_new_def Let_def demo_thread_def)
  ultimately show ?thesis by (meson sched_reachable.more)
qed

theorem scheduler_never_stuck_witness:
  "\<exists>c n s'. exit 5 demo_sched = Switched c n s' \<and> th_id c = 1"
proof -
  obtain U where r: "sched_reachable (demo_thread 0) (demo_sched, U)" using demo_reachable by blast
  have "get_active_tid demo_sched = Done 1 demo_sched"
    by (simp add: demo_sched_def running_tid) (simp add: demo_thread_def)
  then show ?thesis
    using scheduler_never_stuck [OF r, of 5 False undefined 0]
    by (elim conjE exE) (simp add: demo_thread_def)
qed


subsection \<open>Threads that are gone\<close>

definition runnable :: "usize \<Rightarrow> scheduler \<Rightarrow> bool" where
  "runnable i s \<longleftrightarrow> (\<exists>a. ss_active (inner s) = Some a \<and> th_id a = i) \<or> i \<in> th_id ` set (elems (ss_ready (inner s)))"

lemma runnable_new: "ss_active st = Some a \<Longrightarrow> runnable i (spinlock_new st) \<longleftrightarrow> i = th_id a \<or> i \<in> set (ids (ss_ready st))"
  by (auto simp: runnable_def ids_def)

text \<open>An identifier that was handed out and is not runnable never becomes runnable again.\<close>

lemma gone_step:
  assumes "sched_step idle (s, U) (s', U')" "sched_inv idle (s, U)" "i \<in> U" "\<not> runnable i s"
  shows "i \<in> U' \<and> \<not> runnable i s'"
proof -
  obtain st a where c: "s = spinlock_new st" "ss_active st = Some a" and d: "distinct (ids (ss_ready st))"
    using assms(2) unfolding sched_inv_def by auto
  have g: "i \<noteq> th_id a" "i \<notin> set (ids (ss_ready st))"
    using assms(4) runnable_new [OF c(2)] c(1) by auto
  from assms(1) show ?thesis
  proof (cases rule: sched_step.cases)
    case (do_ready t)
    then show ?thesis using c g assms(3) by (auto simp: calm_methods runnable_new [where a = a])
  next
    case (do_yield al sp)
    from c(2) show ?thesis
      by (cases rule: yield_cases [where al = al and sp = sp])
        (use do_yield c g assms(3) in \<open>auto simp: runnable_new ids_def\<close>)
  next
    case (do_exit j s0 sp)
    from c(2) show ?thesis
      by (cases rule: exit_cases [where sp = sp])
        (use do_exit c g assms(3) in \<open>auto simp: runnable_new ids_def\<close>)
  next
    case (do_kill k)
    then show ?thesis using c g d assms(3) by (auto simp: calm_methods runnable_new [where a = a] ids_remove)
  next
    case do_cleanup
    then show ?thesis using c g assms(3) by (auto simp: calm_methods runnable_new [where a = a])
  next
    case do_schedule
    then show ?thesis using c g assms(3) by (auto simp: calm_methods runnable_new [where a = a])
  qed
qed

inductive sched_steps :: "usize \<Rightarrow> scheduler \<times> usize set \<Rightarrow> scheduler \<times> usize set \<Rightarrow> bool" for idle where
  none: "sched_steps idle c c"
| next_step: "sched_steps idle c c' \<Longrightarrow> sched_step idle c' c'' \<Longrightarrow> sched_steps idle c c''"

lemma gone_forever:
  assumes "sched_steps idle c c'" "sched_inv idle c" "i \<in> snd c" "\<not> runnable i (fst c)"
  shows "sched_inv idle c' \<and> i \<in> snd c' \<and> \<not> runnable i (fst c')"
  using assms
proof (induction rule: sched_steps.induct)
  case (next_step c c' c'')
  then have "sched_inv idle c'" "i \<in> snd c'" "\<not> runnable i (fst c')" by auto
  then show ?case
    using next_step.hyps(2) gone_step [of idle "fst c'" "snd c'" "fst c''" "snd c''" i] sched_inv_step [of idle c' c'']
    by simp
qed simp

text \<open>
  C24. A thread that called \<open>exit\<close>, or that was removed by \<open>kill\<close> while it waited, never runs again:
  after any further calls it is neither active nor in the ready queue.
\<close>

theorem terminated_never_runs:
  assumes "sched_reachable idle (s, U)" "sched_steps (th_id idle) (s1, U) (s2, U')"
    and "get_active_tid s = Done i s \<and> i \<noteq> th_id idle \<and> exit sp s = Switched c n s1
       \<or> i \<in> th_id ` set (elems (ss_ready (inner s))) \<and> i \<noteq> th_id idle \<and> kill i s = Done () s1"
  shows "get_active_tid s2 \<noteq> Done i s2 \<and> i \<notin> th_id ` set (elems (ss_ready (inner s2)))"
proof -
  obtain st a where s: "s = spinlock_new st" and a: "ss_active st = Some a"
    and d: "distinct (th_id a # ids (ss_ready st) @ ids (ss_terminated st))"
      "set (th_id a # ids (ss_ready st) @ ids (ss_terminated st)) \<subseteq> U"
    using sched_reachable_inv [OF assms(1)] unfolding sched_inv_def by blast
  have st: "sched_step (th_id idle) (s, U) (s1, U)"
    using assms(3) sched_step.do_exit [of s i s "th_id idle" sp s1 U] by (auto intro: sched_step.do_kill)
  have i: "i \<in> U \<and> \<not> runnable i s1"
    using assms(3)
  proof
    assume h: "get_active_tid s = Done i s \<and> i \<noteq> th_id idle \<and> exit sp s = Switched c n s1"
    then have "i = th_id a" using a by (simp add: s calm_methods thread_id_def)
    with a show ?thesis
      by (cases rule: exit_cases [where sp = sp]) (use h d in \<open>auto simp: s runnable_new dest: ids_Cons\<close>)
  next
    assume h: "i \<in> th_id ` set (elems (ss_ready (inner s))) \<and> i \<noteq> th_id idle \<and> kill i s = Done () s1"
    then have "i \<in> set (ids (ss_ready st))" by (simp add: s ids_def)
    then show ?thesis using h d a by (auto simp: s calm_methods runnable_new [where a = a] ids_remove)
  qed
  have "sched_inv (th_id idle) (s1, U)" using sched_inv_step [OF st sched_reachable_inv [OF assms(1)]] .
  from gone_forever [OF assms(2) this, of i] i
  have r: "sched_inv (th_id idle) (s2, U')" "\<not> runnable i s2" by auto
  then obtain st2 a2 where "s2 = spinlock_new st2" "ss_active st2 = Some a2" unfolding sched_inv_def by blast
  then show ?thesis using r(2) by (auto simp: runnable_def calm_methods thread_id_def)
qed

theorem terminated_never_runs_witness:
  "get_active_tid (running (demo_thread 0) queue_new (enqueue (demo_thread 1) queue_new))
     \<noteq> Done 1 (running (demo_thread 0) queue_new (enqueue (demo_thread 1) queue_new))"
proof -
  let ?s1 = "running (demo_thread 0) queue_new (enqueue (demo_thread 1) queue_new)"
  obtain U where r: "sched_reachable (demo_thread 0) (demo_sched, U)" using demo_reachable by blast
  have "get_active_tid demo_sched = Done 1 demo_sched"
    by (simp add: demo_sched_def running_tid) (simp add: demo_thread_def)
  moreover have "exit 0 demo_sched = Switched (demo_thread 1) (demo_thread 0) ?s1"
    by (simp add: exit_def demo_sched_def running_def dequeue_def enqueue_def queue_new_def node_new_def Let_def demo_thread_def)
  moreover have "(1 :: usize) \<noteq> th_id (demo_thread 0)" by (simp add: demo_thread_def)
  ultimately show ?thesis
    using terminated_never_runs [OF r sched_steps.none, of 1 0 "demo_thread 1" "demo_thread 0"] by blast
qed

text \<open>
  The idle thread is not protected from \<open>kill\<close>: once it is killed while it waits, the exit of the
  last remaining thread finds an empty ready queue and the kernel panics.
\<close>

theorem killing_idle_panics:
  "\<exists>s1. kill 0 demo_sched = Done () s1 \<and> exit sp s1 = Panicked UnwrapNone"
  by (simp add: demo_sched_def running_def calm_methods exit_def dequeue_def enqueue_def queue_new_def
      node_new_def Let_def demo_thread_def remove_def thread_id_def)

end
