(* ===== verification/Framebuffer.thy ===== *)
theory Framebuffer
  imports Bytes
begin

text \<open>
  \<^verbatim>\<open>kernel/src/device/framebuffer.rs\<close>: drawing into the linear framebuffer. The memory behind the
  framebuffer's address is a record of its size and its bytes, and an access outside it is
  \<^term>\<open>Inl MemoryFault\<close>, so a theorem that an operation succeeds also says that it stays inside the
  memory of the framebuffer. The build enables the feature \<^verbatim>\<open>unifont\<close>; the glyphs come from that
  crate and are the argument \<open>glyph\<close>, the sixteen bytes of a half-width glyph if there is one.
\<close>

subsection \<open>Video memory\<close>

record vram =
  vm_size :: nat
  vm_byte :: "nat \<Rightarrow> u8"

definition write_bytes :: "nat \<Rightarrow> u8 \<Rightarrow> nat \<Rightarrow> vram \<Rightarrow> vram res" where
  "write_bytes off v n m =
     (if off + n \<le> vm_size m
      then Inr (m\<lparr>vm_byte := (\<lambda>i. if off \<le> i \<and> i < off + n then v else vm_byte m i)\<rparr>) else Inl MemoryFault)"

definition copy_bytes :: "nat \<Rightarrow> nat \<Rightarrow> nat \<Rightarrow> vram \<Rightarrow> vram res" where
  "copy_bytes src dst n m =
     (if src + n \<le> vm_size m \<and> dst + n \<le> vm_size m
      then Inr (m\<lparr>vm_byte := (\<lambda>i. if dst \<le> i \<and> i < dst + n then vm_byte m (src + (i - dst)) else vm_byte m i)\<rparr>)
      else Inl MemoryFault)"

text \<open>A 32-bit store is little endian.\<close>

definition write_u32 :: "nat \<Rightarrow> u32 \<Rightarrow> vram \<Rightarrow> vram res" where
  "write_u32 off v m =
     (if off + 4 \<le> vm_size m
      then Inr (m\<lparr>vm_byte := (vm_byte m)(off := ucast v, off + 1 := ucast (drop_bit 8 v),
                  off + 2 := ucast (drop_bit 16 v), off + 3 := ucast (drop_bit 24 v))\<rparr>)
      else Inl MemoryFault)"

subsection \<open>The framebuffer\<close>

record framebuffer =
  fb_width :: nat
  fb_height :: nat
  fb_pitch :: nat
  fb_address :: u64

definition color :: "u8 \<Rightarrow> u8 \<Rightarrow> u8 \<Rightarrow> u32" where
  "color red green blue = push_bit 16 (ucast red) OR push_bit 8 (ucast green) OR ucast blue"

definition BLACK :: u32 where "BLACK = color 0 0 0"
definition RED :: u32 where "RED = color 170 0 0"
definition GREEN :: u32 where "GREEN = color 0 170 0"
definition YELLOW :: u32 where "YELLOW = color 170 170 0"
definition BROWN :: u32 where "BROWN = color 170 85 0"
definition BLUE :: u32 where "BLUE = color 0 0 170"
definition MAGENTA :: u32 where "MAGENTA = color 170 0 170"
definition CYAN :: u32 where "CYAN = color 0 170 170"
definition WHITE :: u32 where "WHITE = color 170 170 170"

definition CHAR_WIDTH :: nat where "CHAR_WIDTH = 8"
definition CHAR_HEIGHT :: nat where "CHAR_HEIGHT = 16"

definition framebuffer_new :: "nat \<Rightarrow> nat \<Rightarrow> nat \<Rightarrow> u64 \<Rightarrow> framebuffer" where
  "framebuffer_new width height pitch address =
     \<lparr>fb_width = width, fb_height = height, fb_pitch = pitch, fb_address = address\<rparr>"

datatype framebuffer_type = Indexed | RGB | EGAText

record framebuffer_info =
  fi_address :: u64
  fi_pitch :: u32
  fi_width :: u32
  fi_height :: u32
  fi_bpp :: u8
  fi_typ :: framebuffer_type

definition from_multiboot :: "framebuffer_info \<Rightarrow> framebuffer option" where
  "from_multiboot info =
     (case fi_typ info of
        RGB \<Rightarrow>
          if fi_bpp info \<noteq> 32 then None
          else Some \<lparr>fb_width = unat (fi_width info), fb_height = unat (fi_height info),
                     fb_pitch = unat (fi_pitch info), fb_address = fi_address info\<rparr>
      | _ \<Rightarrow> None)"

definition clear :: "framebuffer \<Rightarrow> vram \<Rightarrow> vram res" where
  "clear fb m = and_then (nmul (fb_pitch fb) (fb_height fb)) (\<lambda>n. write_bytes 0 0 n m)"

definition draw_pixel_unchecked :: "framebuffer \<Rightarrow> nat \<Rightarrow> nat \<Rightarrow> u32 \<Rightarrow> vram \<Rightarrow> vram res" where
  "draw_pixel_unchecked fb x y col m =
     and_then (nmul y (fb_pitch fb)) (\<lambda>a.
     and_then (nmul x 4) (\<lambda>b.
     and_then (nadd a b) (\<lambda>offset. write_u32 offset col m)))"

definition draw_pixel :: "framebuffer \<Rightarrow> nat \<Rightarrow> nat \<Rightarrow> u32 \<Rightarrow> vram \<Rightarrow> vram res" where
  "draw_pixel fb x y col m =
     (if x < fb_width fb \<and> y < fb_height fb then draw_pixel_unchecked fb x y col m else Inr m)"

text \<open>The loops of \<open>draw_char\<close>: over the bits of one byte, then over the rows.\<close>

fun draw_bits :: "framebuffer \<Rightarrow> u8 \<Rightarrow> nat list \<Rightarrow> nat \<Rightarrow> nat \<Rightarrow> u32 \<Rightarrow> u32 \<Rightarrow> vram \<Rightarrow> vram res" where
  "draw_bits fb byte [] x y fg bg m = Inr m"
| "draw_bits fb byte (b # bs) x y fg bg m =
     and_then (draw_pixel_unchecked fb x y (if push_bit b 1 AND byte = 0 then bg else fg) m) (\<lambda>m'.
     and_then (nadd x 1) (\<lambda>x'. draw_bits fb byte bs x' y fg bg m'))"

fun draw_rows :: "framebuffer \<Rightarrow> u8 list \<Rightarrow> nat list \<Rightarrow> nat \<Rightarrow> nat \<Rightarrow> nat \<Rightarrow> u32 \<Rightarrow> u32 \<Rightarrow> vram \<Rightarrow> vram res" where
  "draw_rows fb pixels [] pixel_index x y fg bg m = Inr m"
| "draw_rows fb pixels (y_offset # ys) pixel_index x y fg bg m =
     and_then (nadd y y_offset) (\<lambda>y'.
     and_then (get_index pixels pixel_index) (\<lambda>byte.
     and_then (draw_bits fb byte (rev [0..<8]) x y' fg bg m) (\<lambda>m'.
     and_then (nadd pixel_index 1) (\<lambda>i. draw_rows fb pixels ys i x y fg bg m'))))"

text \<open>With an eight pixel wide font the loop over the bytes of a row runs once.\<close>

definition draw_char ::
  "(u32 \<Rightarrow> u8 list option) \<Rightarrow> framebuffer \<Rightarrow> u32 \<Rightarrow> nat \<Rightarrow> nat \<Rightarrow> u32 \<Rightarrow> u32 \<Rightarrow> vram \<Rightarrow> vram res" where
  "draw_char glyph fb c x y fg bg m =
     and_then (nadd x CHAR_WIDTH) (\<lambda>r.
     and_then (if r > fb_width fb then Inr 0 else nadd y CHAR_HEIGHT) (\<lambda>b.
       if r > fb_width fb \<or> b > fb_height fb then Inr m
       else
         (case glyph c of
            None \<Rightarrow> Inr m
          | Some char_pixels \<Rightarrow> draw_rows fb char_pixels [0..<CHAR_HEIGHT] 0 x y fg bg m)))"

fun draw_str ::
  "(u32 \<Rightarrow> u8 list option) \<Rightarrow> framebuffer \<Rightarrow> u32 list \<Rightarrow> nat \<Rightarrow> nat \<Rightarrow> u32 \<Rightarrow> u32 \<Rightarrow> vram \<Rightarrow> vram res" where
  "draw_str glyph fb [] x y fg bg m = Inr m"
| "draw_str glyph fb (c # cs) x y fg bg m =
     and_then (draw_char glyph fb c x y fg bg m) (\<lambda>m'.
     and_then (nadd x CHAR_WIDTH) (\<lambda>x'. draw_str glyph fb cs x' y fg bg m'))"

definition scroll_up :: "framebuffer \<Rightarrow> nat \<Rightarrow> vram \<Rightarrow> vram res" where
  "scroll_up fb lines m =
     and_then (nmul (fb_pitch fb) CHAR_HEIGHT) (\<lambda>line_size.
     and_then (nmul line_size lines) (\<lambda>scroll_size.
     and_then (nmul (fb_pitch fb) (fb_height fb)) (\<lambda>total_size.
       if scroll_size \<ge> total_size then clear fb m
       else
         and_then (nsub total_size scroll_size) (\<lambda>copy_count.
         and_then (copy_bytes scroll_size 0 copy_count m) (\<lambda>m'.
           write_bytes copy_count 0 scroll_size m')))))"

subsection \<open>Pixels\<close>

definition pixel :: "framebuffer \<Rightarrow> vram \<Rightarrow> nat \<Rightarrow> nat \<Rightarrow> u32" where
  "pixel fb m x y =
     (let o' = y * fb_pitch fb + x * 4 in
      ucast (vm_byte m o') OR push_bit 8 (ucast (vm_byte m (o' + 1)))
      OR push_bit 16 (ucast (vm_byte m (o' + 2))) OR push_bit 24 (ucast (vm_byte m (o' + 3))))"

text \<open>A usable framebuffer: its rows hold its pixels and its memory is addressable.\<close>

definition fb_ok :: "framebuffer \<Rightarrow> vram \<Rightarrow> bool" where
  "fb_ok fb m \<longleftrightarrow> 4 * fb_width fb \<le> fb_pitch fb \<and> vm_size m = fb_pitch fb * fb_height fb
     \<and> fb_width fb < 2 ^ 32 \<and> fb_height fb < 2 ^ 32 \<and> fb_pitch fb < 2 ^ 32"

lemma pixel_offset_bound:
  assumes "fb_ok fb m" "x < fb_width fb" "y < fb_height fb"
  shows "y * fb_pitch fb + x * 4 + 4 \<le> vm_size m"
proof -
  have "Suc y * fb_pitch fb \<le> fb_height fb * fb_pitch fb" using assms(3) by (intro mult_le_mono1) simp
  moreover have "x * 4 + 4 \<le> fb_pitch fb" using assms(1,2) by (simp add: fb_ok_def)
  ultimately show ?thesis using assms(1) by (simp add: fb_ok_def mult.commute)
qed

lemma vm_size_bound: "fb_ok fb m \<Longrightarrow> vm_size m < 2 ^ 64"
proof -
  assume "fb_ok fb m"
  then have "vm_size m = fb_pitch fb * fb_height fb" "fb_pitch fb < 2 ^ 32" "fb_height fb < 2 ^ 32"
    by (auto simp: fb_ok_def)
  then have "vm_size m < 2 ^ 32 * 2 ^ 32" by (metis mult_strict_mono' zero_le)
  then show ?thesis by simp
qed

text \<open>Different pixels do not share bytes.\<close>

lemma pixel_offsets_apart:
  assumes "fb_ok fb m" "x < fb_width fb" "x' < fb_width fb" "(x, y) \<noteq> (x', y')"
  shows "y * fb_pitch fb + x * 4 + 4 \<le> y' * fb_pitch fb + x' * 4
    \<or> y' * fb_pitch fb + x' * 4 + 4 \<le> y * fb_pitch fb + x * 4"
proof -
  have p: "x * 4 + 4 \<le> fb_pitch fb" "x' * 4 + 4 \<le> fb_pitch fb" using assms(1-3) by (simp_all add: fb_ok_def)
  have row: "a * fb_pitch fb + fb_pitch fb \<le> b * fb_pitch fb" if "a < b" for a b
    using mult_le_mono1 [of "Suc a" b "fb_pitch fb"] that by simp
  consider "y < y'" | "y' < y" | "y = y'" "x \<noteq> x'" using assms(4) by fastforce
  then show ?thesis
  proof cases
    case 1
    then show ?thesis using row p by fastforce
  next
    case 2
    then show ?thesis using row p by fastforce
  next
    case 3
    then show ?thesis by auto
  qed
qed


text \<open>An operation that leaves the geometry alone and turns the picture into \<open>pic\<close>.\<close>

definition paints :: "framebuffer \<Rightarrow> vram res \<Rightarrow> vram \<Rightarrow> (nat \<Rightarrow> nat \<Rightarrow> u32) \<Rightarrow> bool" where
  "paints fb r m pic \<longleftrightarrow>
     (\<exists>m'. r = Inr m' \<and> fb_ok fb m' \<and> (\<forall>x y. x < fb_width fb \<longrightarrow> y < fb_height fb \<longrightarrow> pixel fb m' x y = pic x y))"

lemma paintsE:
  assumes "paints fb r m pic"
  obtains m' where "r = Inr m'" "fb_ok fb m'" "\<And>x y. x < fb_width fb \<Longrightarrow> y < fb_height fb \<Longrightarrow> pixel fb m' x y = pic x y"
  using assms unfolding paints_def by blast

lemma paints_pixel:
  assumes "fb_ok fb m" "x < fb_width fb" "y < fb_height fb"
  shows "paints fb (draw_pixel_unchecked fb x y col m) m (\<lambda>x' y'. if (x', y') = (x, y) then col else pixel fb m x' y')"
proof -
  let ?o = "y * fb_pitch fb + x * 4"
  have b: "?o + 4 \<le> vm_size m" by (rule pixel_offset_bound [OF assms])
  then have lt: "?o < 2 ^ 64" "y * fb_pitch fb < 2 ^ 64" "x * 4 < 2 ^ 64" using vm_size_bound [OF assms(1)] by linarith+
  have ops: "nmul y (fb_pitch fb) = Inr (y * fb_pitch fb)" "nmul x 4 = Inr (x * 4)" "nadd (y * fb_pitch fb) (x * 4) = Inr ?o"
    using lt by (simp_all only: nmul_ok nadd_ok)
  define m' where "m' = m\<lparr>vm_byte := (vm_byte m)(?o := ucast col, ?o + 1 := ucast (drop_bit 8 col),
    ?o + 2 := ucast (drop_bit 16 col), ?o + 3 := ucast (drop_bit 24 col))\<rparr>"
  have "draw_pixel_unchecked fb x y col m = Inr m'"
    using b by (simp add: draw_pixel_unchecked_def ops write_u32_def m'_def)
  moreover have "pixel fb m' x y = col" by (simp add: pixel_def Let_def m'_def le_bytes_join)
  moreover have "pixel fb m' x' y' = pixel fb m x' y'" if "x' < fb_width fb" "(x', y') \<noteq> (x, y)" for x' y'
    using pixel_offsets_apart [OF assms(1,2) that(1), of y y'] that(2)
    by (auto simp: pixel_def Let_def m'_def)
  moreover have "fb_ok fb m'" using assms(1) by (simp add: fb_ok_def m'_def)
  ultimately show ?thesis unfolding paints_def by (intro exI [of _ m']) auto
qed

lemma paints_bits:
  "fb_ok fb m \<Longrightarrow> n \<le> 8 \<Longrightarrow> x + n \<le> fb_width fb \<Longrightarrow> y < fb_height fb \<Longrightarrow>
     paints fb (draw_bits fb byte (rev [0..<n]) x y fg bg m) m
       (\<lambda>x' y'. if x \<le> x' \<and> x' < x + n \<and> y' = y then (if bit byte (n - 1 - (x' - x)) then fg else bg) else pixel fb m x' y')"
proof (induction n arbitrary: x m)
  case 0
  then show ?case by (auto simp: paints_def)
next
  case (Suc n)
  let ?c = "if push_bit n 1 AND byte = 0 then bg else fg"
  have bt: "bit (push_bit n (1 :: u8)) k \<longleftrightarrow> k = n" for k
    using Suc.prems(2) by (simp only: bit_push_bit_iff bit_1_iff) auto
  have "push_bit n 1 AND byte = 0 \<longleftrightarrow> \<not> bit byte n"
    using Suc.prems(2) by (auto simp: bit_eq_iff [of "push_bit n 1 AND byte"] bit_and_iff bt simp del: push_bit_of_1)
  then have col: "?c = (if bit byte n then fg else bg)" by simp
  obtain m1 where m1: "draw_pixel_unchecked fb x y ?c m = Inr m1" "fb_ok fb m1"
    "\<And>x' y'. x' < fb_width fb \<Longrightarrow> y' < fb_height fb \<Longrightarrow>
       pixel fb m1 x' y' = (if (x', y') = (x, y) then ?c else pixel fb m x' y')"
    using paintsE [OF paints_pixel [OF Suc.prems(1), of x y ?c]] Suc.prems by auto
  have x: "nadd x 1 = Inr (Suc x)" using Suc.prems by (simp add: nadd_def fb_ok_def)
  obtain m2 where m2: "draw_bits fb byte (rev [0..<n]) (Suc x) y fg bg m1 = Inr m2" "fb_ok fb m2"
    "\<And>x' y'. x' < fb_width fb \<Longrightarrow> y' < fb_height fb \<Longrightarrow> pixel fb m2 x' y' =
       (if Suc x \<le> x' \<and> x' < Suc x + n \<and> y' = y then (if bit byte (n - 1 - (x' - Suc x)) then fg else bg) else pixel fb m1 x' y')"
    using paintsE [OF Suc.IH [OF m1(2), of "Suc x"]] Suc.prems by auto
  have "draw_bits fb byte (rev [0..<Suc n]) x y fg bg m = Inr m2"
    using m1(1) x m2(1) by simp
  moreover have "pixel fb m2 x' y' = (if x \<le> x' \<and> x' < x + Suc n \<and> y' = y
      then (if bit byte (Suc n - 1 - (x' - x)) then fg else bg) else pixel fb m x' y')"
    if "x' < fb_width fb" "y' < fb_height fb" for x' y'
  proof (cases "x' = x \<and> y' = y")
    case True
    then show ?thesis using m1(3) m2(3) that col by simp
  next
    case False
    have "n - 1 - (x' - Suc x) = Suc n - 1 - (x' - x)" if "Suc x \<le> x'" using that by simp
    then show ?thesis using False m1(3) [OF that] m2(3) [OF that] by auto
  qed
  ultimately show ?case unfolding paints_def using m2(2) by blast
qed


lemma paintsI:
  "r = Inr m' \<Longrightarrow> fb_ok fb m' \<Longrightarrow> (\<And>x y. x < fb_width fb \<Longrightarrow> y < fb_height fb \<Longrightarrow> pixel fb m' x y = pic x y)
     \<Longrightarrow> paints fb r m pic"
  by (auto simp: paints_def)

lemma paints_then:
  assumes "paints fb r m (\<lambda>x y. if P x y then c x y else pixel fb m x y)"
    and "\<And>m1. fb_ok fb m1 \<Longrightarrow> paints fb (f m1) m1 (\<lambda>x y. if Q x y then d x y else pixel fb m1 x y)"
  shows "paints fb (and_then r f) m (\<lambda>x y. if Q x y then d x y else if P x y then c x y else pixel fb m x y)"
proof -
  obtain m1 where m1: "r = Inr m1" "fb_ok fb m1"
    "\<And>x y. x < fb_width fb \<Longrightarrow> y < fb_height fb \<Longrightarrow> pixel fb m1 x y = (if P x y then c x y else pixel fb m x y)"
    using paintsE [OF assms(1)] by blast
  obtain m2 where "f m1 = Inr m2" "fb_ok fb m2"
    "\<And>x y. x < fb_width fb \<Longrightarrow> y < fb_height fb \<Longrightarrow> pixel fb m2 x y = (if Q x y then d x y else pixel fb m1 x y)"
    using paintsE [OF assms(2) [OF m1(2)]] by blast
  then show ?thesis using m1 by (intro paintsI [where m' = m2]) simp_all
qed

lemma paints_cong:
  assumes "paints fb r m p" "\<And>x y. x < fb_width fb \<Longrightarrow> y < fb_height fb \<Longrightarrow> p x y = q x y"
  shows "paints fb r m q"
  using assms by (auto simp: paints_def)

lemma paints_nothing: "fb_ok fb m \<Longrightarrow> paints fb (Inr m) m (pixel fb m)"
  by (rule paintsI) simp_all

lemma paints_byte:
  assumes "fb_ok fb m" "x + 8 \<le> fb_width fb" "y < fb_height fb"
  shows "paints fb (draw_bits fb byte (rev [0..<8]) x y fg bg m) m
    (\<lambda>x' y'. if x \<le> x' \<and> x' < x + 8 \<and> y' = y then (if bit byte (7 - (x' - x)) then fg else bg) else pixel fb m x' y')"
  using paints_bits [OF assms(1), of 8 x y byte fg bg] assms(2,3) by (simp cong: if_cong)

lemma paints_rows:
  "fb_ok fb m \<Longrightarrow> k \<le> n \<Longrightarrow> n \<le> length pixels \<Longrightarrow> x + 8 \<le> fb_width fb \<Longrightarrow> y + n \<le> fb_height fb \<Longrightarrow>
     paints fb (draw_rows fb pixels [k..<n] k x y fg bg m) m
       (\<lambda>x' y'. if x \<le> x' \<and> x' < x + 8 \<and> y + k \<le> y' \<and> y' < y + n
          then (if bit (pixels ! (y' - y)) (7 - (x' - x)) then fg else bg) else pixel fb m x' y')"
proof (induction "n - k" arbitrary: k m)
  case 0
  then show ?case by (auto simp: paints_def)
next
  case (Suc d)
  then have k: "k < n" "d = n - Suc k" by simp_all
  have h: "fb_height fb < 2 ^ 32" using Suc.prems(1) by (simp add: fb_ok_def)
  have add: "nadd y k = Inr (y + k)" "nadd k 1 = Inr (Suc k)"
    using k h Suc.prems(5) by (simp_all add: nadd_ok)
  obtain m1 where m1: "draw_bits fb (pixels ! k) (rev [0..<8]) x (y + k) fg bg m = Inr m1" "fb_ok fb m1"
    "\<And>x' y'. x' < fb_width fb \<Longrightarrow> y' < fb_height fb \<Longrightarrow> pixel fb m1 x' y' =
       (if x \<le> x' \<and> x' < x + 8 \<and> y' = y + k then (if bit (pixels ! k) (7 - (x' - x)) then fg else bg) else pixel fb m x' y')"
    by (rule paintsE [OF paints_byte [OF Suc.prems(1), of x "y + k" "pixels ! k" fg bg]])
      (use Suc.prems k in simp_all)
  obtain m2 where m2: "draw_rows fb pixels [Suc k..<n] (Suc k) x y fg bg m1 = Inr m2" "fb_ok fb m2"
    "\<And>x' y'. x' < fb_width fb \<Longrightarrow> y' < fb_height fb \<Longrightarrow> pixel fb m2 x' y' =
       (if x \<le> x' \<and> x' < x + 8 \<and> y + Suc k \<le> y' \<and> y' < y + n
        then (if bit (pixels ! (y' - y)) (7 - (x' - x)) then fg else bg) else pixel fb m1 x' y')"
    using paintsE [OF Suc.hyps(1) [OF k(2) m1(2)]] Suc.prems k by auto
  show ?case
  proof (rule paintsI [where m' = m2])
    show "draw_rows fb pixels [k..<n] k x y fg bg m = Inr m2"
      using k Suc.prems(3) add m1(1) m2(1) by (simp add: upt_conv_Cons del: upt_rec_numeral)
    show "fb_ok fb m2" by (rule m2(2))
    fix x' y'
    assume b: "x' < fb_width fb" "y' < fb_height fb"
    show "pixel fb m2 x' y' = (if x \<le> x' \<and> x' < x + 8 \<and> y + k \<le> y' \<and> y' < y + n
        then (if bit (pixels ! (y' - y)) (7 - (x' - x)) then fg else bg) else pixel fb m x' y')"
      using m1(3) [OF b] m2(3) [OF b] k by (cases "y' = y + k") auto
  qed
qed

text \<open>The picture of a glyph at its place.\<close>

definition glyph_pixel :: "u8 list \<Rightarrow> u32 \<Rightarrow> u32 \<Rightarrow> nat \<Rightarrow> nat \<Rightarrow> u32" where
  "glyph_pixel g fg bg dx dy = (if bit (g ! dy) (CHAR_WIDTH - 1 - dx) then fg else bg)"

lemma paints_char:
  assumes "fb_ok fb m" "glyph c = Some g" "length g = CHAR_HEIGHT" "x + CHAR_WIDTH \<le> fb_width fb" "y + CHAR_HEIGHT \<le> fb_height fb"
  shows "paints fb (draw_char glyph fb c x y fg bg m) m
    (\<lambda>x' y'. if x \<le> x' \<and> x' < x + CHAR_WIDTH \<and> y \<le> y' \<and> y' < y + CHAR_HEIGHT
       then glyph_pixel g fg bg (x' - x) (y' - y) else pixel fb m x' y')"
proof -
  have "fb_width fb < 2 ^ 32" "fb_height fb < 2 ^ 32" using assms(1) by (simp_all add: fb_ok_def)
  then have "nadd x CHAR_WIDTH = Inr (x + CHAR_WIDTH)" "nadd y CHAR_HEIGHT = Inr (y + CHAR_HEIGHT)"
    using assms(4,5) by (simp_all add: nadd_ok)
  then have "draw_char glyph fb c x y fg bg m = draw_rows fb g [0..<16] 0 x y fg bg m"
    using assms(2,4,5) by (simp add: draw_char_def CHAR_HEIGHT_def)
  then show ?thesis
    using paints_rows [OF assms(1), of 0 16 g x y fg bg] assms(3-5)
    by (simp add: glyph_pixel_def CHAR_WIDTH_def CHAR_HEIGHT_def del: upt_rec_numeral cong: if_cong)
qed

lemma no_glyph_no_change:
  assumes "x + CHAR_WIDTH < 2 ^ 64" "y + CHAR_HEIGHT < 2 ^ 64"
    "glyph c = None \<or> fb_width fb < x + CHAR_WIDTH \<or> fb_height fb < y + CHAR_HEIGHT"
  shows "draw_char glyph fb c x y fg bg m = Inr m"
  using assms nadd_ok [OF assms(1)] nadd_ok [OF assms(2)] by (auto simp: draw_char_def)

subsection \<open>Clearing and scrolling\<close>

lemma pixel_zero:
  "(\<And>i. y * fb_pitch fb + x * 4 \<le> i \<Longrightarrow> i < y * fb_pitch fb + x * 4 + 4 \<Longrightarrow> vm_byte m i = 0) \<Longrightarrow> pixel fb m x y = 0"
  by (simp add: pixel_def Let_def)

lemma pixel_shift:
  assumes "\<And>i. y * fb_pitch fb + x * 4 \<le> i \<Longrightarrow> i < y * fb_pitch fb + x * 4 + 4 \<Longrightarrow> vm_byte m' i = vm_byte m (d * fb_pitch fb + i)"
  shows "pixel fb m' x y = pixel fb m x (y + d)"
proof -
  have "d * fb_pitch fb + (y * fb_pitch fb + x * 4) = (y + d) * fb_pitch fb + x * 4" by (simp add: algebra_simps)
  then show ?thesis using assms by (simp add: pixel_def Let_def add.assoc [symmetric])
qed

lemma paints_clear:
  assumes "fb_ok fb m"
  shows "paints fb (clear fb m) m (\<lambda>_ _. 0)"
proof -
  define m' where "m' = m\<lparr>vm_byte := (\<lambda>i. if i < vm_size m then 0 else vm_byte m i)\<rparr>"
  have "nmul (fb_pitch fb) (fb_height fb) = Inr (vm_size m)"
    using vm_size_bound [OF assms] assms by (simp add: nmul_ok fb_ok_def)
  then have "clear fb m = Inr m'" by (simp add: clear_def write_bytes_def m'_def)
  then show ?thesis
  proof (rule paintsI)
    show "fb_ok fb m'" using assms by (simp add: fb_ok_def m'_def)
    fix x y
    assume "x < fb_width fb" "y < fb_height fb"
    then show "pixel fb m' x y = 0"
      using pixel_offset_bound [OF assms] by (intro pixel_zero) (fastforce simp: m'_def)
  qed
qed

lemma paints_scroll:
  assumes ok: "fb_ok fb m" and lt: "CHAR_HEIGHT * lines * fb_pitch fb < 2 ^ 64"
  shows "paints fb (scroll_up fb lines m) m
    (\<lambda>x y. if y + CHAR_HEIGHT * lines < fb_height fb then pixel fb m x (y + CHAR_HEIGHT * lines) else 0)"
proof -
  let ?d = "CHAR_HEIGHT * lines" and ?p = "fb_pitch fb" and ?h = "fb_height fb"
  have sz: "vm_size m = ?p * ?h" "?p * ?h < 2 ^ 64" using ok vm_size_bound [OF ok] by (simp_all add: fb_ok_def)
  have line: "?p * CHAR_HEIGHT < 2 ^ 64" using ok by (simp add: fb_ok_def CHAR_HEIGHT_def)
  have scroll: "?p * CHAR_HEIGHT * lines = ?d * ?p" by (simp add: mult.commute mult.left_commute)
  have ops: "nmul ?p CHAR_HEIGHT = Inr (?p * CHAR_HEIGHT)" "nmul (?p * CHAR_HEIGHT) lines = Inr (?d * ?p)"
    "nmul ?p ?h = Inr (?p * ?h)"
    using nmul_ok [OF line] nmul_ok [of "?p * CHAR_HEIGHT" lines] nmul_ok [OF sz(2)] lt unfolding scroll by simp_all
  show ?thesis
  proof (cases "?d * ?p \<ge> ?p * ?h")
    case True
    then have "scroll_up fb lines m = clear fb m" by (simp add: scroll_up_def ops)
    moreover have "?h \<le> ?d" if "x < fb_width fb" for x
      using True that ok by (auto simp: fb_ok_def mult.commute)
    ultimately show ?thesis using paints_clear [OF ok] unfolding paints_def by fastforce
  next
    case False
    let ?n = "?p * ?h - ?d * ?p"
    define m' where "m' = m\<lparr>vm_byte := (\<lambda>i. if i < ?n then vm_byte m (?d * ?p + i) else if i < ?p * ?h then 0 else vm_byte m i)\<rparr>"
    have dh: "?d < ?h" using False by (metis mult.commute mult_le_mono1 not_le)
    have n: "?n = (?h - ?d) * ?p" by (metis diff_mult_distrib mult.commute)
    show ?thesis
    proof (rule paintsI [where m' = m'])
      show "scroll_up fb lines m = Inr m'"
        using False by (auto simp: scroll_up_def ops nsub_def copy_bytes_def write_bytes_def sz(1) m'_def fun_eq_iff)
      show "fb_ok fb m'" using ok by (simp add: fb_ok_def m'_def)
      fix x y
      assume b: "x < fb_width fb" "y < ?h"
      have o4: "x * 4 + 4 \<le> ?p" using b(1) ok by (simp add: fb_ok_def)
      have top: "y * ?p + x * 4 + 4 \<le> ?p * ?h" using pixel_offset_bound [OF ok b] sz(1) by simp
      show "pixel fb m' x y = (if y + ?d < ?h then pixel fb m x (y + ?d) else 0)"
      proof (cases "y + ?d < ?h")
        case True
        then have "Suc y * ?p \<le> (?h - ?d) * ?p" by (intro mult_le_mono1) simp
        then have "y * ?p + x * 4 + 4 \<le> ?n" using n o4 by simp
        then show ?thesis using True by (simp add: pixel_shift [where d = ?d and m = m] m'_def)
      next
        case below: False
        then have "(?h - ?d) * ?p \<le> y * ?p" by (intro mult_le_mono1) simp
        then have "?n \<le> y * ?p" using n by simp
        then show ?thesis using below top by (simp add: pixel_zero m'_def)
      qed
    qed
  qed
qed

end
