(* ===== verification/Text_Output.thy ===== *)
theory Text_Output
  imports Prelude
begin

text \<open>
  The loop behind every \<open>write_str\<close> of the kernel (terminal and serial port): feed the characters of a
  string to an operation that writes one of them. \<^term>\<open>None\<close> is a write that never returns. The
  interface \<open>text_sink\<close> is what a device promises for a single character; its lemmas carry that
  promise to strings and to several strings in a row.
\<close>

fun write_all :: "('c \<Rightarrow> 's \<Rightarrow> 's res option) \<Rightarrow> 'c list \<Rightarrow> 's \<Rightarrow> 's res option" where
  "write_all put [] s = Some (Inr s)"
| "write_all put (c # cs) s =
     (case put c s of
        None \<Rightarrow> None
      | Some (Inl e) \<Rightarrow> Some (Inl e)
      | Some (Inr s') \<Rightarrow> write_all put cs s')"

locale text_sink =
  fixes put_op :: "'c \<Rightarrow> 's \<Rightarrow> 's res option"
    and rel :: "'s \<Rightarrow> 'a \<Rightarrow> bool"
    and spec :: "'c \<Rightarrow> 'a \<Rightarrow> 'a"
  assumes put_simulates: "rel s a \<Longrightarrow> \<exists>s'. put_op c s = Some (Inr s') \<and> rel s' (spec c a)"
begin

lemma write_all_simulates:
  assumes "rel s a"
  shows "\<exists>s'. write_all put_op cs s = Some (Inr s') \<and> rel s' (fold spec cs a)"
  using assms
proof (induction cs arbitrary: s a)
  case Nil
  then show ?case by simp
next
  case (Cons c cs)
  obtain s1 where "put_op c s = Some (Inr s1)" "rel s1 (spec c a)" using put_simulates [OF Cons.prems] by blast
  then show ?case using Cons.IH [of s1 "spec c a"] by simp
qed

lemma write_all_twice:
  assumes "rel s a"
  shows "\<exists>s1 s2. write_all put_op cs s = Some (Inr s1) \<and> write_all put_op ds s1 = Some (Inr s2)
    \<and> write_all put_op (cs @ ds) s = Some (Inr s2) \<and> rel s2 (fold spec (cs @ ds) a)"
proof -
  have app: "write_all put_op cs s = Some (Inr s1) \<Longrightarrow> write_all put_op (cs @ ds) s = write_all put_op ds s1" for s1
    by (induction cs arbitrary: s) (auto split: option.splits sum.splits)
  obtain s1 where 1: "write_all put_op cs s = Some (Inr s1)" "rel s1 (fold spec cs a)"
    using write_all_simulates [OF assms] by blast
  obtain s2 where "write_all put_op ds s1 = Some (Inr s2)" "rel s2 (fold spec ds (fold spec cs a))"
    using write_all_simulates [OF 1(2)] by blast
  then show ?thesis using 1(1) app [OF 1(1)] by simp
qed

end

end
