(* ===== verification/Terminal.thy ===== *)
theory Terminal
  imports Framebuffer Spinlock Once Text_Output
begin

text \<open>
  \<^verbatim>\<open>kernel/src/device/terminal.rs\<close>: text output on the framebuffer. A terminal owns its framebuffer
  behind a lock; the video memory is passed alongside. \<^term>\<open>None\<close> is a lock that is never released.
  The specification is a text screen, a grid of cells with a cursor; the refinement says that the
  pixels of the framebuffer are at all times the picture of that grid.
\<close>

subsection \<open>The terminal\<close>

definition DEFAULT_FG_COLOR :: u32 where "DEFAULT_FG_COLOR = GREEN"
definition DEFAULT_BG_COLOR :: u32 where "DEFAULT_BG_COLOR = BLACK"

record terminal =
  t_cols :: nat
  t_rows :: nat
  t_pos :: "nat \<times> nat"
  t_framebuffer :: "framebuffer spinlock"

definition terminal_new :: "framebuffer \<Rightarrow> vram \<Rightarrow> (terminal \<times> vram) res" where
  "terminal_new fb m =
     (let cols = fb_width fb div CHAR_WIDTH; rows = fb_height fb div CHAR_HEIGHT in
      and_then (clear fb m) (\<lambda>m'.
        Inr (\<lparr>t_cols = cols, t_rows = rows, t_pos = (0, 0), t_framebuffer = spinlock_new fb\<rparr>, m')))"

definition terminal_pos :: "terminal \<Rightarrow> nat \<times> nat" where
  "terminal_pos t = t_pos t"

definition terminal_size :: "terminal \<Rightarrow> nat \<times> nat" where
  "terminal_size t = (t_cols t, t_rows t)"

definition set_pos :: "nat \<Rightarrow> nat \<Rightarrow> terminal \<Rightarrow> terminal res" where
  "set_pos col row t =
     and_then (nsub (t_cols t) 1) (\<lambda>c.
     and_then (nsub (t_rows t) 1) (\<lambda>r.
       Inr (t\<lparr>t_pos := (max (min col c) 0, max (min row r) 0)\<rparr>)))"

text \<open>Run \<open>f\<close> on the framebuffer under its lock.\<close>

definition terminal_clear :: "terminal \<Rightarrow> vram \<Rightarrow> (terminal \<times> vram) res option" where
  "terminal_clear t m =
     (case lock (t_framebuffer t) of
        None \<Rightarrow> None
      | Some g \<Rightarrow> Some (and_then (clear (guard_deref g) m) (\<lambda>m'.
          Inr (t\<lparr>t_framebuffer := guard_drop g, t_pos := (0, 0)\<rparr>, m'))))"

definition char_at :: "(u32 \<Rightarrow> u8 list option) \<Rightarrow> framebuffer \<Rightarrow> u32 \<Rightarrow> nat \<times> nat \<Rightarrow> u32 \<Rightarrow> u32 \<Rightarrow> vram \<Rightarrow> vram res" where
  "char_at glyph fb c pos fg bg m =
     and_then (nmul (fst pos) CHAR_WIDTH) (\<lambda>x.
     and_then (nmul (snd pos) CHAR_HEIGHT) (\<lambda>y. draw_char glyph fb c x y fg bg m))"

definition put_char_colored ::
  "(u32 \<Rightarrow> u8 list option) \<Rightarrow> u32 \<Rightarrow> u32 \<Rightarrow> u32 \<Rightarrow> terminal \<Rightarrow> vram \<Rightarrow> (terminal \<times> vram) res option" where
  "put_char_colored glyph c fg bg t m =
     (case lock (t_framebuffer t) of
        None \<Rightarrow> None
      | Some g \<Rightarrow>
          let fb = guard_deref g in
          Some (
            and_then (if c \<noteq> 10
                      then and_then (char_at glyph fb c (t_pos t) fg bg m) (\<lambda>m1.
                           and_then (nadd (fst (t_pos t)) 1) (\<lambda>x. Inr (m1, (x, snd (t_pos t)))))
                      else Inr (m, t_pos t)) (\<lambda>(m1, p1).
            and_then (if fst p1 \<ge> t_cols t \<or> c = 10
                      then and_then (nadd (snd p1) 1) (\<lambda>y. Inr (0, y))
                      else Inr p1) (\<lambda>p2.
            and_then (if snd p2 \<ge> t_rows t
                      then and_then (scroll_up fb 1 m1) (\<lambda>m2.
                           and_then (nsub (t_rows t) 1) (\<lambda>y. Inr (m2, (fst p2, y))))
                      else Inr (m1, p2)) (\<lambda>(m3, p3).
              Inr (t\<lparr>t_framebuffer := guard_drop g, t_pos := p3\<rparr>, m3))))))"

definition put_char ::
  "(u32 \<Rightarrow> u8 list option) \<Rightarrow> u32 \<Rightarrow> terminal \<Rightarrow> vram \<Rightarrow> (terminal \<times> vram) res option" where
  "put_char glyph c = put_char_colored glyph c DEFAULT_FG_COLOR DEFAULT_BG_COLOR"

definition draw_cursor :: "(u32 \<Rightarrow> u8 list option) \<Rightarrow> nat \<times> nat \<Rightarrow> framebuffer \<Rightarrow> vram \<Rightarrow> vram res" where
  "draw_cursor glyph pos fb = char_at glyph fb 32 pos DEFAULT_FG_COLOR DEFAULT_FG_COLOR"

definition clear_cursor :: "(u32 \<Rightarrow> u8 list option) \<Rightarrow> nat \<times> nat \<Rightarrow> framebuffer \<Rightarrow> vram \<Rightarrow> vram res" where
  "clear_cursor glyph pos fb = char_at glyph fb 32 pos DEFAULT_BG_COLOR DEFAULT_BG_COLOR"

definition terminal_write_str ::
  "(u32 \<Rightarrow> u8 list option) \<Rightarrow> u32 list \<Rightarrow> terminal \<times> vram \<Rightarrow> (terminal \<times> vram) res option" where
  "terminal_write_str glyph = write_all (\<lambda>c (t, m). put_char glyph c t m)"

subsection \<open>The global terminal\<close>

definition init_terminal ::
  "framebuffer \<Rightarrow> terminal spinlock once \<Rightarrow> vram \<Rightarrow> (terminal spinlock once \<times> vram) res" where
  "init_terminal fb g m =
     (if on_initialized g then Inr (g, m)
      else and_then (terminal_new fb m) (\<lambda>(t, m'). Inr (snd (once_init (spinlock_new t) g), m')))"

definition terminal_global :: "terminal spinlock once \<Rightarrow> terminal spinlock res" where
  "terminal_global g = and_then (once_get g) (\<lambda>r.
     case r of Some t \<Rightarrow> Inr t | None \<Rightarrow> Inl (ExpectFailed ''Terminal not initialized''))"

definition framebuffer_global :: "terminal spinlock once \<Rightarrow> framebuffer spinlock res" where
  "framebuffer_global g = and_then (terminal_global g) (\<lambda>t. Inr (t_framebuffer (inner t)))"

text \<open>\<open>print!\<close>: write the formatted text under the lock of the terminal.\<close>

definition print ::
  "(u32 \<Rightarrow> u8 list option) \<Rightarrow> u32 list \<Rightarrow> terminal spinlock once \<Rightarrow> vram \<Rightarrow> (terminal spinlock once \<times> vram) res option" where
  "print glyph text g m =
     (case terminal_global g of
        Inl e \<Rightarrow> Some (Inl e)
      | Inr t \<Rightarrow>
          (case lock t of
             None \<Rightarrow> None
           | Some l \<Rightarrow>
               (case terminal_write_str glyph text (guard_deref l, m) of
                  None \<Rightarrow> None
                | Some r \<Rightarrow> Some (and_then r (\<lambda>(t', m').
                    Inr (g\<lparr>on_value := Some (guard_drop (guard_deref_mut (\<lambda>_. t') l))\<rparr>, m'))))))"

subsection \<open>The text screen\<close>

datatype cell = Blank | Glyph "u8 list" u32 u32

record screen =
  sc_cursor :: "nat \<times> nat"
  sc_grid :: "nat \<Rightarrow> nat \<Rightarrow> cell"

definition blank_screen :: screen where
  "blank_screen = \<lparr>sc_cursor = (0, 0), sc_grid = (\<lambda>_ _. Blank)\<rparr>"

definition set_cell :: "nat \<Rightarrow> nat \<Rightarrow> cell \<Rightarrow> (nat \<Rightarrow> nat \<Rightarrow> cell) \<Rightarrow> nat \<Rightarrow> nat \<Rightarrow> cell" where
  "set_cell col row x g = (\<lambda>c r. if c = col \<and> r = row then x else g c r)"

text \<open>A new line on a screen of \<open>rows\<close> rows: move down, or push all rows up at the bottom.\<close>

definition new_line :: "nat \<Rightarrow> screen \<Rightarrow> screen" where
  "new_line rows s =
     (let row = snd (sc_cursor s) in
      if Suc row < rows then s\<lparr>sc_cursor := (0, Suc row)\<rparr>
      else s\<lparr>sc_cursor := (0, rows - 1), sc_grid := (\<lambda>c r. if Suc r < rows then sc_grid s c (Suc r) else Blank)\<rparr>)"

definition put :: "nat \<Rightarrow> nat \<Rightarrow> (u32 \<Rightarrow> u8 list option) \<Rightarrow> u32 \<Rightarrow> u32 \<Rightarrow> u32 \<Rightarrow> screen \<Rightarrow> screen" where
  "put cols rows glyph fg bg c s =
     (if c = 10 then new_line rows s
      else
        let (col, row) = sc_cursor s;
            s1 = s\<lparr>sc_cursor := (Suc col, row),
                    sc_grid := (case glyph c of None \<Rightarrow> sc_grid s | Some g \<Rightarrow> set_cell col row (Glyph g fg bg) (sc_grid s))\<rparr>
        in if Suc col < cols then s1 else new_line rows s1)"

definition cell_pixel :: "cell \<Rightarrow> nat \<Rightarrow> nat \<Rightarrow> u32" where
  "cell_pixel x dx dy = (case x of Blank \<Rightarrow> 0 | Glyph g fg bg \<Rightarrow> glyph_pixel g fg bg dx dy)"

text \<open>The picture of a grid; outside the cells the screen is black.\<close>

definition picture :: "nat \<Rightarrow> nat \<Rightarrow> (nat \<Rightarrow> nat \<Rightarrow> cell) \<Rightarrow> nat \<Rightarrow> nat \<Rightarrow> u32" where
  "picture cols rows g x y =
     (if x div CHAR_WIDTH < cols \<and> y div CHAR_HEIGHT < rows
      then cell_pixel (g (x div CHAR_WIDTH) (y div CHAR_HEIGHT)) (x mod CHAR_WIDTH) (y mod CHAR_HEIGHT) else 0)"

definition shows_screen :: "terminal \<Rightarrow> vram \<Rightarrow> screen \<Rightarrow> bool" where
  "shows_screen t m s \<longleftrightarrow>
     (let fb = inner (t_framebuffer t) in
      \<not> is_locked (t_framebuffer t) \<and> fb_ok fb m
      \<and> t_cols t = fb_width fb div CHAR_WIDTH \<and> t_rows t = fb_height fb div CHAR_HEIGHT
      \<and> t_pos t = sc_cursor s \<and> fst (t_pos t) < t_cols t \<and> snd (t_pos t) < t_rows t
      \<and> (\<forall>x y. x < fb_width fb \<longrightarrow> y < fb_height fb \<longrightarrow> pixel fb m x y = picture (t_cols t) (t_rows t) (sc_grid s) x y))"


subsection \<open>Refinement\<close>

lemma div_eq_iff: "0 < n \<Longrightarrow> x div n = c \<longleftrightarrow> c * n \<le> x \<and> x < c * n + (n :: nat)"
  by (metis add.commute div_nat_eqI dividend_less_times_div div_times_less_eq_dividend mult.commute mult_Suc_right)

lemma picture_set_cell:
  assumes "col < cols" "row < rows"
  shows "picture cols rows (set_cell col row (Glyph g fg bg) gr) x y =
    (if col * CHAR_WIDTH \<le> x \<and> x < col * CHAR_WIDTH + CHAR_WIDTH \<and> row * CHAR_HEIGHT \<le> y \<and> y < row * CHAR_HEIGHT + CHAR_HEIGHT
     then glyph_pixel g fg bg (x - col * CHAR_WIDTH) (y - row * CHAR_HEIGHT) else picture cols rows gr x y)"
proof (cases "x div CHAR_WIDTH = col \<and> y div CHAR_HEIGHT = row")
  case True
  then have m: "x mod CHAR_WIDTH = x - col * CHAR_WIDTH" "y mod CHAR_HEIGHT = y - row * CHAR_HEIGHT"
    by (auto simp: minus_div_mult_eq_mod)
  show ?thesis using True m assms
    by (auto simp: picture_def set_cell_def cell_pixel_def div_eq_iff CHAR_WIDTH_def CHAR_HEIGHT_def)
next
  case False
  then show ?thesis by (auto simp: picture_def set_cell_def div_eq_iff CHAR_WIDTH_def CHAR_HEIGHT_def)
qed

lemma picture_scroll:
  assumes "y < h"
  shows "picture cols (h div CHAR_HEIGHT) (\<lambda>c r. if Suc r < h div CHAR_HEIGHT then gr c (Suc r) else Blank) x y =
    (if y + CHAR_HEIGHT * 1 < h then picture cols (h div CHAR_HEIGHT) gr x (y + CHAR_HEIGHT * 1) else 0)"
proof -
  have s: "(y + CHAR_HEIGHT) div CHAR_HEIGHT = Suc (y div CHAR_HEIGHT)" "(y + CHAR_HEIGHT) mod CHAR_HEIGHT = y mod CHAR_HEIGHT"
    by (simp_all add: CHAR_HEIGHT_def)
  have "y + CHAR_HEIGHT < h" if "Suc (y div CHAR_HEIGHT) < h div CHAR_HEIGHT"
    using that unfolding CHAR_HEIGHT_def by linarith
  then show ?thesis using s by (auto simp: picture_def cell_pixel_def)
qed

definition glyphs_ok :: "(u32 \<Rightarrow> u8 list option) \<Rightarrow> bool" where
  "glyphs_ok glyph \<longleftrightarrow> (\<forall>c g. glyph c = Some g \<longrightarrow> length g = CHAR_HEIGHT)"

text \<open>What the refinement keeps of the pixels, with the cursor apart.\<close>

definition displays :: "framebuffer \<Rightarrow> vram \<Rightarrow> (nat \<Rightarrow> nat \<Rightarrow> cell) \<Rightarrow> bool" where
  "displays fb m gr \<longleftrightarrow> fb_ok fb m \<and> (\<forall>x y. x < fb_width fb \<longrightarrow> y < fb_height fb \<longrightarrow>
     pixel fb m x y = picture (fb_width fb div CHAR_WIDTH) (fb_height fb div CHAR_HEIGHT) gr x y)"

lemma displays_paints: "displays fb m gr \<Longrightarrow> paints fb r m pic \<Longrightarrow>
   (\<And>x y. x < fb_width fb \<Longrightarrow> y < fb_height fb \<Longrightarrow> pic x y = picture (fb_width fb div CHAR_WIDTH) (fb_height fb div CHAR_HEIGHT) gr' x y)
   \<Longrightarrow> \<exists>m'. r = Inr m' \<and> displays fb m' gr'"
  unfolding displays_def paints_def by metis

lemma displays_clear:
  assumes "fb_ok fb m"
  shows "\<exists>m'. clear fb m = Inr m' \<and> displays fb m' (\<lambda>_ _. Blank)"
  using paints_clear [OF assms] unfolding paints_def displays_def picture_def cell_pixel_def by auto

lemma displays_char:
  assumes d: "displays fb m gr" and g: "glyphs_ok glyph"
    and col: "col < fb_width fb div CHAR_WIDTH" and row: "row < fb_height fb div CHAR_HEIGHT"
  shows "\<exists>m'. char_at glyph fb c (col, row) fg bg m = Inr m'
    \<and> displays fb m' (case glyph c of None \<Rightarrow> gr | Some g \<Rightarrow> set_cell col row (Glyph g fg bg) gr)"
proof -
  have ok: "fb_ok fb m" using d by (simp add: displays_def)
  then have b: "fb_width fb < 2 ^ 32" "fb_height fb < 2 ^ 32" by (simp_all add: fb_ok_def)
  have fit: "col * CHAR_WIDTH + CHAR_WIDTH \<le> fb_width fb" "row * CHAR_HEIGHT + CHAR_HEIGHT \<le> fb_height fb"
    using col row unfolding CHAR_WIDTH_def CHAR_HEIGHT_def by linarith+
  have "nmul col CHAR_WIDTH = Inr (col * CHAR_WIDTH)" "nmul row CHAR_HEIGHT = Inr (row * CHAR_HEIGHT)"
    using fit b by (simp_all add: nmul_ok)
  then have eq: "char_at glyph fb c (col, row) fg bg m = draw_char glyph fb c (col * CHAR_WIDTH) (row * CHAR_HEIGHT) fg bg m"
    by (simp add: char_at_def)
  show ?thesis
  proof (cases "glyph c")
    case None
    then show ?thesis using no_glyph_no_change [of "col * CHAR_WIDTH" "row * CHAR_HEIGHT" glyph c] fit b d eq by simp
  next
    case (Some gl)
    then have "length gl = CHAR_HEIGHT" using g by (auto simp: glyphs_ok_def)
    from paints_char [of fb m glyph c, OF ok Some this fit, of fg bg] show ?thesis
      unfolding eq using d Some by (elim displays_paints [OF d]) (simp add: picture_set_cell col row, simp add: displays_def)
  qed
qed

lemma displays_scroll:
  assumes d: "displays fb m gr"
  shows "\<exists>m'. scroll_up fb 1 m = Inr m'
    \<and> displays fb m' (\<lambda>c r. if Suc r < fb_height fb div CHAR_HEIGHT then gr c (Suc r) else Blank)"
proof -
  have ok: "fb_ok fb m" using d by (simp add: displays_def)
  then have "CHAR_HEIGHT * 1 * fb_pitch fb < 2 ^ 64" by (simp add: fb_ok_def CHAR_HEIGHT_def)
  from paints_scroll [OF ok this] show ?thesis
    using d by (elim displays_paints [OF d]) (simp only: picture_scroll, simp add: displays_def)
qed

lemma shows_screen_displays:
  "shows_screen t m s \<longleftrightarrow>
     (let fb = inner (t_framebuffer t) in \<not> is_locked (t_framebuffer t) \<and> displays fb m (sc_grid s)
      \<and> t_cols t = fb_width fb div CHAR_WIDTH \<and> t_rows t = fb_height fb div CHAR_HEIGHT
      \<and> t_pos t = sc_cursor s \<and> fst (t_pos t) < t_cols t \<and> snd (t_pos t) < t_rows t)"
  by (auto simp: shows_screen_def displays_def Let_def)

lemma put_char_refines:
  assumes s: "shows_screen t m s" and g: "glyphs_ok glyph"
  shows "\<exists>t' m'. put_char_colored glyph c fg bg t m = Some (Inr (t', m'))
    \<and> shows_screen t' m' (put (t_cols t) (t_rows t) glyph fg bg c s) \<and> t_framebuffer t' = t_framebuffer t"
proof -
  define fb where "fb = inner (t_framebuffer t)"
  obtain col row where pos: "t_pos t = (col, row)" by force
  have st: "\<not> is_locked (t_framebuffer t)" "displays fb m (sc_grid s)" "t_cols t = fb_width fb div CHAR_WIDTH"
    "t_rows t = fb_height fb div CHAR_HEIGHT" "sc_cursor s = (col, row)" "col < t_cols t" "row < t_rows t"
    using s pos by (auto simp: shows_screen_displays Let_def fb_def)
  have ok: "fb_width fb < 2 ^ 32" "fb_height fb < 2 ^ 32" using st(2) by (simp_all add: displays_def fb_ok_def)
  have "col < 2 ^ 32" "row < 2 ^ 32"
    using st(3,4,6,7) ok div_le_dividend [of "fb_width fb" CHAR_WIDTH] div_le_dividend [of "fb_height fb" CHAR_HEIGHT]
    by linarith+
  then have adds: "nadd col 1 = Inr (Suc col)" "nadd row 1 = Inr (Suc row)" "nsub (t_rows t) 1 = Inr (t_rows t - 1)"
    using st(7) by (simp_all add: nadd_def nsub_def)
  obtain l where l: "lock (t_framebuffer t) = Some l" "guard_deref l = fb" "guard_drop l = t_framebuffer t"
    using st(1) by (cases "t_framebuffer t") (auto simp: lock_eq spinlock_defs fb_def)
  obtain m1 c1 gr where 1: "(if c \<noteq> 10
        then and_then (char_at glyph fb c (col, row) fg bg m) (\<lambda>m1. and_then (nadd col 1) (\<lambda>x. Inr (m1, (x, row))))
        else Inr (m, (col, row))) = Inr (m1, (c1, row))" "displays fb m1 gr"
    "put (t_cols t) (t_rows t) glyph fg bg c s =
       (let s1 = s\<lparr>sc_cursor := (c1, row), sc_grid := gr\<rparr> in if c1 \<ge> t_cols t \<or> c = 10 then new_line (t_rows t) s1 else s1)"
  proof (cases "c = 10")
    case True
    have "s\<lparr>sc_cursor := (col, row), sc_grid := sc_grid s\<rparr> = s" using st(5) by (cases s) simp
    then show thesis using True that [of m col "sc_grid s"] st(2) by (simp add: put_def)
  next
    case False
    obtain m1 where m1: "char_at glyph fb c (col, row) fg bg m = Inr m1"
      "displays fb m1 (case glyph c of None \<Rightarrow> sc_grid s | Some g \<Rightarrow> set_cell col row (Glyph g fg bg) (sc_grid s))"
      using displays_char [OF st(2) g] st by metis
    show thesis using False m1 adds(1) st(5) by (intro that [OF _ m1(2), of "Suc col"]) (auto simp: put_def Let_def)
  qed
  let ?s1 = "s\<lparr>sc_cursor := (c1, row), sc_grid := gr\<rparr>"
  have fin: "shows_screen (t\<lparr>t_framebuffer := t_framebuffer t, t_pos := p\<rparr>) m' s'"
    if "displays fb m' (sc_grid s')" "sc_cursor s' = p" "fst p < t_cols t" "snd p < t_rows t" for p m' s'
    using that st unfolding shows_screen_displays Let_def by (simp add: fb_def)
  have eq: "put_char_colored glyph c fg bg t m = Some (
      and_then (if c1 \<ge> t_cols t \<or> c = 10 then and_then (nadd row 1) (\<lambda>y. Inr (0, y)) else Inr (c1, row)) (\<lambda>p2.
      and_then (if snd p2 \<ge> t_rows t
                then and_then (scroll_up fb 1 m1) (\<lambda>m2. and_then (nsub (t_rows t) 1) (\<lambda>y. Inr (m2, (fst p2, y))))
                else Inr (m1, p2)) (\<lambda>(m3, p3). Inr (t\<lparr>t_framebuffer := t_framebuffer t, t_pos := p3\<rparr>, m3))))"
    by (simp only: put_char_colored_def l option.case Let_def pos fst_conv snd_conv 1(1) and_then_simps prod.case)
  consider (stay) "\<not> (c1 \<ge> t_cols t \<or> c = 10)" | (down) "c1 \<ge> t_cols t \<or> c = 10" "Suc row < t_rows t"
    | (scroll) "c1 \<ge> t_cols t \<or> c = 10" "\<not> Suc row < t_rows t" by blast
  then show ?thesis
  proof cases
    case stay
    then show ?thesis using fin [of m1 ?s1 "(c1, row)"] 1(2,3) st(7) by (simp add: eq)
  next
    case down
    then show ?thesis using fin [of m1 "new_line (t_rows t) ?s1" "(0, Suc row)"] 1(2,3) st(6) adds(2)
      by (simp add: eq new_line_def)
  next
    case scroll
    obtain m2 where m2: "scroll_up fb 1 m1 = Inr m2"
      "displays fb m2 (\<lambda>c r. if Suc r < t_rows t then gr c (Suc r) else Blank)"
      using displays_scroll [OF 1(2)] st(4) by auto
    show ?thesis using scroll m2 fin [of m2 "new_line (t_rows t) ?s1" "(0, t_rows t - 1)"] 1(2,3) st(6,7) adds(2,3)
      by (simp add: eq new_line_def cong: if_cong)
  qed
qed

text \<open>The screen after a text in the default colours.\<close>

definition typed :: "nat \<Rightarrow> nat \<Rightarrow> (u32 \<Rightarrow> u8 list option) \<Rightarrow> u32 list \<Rightarrow> screen \<Rightarrow> screen" where
  "typed cols rows glyph cs s = fold (put cols rows glyph DEFAULT_FG_COLOR DEFAULT_BG_COLOR) cs s"

text \<open>The relation of the interface \<open>text_sink\<close>, for a terminal on a given framebuffer.\<close>

abbreviation cols_of :: "framebuffer \<Rightarrow> nat" where
  "cols_of fb \<equiv> fb_width fb div CHAR_WIDTH"

abbreviation rows_of :: "framebuffer \<Rightarrow> nat" where
  "rows_of fb \<equiv> fb_height fb div CHAR_HEIGHT"

definition term_rel :: "framebuffer \<Rightarrow> (u32 \<Rightarrow> u8 list option) \<Rightarrow> terminal \<times> vram \<Rightarrow> screen \<Rightarrow> bool" where
  "term_rel fb glyph tm s \<longleftrightarrow>
     (case tm of (t, m) \<Rightarrow> shows_screen t m s \<and> glyphs_ok glyph \<and> inner (t_framebuffer t) = fb)"

lemma shows_screen_size:
  "shows_screen t m s \<Longrightarrow> t_cols t = cols_of (inner (t_framebuffer t)) \<and> t_rows t = rows_of (inner (t_framebuffer t))"
  by (simp add: shows_screen_def Let_def)

interpretation tty: text_sink "\<lambda>c (t, m). put_char glyph c t m" "term_rel fb glyph"
    "put (cols_of fb) (rows_of fb) glyph DEFAULT_FG_COLOR DEFAULT_BG_COLOR"
  for glyph fb
proof
  fix tm :: "terminal \<times> vram" and c :: u32 and s :: screen
  obtain t m where tm: "tm = (t, m)" by force
  assume "term_rel fb glyph tm s"
  then have r: "shows_screen t m s" "glyphs_ok glyph" "inner (t_framebuffer t) = fb" by (simp_all add: tm term_rel_def)
  then show "\<exists>tm'. (case tm of (t, m) \<Rightarrow> put_char glyph c t m) = Some (Inr tm')
      \<and> term_rel fb glyph tm' (put (cols_of fb) (rows_of fb) glyph DEFAULT_FG_COLOR DEFAULT_BG_COLOR c s)"
    using put_char_refines [OF r(1,2), of c DEFAULT_FG_COLOR DEFAULT_BG_COLOR] shows_screen_size [OF r(1)] by (auto simp: tm term_rel_def put_char_def)
qed

lemma write_str_refines:
  assumes "shows_screen t m s" "glyphs_ok glyph" "inner (t_framebuffer t) = fb"
  shows "\<exists>t' m'. terminal_write_str glyph cs (t, m) = Some (Inr (t', m'))
    \<and> shows_screen t' m' (typed (cols_of fb) (rows_of fb) glyph cs s) \<and> inner (t_framebuffer t') = fb"
  using tty.write_all_simulates [of fb glyph "(t, m)" s cs] assms
  by (auto simp: terminal_write_str_def typed_def term_rel_def)

lemma new_shows_blank:
  assumes "fb_ok fb m" "CHAR_WIDTH \<le> fb_width fb" "CHAR_HEIGHT \<le> fb_height fb"
  shows "\<exists>t m'. terminal_new fb m = Inr (t, m') \<and> shows_screen t m' blank_screen
    \<and> inner (t_framebuffer t) = fb"
  using displays_clear [OF assms(1)] assms(2,3)
  by (auto simp: terminal_new_def shows_screen_displays blank_screen_def CHAR_WIDTH_def CHAR_HEIGHT_def div_greater_zero_iff)

lemma clear_shows_blank:
  assumes "shows_screen t m s"
  shows "\<exists>t' m'. terminal_clear t m = Some (Inr (t', m')) \<and> shows_screen t' m' blank_screen"
  using assms displays_clear [of "inner (t_framebuffer t)" m] unfolding shows_screen_displays
  by (cases "t_framebuffer t") (auto simp: terminal_clear_def lock_eq spinlock_defs blank_screen_def displays_def)

lemma set_pos_moves_cursor:
  assumes "shows_screen t m s"
  shows "\<exists>t'. set_pos col row t = Inr t'
    \<and> shows_screen t' m (s\<lparr>sc_cursor := (min col (t_cols t - 1), min row (t_rows t - 1))\<rparr>)"
  using assms by (auto simp: set_pos_def nsub_def shows_screen_displays Let_def)


subsection \<open>The layout of a text\<close>

text \<open>
  Independently of the cursor: a text is broken into lines at newlines and when a line is full; the
  second component is the line that is being written.
\<close>

fun lay :: "nat \<Rightarrow> u32 \<Rightarrow> u32 list list \<times> u32 list \<Rightarrow> u32 list list \<times> u32 list" where
  "lay cols c (ls, cur) =
     (if c = 10 then (ls @ [cur], [])
      else if Suc (length cur) < cols then (ls, cur @ [c]) else (ls @ [cur @ [c]], []))"

definition lines_of :: "nat \<Rightarrow> u32 list \<Rightarrow> u32 list list" where
  "lines_of cols cs = (case fold (lay cols) cs ([], []) of (ls, cur) \<Rightarrow> ls @ [cur])"

definition line_cell :: "(u32 \<Rightarrow> u8 list option) \<Rightarrow> u32 list list \<Rightarrow> nat \<Rightarrow> nat \<Rightarrow> cell" where
  "line_cell glyph ls c r =
     (if r < length ls \<and> c < length (ls ! r) then Glyph (the (glyph (ls ! r ! c))) DEFAULT_FG_COLOR DEFAULT_BG_COLOR else Blank)"

text \<open>The number of lines that have left the screen, and the row of the line being written.\<close>

definition gone :: "nat \<Rightarrow> 'a list \<Rightarrow> nat" where
  "gone rows ls = length ls - (rows - 1)"

definition bottom :: "nat \<Rightarrow> 'a list \<Rightarrow> nat" where
  "bottom rows ls = min (length ls) (rows - 1)"

definition lays_out :: "nat \<Rightarrow> nat \<Rightarrow> (u32 \<Rightarrow> u8 list option) \<Rightarrow> u32 list list \<times> u32 list \<Rightarrow> screen \<Rightarrow> bool" where
  "lays_out cols rows glyph l s \<longleftrightarrow>
     (let ls = fst l; cur = snd l in
      sc_cursor s = (length cur, bottom rows ls) \<and> length cur < cols
      \<and> (\<forall>r < rows. \<forall>c. sc_grid s c r = line_cell glyph (ls @ [cur]) c (r + gone rows ls)))"

lemma bottom_gone: "bottom rows ls + gone rows ls = length ls"
  by (simp add: bottom_def gone_def)

lemma bottom_step:
  "0 < rows \<Longrightarrow> Suc (bottom rows ls) < rows \<Longrightarrow> gone rows (ls @ [l]) = gone rows ls \<and> bottom rows (ls @ [l]) = Suc (bottom rows ls)"
  "0 < rows \<Longrightarrow> \<not> Suc (bottom rows ls) < rows \<Longrightarrow> gone rows (ls @ [l]) = Suc (gone rows ls) \<and> bottom rows (ls @ [l]) = rows - 1"
  by (auto simp: bottom_def gone_def)

lemma line_cell_new: "line_cell glyph (ls @ [[]]) = line_cell glyph ls"
  by (auto simp: line_cell_def fun_eq_iff nth_append)

lemma line_cell_beyond [simp]: "length ls \<le> r \<Longrightarrow> line_cell glyph ls c r = Blank"
  by (simp add: line_cell_def)

lemma line_cell_add:
  "glyph x = Some g \<Longrightarrow> line_cell glyph (ls @ [cur @ [x]]) c r =
     (if c = length cur \<and> r = length ls then Glyph g DEFAULT_FG_COLOR DEFAULT_BG_COLOR else line_cell glyph (ls @ [cur]) c r)"
  by (auto simp: line_cell_def nth_append)

lemma new_line_lays_out:
  assumes rows: "0 < rows" and "0 < cols" and s: "snd (sc_cursor s) = bottom rows ls"
    "\<forall>r < rows. \<forall>c. sc_grid s c r = line_cell glyph (ls @ [line]) c (r + gone rows ls)"
  shows "lays_out cols rows glyph (ls @ [line], []) (new_line rows s)"
proof (cases "Suc (bottom rows ls) < rows")
  case True
  then show ?thesis using assms bottom_step(1) [OF rows True, of line]
    by (simp add: lays_out_def new_line_def line_cell_new Let_def del: append_assoc)
next
  case False
  have "length (ls @ [line]) \<le> r + Suc (gone rows ls)" if "r < rows" "\<not> Suc r < rows" for r
    using that bottom_gone [of rows ls] by (simp add: bottom_def)
  then show ?thesis using False assms bottom_step(2) [OF rows False, of line]
    by (simp add: lays_out_def new_line_def line_cell_new Let_def del: append_assoc length_append)
qed

lemma put_lays_out:
  assumes "0 < rows" "0 < cols" "lays_out cols rows glyph (ls, cur) s" "c = 10 \<or> glyph c = Some g"
  shows "lays_out cols rows glyph (lay cols c (ls, cur)) (put cols rows glyph DEFAULT_FG_COLOR DEFAULT_BG_COLOR c s)"
proof -
  let ?gr = "set_cell (length cur) (bottom rows ls) (Glyph g DEFAULT_FG_COLOR DEFAULT_BG_COLOR) (sc_grid s)"
  let ?s1 = "s\<lparr>sc_cursor := (Suc (length cur), bottom rows ls), sc_grid := ?gr\<rparr>"
  have s: "sc_cursor s = (length cur, bottom rows ls)" "length cur < cols"
    "\<forall>r < rows. \<forall>c. sc_grid s c r = line_cell glyph (ls @ [cur]) c (r + gone rows ls)"
    using assms(3) by (simp_all add: lays_out_def Let_def)
  have row: "r + gone rows ls = length ls \<longleftrightarrow> r = bottom rows ls" for r using bottom_gone [of rows ls] by linarith
  have gr: "?gr c' r = line_cell glyph (ls @ [cur @ [c]]) c' (r + gone rows ls)" if "r < rows" "c \<noteq> 10" for c' r
    using s(3) that assms(4) row by (auto simp: set_cell_def line_cell_add)
  consider "c = 10" | "c \<noteq> 10" "Suc (length cur) < cols" | "c \<noteq> 10" "\<not> Suc (length cur) < cols" by blast
  then show ?thesis
  proof cases
    case 1
    then show ?thesis using new_line_lays_out [OF assms(1,2), of s ls glyph cur] s by (simp add: put_def)
  next
    case 2
    then show ?thesis using assms(4) s gr by (simp add: put_def lays_out_def Let_def)
  next
    case 3
    then show ?thesis using new_line_lays_out [OF assms(1,2), of ?s1 ls glyph "cur @ [c]"] assms(4) s gr by (simp add: put_def Let_def)
  qed
qed

lemma typed_lays_out:
  assumes "0 < rows" "0 < cols" "\<forall>c \<in> set cs. c = 10 \<or> glyph c \<noteq> None"
  shows "lays_out cols rows glyph (fold (lay cols) cs ([], [])) (typed cols rows glyph cs blank_screen)"
  using assms(3)
proof (induction cs rule: rev_induct)
  case Nil
  then show ?case using assms by (auto simp: lays_out_def typed_def blank_screen_def line_cell_def bottom_def)
next
  case (snoc c cs)
  then obtain g where "c = 10 \<or> glyph c = Some g" by auto
  moreover obtain ls cur where "fold (lay cols) cs ([], []) = (ls, cur)" by force
  ultimately show ?case using snoc put_lays_out [OF assms(1,2), of glyph ls cur _ c g]
    by (simp add: typed_def del: lay.simps)
qed


text \<open>The grid of a terminal of the given size that shows the end of a text.\<close>

definition text_pixel :: "nat \<Rightarrow> nat \<Rightarrow> (u32 \<Rightarrow> u8 list option) \<Rightarrow> u32 list list \<Rightarrow> nat \<Rightarrow> nat \<Rightarrow> u32" where
  "text_pixel cols rows glyph ls = picture cols rows (\<lambda>c r. line_cell glyph ls c (r + (length ls - rows)))"

lemma lays_out_picture:
  assumes "lays_out cols rows glyph (fold (lay cols) cs ([], [])) s" "0 < rows"
  shows "picture cols rows (sc_grid s) x y = text_pixel cols rows glyph (lines_of cols cs) x y"
proof -
  obtain ls cur where l: "fold (lay cols) cs ([], []) = (ls, cur)" by force
  have "length (ls @ [cur]) - rows = gone rows ls" using assms(2) by (simp add: gone_def)
  moreover have "\<forall>r < rows. \<forall>c. sc_grid s c r = line_cell glyph (ls @ [cur]) c (r + gone rows ls)"
    using assms(1) l by (simp add: lays_out_def Let_def)
  ultimately show ?thesis using l by (simp add: text_pixel_def picture_def lines_of_def)
qed

text \<open>
  C4. What is printed is what the screen shows. On a new terminal over any framebuffer with room for
  at least one character, writing a text of characters that the font has, of any length, returns
  without panic, overflow or an access outside the video memory, and afterwards every pixel of the
  framebuffer is the one of the last lines of the text that fit the screen: the text is broken at
  newlines and full lines, each character shows its glyph in the default colours, everything else
  is black. The cursor stays inside the screen.
\<close>

theorem terminal_shows_text:
  assumes fb: "fb_ok fb m" "CHAR_WIDTH \<le> fb_width fb" "CHAR_HEIGHT \<le> fb_height fb"
    and font: "glyphs_ok glyph" "\<forall>c \<in> set cs. c = 10 \<or> glyph c \<noteq> None"
  shows "\<exists>t0 m0 t' m'. terminal_new fb m = Inr (t0, m0) \<and> terminal_write_str glyph cs (t0, m0) = Some (Inr (t', m'))
    \<and> fst (t_pos t') < cols_of fb \<and> snd (t_pos t') < rows_of fb
    \<and> (\<forall>x < fb_width fb. \<forall>y < fb_height fb.
         pixel fb m' x y = text_pixel (cols_of fb) (rows_of fb) glyph (lines_of (cols_of fb) cs) x y)"
proof -
  have pos: "0 < cols_of fb" "0 < rows_of fb" using fb by (auto simp: CHAR_WIDTH_def CHAR_HEIGHT_def div_greater_zero_iff)
  obtain t0 m0 where n: "terminal_new fb m = Inr (t0, m0)" "shows_screen t0 m0 blank_screen" "inner (t_framebuffer t0) = fb"
    using new_shows_blank [OF fb] by blast
  obtain t' m' where w: "terminal_write_str glyph cs (t0, m0) = Some (Inr (t', m'))"
    "shows_screen t' m' (typed (cols_of fb) (rows_of fb) glyph cs blank_screen)" "inner (t_framebuffer t') = fb"
    using write_str_refines [OF n(2) font(1) n(3)] by blast
  then show ?thesis using n(1) lays_out_picture [OF typed_lays_out [OF pos(2,1) font(2)] pos(2)]
    by (auto simp: shows_screen_def Let_def)
qed

text \<open>A screen of two columns and two rows and a font of solid blocks.\<close>

definition small_fb :: framebuffer where
  "small_fb = \<lparr>fb_width = 16, fb_height = 32, fb_pitch = 64, fb_address = 0xfd000000\<rparr>"

definition small_vram :: vram where
  "small_vram = \<lparr>vm_size = 2048, vm_byte = (\<lambda>_. 0xaa)\<rparr>"

definition block_font :: "u32 \<Rightarrow> u8 list option" where
  "block_font c = Some (replicate 16 0xff)"

theorem terminal_shows_text_witness:
  "\<exists>t0 m0 t' m'. terminal_new small_fb small_vram = Inr (t0, m0)
    \<and> terminal_write_str block_font [65, 66, 67, 10, 68] (t0, m0) = Some (Inr (t', m'))
    \<and> pixel small_fb m' 3 5 = GREEN \<and> pixel small_fb m' 12 5 = 0 \<and> pixel small_fb m' 3 20 = GREEN"
proof -
  have "fb_ok small_fb small_vram" "CHAR_WIDTH \<le> fb_width small_fb" "CHAR_HEIGHT \<le> fb_height small_fb" "glyphs_ok block_font"
    by (simp_all add: fb_ok_def small_fb_def small_vram_def CHAR_WIDTH_def CHAR_HEIGHT_def glyphs_ok_def block_font_def)
  from terminal_shows_text [OF this, of "[65, 66, 67, 10, 68]"]
  obtain t0 m0 t' m' where r: "terminal_new small_fb small_vram = Inr (t0, m0)"
    "terminal_write_str block_font [65, 66, 67, 10, 68] (t0, m0) = Some (Inr (t', m'))"
    "\<And>x y. x < 16 \<Longrightarrow> y < 32 \<Longrightarrow> pixel small_fb m' x y =
       text_pixel (cols_of small_fb) (rows_of small_fb) block_font (lines_of (cols_of small_fb) [65, 66, 67, 10, 68]) x y"
    by (auto simp: block_font_def small_fb_def)
  have "cols_of small_fb = 2" "rows_of small_fb = 2" by (simp_all add: small_fb_def CHAR_WIDTH_def CHAR_HEIGHT_def)
  moreover have "lines_of 2 [65, 66, 67, 10, 68] = [[65, 66], [67], [68]]" by (simp add: lines_of_def)
  ultimately show ?thesis using r
    by (intro exI [of _ t0] exI [of _ m0] exI [of _ t'] exI [of _ m'])
      (simp add: text_pixel_def picture_def line_cell_def cell_pixel_def glyph_pixel_def block_font_def
        CHAR_WIDTH_def CHAR_HEIGHT_def DEFAULT_FG_COLOR_def nth_Cons')
qed

end
