(* ===== verification/Pit.thy ===== *)
theory Pit
  imports Pic Interrupt Scheduler Terminal
begin

text \<open>
  \<^verbatim>\<open>kernel/src/device/pit.rs\<close>: the timer. Its interrupt routine advances the system time, draws a
  spinner and every ten milliseconds releases the vector map and yields the processor. The state it
  works on is the record below; the scheduler is passed separately because its result is an outcome.
  \<open>wait\<close> polls the system time between yields: the values it reads are the argument \<open>clock\<close>.
\<close>

subsection \<open>The timer chip\<close>

definition PIT_CONTROL :: u16 where "PIT_CONTROL = 0x43"
definition PIT_DATA :: u16 where "PIT_DATA = 0x40"
definition TIMER_FREQUENCY :: nat where "TIMER_FREQUENCY = 1193182"
definition NANOSECONDS_PER_TICK :: nat where "NANOSECONDS_PER_TICK = 1000000000 div TIMER_FREQUENCY"
definition TIMER_INTERRUPT_INTERVAL_MS :: nat where "TIMER_INTERRUPT_INTERVAL_MS = 1"
definition SPINNER_CHARS :: "u32 list" where "SPINNER_CHARS = [124, 47, 45, 92]"

definition timer_counter :: "nat \<Rightarrow> u16" where
  "timer_counter counter64 =
     (if counter64 = 0 then 1 else if counter64 > 0xFFFF then 0xFFFF else of_nat counter64)"

definition set_interrupt_interval :: "nat \<Rightarrow> cpu \<Rightarrow> cpu res" where
  "set_interrupt_interval interval_ms c =
     (if interval_ms = 0 then Inr c
      else and_then (nmul interval_ms 1000000) (\<lambda>interval_ns.
        let counter = timer_counter (interval_ns div NANOSECONDS_PER_TICK);
            c1 = outb PIT_CONTROL 0x36 c;
            c2 = outb PIT_DATA (ucast (counter AND 0xFF)) c1
        in Inr (outb PIT_DATA (ucast (drop_bit 8 counter)) c2)))"

subsection \<open>The system time\<close>

text \<open>The \<open>n\<close>-th reading of the clock; every reading but the first follows a yield.\<close>

partial_function (option) wait_loop :: "(nat \<Rightarrow> usize) \<Rightarrow> usize \<Rightarrow> usize \<Rightarrow> nat \<Rightarrow> nat res option" where
  "wait_loop clock t0 ms n =
     (case usub (clock n) t0 of
        Inl e \<Rightarrow> Some (Inl e)
      | Inr d \<Rightarrow> if d < ms then wait_loop clock t0 ms (Suc n) else Some (Inr n))"

text \<open>The result is the number of the reading that ended the wait, one more than the yields.\<close>

definition wait :: "(nat \<Rightarrow> usize) \<Rightarrow> usize \<Rightarrow> nat res option" where
  "wait clock ms = wait_loop clock (clock 0) ms 1"

subsection \<open>The interrupt routine\<close>

datatype isr = TimerISR nat | KeyboardISR | Rtl8139ISR

record kernel =
  k_time :: usize
  k_terminal :: "terminal spinlock once"
  k_vram :: vram
  k_vectors :: "isr int_vectors spinlock"

definition draw_spinner :: "(u32 \<Rightarrow> u8 list option) \<Rightarrow> usize \<Rightarrow> kernel \<Rightarrow> kernel res" where
  "draw_spinner glyph time k =
     and_then (get_index SPINNER_CHARS (unat ((time div 250) mod of_nat (length SPINNER_CHARS)))) (\<lambda>spinner_char.
     and_then (framebuffer_global (k_terminal k)) (\<lambda>fb.
       case try_lock fb of
         (False, _) \<Rightarrow> Inr k
       | (True, g) \<Rightarrow> and_then (draw_char glyph (guard_deref g) spinner_char 768 16 WHITE BLACK (k_vram k)) (\<lambda>m.
           Inr (k\<lparr>k_vram := m\<rparr>))))"

definition timer_trigger ::
  "(u32 \<Rightarrow> u8 list option) \<Rightarrow> nat \<Rightarrow> bool \<Rightarrow> usize \<Rightarrow> scheduler \<Rightarrow> kernel \<Rightarrow> (unit outcome \<times> kernel) res" where
  "timer_trigger glyph interval_ms alloc_locked sp s k =
     (let time = k_time k; k1 = k\<lparr>k_time := time + of_nat interval_ms\<rparr> in
      and_then (if time mod 250 = 0 then draw_spinner glyph time k1 else Inr k1) (\<lambda>k2.
      if time mod 10 = 0
      then Inr (yield_cpu alloc_locked sp s, k2\<lparr>k_vectors := unlock_int_vectors (k_vectors k2)\<rparr>)
      else Inr (Done () s, k2)))"

text \<open>Program the timer, open its interrupt line and register the routine.\<close>

definition pit_plugin :: "hw \<Rightarrow> bool \<Rightarrow> isr int_vectors spinlock \<Rightarrow> cpu \<Rightarrow> (isr int_vectors spinlock \<times> cpu) res option" where
  "pit_plugin hw timer_initialized vectors c =
     (case (if timer_initialized then Inr c else set_interrupt_interval TIMER_INTERRUPT_INTERVAL_MS c) of
        Inl e \<Rightarrow> Some (Inl e)
      | Inr c1 \<Rightarrow>
          (case allow hw Timer c1 of
             Inl e \<Rightarrow> Some (Inl e)
           | Inr c2 \<Rightarrow>
               (case register Pit (TimerISR TIMER_INTERRUPT_INTERVAL_MS) vectors c2 of
                  (None, _) \<Rightarrow> None
                | (Some r, c3) \<Rightarrow> Some (and_then r (\<lambda>v. Inr (v, c3))))))"

subsection \<open>Facts\<close>

lemma wait_loop_returns:
  assumes "\<And>i j. i \<le> j \<Longrightarrow> j \<le> e \<Longrightarrow> clock i \<le> clock j" "t0 \<le> clock n" "n \<le> e" "ms \<le> clock e - t0"
  shows "\<exists>r. wait_loop clock t0 ms n = Some (Inr r) \<and> n \<le> r \<and> r \<le> e \<and> ms \<le> clock r - t0
    \<and> (\<forall>i. n \<le> i \<longrightarrow> i < r \<longrightarrow> clock i - t0 < ms)"
  using assms(2-)
proof (induction "e - n" arbitrary: n)
  case 0
  then show ?case by (subst wait_loop.simps) (auto simp: usub_def)
next
  case (Suc d)
  show ?case
  proof (cases "clock n - t0 < ms")
    case True
    have le: "Suc n \<le> e" "d = e - Suc n" using Suc.hyps(2) by simp_all
    then have "t0 \<le> clock (Suc n)" using Suc.prems(1) assms(1) [of n "Suc n"] by simp
    then obtain r where r: "wait_loop clock t0 ms (Suc n) = Some (Inr r)" "Suc n \<le> r" "r \<le> e"
      "ms \<le> clock r - t0" "\<forall>i. Suc n \<le> i \<longrightarrow> i < r \<longrightarrow> clock i - t0 < ms"
      using Suc.hyps(1) [of "Suc n"] Suc.prems(3) le by blast
    have "wait_loop clock t0 ms n = wait_loop clock t0 ms (Suc n)"
      using True Suc.prems(1) by (subst wait_loop.simps) (simp add: usub_def)
    moreover have "clock i - t0 < ms" if "n \<le> i" "i < r" for i
      using that True r(5) by (cases "i = n") simp_all
    ultimately show ?thesis using r(1-4) by (intro exI [of _ r]) simp
  next
    case False
    then show ?thesis using Suc.prems by (subst wait_loop.simps) (auto simp: usub_def)
  qed
qed

text \<open>
  \<open>wait\<close> waits exactly as long as it has to. For a clock that does not run backwards until some
  reading \<open>e\<close> that shows \<open>ms\<close> milliseconds more than the first (so it does not wrap around before), \<open>wait\<close>
  returns, no subtraction underflows, at least \<open>ms\<close> milliseconds have passed at the reading that
  ends it, and at every earlier reading they had not.
\<close>

theorem wait_returns_on_time:
  assumes "\<forall>i j. i \<le> j \<and> j \<le> e \<longrightarrow> clock i \<le> clock j" "0 < e" "ms \<le> clock e - clock 0"
  shows "\<exists>n. wait clock ms = Some (Inr n) \<and> 0 < n \<and> n \<le> e \<and> ms \<le> clock n - clock 0
    \<and> (\<forall>i. 0 < i \<and> i < n \<longrightarrow> clock i - clock 0 < ms)"
  using wait_loop_returns [of e clock "clock 0" 1 ms] assms unfolding wait_def by (auto simp: Suc_le_eq)

theorem wait_returns_on_time_witness:
  "\<exists>n. wait (\<lambda>i. if i < 3 then 100 else 105) 5 = Some (Inr n) \<and> n \<le> 3"
proof -
  have "\<forall>i j. i \<le> j \<and> j \<le> 3 \<longrightarrow> (if i < 3 then 100 else 105 :: usize) \<le> (if j < (3 :: nat) then 100 else 105)" by auto
  from wait_returns_on_time [OF this, of 5] show ?thesis by auto
qed

subsection \<open>The period of the timer\<close>

text \<open>
  Clock readings that never run backwards, advance by at most \<open>d\<close> milliseconds from one reading to the next and
  reach every time eventually; the words are the readings modulo \<open>2 ^ 64\<close>.
\<close>

definition ticks :: "(nat \<Rightarrow> nat) \<Rightarrow> nat \<Rightarrow> (nat \<Rightarrow> usize) \<Rightarrow> bool" where
  "ticks f d clock \<longleftrightarrow> (\<forall>n. clock n = of_nat (f n) \<and> f n \<le> f (Suc n) \<and> f (Suc n) \<le> f n + d) \<and> (\<forall>t. \<exists>n. t \<le> f n)"

lemma ticks_mono: "ticks f d clock \<Longrightarrow> i \<le> j \<Longrightarrow> f i \<le> f j"
  by (rule lift_Suc_mono_le [of f]) (auto simp: ticks_def)

lemma ticks_unat: "ticks f d clock \<Longrightarrow> f n < 2 ^ 64 \<Longrightarrow> unat (clock n) = f n"
  by (simp add: ticks_def unat_of_nat)

lemma wait_in_time:
  assumes t: "ticks f d clock" and lt: "f n + unat ms + d < 2 ^ 64"
  shows "\<exists>k. wait (\<lambda>i. clock (n + i)) ms = Some (Inr k) \<and> f (n + k) \<le> f n + unat ms + d"
proof -
  define e where "e = (LEAST i. 0 < i \<and> f n + unat ms \<le> f (n + i))"
  obtain j where "f n + unat ms \<le> f j" using t by (auto simp: ticks_def)
  then have "f n + unat ms \<le> f (n + Suc j)" using ticks_mono [OF t, of j "n + Suc j"] by simp
  then have e: "0 < e \<and> f n + unat ms \<le> f (n + e)" 
    unfolding e_def using LeastI [of "\<lambda>i. 0 < i \<and> f n + unat ms \<le> f (n + i)" "Suc j"] by blast
  have before: "f (n + (e - 1)) \<le> f n + unat ms"
    using not_less_Least [of "e - 1" "\<lambda>i. 0 < i \<and> f n + unat ms \<le> f (n + i)"] e unfolding e_def [symmetric]
    by (cases "e = 1") auto
  have "f (Suc (n + (e - 1))) \<le> f (n + (e - 1)) + d" using t unfolding ticks_def by blast
  then have up: "f (n + e) \<le> f n + unat ms + d" using before e by simp
  have fin: "unat (clock (n + i)) = f (n + i)" if "i \<le> e" for i
  proof (rule ticks_unat [OF t])
    have "f (n + i) \<le> f (n + e)" using that by (intro ticks_mono [OF t]) simp
    then show "f (n + i) < 2 ^ 64" using up lt by linarith
  qed
  have mono: "clock (n + i) \<le> clock (n + j)" if "i \<le> j" "j \<le> e" for i j
    using fin [of i] fin [of j] that ticks_mono [OF t, of "n + i" "n + j"] by (simp add: word_le_nat_alt)
  have "unat (clock (n + e) - clock (n + 0)) = f (n + e) - f n"
    using fin [of e] fin [of 0] mono [of 0 e] e by (simp add: unat_sub_le)
  then have "ms \<le> clock (n + e) - clock (n + 0)" using e unfolding word_le_nat_alt by linarith
  then obtain k where k: "wait_loop (\<lambda>i. clock (n + i)) (clock (n + 0)) ms 1 = Some (Inr k)" "k \<le> e"
    using wait_loop_returns [of e "\<lambda>i. clock (n + i)" "clock (n + 0)" 1 ms] mono e by (metis One_nat_def Suc_leI zero_le_one)
  then have "f (n + k) \<le> f (n + e)" using ticks_mono [OF t] by simp
  then show ?thesis using k(1) up unfolding wait_def by (intro exI [of _ k]) simp
qed

lemma ns_per_tick: "NANOSECONDS_PER_TICK = 838"
  by (simp add: NANOSECONDS_PER_TICK_def TIMER_FREQUENCY_def)

lemma counter_bytes: "unat (ucast ((v :: u16) AND 0xFF) :: u8) + 256 * unat (ucast (drop_bit 8 v) :: u8) = unat v"
proof -
  have "v AND 0xFF = take_bit 8 v" by (simp only: take_bit_eq_mask mask_eq_exp_minus_1) simp
  then have "unat (v AND 0xFF) = unat v mod 256" by (simp only: unsigned_take_bit_eq) (simp add: take_bit_eq_mod)
  then have "unat (ucast (v AND 0xFF) :: u8) = unat v mod 256"
    by (simp only: unsigned_ucast_eq) (simp add: take_bit_eq_mod)
  moreover have "unat v div 256 < 256" using unsigned_less [of v, where 'a = nat] by simp
  then have "unat (ucast (drop_bit 8 v) :: u8) = unat v div 256"
    by (simp only: unsigned_ucast_eq unsigned_drop_bit_eq) (simp add: take_bit_eq_mod drop_bit_eq_div)
  ultimately show ?thesis by simp
qed

lemma interval_programmed:
  assumes "0 < ms" "ms * 1000000 < 2 ^ 64"
  shows "\<exists>c' lo hi. set_interrupt_interval ms c = Inr c'
    \<and> outputs c' = outputs c @ [Out8 0x43 0x36, Out8 0x40 lo, Out8 0x40 hi]
    \<and> unat lo + 256 * unat hi = unat (timer_counter (ms * 1000000 div 838))"
proof -
  define v where "v = timer_counter (ms * 1000000 div 838)"
  let ?lo = "ucast (v AND 0xFF) :: u8" and ?hi = "ucast (drop_bit 8 v) :: u8"
  let ?c = "outb PIT_DATA ?hi (outb PIT_DATA ?lo (outb PIT_CONTROL 0x36 c))"
  have "nmul ms 1000000 = Inr (ms * 1000000)" using assms by (intro nmul_ok) simp
  then have "set_interrupt_interval ms c = Inr ?c"
    using assms(1) by (simp only: set_interrupt_interval_def ns_per_tick v_def Let_def and_then_simps) simp
  moreover have "outputs ?c = outputs c @ [Out8 0x43 0x36, Out8 0x40 ?lo, Out8 0x40 ?hi]"
    by (simp add: PIT_DATA_def PIT_CONTROL_def)
  ultimately show ?thesis using counter_bytes [of v] unfolding v_def by blast
qed

lemma counter_value:
  assumes "0 < ms"
  defines "n \<equiv> ms * 1000000 div 838"
  shows "ms \<le> 54 \<Longrightarrow> unat (timer_counter n) = n" "54 < ms \<Longrightarrow> unat (timer_counter n) = 65535"
    "838 * n \<le> ms * 1000000" "ms * 1000000 < 838 * (n + 1)"
proof -
  show n: "838 * n \<le> ms * 1000000" "ms * 1000000 < 838 * (n + 1)"
    unfolding n_def using dividend_less_times_div [of 838 "ms * 1000000"] by simp_all
  show "unat (timer_counter n) = n" if "ms \<le> 54"
    using that assms(1) n by (simp add: timer_counter_def unat_of_nat)
  have "65535 < n" if "54 < ms" using that n by simp
  then show "unat (timer_counter n) = 65535" if "54 < ms" using that by (simp add: timer_counter_def)
qed

text \<open>
  C37. Programming the timer, for every interval: zero leaves the timer alone; any other interval up
  to the range of 64-bit nanoseconds sets channel 0 with a counter that is written low byte
  first. From 1 to 54 milliseconds its period, at 1193182 ticks per second, is less than one tick
  shorter and at most 0.02 percent longer than the interval; from 55 milliseconds on, beyond the
  range of the 16-bit counter, it is clamped to the longest period of 65535 ticks. Intervals
  whose nanoseconds do not fit 64 bits are an overflow.
\<close>

theorem timer_period_bounds:
  "set_interrupt_interval 0 c = Inr c
   \<and> (0 < ms \<and> ms * 1000000 < 2 ^ 64 \<longrightarrow> (\<exists>c' lo hi. set_interrupt_interval ms c = Inr c'
        \<and> outputs c' = outputs c @ [Out8 0x43 0x36, Out8 0x40 lo, Out8 0x40 hi]
        \<and> 0 < unat lo + 256 * unat hi
        \<and> (ms \<le> 54 \<longrightarrow> 1193182 * (ms * 1000000) < (unat lo + 256 * unat hi + 1) * 1000000000
             \<and> (unat lo + 256 * unat hi) * 1000000000 * 10000 \<le> 10002 * (1193182 * (ms * 1000000)))
        \<and> (54 < ms \<longrightarrow> unat lo + 256 * unat hi = 65535)))
   \<and> (2 ^ 64 \<le> ms * 1000000 \<longrightarrow> set_interrupt_interval ms c = Inl ArithOverflow)"
proof (intro conjI impI)
  show "set_interrupt_interval 0 c = Inr c" by (simp add: set_interrupt_interval_def)
  show "set_interrupt_interval ms c = Inl ArithOverflow" if "2 ^ 64 \<le> ms * 1000000"
    using that by (simp add: set_interrupt_interval_def nmul_def)
  assume ms: "0 < ms \<and> ms * 1000000 < 2 ^ 64"
  let ?n = "ms * 1000000 div 838"
  obtain c' lo hi where r: "set_interrupt_interval ms c = Inr c'"
    "outputs c' = outputs c @ [Out8 0x43 0x36, Out8 0x40 lo, Out8 0x40 hi]"
    "unat lo + 256 * unat hi = unat (timer_counter ?n)"
    using interval_programmed [of ms c] ms by blast
  have n: "838 * ?n \<le> ms * 1000000" "ms * 1000000 < 838 * (?n + 1)" using counter_value(3,4) [of ms] ms by blast+
  have "0 < ?n" using n(2) ms by (cases ?n) simp_all
  then have "0 < unat (timer_counter ?n)" using counter_value(1,2) [of ms] ms by (cases "ms \<le> 54") simp_all
  moreover have "1193182 * (ms * 1000000) < (?n + 1) * 1000000000"
    "?n * 1000000000 * 10000 \<le> 10002 * (1193182 * (ms * 1000000))" if "ms \<le> 54" using n that by simp_all
  ultimately show "\<exists>c' lo hi. set_interrupt_interval ms c = Inr c'
        \<and> outputs c' = outputs c @ [Out8 0x43 0x36, Out8 0x40 lo, Out8 0x40 hi]
        \<and> 0 < unat lo + 256 * unat hi
        \<and> (ms \<le> 54 \<longrightarrow> 1193182 * (ms * 1000000) < (unat lo + 256 * unat hi + 1) * 1000000000
             \<and> (unat lo + 256 * unat hi) * 1000000000 * 10000 \<le> 10002 * (1193182 * (ms * 1000000)))
        \<and> (54 < ms \<longrightarrow> unat lo + 256 * unat hi = 65535)"
    using r counter_value(1,2) [of ms] ms by (intro exI [of _ c'] exI [of _ lo] exI [of _ hi]) simp
qed

theorem timer_period_bounds_witness:
  "(\<exists>c'. set_interrupt_interval 1 \<lparr>cpu_rflags = 0, cpu_cr0 = 0, cpu_trace = []\<rparr> = Inr c' \<and> length (outputs c') = 3)
   \<and> (\<exists>c' lo hi. set_interrupt_interval 100 \<lparr>cpu_rflags = 0, cpu_cr0 = 0, cpu_trace = []\<rparr> = Inr c'
        \<and> outputs c' = [Out8 0x43 0x36, Out8 0x40 lo, Out8 0x40 hi] \<and> unat lo + 256 * unat hi = 65535)"
proof
  let ?c = "\<lparr>cpu_rflags = 0, cpu_cr0 = 0, cpu_trace = []\<rparr>"
  have o: "outputs ?c = []" by (simp add: outputs_def)
  show "\<exists>c'. set_interrupt_interval 1 ?c = Inr c' \<and> length (outputs c') = 3"
    using timer_period_bounds [of ?c 1] o by auto
  have "(54 :: nat) < 100" "0 < (100 :: nat) \<and> 100 * 1000000 < (2 :: nat) ^ 64" by simp_all
  then show "\<exists>c' lo hi. set_interrupt_interval 100 ?c = Inr c'
      \<and> outputs c' = [Out8 0x43 0x36, Out8 0x40 lo, Out8 0x40 hi] \<and> unat lo + 256 * unat hi = 65535"
    using timer_period_bounds [of ?c 100] unfolding o append_Nil by blast
qed

subsection \<open>Ticks\<close>

lemma spinner_index:
  fixes t :: usize
  shows "\<exists>ch. get_index SPINNER_CHARS (unat ((t div 250) mod of_nat (length SPINNER_CHARS))) = Inr ch"
proof -
  have "(t div 250) mod 4 < (4 :: usize)" by (rule word_mod_less_divisor) simp
  then have "unat ((t div 250) mod 4) < 4" by (simp add: word_less_nat_alt)
  then show ?thesis by (simp add: SPINNER_CHARS_def)
qed

text \<open>The cell of the spinner, and memory that agrees outside it.\<close>

definition spinner_only :: "framebuffer \<Rightarrow> vram \<Rightarrow> vram \<Rightarrow> bool" where
  "spinner_only fb m m' \<longleftrightarrow> fb_ok fb m' \<and> (\<forall>x < fb_width fb. \<forall>y < fb_height fb.
     \<not> (768 \<le> x \<and> x < 776 \<and> 16 \<le> y \<and> y < 32) \<longrightarrow> pixel fb m' x y = pixel fb m x y)"

lemma draw_spinner_ok:
  assumes t: "once_get (k_terminal k) = Inr (Some t)" and fb: "fb = inner (t_framebuffer (inner t))"
    and ok: "fb_ok fb (k_vram k)" and g: "glyphs_ok glyph"
  shows "\<exists>m'. draw_spinner glyph time k = Inr (k\<lparr>k_vram := m'\<rparr>) \<and> spinner_only fb (k_vram k) m'"
proof -
  obtain ch where ch: "get_index SPINNER_CHARS (unat ((time div 250) mod of_nat (length SPINNER_CHARS))) = Inr ch"
    using spinner_index by blast
  have fg: "framebuffer_global (k_terminal k) = Inr (t_framebuffer (inner t))"
    by (simp add: framebuffer_global_def terminal_global_def t)
  have refl: "spinner_only fb (k_vram k) (k_vram k)" using ok by (simp add: spinner_only_def)
  have draw: "\<exists>m'. draw_char glyph fb ch 768 16 WHITE BLACK (k_vram k) = Inr m' \<and> spinner_only fb (k_vram k) m'"
  proof (cases "768 + CHAR_WIDTH \<le> fb_width fb \<and> 16 + CHAR_HEIGHT \<le> fb_height fb \<and> glyph ch \<noteq> None")
    case True
    then obtain gl where "glyph ch = Some gl" "length gl = CHAR_HEIGHT" using g by (auto simp: glyphs_ok_def)
    then have "paints fb (draw_char glyph fb ch 768 16 WHITE BLACK (k_vram k)) (k_vram k)
      (\<lambda>x' y'. if 768 \<le> x' \<and> x' < 768 + CHAR_WIDTH \<and> 16 \<le> y' \<and> y' < 16 + CHAR_HEIGHT
         then glyph_pixel gl WHITE BLACK (x' - 768) (y' - 16) else pixel fb (k_vram k) x' y')"
      using True by (intro paints_char [OF ok]) simp_all
    then show ?thesis by (elim paintsE) (auto simp: spinner_only_def CHAR_WIDTH_def CHAR_HEIGHT_def)
  next
    case False
    then have "draw_char glyph fb ch 768 16 WHITE BLACK (k_vram k) = Inr (k_vram k)"
      by (intro no_glyph_no_change) (auto simp: CHAR_WIDTH_def CHAR_HEIGHT_def)
    then show ?thesis using refl by blast
  qed
  show ?thesis
  proof (cases "is_locked (t_framebuffer (inner t))")
    case True
    then have "draw_spinner glyph time k = Inr (k\<lparr>k_vram := k_vram k\<rparr>)"
      by (simp add: draw_spinner_def ch fg spinner_index) (simp add: spinlock_defs)
    then show ?thesis using refl by blast
  next
    case False
    then have "try_lock (t_framebuffer (inner t)) = (True, \<lparr>sl_lock = True, sl_data = fb\<rparr>)"
      using fb by (simp add: spinlock_defs)
    then show ?thesis using draw by (auto simp: draw_spinner_def ch fg guard_deref_def)
  qed
qed

text \<open>
  C23. A timer interrupt, dispatched through a vector map in which the timer routine is registered and
  with a terminal in place, never panics: it advances the system time by one millisecond, changes
  nothing of the screen but the cell of the spinner, and every tenth millisecond it yields the
  processor with the vector map unlocked, so that the thread that runs next can take interrupts; at
  every other tick the scheduler is not touched and the map stays locked until the dispatcher returns.
\<close>

theorem timer_tick:
  assumes d: "dispatch_interrupt 0x20 vectors = Some (Inr (TimerISR 1, k_vectors k))"
    and t: "once_get (k_terminal k) = Inr (Some t)" "fb = inner (t_framebuffer (inner t))"
    and ok: "fb_ok fb (k_vram k)" "glyphs_ok glyph"
  shows "\<exists>r k'. timer_trigger glyph 1 al sp s k = Inr (r, k') \<and> k_time k' = k_time k + 1
    \<and> k_terminal k' = k_terminal k \<and> spinner_only fb (k_vram k) (k_vram k')
    \<and> (if k_time k mod 10 = 0 then r = yield_cpu al sp s \<and> k_vectors k' = vectors \<and> \<not> is_locked (k_vectors k')
       else r = Done () s \<and> k_vectors k' = k_vectors k \<and> is_locked (k_vectors k'))"
proof -
  have v: "\<not> is_locked vectors" "k_vectors k = vectors\<lparr>sl_lock := True\<rparr>"
    using d by (auto simp: dispatch_interrupt_def lock_eq spinlock_defs and_then_eq_Inr split: if_splits option.splits)
  define k1 where "k1 = k\<lparr>k_time := k_time k + of_nat 1\<rparr>"
  have same: "k_terminal k1 = k_terminal k" "k_vram k1 = k_vram k" "k_vectors k1 = k_vectors k" "k_time k1 = k_time k + 1"
    by (simp_all add: k1_def)
  obtain m' where m': "(if k_time k mod 250 = 0 then draw_spinner glyph (k_time k) k1 else Inr k1) = Inr (k1\<lparr>k_vram := m'\<rparr>)"
    "spinner_only fb (k_vram k) m'"
  proof (cases "k_time k mod 250 = 0")
    case True
    then show thesis using that draw_spinner_ok [of k1 t fb glyph "k_time k"] t ok by (auto simp: same)
  next
    case False
    have "k1\<lparr>k_vram := k_vram k\<rparr> = k1" by (simp add: k1_def)
    then show thesis using that [of "k_vram k"] False ok by (simp add: spinner_only_def)
  qed
  have "timer_trigger glyph 1 al sp s k =
      (if k_time k mod 10 = 0
       then Inr (yield_cpu al sp s, k1\<lparr>k_vram := m', k_vectors := unlock_int_vectors (k_vectors k)\<rparr>)
       else Inr (Done () s, k1\<lparr>k_vram := m'\<rparr>))"
    unfolding timer_trigger_def Let_def k1_def [symmetric] m'(1) by (simp add: same)
  moreover have "unlock_int_vectors (k_vectors k) = vectors" using v by (cases vectors) (simp add: unlock_int_vectors_def spinlock_defs)
  moreover have "is_locked (k_vectors k)" using v by (simp add: spinlock_defs)
  ultimately show ?thesis using v m'(2) by (simp add: same)
qed

definition demo_kernel :: kernel where
  "demo_kernel = \<lparr>k_time = 0,
     k_terminal = \<lparr>on_initialized = True, on_value = Some (spinlock_new
       \<lparr>t_cols = 2, t_rows = 2, t_pos = (0, 0), t_framebuffer = spinlock_new small_fb\<rparr>)\<rparr>,
     k_vram = small_vram,
     k_vectors = \<lparr>sl_lock = True, sl_data = replicate 32 None @ [Some (TimerISR 1)]\<rparr>\<rparr>"

theorem timer_tick_witness:
  "\<exists>r k'. timer_trigger block_font 1 False 4096 demo_sched demo_kernel = Inr (r, k')
    \<and> r = yield_cpu False 4096 demo_sched \<and> \<not> is_locked (k_vectors k') \<and> k_time k' = 1"
proof -
  let ?v = "spinlock_new (replicate 32 None @ [Some (TimerISR 1)])"
  have d: "dispatch_interrupt 0x20 ?v = Some (Inr (TimerISR 1, k_vectors demo_kernel))"
    by (simp add: dispatch_interrupt_def demo_kernel_def lock_eq spinlock_new_def guard_deref_def report_def nth_append)
  have t: "once_get (k_terminal demo_kernel) = Inr (Some (spinlock_new
      \<lparr>t_cols = 2, t_rows = 2, t_pos = (0, 0), t_framebuffer = spinlock_new small_fb\<rparr>))"
    by (simp add: demo_kernel_def once_get_def assume_init_ref_def)
  have "fb_ok small_fb (k_vram demo_kernel)" "glyphs_ok block_font"
    by (simp_all add: fb_ok_def small_fb_def small_vram_def demo_kernel_def glyphs_ok_def block_font_def CHAR_HEIGHT_def)
  then show ?thesis using timer_tick [OF d t refl, of block_font False 4096 demo_sched] by (auto simp: demo_kernel_def)
qed

end
