(* ===== verification/Key.thy ===== *)
theory Key
  imports Prelude
begin

text \<open>
  \<^verbatim>\<open>kernel/src/device/key.rs\<close>: scancodes, key modifiers and key events, and the polling
  functions of the key event queue. A character is its code point. The queue itself is the
  lock-free queue of the crate \<open>nolock\<close>, shared with the interrupt handler: what its
  successive \<open>try_dequeue\<close> calls return is the argument \<open>evs\<close>, indexed by the number of the call.
\<close>

subsection \<open>Scancodes\<close>

datatype (plugins only: code) scancode =
    Sc_Escape | Sc_One | Sc_Two | Sc_Three | Sc_Four | Sc_Five | Sc_Six | Sc_Seven
  | Sc_Eight | Sc_Nine | Sc_Zero | Sc_Q | Sc_W | Sc_E | Sc_R | Sc_T
  | Sc_Z | Sc_U | Sc_I | Sc_O | Sc_P | Sc_A | Sc_S | Sc_D
  | Sc_F | Sc_G | Sc_H | Sc_J | Sc_K | Sc_L | Sc_Y | Sc_X
  | Sc_C | Sc_V | Sc_B | Sc_N | Sc_M | Sc_Plus | Sc_Minus | Sc_Enter
  | Sc_Space | Sc_Up | Sc_Down | Sc_Left | Sc_Right | Sc_Home | Sc_End | Sc_PageUp
  | Sc_PageDown | Sc_Insert | Sc_Del | Sc_Tab | Sc_Backspace | Sc_F1 | Sc_F2 | Sc_F3
  | Sc_F4 | Sc_F5 | Sc_F6 | Sc_F7 | Sc_F8 | Sc_F9 | Sc_F10 | Sc_F11
  | Sc_F12 | Sc_Meta

fun scancode_number :: "scancode \<Rightarrow> u8" where
  "scancode_number Sc_Escape = 0x01"
| "scancode_number Sc_One = 0x02"
| "scancode_number Sc_Two = 0x03"
| "scancode_number Sc_Three = 0x04"
| "scancode_number Sc_Four = 0x05"
| "scancode_number Sc_Five = 0x06"
| "scancode_number Sc_Six = 0x07"
| "scancode_number Sc_Seven = 0x08"
| "scancode_number Sc_Eight = 0x09"
| "scancode_number Sc_Nine = 0x0a"
| "scancode_number Sc_Zero = 0x0b"
| "scancode_number Sc_Q = 0x10"
| "scancode_number Sc_W = 0x11"
| "scancode_number Sc_E = 0x12"
| "scancode_number Sc_R = 0x13"
| "scancode_number Sc_T = 0x14"
| "scancode_number Sc_Z = 0x15"
| "scancode_number Sc_U = 0x16"
| "scancode_number Sc_I = 0x17"
| "scancode_number Sc_O = 0x18"
| "scancode_number Sc_P = 0x19"
| "scancode_number Sc_A = 0x1e"
| "scancode_number Sc_S = 0x1f"
| "scancode_number Sc_D = 0x20"
| "scancode_number Sc_F = 0x21"
| "scancode_number Sc_G = 0x22"
| "scancode_number Sc_H = 0x23"
| "scancode_number Sc_J = 0x24"
| "scancode_number Sc_K = 0x25"
| "scancode_number Sc_L = 0x26"
| "scancode_number Sc_Y = 0x2c"
| "scancode_number Sc_X = 0x2d"
| "scancode_number Sc_C = 0x2e"
| "scancode_number Sc_V = 0x2f"
| "scancode_number Sc_B = 0x30"
| "scancode_number Sc_N = 0x31"
| "scancode_number Sc_M = 0x32"
| "scancode_number Sc_Plus = 0x1b"
| "scancode_number Sc_Minus = 0x35"
| "scancode_number Sc_Enter = 0x1c"
| "scancode_number Sc_Space = 0x39"
| "scancode_number Sc_Up = 0x48"
| "scancode_number Sc_Down = 0x50"
| "scancode_number Sc_Left = 0x4b"
| "scancode_number Sc_Right = 0x4d"
| "scancode_number Sc_Home = 0x47"
| "scancode_number Sc_End = 0x4f"
| "scancode_number Sc_PageUp = 0x49"
| "scancode_number Sc_PageDown = 0x51"
| "scancode_number Sc_Insert = 0x52"
| "scancode_number Sc_Del = 0x53"
| "scancode_number Sc_Tab = 0x0f"
| "scancode_number Sc_Backspace = 0x0e"
| "scancode_number Sc_F1 = 0x3b"
| "scancode_number Sc_F2 = 0x3c"
| "scancode_number Sc_F3 = 0x3d"
| "scancode_number Sc_F4 = 0x3e"
| "scancode_number Sc_F5 = 0x3f"
| "scancode_number Sc_F6 = 0x40"
| "scancode_number Sc_F7 = 0x41"
| "scancode_number Sc_F8 = 0x42"
| "scancode_number Sc_F9 = 0x43"
| "scancode_number Sc_F10 = 0x44"
| "scancode_number Sc_F11 = 0x57"
| "scancode_number Sc_F12 = 0x58"
| "scancode_number Sc_Meta = 0x5b"

text \<open>The match of \<open>try_from\<close>, arm by arm.\<close>

definition scancode_arms :: "(u8 \<times> scancode) list" where
  "scancode_arms =
    [(0x01, Sc_Escape), (0x02, Sc_One), (0x03, Sc_Two), (0x04, Sc_Three), (0x05, Sc_Four),
     (0x06, Sc_Five), (0x07, Sc_Six), (0x08, Sc_Seven), (0x09, Sc_Eight), (0x0a, Sc_Nine),
     (0x0b, Sc_Zero), (0x0f, Sc_Tab), (0x0e, Sc_Backspace), (0x10, Sc_Q), (0x11, Sc_W),
     (0x12, Sc_E), (0x13, Sc_R), (0x14, Sc_T), (0x15, Sc_Z), (0x16, Sc_U),
     (0x17, Sc_I), (0x18, Sc_O), (0x19, Sc_P), (0x1b, Sc_Plus), (0x1c, Sc_Enter),
     (0x1e, Sc_A), (0x1f, Sc_S), (0x20, Sc_D), (0x21, Sc_F), (0x22, Sc_G),
     (0x23, Sc_H), (0x24, Sc_J), (0x25, Sc_K), (0x26, Sc_L), (0x2c, Sc_Y),
     (0x2d, Sc_X), (0x2e, Sc_C), (0x2f, Sc_V), (0x30, Sc_B), (0x31, Sc_N),
     (0x32, Sc_M), (0x35, Sc_Minus), (0x39, Sc_Space), (0x47, Sc_Home), (0x48, Sc_Up),
     (0x4b, Sc_Left), (0x4d, Sc_Right), (0x4f, Sc_End), (0x49, Sc_PageUp), (0x50, Sc_Down),
     (0x51, Sc_PageDown), (0x52, Sc_Insert), (0x53, Sc_Del), (0x3b, Sc_F1), (0x3c, Sc_F2),
     (0x3d, Sc_F3), (0x3e, Sc_F4), (0x3f, Sc_F5), (0x40, Sc_F6), (0x41, Sc_F7),
     (0x42, Sc_F8), (0x43, Sc_F9), (0x44, Sc_F10), (0x57, Sc_F11), (0x58, Sc_F12),
     (0x5b, Sc_Meta)]"

definition scancode_try_from :: "u8 \<Rightarrow> scancode option" where
  "scancode_try_from value = map_of scancode_arms value"

subsection \<open>Modifiers and events\<close>

definition SHIFT :: u8 where "SHIFT = 1"
definition ALT_LEFT :: u8 where "ALT_LEFT = 2"
definition ALT_RIGHT :: u8 where "ALT_RIGHT = 4"
definition CTRL_LEFT :: u8 where "CTRL_LEFT = 8"
definition CTRL_RIGHT :: u8 where "CTRL_RIGHT = 16"
definition CAPS_LOCK :: u8 where "CAPS_LOCK = 32"
definition NUM_LOCK :: u8 where "NUM_LOCK = 64"
definition SCROLL_LOCK :: u8 where "SCROLL_LOCK = 128"

lemmas modifier_defs =
  SHIFT_def ALT_LEFT_def ALT_RIGHT_def CTRL_LEFT_def CTRL_RIGHT_def CAPS_LOCK_def NUM_LOCK_def SCROLL_LOCK_def

text \<open>The operations of a flag set: \<open>insert\<close>, \<open>remove\<close>, \<open>toggle\<close> and \<open>contains\<close>.\<close>

definition flags_contain :: "u8 \<Rightarrow> u8 \<Rightarrow> bool" where
  "flags_contain flags m \<longleftrightarrow> flags AND m = m"

record key_event =
  ke_ascii :: "u32 option"
  ke_scancode :: "scancode option"
  ke_modifiers :: u8
  ke_pressed :: bool

definition key_event_new :: key_event where
  "key_event_new = \<lparr>ke_ascii = None, ke_scancode = None, ke_modifiers = 0, ke_pressed = False\<rparr>"

text \<open>Every byte is a valid code point, so \<open>char::from_u32\<close> succeeds.\<close>

definition set_ascii :: "u8 \<Rightarrow> key_event \<Rightarrow> key_event" where
  "set_ascii a k = (if a \<noteq> 0 then k\<lparr>ke_ascii := Some (ucast a)\<rparr> else k)"

definition set_scancode :: "u8 \<Rightarrow> key_event \<Rightarrow> key_event" where
  "set_scancode c k = k\<lparr>ke_scancode := scancode_try_from c\<rparr>"

definition insert_modifiers :: "u8 \<Rightarrow> key_event \<Rightarrow> key_event" where
  "insert_modifiers m k = k\<lparr>ke_modifiers := ke_modifiers k OR m\<rparr>"

definition remove_modifiers :: "u8 \<Rightarrow> key_event \<Rightarrow> key_event" where
  "remove_modifiers m k = k\<lparr>ke_modifiers := ke_modifiers k AND NOT m\<rparr>"

definition toggle_modifiers :: "u8 \<Rightarrow> key_event \<Rightarrow> key_event" where
  "toggle_modifiers m k = k\<lparr>ke_modifiers := ke_modifiers k XOR m\<rparr>"

definition set_pressed :: "bool \<Rightarrow> key_event \<Rightarrow> key_event" where
  "set_pressed p k = k\<lparr>ke_pressed := p\<rparr>"

subsection \<open>Polling\<close>

partial_function (option) poll_key_event :: "(nat \<Rightarrow> key_event option) \<Rightarrow> nat \<Rightarrow> (key_event \<times> nat) option" where
  "poll_key_event evs n = (case evs n of Some k \<Rightarrow> Some (k, Suc n) | None \<Rightarrow> poll_key_event evs (Suc n))"

partial_function (option) poll_key_press :: "(nat \<Rightarrow> key_event option) \<Rightarrow> nat \<Rightarrow> (key_event \<times> nat) option" where
  "poll_key_press evs n =
     (case poll_key_event evs n of
        None \<Rightarrow> None
      | Some (k, n') \<Rightarrow> if ke_pressed k then Some (k, n') else poll_key_press evs n')"

partial_function (option) poll_char :: "(nat \<Rightarrow> key_event option) \<Rightarrow> nat \<Rightarrow> (u32 \<times> nat) option" where
  "poll_char evs n =
     (case poll_key_press evs n of
        None \<Rightarrow> None
      | Some (k, n') \<Rightarrow> (case ke_ascii k of Some c \<Rightarrow> Some (c, n') | None \<Rightarrow> poll_char evs n'))"

subsection \<open>Facts\<close>

lemma scancode_roundtrip1: "scancode_try_from (scancode_number s) = Some s"
  by (cases s) (simp_all add: scancode_try_from_def scancode_arms_def)

lemma scancode_arms_numbers: "list_all (\<lambda>(v, s). scancode_number s = v) scancode_arms"
  by (simp add: scancode_arms_def)

lemma scancode_roundtrip2: "scancode_try_from v = Some s \<Longrightarrow> scancode_number s = v"
  using scancode_arms_numbers by (auto simp: scancode_try_from_def list_all_iff dest: map_of_SomeD)

lemma poll_key_event_first:
  assumes "n \<le> i" "\<And>j. n \<le> j \<Longrightarrow> j < i \<Longrightarrow> evs j = None" "evs i = Some k"
  shows "poll_key_event evs n = Some (k, Suc i)"
  using assms
proof (induction "i - n" arbitrary: n)
  case 0
  then show ?case by (subst poll_key_event.simps) simp
next
  case (Suc d)
  then have "evs n = None" "poll_key_event evs (Suc n) = Some (k, Suc i)" by auto
  then show ?case by (subst poll_key_event.simps) simp
qed

text \<open>The successful dequeues from call \<open>n\<close> on: the first one, and the rest.\<close>

lemma poll_key_event_next:
  assumes "n \<le> i" "evs i = Some k"
  shows "\<exists>i' k'. n \<le> i' \<and> i' \<le> i \<and> evs i' = Some k' \<and> (\<forall>j. n \<le> j \<longrightarrow> j < i' \<longrightarrow> evs j = None)
    \<and> poll_key_event evs n = Some (k', Suc i')"
proof -
  define P where "P j \<longleftrightarrow> n \<le> j \<and> evs j \<noteq> None" for j
  define i' where "i' = (LEAST j. P j)"
  have P: "P i" using assms by (simp add: P_def)
  have "P i'" unfolding i'_def by (rule LeastI [of P i, OF P])
  moreover have "i' \<le> i" unfolding i'_def by (rule Least_le [of P i, OF P])
  moreover have "\<not> P j" if "j < i'" for j using that unfolding i'_def by (rule not_less_Least)
  ultimately have i': "n \<le> i'" "evs i' \<noteq> None" "i' \<le> i" "\<forall>j. n \<le> j \<longrightarrow> j < i' \<longrightarrow> evs j = None"
    unfolding P_def by blast+
  then obtain k' where "evs i' = Some k'" by auto
  then show ?thesis using i' poll_key_event_first [of n i' evs k'] by blast
qed

text \<open>\<open>poll_char\<close> accepts the event of call \<open>i\<close>.\<close>

definition types_char :: "(nat \<Rightarrow> key_event option) \<Rightarrow> nat \<Rightarrow> u32 \<Rightarrow> bool" where
  "types_char evs i c \<longleftrightarrow> (case evs i of Some k \<Rightarrow> ke_pressed k \<and> ke_ascii k = Some c | None \<Rightarrow> False)"

lemma poll_key_press_next:
  assumes "n \<le> i" "evs i = Some k" "ke_pressed k"
  shows "\<exists>i' k'. n \<le> i' \<and> i' \<le> i \<and> evs i' = Some k' \<and> ke_pressed k'
    \<and> (\<forall>j e. n \<le> j \<longrightarrow> j < i' \<longrightarrow> evs j = Some e \<longrightarrow> \<not> ke_pressed e) \<and> poll_key_press evs n = Some (k', Suc i')"
  using assms(1)
proof (induction "i - n" arbitrary: n rule: less_induct)
  case less
  obtain i1 k1 where 1: "n \<le> i1" "i1 \<le> i" "evs i1 = Some k1" "\<forall>j. n \<le> j \<longrightarrow> j < i1 \<longrightarrow> evs j = None"
    "poll_key_event evs n = Some (k1, Suc i1)"
    using poll_key_event_next [of n i evs k, OF less.prems assms(2)] by blast
  show ?case
  proof (cases "ke_pressed k1")
    case True
    then have "poll_key_press evs n = Some (k1, Suc i1)" using 1(5) by (subst poll_key_press.simps) simp
    then show ?thesis using 1 True by auto
  next
    case False
    have dec: "i - Suc i1 < i - n" if "Suc i1 \<le> i" using that 1(1) by simp
    have le: "Suc i1 \<le> i" using False 1(2,3) assms(2,3) by (cases "i1 = i") auto
    obtain i2 k2 where 2: "Suc i1 \<le> i2" "i2 \<le> i" "evs i2 = Some k2" "ke_pressed k2"
      "\<forall>j e. Suc i1 \<le> j \<longrightarrow> j < i2 \<longrightarrow> evs j = Some e \<longrightarrow> \<not> ke_pressed e"
      "poll_key_press evs (Suc i1) = Some (k2, Suc i2)"
      using less.hyps [OF dec [OF le] le] by blast
    have "poll_key_press evs n = Some (k2, Suc i2)" using 1(5) 2(6) False by (subst poll_key_press.simps) simp
    moreover have "\<not> ke_pressed e" if "n \<le> j" "j < i2" "evs j = Some e" for j e
    proof -
      consider "j < i1" | "j = i1" | "Suc i1 \<le> j" by linarith
      then show ?thesis using that 1 2(5) False by cases auto
    qed
    ultimately show ?thesis using 1 2 by (intro exI [of _ i2] exI [of _ k2]) auto
  qed
qed

lemma poll_char_next:
  assumes "n \<le> i" "types_char evs i c"
  shows "\<exists>i' c'. n \<le> i' \<and> i' \<le> i \<and> types_char evs i' c' \<and> (\<forall>j. n \<le> j \<longrightarrow> j < i' \<longrightarrow> (\<forall>d. \<not> types_char evs j d))
    \<and> poll_char evs n = Some (c', Suc i')"
  using assms(1)
proof (induction "i - n" arbitrary: n rule: less_induct)
  case less
  obtain k where k: "evs i = Some k" "ke_pressed k" "ke_ascii k = Some c"
    using assms(2) by (auto simp: types_char_def split: option.splits)
  obtain i1 k1 where 1: "n \<le> i1" "i1 \<le> i" "evs i1 = Some k1" "ke_pressed k1"
    "\<forall>j e. n \<le> j \<longrightarrow> j < i1 \<longrightarrow> evs j = Some e \<longrightarrow> \<not> ke_pressed e" "poll_key_press evs n = Some (k1, Suc i1)"
    using poll_key_press_next [of n i evs k, OF less.prems k(1,2)] by blast
  have none: "\<not> types_char evs j d" if "n \<le> j" "j < i1" for j d
    using 1(5) that by (auto simp: types_char_def split: option.splits)
  show ?case
  proof (cases "ke_ascii k1")
    case (Some c1)
    then have "poll_char evs n = Some (c1, Suc i1)" using 1(6) by (subst poll_char.simps) simp
    moreover have "types_char evs i1 c1" using 1 Some by (simp add: types_char_def)
    ultimately show ?thesis using 1 none by blast
  next
    case None
    have dec: "i - Suc i1 < i - n" if "Suc i1 \<le> i" using that 1(1) by simp
    have le: "Suc i1 \<le> i" using None 1(2,3) k by (cases "i1 = i") auto
    obtain i2 c2 where 2: "Suc i1 \<le> i2" "i2 \<le> i" "types_char evs i2 c2"
      "\<forall>j. Suc i1 \<le> j \<longrightarrow> j < i2 \<longrightarrow> (\<forall>d. \<not> types_char evs j d)" "poll_char evs (Suc i1) = Some (c2, Suc i2)"
      using less.hyps [OF dec [OF le] le] by blast
    have "poll_char evs n = Some (c2, Suc i2)" using 1(6) 2(5) None by (subst poll_char.simps) simp
    moreover have "\<not> types_char evs j d" if "n \<le> j" "j < i2" for j d
    proof -
      consider "j < i1" | "j = i1" | "Suc i1 \<le> j" by linarith
      then show ?thesis using that none 1(3) 2(4) None by cases (auto simp: types_char_def)
    qed
    ultimately show ?thesis using 1 2 by (intro exI [of _ i2] exI [of _ c2]) auto
  qed
qed

subsection \<open>Properties\<close>

text \<open>
  \<open>Scancode::try_from\<close> inverts the numbers of the enumeration: every scancode is recovered
  from its number, and a byte that converts is that scancode's number.
\<close>

theorem scancode_roundtrip:
  "scancode_try_from (scancode_number s) = Some s
   \<and> (scancode_try_from v = Some s \<longrightarrow> scancode_number s = v)"
  using scancode_roundtrip1 scancode_roundtrip2 by blast

theorem scancode_roundtrip_witness:
  "scancode_try_from 0x1c = Some Sc_Enter \<and> scancode_number Sc_Enter = 0x1c"
  using scancode_roundtrip [of Sc_Enter "0x1c"] by simp

text \<open>
  \<open>poll_char\<close> returns, whenever a character is typed at all, with the character of the first
  key press that has one, after consuming the events up to it and no more; releases and
  keys without a character are skipped.
\<close>

theorem poll_char_returns_first:
  assumes "n \<le> i" and "types_char evs i c"
  shows "\<exists>i' c'. n \<le> i' \<and> i' \<le> i \<and> types_char evs i' c' \<and> poll_char evs n = Some (c', Suc i')
    \<and> (\<forall>j d. n \<le> j \<longrightarrow> j < i' \<longrightarrow> \<not> types_char evs j d)"
  using poll_char_next [OF assms] by blast

theorem poll_char_returns_first_witness:
  "\<exists>i' c'. i' \<le> 3 \<and> poll_char
     ((\<lambda>_. None)(1 := Some (key_event_new\<lparr>ke_ascii := Some 97\<rparr>),
        3 := Some (key_event_new\<lparr>ke_ascii := Some 98, ke_pressed := True\<rparr>))) 0 = Some (c', Suc i')"
  using poll_char_returns_first [of 0 3
      "(\<lambda>_. None)(1 := Some (key_event_new\<lparr>ke_ascii := Some 97\<rparr>),
        3 := Some (key_event_new\<lparr>ke_ascii := Some 98, ke_pressed := True\<rparr>))" 98]
  by (auto simp: types_char_def)

end
