(* ===== verification/Keyboard.thy ===== *)
theory Keyboard
  imports Cpu Key Spinlock
begin

text \<open>
  \<^verbatim>\<open>kernel/src/device/keyboard.rs\<close>: the PS/2 keyboard driver, a state machine that gathers
  the bytes of a key event, with the protocol that sets the LEDs. Functions that talk to the
  controller return \<^term>\<open>None\<close> when the controller never gets ready.
\<close>

subsection \<open>Tables and constants\<close>

definition NORMAL_TAB :: "u8 list" where
  "NORMAL_TAB =
    [0, 0, 49, 50, 51, 52, 53, 54, 55, 56, 57, 48, 225, 39, 8, 0, 113, 119,
     101, 114, 116, 122, 117, 105, 111, 112, 129, 43, 13, 0, 97, 115, 100, 102, 103, 104,
     106, 107, 108, 148, 132, 94, 0, 35, 121, 120, 99, 118, 98, 110, 109, 44, 46, 45,
     0, 42, 0, 32, 0, 0, 0, 0, 0, 0, 0, 0, 0, 0, 0, 0, 0, 0,
     0, 0, 45, 0, 0, 0, 43, 0, 0, 0, 0, 0, 0, 0, 60, 0, 0, 0,
     0, 0]"

definition SHIFT_TAB :: "u8 list" where
  "SHIFT_TAB =
    [0, 0, 33, 34, 21, 36, 37, 38, 47, 40, 41, 61, 63, 96, 0, 0, 81, 87,
     69, 82, 84, 90, 85, 73, 79, 80, 154, 42, 0, 0, 65, 83, 68, 70, 71, 72,
     74, 75, 76, 153, 142, 248, 0, 39, 89, 88, 67, 86, 66, 78, 77, 59, 58, 95,
     0, 0, 0, 32, 0, 0, 0, 0, 0, 0, 0, 0, 0, 0, 0, 0, 0, 0,
     0, 0, 0, 0, 0, 0, 0, 0, 0, 0, 0, 0, 0, 0, 62, 0, 0, 0,
     0, 0]"

definition ALT_TAB :: "u8 list" where
  "ALT_TAB =
    [0, 0, 0, 253, 0, 0, 0, 0, 123, 91, 93, 125, 92, 0, 0, 0, 64, 0,
     0, 0, 0, 0, 0, 0, 0, 0, 0, 126, 0, 0, 0, 0, 0, 0, 0, 0,
     0, 0, 0, 0, 0, 0, 0, 0, 0, 0, 0, 0, 0, 0, 230, 0, 0, 0,
     0, 0, 0, 0, 0, 0, 0, 0, 0, 0, 0, 0, 0, 0, 0, 0, 0, 0,
     0, 0, 0, 0, 0, 0, 0, 0, 0, 0, 0, 0, 0, 0, 124, 0, 0, 0,
     0, 0]"

definition ASC_NUM_TAB :: "u8 list" where
  "ASC_NUM_TAB =
    [55, 56, 57, 45, 52, 53, 54, 43, 49, 50, 51, 48, 44]"

definition SCAN_NUM_TAB :: "u8 list" where
  "SCAN_NUM_TAB =
    [8, 9, 10, 53, 5, 6, 7, 27, 2, 3, 4, 11, 51]"

definition LED_SCROLL_LOCK :: u8 where "LED_SCROLL_LOCK = 1"
definition LED_NUM_LOCK :: u8 where "LED_NUM_LOCK = 2"
definition LED_CAPS_LOCK :: u8 where "LED_CAPS_LOCK = 4"

definition OUTPUT_BUFFER_FULL :: u8 where "OUTPUT_BUFFER_FULL = 0x01"
definition INPUT_BUFFER_FULL :: u8 where "INPUT_BUFFER_FULL = 0x02"
definition AUXILIARY_DEVICE :: u8 where "AUXILIARY_DEVICE = 0x20"

definition control_port :: u16 where "control_port = 0x64"
definition data_port :: u16 where "data_port = 0x60"

definition SetLed :: u8 where "SetLed = 0xed"
definition SetSpeed :: u8 where "SetSpeed = 0xf3"
definition Ack :: u8 where "Ack = 0xfa"

definition BREAK_BIT :: u8 where "BREAK_BIT = 0x80"
definition PREFIX1 :: u8 where "PREFIX1 = 0xe0"
definition PREFIX2 :: u8 where "PREFIX2 = 0xe1"

lemmas kb_consts =
  LED_SCROLL_LOCK_def LED_NUM_LOCK_def LED_CAPS_LOCK_def OUTPUT_BUFFER_FULL_def INPUT_BUFFER_FULL_def
  AUXILIARY_DEVICE_def control_port_def data_port_def SetLed_def SetSpeed_def Ack_def
  BREAK_BIT_def PREFIX1_def PREFIX2_def

record keyboard =
  kb_prefix :: u8
  kb_gather :: key_event
  kb_leds :: u8

definition keyboard_new :: keyboard where
  "keyboard_new = \<lparr>kb_prefix = 0, kb_gather = key_event_new, kb_leds = 0\<rparr>"

subsection \<open>The controller protocol\<close>

partial_function (option) wait_for_write :: "hw \<Rightarrow> cpu \<Rightarrow> cpu option" where
  "wait_for_write hw c =
     (case inb hw control_port c of (status, c') \<Rightarrow>
        if status AND INPUT_BUFFER_FULL = 0 then Some c' else wait_for_write hw c')"

partial_function (option) wait_for_read :: "hw \<Rightarrow> cpu \<Rightarrow> cpu option" where
  "wait_for_read hw c =
     (case inb hw control_port c of (status, c') \<Rightarrow>
        if status AND OUTPUT_BUFFER_FULL \<noteq> 0 then Some c' else wait_for_read hw c')"

text \<open>Write one byte to the data port, wait for the answer and panic when it is no ACK.\<close>

definition send_acked :: "hw \<Rightarrow> u8 \<Rightarrow> cpu \<Rightarrow> (unit res \<times> cpu) option" where
  "send_acked hw b c =
     (case wait_for_read hw (outb data_port b c) of
        None \<Rightarrow> None
      | Some c1 \<Rightarrow>
          (case inb hw data_port c1 of (answer, c2) \<Rightarrow>
             if answer \<noteq> Ack then Some (Inl (PanicMsg ''Unexpected response from keyboard''), c2)
             else Some (Inr (), c2)))"

definition send_command :: "hw \<Rightarrow> u8 \<Rightarrow> u8 \<Rightarrow> cpu \<Rightarrow> (unit res \<times> cpu) option" where
  "send_command hw command parameter c =
     (case wait_for_write hw c of
        None \<Rightarrow> None
      | Some c1 \<Rightarrow>
          (case send_acked hw command c1 of
             None \<Rightarrow> None
           | Some (Inl e, c2) \<Rightarrow> Some (Inl e, c2)
           | Some (Inr _, c2) \<Rightarrow> send_acked hw parameter c2))"

definition set_repeat_rate :: "hw \<Rightarrow> u8 \<Rightarrow> u8 \<Rightarrow> cpu \<Rightarrow> (unit res \<times> cpu) option" where
  "set_repeat_rate hw delay speed c =
     send_command hw SetSpeed (push_bit 5 (delay AND 0b11) OR (speed AND 0b11111)) c"

definition led_bits :: "u8 \<Rightarrow> bool \<Rightarrow> u8 \<Rightarrow> u8" where
  "led_bits led on leds = (if on then leds OR led else leds AND NOT led)"

definition set_led :: "hw \<Rightarrow> u8 \<Rightarrow> bool \<Rightarrow> keyboard \<Rightarrow> cpu \<Rightarrow> (keyboard res \<times> cpu) option" where
  "set_led hw led on k c =
     (let k' = k\<lparr>kb_leds := led_bits led on (kb_leds k)\<rparr> in
      case send_command hw SetLed (kb_leds k') c of
        None \<Rightarrow> None
      | Some (r, c') \<Rightarrow> Some (and_then r (\<lambda>_. Inr k'), c'))"

subsection \<open>Decoding\<close>

definition key_from_table :: "u8 list \<Rightarrow> u8 \<Rightarrow> key_event \<Rightarrow> key_event res" where
  "key_from_table tab code key =
     and_then (get_index tab (unat code)) (\<lambda>a. Inr (set_scancode code (set_ascii a key)))"

definition parse_ascii_code :: "u8 \<Rightarrow> u8 \<Rightarrow> key_event \<Rightarrow> key_event res" where
  "parse_ascii_code code prefix key =
     (if flags_contain (ke_modifiers key) NUM_LOCK \<and> prefix = 0 \<and> code \<ge> 71 \<and> code \<le> 83
      then and_then (get_index ASC_NUM_TAB (unat (code - 71))) (\<lambda>a.
           and_then (get_index SCAN_NUM_TAB (unat (code - 71))) (\<lambda>sc.
             Inr (set_scancode sc (set_ascii a key))))
      else if flags_contain (ke_modifiers key) ALT_RIGHT then key_from_table ALT_TAB code key
      else if flags_contain (ke_modifiers key) SHIFT then key_from_table SHIFT_TAB code key
      else if flags_contain (ke_modifiers key) CAPS_LOCK then
        if code \<ge> 16 \<and> code \<le> 26 \<or> code \<ge> 30 \<and> code \<le> 40 \<or> code \<ge> 44 \<and> code \<le> 50
        then key_from_table SHIFT_TAB code key
        else key_from_table NORMAL_TAB code key
      else key_from_table NORMAL_TAB code key)"

text \<open>A complete key: look the code up and record whether it was pressed.\<close>

definition complete_key :: "u8 \<Rightarrow> u8 \<Rightarrow> bool \<Rightarrow> keyboard \<Rightarrow> (bool \<times> keyboard) res" where
  "complete_key code prefix p k =
     and_then (parse_ascii_code code prefix (kb_gather k)) (\<lambda>g.
       Inr (True, k\<lparr>kb_gather := set_pressed p g\<rparr>))"

definition decode_release :: "u8 \<Rightarrow> u8 \<Rightarrow> keyboard \<Rightarrow> (bool \<times> keyboard) res" where
  "decode_release code prefix k =
     (if code = 42 \<or> code = 54 then Inr (False, k\<lparr>kb_gather := remove_modifiers SHIFT (kb_gather k)\<rparr>)
      else if code = 56 then Inr (False, k\<lparr>kb_gather :=
        remove_modifiers (if prefix = PREFIX1 then ALT_RIGHT else ALT_LEFT) (kb_gather k)\<rparr>)
      else if code = 29 then Inr (False, k\<lparr>kb_gather :=
        remove_modifiers (if prefix = PREFIX1 then CTRL_RIGHT else CTRL_LEFT) (kb_gather k)\<rparr>)
      else if code = 58 \<or> code = 70 then Inr (False, k)
      else if code = 69 then
        if flags_contain (ke_modifiers (kb_gather k)) CTRL_LEFT then complete_key code prefix False k
        else Inr (False, k)
      else complete_key code prefix False k)"

text \<open>Toggling a lock key and its LED.\<close>

definition toggle_lock :: "hw \<Rightarrow> u8 \<Rightarrow> u8 \<Rightarrow> keyboard \<Rightarrow> cpu \<Rightarrow> ((bool \<times> keyboard) res \<times> cpu) option" where
  "toggle_lock hw md led k c =
     (let k1 = k\<lparr>kb_gather := toggle_modifiers md (kb_gather k)\<rparr> in
      case set_led hw led (flags_contain (ke_modifiers (kb_gather k1)) md) k1 c of
        None \<Rightarrow> None
      | Some (r, c') \<Rightarrow> Some (and_then r (\<lambda>k2. Inr (False, k2)), c'))"

definition decode_press :: "hw \<Rightarrow> u8 \<Rightarrow> u8 \<Rightarrow> keyboard \<Rightarrow> cpu \<Rightarrow> ((bool \<times> keyboard) res \<times> cpu) option" where
  "decode_press hw code prefix k c =
     (if code = 42 \<or> code = 54 then Some (Inr (False, k\<lparr>kb_gather := insert_modifiers SHIFT (kb_gather k)\<rparr>), c)
      else if code = 56 then Some (Inr (False, k\<lparr>kb_gather :=
        insert_modifiers (if prefix = PREFIX1 then ALT_RIGHT else ALT_LEFT) (kb_gather k)\<rparr>), c)
      else if code = 29 then Some (Inr (False, k\<lparr>kb_gather :=
        insert_modifiers (if prefix = PREFIX1 then CTRL_RIGHT else CTRL_LEFT) (kb_gather k)\<rparr>), c)
      else if code = 58 then toggle_lock hw CAPS_LOCK LED_CAPS_LOCK k c
      else if code = 70 then toggle_lock hw SCROLL_LOCK LED_SCROLL_LOCK k c
      else if code = 69 then
        if flags_contain (ke_modifiers (kb_gather k)) CTRL_LEFT then Some (complete_key code prefix True k, c)
        else toggle_lock hw NUM_LOCK LED_NUM_LOCK k c
      else Some (complete_key code prefix True k, c))"

definition decode_byte :: "hw \<Rightarrow> u8 \<Rightarrow> keyboard \<Rightarrow> cpu \<Rightarrow> ((bool \<times> keyboard) res \<times> cpu) option" where
  "decode_byte hw code k c =
     (if code = PREFIX1 \<or> code = PREFIX2 then Some (Inr (False, k\<lparr>kb_prefix := code\<rparr>), c)
      else
        let prefix = kb_prefix k; k1 = k\<lparr>kb_prefix := 0\<rparr> in
        if code AND BREAK_BIT \<noteq> 0 then Some (decode_release (code AND NOT BREAK_BIT) prefix k1, c)
        else decode_press hw code prefix k1 c)"

definition try_read_next_byte ::
  "hw \<Rightarrow> keyboard \<Rightarrow> cpu \<Rightarrow> ((key_event option \<times> keyboard) res \<times> cpu) option" where
  "try_read_next_byte hw k c =
     (case inb hw control_port c of (ctrl, c1) \<Rightarrow>
        if ctrl AND OUTPUT_BUFFER_FULL \<noteq> 0
        then (case inb hw data_port c1 of (code, c2) \<Rightarrow>
                if ctrl AND AUXILIARY_DEVICE \<noteq> 0 then Some (Inr (None, k), c2)
                else
                  (case decode_byte hw code k c2 of
                     None \<Rightarrow> None
                   | Some (r, c3) \<Rightarrow> Some (and_then r (\<lambda>(complete, k').
                       Inr (if complete then Some (kb_gather k') else None, k')), c3)))
        else Some (Inr (None, k), c1))"

text \<open>
  The interrupt handler: \<open>push\<close> is \<open>push_key_event\<close> on the key event queue \<open>q\<close>.
\<close>

definition keyboard_trigger ::
  "hw \<Rightarrow> (key_event \<Rightarrow> 'q \<Rightarrow> 'q res) \<Rightarrow> keyboard spinlock \<times> 'q \<Rightarrow> cpu \<Rightarrow> ((keyboard spinlock \<times> 'q) res \<times> cpu) option" where
  "keyboard_trigger hw push s c =
     (case s of (kl, q) \<Rightarrow>
      case lock kl of
        None \<Rightarrow> None
      | Some g \<Rightarrow>
          (case try_read_next_byte hw (guard_deref g) c of
             None \<Rightarrow> None
           | Some (r, c') \<Rightarrow> Some (and_then r (\<lambda>(ev, k').
               and_then (case ev of None \<Rightarrow> Inr q | Some e \<Rightarrow> push e q) (\<lambda>q'.
                 Inr (guard_drop (guard_deref_mut (\<lambda>_. k') g), q'))), c')))"

subsection \<open>Flags as bits\<close>

definition flag :: "nat \<Rightarrow> u8" where
  "flag i = push_bit i 1"

lemma bit_single: "bit (flag i) n \<longleftrightarrow> n = i \<and> n < 8"
  by (simp only: flag_def bit_push_bit_iff bit_1_iff) auto

lemma flags_contain_bit: "i < 8 \<Longrightarrow> flags_contain f (flag i) \<longleftrightarrow> bit f i"
proof -
  assume i: "i < 8"
  have "f AND flag i = (if bit f i then flag i else 0)"
    by (rule bit_word_eqI) (auto simp: bit_and_iff bit_single)
  moreover have "bit (flag i) i" using i by (simp add: bit_single)
  then have "flag i \<noteq> 0" by auto
  ultimately show ?thesis by (auto simp: flags_contain_def)
qed

lemma modifier_bits:
  "SHIFT = flag 0" "ALT_LEFT = flag 1" "ALT_RIGHT = flag 2" "CTRL_LEFT = flag 3"
  "CTRL_RIGHT = flag 4" "CAPS_LOCK = flag 5" "NUM_LOCK = flag 6" "SCROLL_LOCK = flag 7"
  "LED_SCROLL_LOCK = flag 0" "LED_NUM_LOCK = flag 1" "LED_CAPS_LOCK = flag 2"
  by (simp_all add: modifier_defs kb_consts flag_def)

lemmas flag_ops = bit_or_iff bit_and_iff bit_not_iff bit_xor_iff bit_single

lemmas flag_simps = flags_contain_bit modifier_bits flag_ops

subsection \<open>What decoding a byte keeps\<close>

lemma parse_keeps_modifiers: "parse_ascii_code code prefix g = Inr g' \<Longrightarrow> ke_modifiers g' = ke_modifiers g"
  by (auto simp: parse_ascii_code_def key_from_table_def and_then_eq_Inr set_scancode_def set_ascii_def
      split: if_splits)

lemma complete_keeps:
  assumes "complete_key code prefix p k = Inr (b, k')"
  shows "b" "ke_modifiers (kb_gather k') = ke_modifiers (kb_gather k)" "kb_leds k' = kb_leds k"
    "kb_prefix k' = kb_prefix k" "ke_pressed (kb_gather k') = p"
  using assms parse_keeps_modifiers by (auto simp: complete_key_def and_then_eq_Inr set_pressed_def)

lemma set_led_result:
  "set_led hw led on k c = Some (Inr k', c') \<Longrightarrow> k' = k\<lparr>kb_leds := led_bits led on (kb_leds k)\<rparr>"
  by (auto simp: set_led_def Let_def and_then_eq_Inr split: option.splits)

lemma toggle_lock_result:
  assumes "toggle_lock hw md led k c = Some (Inr (b, k'), c')"
  shows "\<not> b" "ke_modifiers (kb_gather k') = ke_modifiers (kb_gather k) XOR md"
    "kb_leds k' = led_bits led (flags_contain (ke_modifiers (kb_gather k) XOR md) md) (kb_leds k)"
    "kb_prefix k' = kb_prefix k"
proof -
  define k1 where "k1 = k\<lparr>kb_gather := toggle_modifiers md (kb_gather k)\<rparr>"
  have m1: "ke_modifiers (kb_gather k1) = ke_modifiers (kb_gather k) XOR md"
    by (simp add: k1_def toggle_modifiers_def)
  obtain k2 where k2: "set_led hw led (flags_contain (ke_modifiers (kb_gather k1)) md) k1 c = Some (Inr k2, c')"
    "k' = k2" "\<not> b"
    using assms unfolding toggle_lock_def Let_def k1_def [symmetric]
    by (auto simp: and_then_eq_Inr split: option.splits)
  show "\<not> b" by (rule k2(3))
  show "ke_modifiers (kb_gather k') = ke_modifiers (kb_gather k) XOR md"
    "kb_leds k' = led_bits led (flags_contain (ke_modifiers (kb_gather k) XOR md) md) (kb_leds k)"
    "kb_prefix k' = kb_prefix k"
    using set_led_result [OF k2(1)] k2(2) m1 by (simp_all add: k1_def)
qed

text \<open>The lock modifiers and the LEDs agree.\<close>

definition leds_in_sync :: "keyboard \<Rightarrow> bool" where
  "leds_in_sync k \<longleftrightarrow>
     (flags_contain (kb_leds k) LED_CAPS_LOCK = flags_contain (ke_modifiers (kb_gather k)) CAPS_LOCK) \<and>
     (flags_contain (kb_leds k) LED_NUM_LOCK = flags_contain (ke_modifiers (kb_gather k)) NUM_LOCK) \<and>
     (flags_contain (kb_leds k) LED_SCROLL_LOCK = flags_contain (ke_modifiers (kb_gather k)) SCROLL_LOCK)"

lemma leds_in_sync_new: "leds_in_sync keyboard_new"
  by (simp add: leds_in_sync_def keyboard_new_def key_event_new_def flag_simps)

lemma leds_bits:
  "leds_in_sync k \<longleftrightarrow> bit (kb_leds k) 2 = bit (ke_modifiers (kb_gather k)) 5
     \<and> bit (kb_leds k) 1 = bit (ke_modifiers (kb_gather k)) 6 \<and> bit (kb_leds k) 0 = bit (ke_modifiers (kb_gather k)) 7"
  by (simp only: leds_in_sync_def flags_contain_bit modifier_bits)

lemma led_bits_bit: "i < 8 \<Longrightarrow> j < 8 \<Longrightarrow> bit (led_bits (flag i) on leds) j = (if j = i then on else bit leds j)"
  by (simp add: led_bits_def flag_ops)

lemma toggle_lock_sync:
  assumes "toggle_lock hw md led k c = Some (Inr (b, k'), c')" "leds_in_sync k"
    and "(md, led) \<in> {(CAPS_LOCK, LED_CAPS_LOCK), (NUM_LOCK, LED_NUM_LOCK), (SCROLL_LOCK, LED_SCROLL_LOCK)}"
  shows "leds_in_sync k'"
proof -
  note r = toggle_lock_result [OF assms(1)]
  obtain i j where ij: "md = flag i" "led = flag j" "(i, j) \<in> {(5, 2), (6, 1), (7, 0)}"
    using assms(3) unfolding modifier_bits by auto
  then have "i < 8" "j < 8" by auto
  then have "bit (kb_leds k') n = (if n = j then \<not> bit (ke_modifiers (kb_gather k)) i else bit (kb_leds k) n)"
    "bit (ke_modifiers (kb_gather k')) n = (if n = i then \<not> bit (ke_modifiers (kb_gather k)) n else bit (ke_modifiers (kb_gather k)) n)"
    if "n < 8" for n
    using r(2,3) ij(1,2) that by (simp_all add: led_bits_bit flags_contain_bit flag_ops)
  then show ?thesis using assms(2) ij(3) unfolding leds_bits by auto
qed

subsection \<open>Bytes\<close>

lemma split_code:
  fixes code :: u8
  shows "code AND BREAK_BIT \<noteq> 0 \<Longrightarrow> code = (code AND NOT BREAK_BIT) OR BREAK_BIT"
    "code AND BREAK_BIT = 0 \<Longrightarrow> code = code AND NOT BREAK_BIT"
proof -
  have b: "BREAK_BIT = flag 7" by (simp add: BREAK_BIT_def flag_def)
  have e: "code = (code AND NOT (flag 7)) OR (code AND flag 7)"
    by (rule bit_word_eqI) (auto simp: flag_ops)
  have c: "code AND flag 7 = (if bit code 7 then flag 7 else 0)"
    by (rule bit_word_eqI) (auto simp: flag_ops)
  show "code AND BREAK_BIT \<noteq> 0 \<Longrightarrow> code = (code AND NOT BREAK_BIT) OR BREAK_BIT"
    using e c unfolding b by (auto split: if_splits)
  show "code AND BREAK_BIT = 0 \<Longrightarrow> code = code AND NOT BREAK_BIT"
    using e unfolding b by simp
qed

lemma released_code:
  fixes code x :: u8
  assumes "code AND BREAK_BIT \<noteq> 0" "x AND BREAK_BIT = 0"
  shows "code AND NOT BREAK_BIT = x \<longleftrightarrow> code = x OR BREAK_BIT" "code \<noteq> x"
proof -
  have "(x OR BREAK_BIT) AND NOT BREAK_BIT = x"
    using split_code(2) [OF assms(2)] by (simp add: bit.conj_disj_distrib2)
  then show "code AND NOT BREAK_BIT = x \<longleftrightarrow> code = x OR BREAK_BIT"
    using split_code(1) [OF assms(1)] by auto
  show "code \<noteq> x" using assms by auto
qed

subsection \<open>The keys that are held and the locks that are on\<close>

text \<open>
  What a byte of scan code set 1 says about the modifier keys, read off the table of scan
  codes: a press, a release, with \<open>0xe0\<close> before it for the right-hand keys. Left Ctrl with NumLock
  is the Break key of old keyboards and does not toggle NumLock.
\<close>

record keys =
  shift_held :: bool
  alt_left_held :: bool
  alt_right_held :: bool
  ctrl_left_held :: bool
  ctrl_right_held :: bool
  caps_on :: bool
  num_on :: bool
  scroll_on :: bool
  pending :: u8

definition keys_up :: keys where
  "keys_up = \<lparr>shift_held = False, alt_left_held = False, alt_right_held = False, ctrl_left_held = False,
     ctrl_right_held = False, caps_on = False, num_on = False, scroll_on = False, pending = 0\<rparr>"

definition keys_byte :: "u8 \<Rightarrow> keys \<Rightarrow> keys" where
  "keys_byte b s =
     (if b = 0xe0 \<or> b = 0xe1 then s\<lparr>pending := b\<rparr>
      else let right = (pending s = 0xe0); s = s\<lparr>pending := 0\<rparr> in
        if b = 0x2a \<or> b = 0x36 then s\<lparr>shift_held := True\<rparr>
        else if b = 0xaa \<or> b = 0xb6 then s\<lparr>shift_held := False\<rparr>
        else if b = 0x38 then (if right then s\<lparr>alt_right_held := True\<rparr> else s\<lparr>alt_left_held := True\<rparr>)
        else if b = 0xb8 then (if right then s\<lparr>alt_right_held := False\<rparr> else s\<lparr>alt_left_held := False\<rparr>)
        else if b = 0x1d then (if right then s\<lparr>ctrl_right_held := True\<rparr> else s\<lparr>ctrl_left_held := True\<rparr>)
        else if b = 0x9d then (if right then s\<lparr>ctrl_right_held := False\<rparr> else s\<lparr>ctrl_left_held := False\<rparr>)
        else if b = 0x3a then s\<lparr>caps_on := \<not> caps_on s\<rparr>
        else if b = 0x46 then s\<lparr>scroll_on := \<not> scroll_on s\<rparr>
        else if b = 0x45 \<and> \<not> ctrl_left_held s then s\<lparr>num_on := \<not> num_on s\<rparr>
        else s)"

text \<open>The same, as the driver records it.\<close>

definition recorded :: "keyboard \<Rightarrow> keys" where
  "recorded k = (let m = ke_modifiers (kb_gather k) in
     \<lparr>shift_held = flags_contain m SHIFT, alt_left_held = flags_contain m ALT_LEFT,
      alt_right_held = flags_contain m ALT_RIGHT, ctrl_left_held = flags_contain m CTRL_LEFT,
      ctrl_right_held = flags_contain m CTRL_RIGHT, caps_on = flags_contain m CAPS_LOCK,
      num_on = flags_contain m NUM_LOCK, scroll_on = flags_contain m SCROLL_LOCK, pending = kb_prefix k\<rparr>)"

lemma recorded_bits:
  "recorded k = (let m = ke_modifiers (kb_gather k) in
     \<lparr>shift_held = bit m 0, alt_left_held = bit m 1, alt_right_held = bit m 2, ctrl_left_held = bit m 3,
      ctrl_right_held = bit m 4, caps_on = bit m 5, num_on = bit m 6, scroll_on = bit m 7, pending = kb_prefix k\<rparr>)"
  by (simp add: recorded_def Let_def flags_contain_bit modifier_bits)

lemma complete_recorded:
  "complete_key code prefix p k = Inr (b, k') \<Longrightarrow> recorded k' = recorded k"
  using complete_keeps [of code prefix p k b k'] by (simp add: recorded_def)

lemma toggle_recorded:
  assumes "toggle_lock hw (flag i) led k c = Some (Inr (b, k'), c')"
  shows "ke_modifiers (kb_gather k') = ke_modifiers (kb_gather k) XOR flag i" "kb_prefix k' = kb_prefix k"
  using toggle_lock_result(2,4) [OF assms] by simp_all

lemma release_recorded:
  assumes "decode_release code prefix k = Inr (b, k')"
  shows "recorded k' = (let s = recorded k in
      if code = 42 \<or> code = 54 then s\<lparr>shift_held := False\<rparr>
      else if code = 56 then (if prefix = 0xe0 then s\<lparr>alt_right_held := False\<rparr> else s\<lparr>alt_left_held := False\<rparr>)
      else if code = 29 then (if prefix = 0xe0 then s\<lparr>ctrl_right_held := False\<rparr> else s\<lparr>ctrl_left_held := False\<rparr>)
      else s)" "kb_leds k' = kb_leds k"
proof -
  consider (modifier) "code \<in> {42, 54, 56, 29}" | (other) "code \<notin> {42, 54, 56, 29}" by blast
  then show "recorded k' = (let s = recorded k in
      if code = 42 \<or> code = 54 then s\<lparr>shift_held := False\<rparr>
      else if code = 56 then (if prefix = 0xe0 then s\<lparr>alt_right_held := False\<rparr> else s\<lparr>alt_left_held := False\<rparr>)
      else if code = 29 then (if prefix = 0xe0 then s\<lparr>ctrl_right_held := False\<rparr> else s\<lparr>ctrl_left_held := False\<rparr>)
      else s)"
  proof cases
    case modifier
    then show ?thesis
      using assms by (auto simp: decode_release_def remove_modifiers_def modifier_bits flag_ops recorded_bits Let_def PREFIX1_def)
  next
    case other
    then have "k' = k \<or> complete_key code prefix False k = Inr (b, k')"
      using assms by (auto simp: decode_release_def split: if_splits)
    then have "recorded k' = recorded k" using complete_recorded by blast
    then show ?thesis using other by simp
  qed
  show "kb_leds k' = kb_leds k"
    using assms complete_keeps(3) [of code prefix False k b k'] by (auto simp: decode_release_def split: if_splits)
qed

lemma press_recorded:
  assumes "decode_press hw code prefix k c = Some (Inr (b, k'), c')"
  shows "recorded k' = (let s = recorded k in
      if code = 42 \<or> code = 54 then s\<lparr>shift_held := True\<rparr>
      else if code = 56 then (if prefix = 0xe0 then s\<lparr>alt_right_held := True\<rparr> else s\<lparr>alt_left_held := True\<rparr>)
      else if code = 29 then (if prefix = 0xe0 then s\<lparr>ctrl_right_held := True\<rparr> else s\<lparr>ctrl_left_held := True\<rparr>)
      else if code = 58 then s\<lparr>caps_on := \<not> caps_on s\<rparr>
      else if code = 70 then s\<lparr>scroll_on := \<not> scroll_on s\<rparr>
      else if code = 69 \<and> \<not> ctrl_left_held s then s\<lparr>num_on := \<not> num_on s\<rparr>
      else s)"
proof -
  have nl: "flags_contain (ke_modifiers (kb_gather k)) CTRL_LEFT = ctrl_left_held (recorded k)"
    by (simp add: recorded_def Let_def)
  consider (modifier) "code \<in> {42, 54, 56, 29}" | (caps) "code = 58" | (scroll) "code = 70"
    | (num) "code = 69" "\<not> ctrl_left_held (recorded k)"
    | (other) "code \<notin> {42, 54, 56, 29, 58, 70}" "code = 69 \<longrightarrow> ctrl_left_held (recorded k)" by blast
  then show ?thesis
  proof cases
    case modifier
    then have "k' = k\<lparr>kb_gather := insert_modifiers (flag (if code = 42 \<or> code = 54 then 0
        else if code = 56 then (if prefix = 0xe0 then 2 else 1) else (if prefix = 0xe0 then 4 else 3))) (kb_gather k)\<rparr>"
      using assms by (elim insertE emptyE; cases "prefix = 0xe0"; simp add: decode_press_def modifier_bits PREFIX1_def)
    then show ?thesis using modifier by (elim insertE emptyE) (simp_all add: recorded_bits Let_def insert_modifiers_def flag_ops)
  next
    case caps
    then have "toggle_lock hw CAPS_LOCK LED_CAPS_LOCK k c = Some (Inr (b, k'), c')" using assms by (simp add: decode_press_def)
    from toggle_recorded [OF this [unfolded modifier_bits]] show ?thesis
      using caps by (simp add: recorded_bits Let_def flag_ops)
  next
    case scroll
    then have "toggle_lock hw SCROLL_LOCK LED_SCROLL_LOCK k c = Some (Inr (b, k'), c')" using assms by (simp add: decode_press_def)
    from toggle_recorded [OF this [unfolded modifier_bits]] show ?thesis
      using scroll by (simp add: recorded_bits Let_def flag_ops)
  next
    case num
    then have "toggle_lock hw NUM_LOCK LED_NUM_LOCK k c = Some (Inr (b, k'), c')" using assms nl by (simp add: decode_press_def)
    from toggle_recorded [OF this [unfolded modifier_bits]] show ?thesis
      using num by (simp add: recorded_bits Let_def flag_ops)
  next
    case other
    then have "complete_key code prefix True k = Inr (b, k')"
      using assms nl by (auto simp: decode_press_def split: if_splits)
    then have "recorded k' = recorded k" by (rule complete_recorded)
    then show ?thesis using other by (auto simp: Let_def)
  qed
qed

lemma insert_low_sync: "i < 5 \<Longrightarrow> leds_in_sync k \<Longrightarrow> leds_in_sync (k\<lparr>kb_gather := insert_modifiers (flag i) (kb_gather k)\<rparr>)"
  by (simp add: leds_bits insert_modifiers_def flag_ops)

lemma complete_sync: "complete_key code prefix p k = Inr (b, k') \<Longrightarrow> leds_in_sync k \<Longrightarrow> leds_in_sync k'"
  using complete_keeps(2,3) [of code prefix p k b k'] by (simp add: leds_bits)

lemma decode_press_sync:
  assumes d: "decode_press hw code prefix k c = Some (Inr (b, k'), c')" and s: "leds_in_sync k"
  shows "leds_in_sync k'"
proof (cases "code \<in> {42, 54, 56, 29}")
  case True
  then have "k' = k\<lparr>kb_gather := insert_modifiers (flag 0) (kb_gather k)\<rparr>
    \<or> k' = k\<lparr>kb_gather := insert_modifiers (flag 1) (kb_gather k)\<rparr>
    \<or> k' = k\<lparr>kb_gather := insert_modifiers (flag 2) (kb_gather k)\<rparr>
    \<or> k' = k\<lparr>kb_gather := insert_modifiers (flag 3) (kb_gather k)\<rparr>
    \<or> k' = k\<lparr>kb_gather := insert_modifiers (flag 4) (kb_gather k)\<rparr>"
    using d by (elim insertE emptyE; cases "prefix = PREFIX1"; simp add: decode_press_def modifier_bits)
  then show ?thesis using insert_low_sync [OF _ s] by (elim disjE) simp_all
next
  case False
  note d = d [unfolded decode_press_def]
  show ?thesis
  proof (cases "code = 58 \<or> code = 70 \<or> code = 69 \<and> \<not> flags_contain (ke_modifiers (kb_gather k)) CTRL_LEFT")
    case True
    with False d have "toggle_lock hw CAPS_LOCK LED_CAPS_LOCK k c = Some (Inr (b, k'), c')
      \<or> toggle_lock hw SCROLL_LOCK LED_SCROLL_LOCK k c = Some (Inr (b, k'), c')
      \<or> toggle_lock hw NUM_LOCK LED_NUM_LOCK k c = Some (Inr (b, k'), c')"
      by (elim disjE conjE) simp_all
    then show ?thesis using toggle_lock_sync s by blast
  next
    case nl: False
    with False d have "complete_key code prefix True k = Inr (b, k')"
      by (cases "code = 69") simp_all
    then show ?thesis using s by (rule complete_sync)
  qed
qed

lemma release_sync:
  assumes "decode_release code prefix k = Inr (b, k')" "leds_in_sync k"
  shows "leds_in_sync k'"
proof -
  have "caps_on (recorded k') = caps_on (recorded k)" "num_on (recorded k') = num_on (recorded k)"
    "scroll_on (recorded k') = scroll_on (recorded k)"
    using release_recorded(1) [OF assms(1)] by (simp_all add: Let_def)
  then show ?thesis using assms(2) release_recorded(2) [OF assms(1)] by (simp add: leds_in_sync_def recorded_def Let_def)
qed

text \<open>How one byte moves the state.\<close>

lemma decode_byte_state:
  assumes "decode_byte hw code k c = Some (Inr (b, k'), c')"
  shows "recorded k' = keys_byte code (recorded k)" "leds_in_sync k \<Longrightarrow> leds_in_sync k'"
proof -
  define k1 where "k1 = k\<lparr>kb_prefix := 0\<rparr>"
  have k1: "recorded k1 = (recorded k)\<lparr>pending := 0\<rparr>" "leds_in_sync k1 = leds_in_sync k" "pending (recorded k) = kb_prefix k"
    by (simp_all add: k1_def leds_in_sync_def recorded_def Let_def)
  have "recorded k' = keys_byte code (recorded k) \<and> (leds_in_sync k \<longrightarrow> leds_in_sync k')"
  proof (cases "code = PREFIX1 \<or> code = PREFIX2")
    case True
    then show ?thesis using assms
      by (auto simp: decode_byte_def kb_consts keys_byte_def recorded_def Let_def leds_in_sync_def)
  next
    case np: False
    show ?thesis
    proof (cases "code AND BREAK_BIT = 0")
      case False
      then have r: "decode_release (code AND NOT BREAK_BIT) (kb_prefix k) k1 = Inr (b, k')"
        using assms np by (simp add: decode_byte_def Let_def k1_def)
      have x: "code \<noteq> x" "code AND NOT BREAK_BIT = x \<longleftrightarrow> code = x OR BREAK_BIT" if "x AND BREAK_BIT = 0" for x
        using released_code [OF False that] by simp_all
      have "recorded k' = keys_byte code (recorded k)"
        using release_recorded(1) [OF r] np k1(1,3)
          x [of 42] x [of 54] x [of 56] x [of 29] x(1) [of 58] x(1) [of 69] x(1) [of 70]
        by (simp add: keys_byte_def Let_def kb_consts)
      then show ?thesis using release_sync [OF r] k1(2) by simp
    next
      case True
      then have r: "decode_press hw code (kb_prefix k) k1 c = Some (Inr (b, k'), c')"
        using assms np by (simp add: decode_byte_def Let_def k1_def)
      have "code \<notin> {0xaa, 0xb6, 0xb8, 0x9d}" using True by (auto simp: BREAK_BIT_def)
      then have "recorded k' = keys_byte code (recorded k)"
        using press_recorded [OF r] np k1(1,3) by (simp add: keys_byte_def Let_def kb_consts)
      then show ?thesis using decode_press_sync [OF r] k1(2) by simp
    qed
  qed
  then show "recorded k' = keys_byte code (recorded k)" "leds_in_sync k \<Longrightarrow> leds_in_sync k'" by auto
qed

subsection \<open>A responsive controller\<close>

text \<open>
  A controller that is always ready and acknowledges every command: its status has the output
  buffer full and the input buffer empty, its data port answers \<open>0xfa\<close>.
\<close>

definition responsive :: "hw \<Rightarrow> bool" where
  "responsive hw \<longleftrightarrow>
     (\<forall>tr. (ucast (hw tr control_port) :: u8) AND INPUT_BUFFER_FULL = 0
         \<and> (ucast (hw tr control_port) :: u8) AND OUTPUT_BUFFER_FULL \<noteq> 0
         \<and> (ucast (hw tr data_port) :: u8) = Ack)"

lemma responsive_write:
  assumes "responsive hw"
  shows "wait_for_write hw c = Some (snd (inb hw control_port c))"
  using assms by (subst wait_for_write.simps) (simp add: inb_def Let_def responsive_def)

lemma responsive_read:
  assumes "responsive hw"
  shows "wait_for_read hw c = Some (snd (inb hw control_port c))"
  using assms by (subst wait_for_read.simps) (simp add: inb_def Let_def responsive_def)

lemma responsive_send:
  assumes "responsive hw"
  shows "\<exists>c'. send_acked hw b c = Some (Inr (), c') \<and> outputs c' = outputs c @ [Out8 data_port b]"
proof -
  have "fst (inb hw data_port x) = Ack" for x using assms by (simp add: inb_def Let_def responsive_def)
  then show ?thesis
    by (simp add: send_acked_def responsive_read [OF assms] case_prod_beta)
qed

lemma responsive_command:
  assumes "responsive hw"
  shows "\<exists>c'. send_command hw cmd par c = Some (Inr (), c')
    \<and> outputs c' = outputs c @ [Out8 data_port cmd, Out8 data_port par]"
proof -
  obtain c1 where c1: "send_acked hw cmd (snd (inb hw control_port c)) = Some (Inr (), c1)"
    "outputs c1 = outputs c @ [Out8 data_port cmd]"
    using responsive_send [OF assms, of cmd "snd (inb hw control_port c)"] by auto
  obtain c2 where "send_acked hw par c1 = Some (Inr (), c2)" "outputs c2 = outputs c1 @ [Out8 data_port par]"
    using responsive_send [OF assms] by blast
  then show ?thesis using c1 by (simp add: send_command_def responsive_write [OF assms])
qed

lemma responsive_toggle:
  assumes "responsive hw"
  shows "\<exists>k' c'. toggle_lock hw md led k c = Some (Inr (False, k'), c')
    \<and> outputs c' = outputs c @ [Out8 data_port SetLed, Out8 data_port (kb_leds k')]"
proof -
  define k1 where "k1 = k\<lparr>kb_gather := toggle_modifiers md (kb_gather k)\<rparr>"
  define k2 where "k2 = k1\<lparr>kb_leds := led_bits led (flags_contain (ke_modifiers (kb_gather k1)) md) (kb_leds k1)\<rparr>"
  obtain c' where "send_command hw SetLed (kb_leds k2) c = Some (Inr (), c')"
    "outputs c' = outputs c @ [Out8 data_port SetLed, Out8 data_port (kb_leds k2)]"
    using responsive_command [OF assms] by blast
  then show ?thesis by (simp add: toggle_lock_def set_led_def Let_def k1_def [symmetric] k2_def)
qed

subsection \<open>Which codes the tables cover\<close>

lemma table_lengths:
  "length NORMAL_TAB = 92" "length SHIFT_TAB = 92" "length ALT_TAB = 92"
  "length ASC_NUM_TAB = 13" "length SCAN_NUM_TAB = 13"
  by (simp_all add: NORMAL_TAB_def SHIFT_TAB_def ALT_TAB_def ASC_NUM_TAB_def SCAN_NUM_TAB_def)

lemma key_from_table_total:
  "length tab = 92 \<Longrightarrow> key_from_table tab code g
     = (if code < 92 then Inr (set_scancode code (set_ascii (tab ! unat code) g)) else Inl IndexOutOfBounds)"
  by (simp add: key_from_table_def get_index_def word_less_nat_alt)

lemma parse_total:
  "(\<exists>g'. parse_ascii_code code prefix g = Inr g') \<and> code < 92
   \<or> parse_ascii_code code prefix g = Inl IndexOutOfBounds \<and> 92 \<le> code"
proof (cases "flags_contain (ke_modifiers g) NUM_LOCK \<and> prefix = 0 \<and> code \<ge> 71 \<and> code \<le> 83")
  case True
  then have "unat (code - 71) < 13" "code < 92"
    by (auto simp: word_le_nat_alt word_less_nat_alt unat_sub)
  then show ?thesis using True by (simp add: parse_ascii_code_def table_lengths)
next
  case False
  then show ?thesis
    unfolding parse_ascii_code_def if_not_P [OF False]
    by (simp add: key_from_table_total table_lengths not_less)
qed

lemma complete_total:
  "(\<exists>k'. complete_key code prefix p k = Inr (True, k')) \<and> code < 92
   \<or> complete_key code prefix p k = Inl IndexOutOfBounds \<and> 92 \<le> code"
  using parse_total [of code prefix "kb_gather k"] by (auto simp: complete_key_def)

lemma release_total:
  "(\<exists>b k'. decode_release code prefix k = Inr (b, k')) \<and> code < 92
   \<or> decode_release code prefix k = Inl IndexOutOfBounds \<and> 92 \<le> code"
proof (cases "code \<in> {42, 54, 56, 29, 58, 70} \<or> code = 69 \<and> \<not> flags_contain (ke_modifiers (kb_gather k)) CTRL_LEFT")
  case True
  then have "code < 92" by auto
  moreover have "\<exists>b k'. decode_release code prefix k = Inr (b, k')"
    using True by (auto simp: decode_release_def)
  ultimately show ?thesis by simp
next
  case False
  then have "decode_release code prefix k = complete_key code prefix False k" by (auto simp: decode_release_def)
  then show ?thesis using complete_total [of code prefix False k] by auto
qed

lemma press_total:
  assumes "responsive hw"
  shows "(\<exists>b k' c'. decode_press hw code prefix k c = Some (Inr (b, k'), c')) \<and> code < 92
   \<or> decode_press hw code prefix k c = Some (Inl IndexOutOfBounds, c) \<and> 92 \<le> code"
proof (cases "code \<in> {42, 54, 56, 29, 58, 70} \<or> code = 69 \<and> \<not> flags_contain (ke_modifiers (kb_gather k)) CTRL_LEFT")
  case True
  then have "code < 92" by auto
  moreover have "\<exists>b k' c'. decode_press hw code prefix k c = Some (Inr (b, k'), c')"
    using True responsive_toggle [OF assms] unfolding decode_press_def by (elim insertE emptyE disjE conjE) (simp_all, blast+)
  ultimately show ?thesis by simp
next
  case False
  then have "decode_press hw code prefix k c = Some (complete_key code prefix True k, c)"
    by (auto simp: decode_press_def)
  then show ?thesis using complete_total [of code prefix True k] by auto
qed

subsection \<open>Byte sequences\<close>

text \<open>A sequence of bytes decoded one after the other: the completed events and the final state.\<close>

fun decode_all :: "hw \<Rightarrow> u8 list \<Rightarrow> keyboard \<Rightarrow> cpu \<Rightarrow> ((key_event list \<times> keyboard) res \<times> cpu) option" where
  "decode_all hw [] k c = Some (Inr ([], k), c)"
| "decode_all hw (b # bs) k c =
     (case decode_byte hw b k c of
        None \<Rightarrow> None
      | Some (Inl e, c1) \<Rightarrow> Some (Inl e, c1)
      | Some (Inr (complete, k1), c1) \<Rightarrow>
          (case decode_all hw bs k1 c1 of
             None \<Rightarrow> None
           | Some (r, c2) \<Rightarrow> Some (and_then r (\<lambda>(evs, k2).
               Inr ((if complete then [kb_gather k1] else []) @ evs, k2)), c2)))"

lemma decode_all_Cons:
  assumes "decode_all hw (b # bs) k c = Some (Inr (evs, k2), c2)"
  obtains complete k1 c1 evs1 where "decode_byte hw b k c = Some (Inr (complete, k1), c1)"
    "decode_all hw bs k1 c1 = Some (Inr (evs1, k2), c2)" "evs = (if complete then [kb_gather k1] else []) @ evs1"
proof -
  obtain r c1 where 1: "decode_byte hw b k c = Some (r, c1)" using assms by (cases "decode_byte hw b k c") auto
  then obtain complete k1 where r: "r = Inr (complete, k1)" using assms by (cases r) auto
  obtain r2 c2' where 2: "decode_all hw bs k1 c1 = Some (r2, c2')"
    using assms 1 r by (cases "decode_all hw bs k1 c1") auto
  then show thesis using assms 1 r that by (auto simp: and_then_eq_Inr)
qed

lemma decode_all_state:
  assumes "decode_all hw bs k c = Some (Inr (evs, k'), c')"
  shows "recorded k' = fold keys_byte bs (recorded k) \<and> (leds_in_sync k \<longrightarrow> leds_in_sync k')"
  using assms
proof (induction bs arbitrary: k c evs)
  case (Cons b bs)
  obtain complete k1 c1 evs1 where 1: "decode_byte hw b k c = Some (Inr (complete, k1), c1)"
    "decode_all hw bs k1 c1 = Some (Inr (evs1, k'), c')"
    using Cons.prems(1) by (rule decode_all_Cons)
  show ?case using Cons.IH [OF 1(2)] decode_byte_state [OF 1(1)] by simp
qed simp

lemma decode_byte_total:
  assumes "responsive hw" "code = PREFIX1 \<or> code = PREFIX2 \<or> code AND NOT BREAK_BIT < 92"
  shows "\<exists>b k' c'. decode_byte hw code k c = Some (Inr (b, k'), c')"
proof (cases "code = PREFIX1 \<or> code = PREFIX2")
  case True
  then show ?thesis by (auto simp: decode_byte_def)
next
  case False
  then have "\<not> 92 \<le> code AND NOT BREAK_BIT" using assms(2) by simp
  then show ?thesis
    using False release_total [of "code AND NOT BREAK_BIT" "kb_prefix k" "k\<lparr>kb_prefix := 0\<rparr>"]
      press_total [OF assms(1), of code "kb_prefix k" "k\<lparr>kb_prefix := 0\<rparr>" c] split_code(2) [of code]
    by (cases "code AND BREAK_BIT = 0") (auto simp: decode_byte_def Let_def)
qed

lemma decode_all_total:
  assumes "responsive hw"
  shows "\<forall>b \<in> set bs. b = PREFIX1 \<or> b = PREFIX2 \<or> b AND NOT BREAK_BIT < 92 \<Longrightarrow>
    \<exists>evs k' c'. decode_all hw bs k c = Some (Inr (evs, k'), c')"
proof (induction bs arbitrary: k c)
  case (Cons b bs)
  obtain complete k1 c1 where "decode_byte hw b k c = Some (Inr (complete, k1), c1)"
    using decode_byte_total [OF assms, of b k c] Cons.prems by auto
  moreover obtain evs k' c' where "decode_all hw bs k1 c1 = Some (Inr (evs, k'), c')"
    using Cons.IH [of k1 c1] Cons.prems by auto
  ultimately show ?case by simp
qed simp

subsection \<open>Properties\<close>

text \<open>
  C22. Whatever bytes the keyboard sends, the driver's state follows the keys: after any sequence
  of bytes that is decoded, Shift, left and right Alt and left and right Ctrl are recorded as
  held exactly when the last byte of that key was a press (Shift, with two keys and one flag:
  of either key), CapsLock, NumLock and ScrollLock are on exactly after an odd number of presses
  (NumLock pressed with left Ctrl is Break and does not count), a prefix is pending exactly
  after a prefix byte, and the LEDs equal the locks. With a controller that answers, every
  sequence of prefixes and codes below 92 is decoded.
\<close>

theorem keyboard_state_tracks_keys:
  "(decode_all hw bs keyboard_new c = Some (Inr (evs, k), c') \<longrightarrow>
      recorded k = fold keys_byte bs keys_up \<and> leds_in_sync k)
   \<and> (responsive hw \<and> (\<forall>b \<in> set bs. b = PREFIX1 \<or> b = PREFIX2 \<or> b AND NOT BREAK_BIT < 92) \<longrightarrow>
      (\<exists>evs k c'. decode_all hw bs keyboard_new c = Some (Inr (evs, k), c')))"
proof -
  have "recorded keyboard_new = keys_up"
    by (simp add: recorded_bits keyboard_new_def key_event_new_def keys_up_def)
  then show ?thesis
    using decode_all_state [of hw bs keyboard_new c evs k c'] decode_all_total [of hw bs keyboard_new c] leds_in_sync_new by auto
qed

definition ready_hw :: hw where
  "ready_hw tr port = (if port = control_port then 1 else if port = data_port then 0xfa else 0)"

lemma ready_hw_responsive: "responsive ready_hw"
  by (simp add: responsive_def ready_hw_def kb_consts)

definition idle_cpu :: cpu where
  "idle_cpu = \<lparr>cpu_rflags = 0x202, cpu_cr0 = 0, cpu_trace = []\<rparr>"

text \<open>Shift and \<open>a\<close>, right Alt pressed and held, right Ctrl pressed and released, CapsLock.\<close>

definition demo_bytes :: "u8 list" where
  "demo_bytes = [42, 30, 158, 170, 0xe0, 56, 0xe0, 29, 0xe0, 157, 58, 186]"

theorem keyboard_state_tracks_keys_witness:
  "\<exists>evs k c'. decode_all ready_hw demo_bytes keyboard_new idle_cpu = Some (Inr (evs, k), c')
     \<and> recorded k = keys_up\<lparr>alt_right_held := True, caps_on := True\<rparr> \<and> leds_in_sync k"
proof -
  have "\<forall>b \<in> set demo_bytes. b = PREFIX1 \<or> b = PREFIX2 \<or> b AND NOT BREAK_BIT < 92"
    by (simp add: demo_bytes_def kb_consts)
  then obtain evs k c' where d: "decode_all ready_hw demo_bytes keyboard_new idle_cpu = Some (Inr (evs, k), c')"
    using keyboard_state_tracks_keys [of ready_hw demo_bytes idle_cpu] ready_hw_responsive by blast
  have "fold keys_byte demo_bytes keys_up = keys_up\<lparr>alt_right_held := True, caps_on := True\<rparr>"
    by (simp add: demo_bytes_def keys_byte_def keys_up_def Let_def)
  then show ?thesis
    using d keyboard_state_tracks_keys [of ready_hw demo_bytes idle_cpu evs k c'] by auto
qed

text \<open>
  C39. With a controller that answers, decoding a byte always comes to an end; it panics exactly
  for a byte that is no prefix and whose code without the break bit is 92 or more, because
  the translation tables have 92 entries (the Menu key, \<open>0x5d\<close>, is such a key).
\<close>

theorem keyboard_panics_iff_code_beyond_tables:
  assumes "responsive hw"
  shows "\<exists>r c'. decode_byte hw code k c = Some (r, c')
    \<and> (r = Inl IndexOutOfBounds \<longleftrightarrow> code \<noteq> PREFIX1 \<and> code \<noteq> PREFIX2 \<and> 92 \<le> code AND NOT BREAK_BIT)
    \<and> (r \<noteq> Inl IndexOutOfBounds \<longrightarrow> (\<exists>b k'. r = Inr (b, k')))"
proof (cases "code = PREFIX1 \<or> code = PREFIX2")
  case True
  then show ?thesis by (auto simp: decode_byte_def)
next
  case np: False
  show ?thesis
  proof (cases "code AND BREAK_BIT = 0")
    case False
    then have "decode_byte hw code k c
        = Some (decode_release (code AND NOT BREAK_BIT) (kb_prefix k) (k\<lparr>kb_prefix := 0\<rparr>), c)"
      using np by (simp add: decode_byte_def Let_def)
    then show ?thesis
      using release_total [of "code AND NOT BREAK_BIT" "kb_prefix k" "k\<lparr>kb_prefix := 0\<rparr>"] np by auto
  next
    case True
    then have "decode_byte hw code k c = decode_press hw code (kb_prefix k) (k\<lparr>kb_prefix := 0\<rparr>) c"
      using np by (simp add: decode_byte_def Let_def)
    then show ?thesis
      using press_total [OF assms, of code "kb_prefix k" "k\<lparr>kb_prefix := 0\<rparr>" c] split_code(2) [OF True] np by auto
  qed
qed

theorem keyboard_panics_iff_code_beyond_tables_witness:
  "\<exists>c'. decode_byte ready_hw 0x5d keyboard_new idle_cpu = Some (Inl IndexOutOfBounds, c')"
  using keyboard_panics_iff_code_beyond_tables [OF ready_hw_responsive, of "0x5d" keyboard_new idle_cpu]
  by (auto simp: kb_consts)

text \<open>
  A key without a character does not clear the character of the key before it: after
  pressing \<open>a\<close>, the event of the function key F1 still carries the character \<open>a\<close>.
\<close>

theorem stale_ascii:
  "\<exists>evs k c'. decode_all hw [30, 59] keyboard_new c = Some (Inr (evs, k), c')
     \<and> map ke_scancode evs = [Some Sc_A, Some Sc_F1] \<and> map ke_ascii evs = [Some 97, Some 97]"
  by (simp add: decode_byte_def decode_press_def kb_consts keyboard_new_def key_event_new_def
        complete_key_def parse_ascii_code_def key_from_table_def
        flags_contain_def modifier_defs NORMAL_TAB_def get_index_def set_ascii_def set_scancode_def set_pressed_def
        scancode_try_from_def scancode_arms_def Let_def)

text \<open>
  Pressing a lock key tells the keyboard about it: with a controller that answers, the driver
  writes the SetLed command followed by its LED state, nothing else, and completes no event.
\<close>

theorem lock_key_updates_leds:
  assumes "responsive hw" and "code = 58 \<or> code = 70"
  shows "\<exists>k' c'. decode_byte hw code k c = Some (Inr (False, k'), c')
    \<and> outputs c' = outputs c @ [Out8 data_port SetLed, Out8 data_port (kb_leds k')]"
proof -
  have c: "code \<noteq> PREFIX1 \<and> code \<noteq> PREFIX2" "code AND BREAK_BIT = 0" using assms(2) by (auto simp: kb_consts)
  then have "decode_byte hw code k c = decode_press hw code (kb_prefix k) (k\<lparr>kb_prefix := 0\<rparr>) c"
    by (simp add: decode_byte_def Let_def)
  then show ?thesis
    using assms(2) responsive_toggle [OF assms(1)] by (elim disjE) (simp_all add: decode_press_def)
qed

theorem lock_key_updates_leds_witness:
  "\<exists>k' c'. decode_byte ready_hw 58 keyboard_new idle_cpu = Some (Inr (False, k'), c')
    \<and> outputs c' = [Out8 0x60 0xed, Out8 0x60 (kb_leds k')]"
  using lock_key_updates_leds [OF ready_hw_responsive, of 58 keyboard_new idle_cpu]
  by (simp add: kb_consts) (simp add: outputs_def idle_cpu_def)

end
