(* ===== verification/Pci.thy ===== *)
theory Pci
  imports Cpu Spinlock
begin

text \<open>
  \<^verbatim>\<open>kernel/src/device/pci.rs\<close>: access to the PCI configuration space through the two
  configuration ports, and the scan of the bus for devices. Reads and writes hold the lock of
  the two port registers and release it before they return; \<^term>\<open>None\<close> means that the lock is
  held and the access spins. The scan follows bridges to their secondary buses; its recursion
  is bounded by fuel, one unit per bridge on the way down, and running out of it is \<^term>\<open>None\<close>.
\<close>

subsection \<open>Constants\<close>

definition MAX_DEVICES_PER_BUS :: nat where "MAX_DEVICES_PER_BUS = 32"
definition MAX_FUNCTIONS_PER_DEVICE :: nat where "MAX_FUNCTIONS_PER_DEVICE = 8"
definition INVALID_VENDOR_ID :: u16 where "INVALID_VENDOR_ID = 0xffff"
definition CONFIG_ADDRESS_PORT :: u16 where "CONFIG_ADDRESS_PORT = 0x0cf8"
definition CONFIG_DATA_PORT :: u16 where "CONFIG_DATA_PORT = 0x0cfc"

text \<open>The numbers of \<open>Register\<close>, \<open>Class\<close> and \<open>Bridge\<close> that the code uses.\<close>

definition R_VendorId :: u8 where "R_VendorId = 0x00"
definition R_DeviceId :: u8 where "R_DeviceId = 0x02"
definition R_Command :: u8 where "R_Command = 0x04"
definition R_Revision :: u8 where "R_Revision = 0x08"
definition R_ProgrammingInterface :: u8 where "R_ProgrammingInterface = 0x09"
definition R_Subclass :: u8 where "R_Subclass = 0x0a"
definition R_Class :: u8 where "R_Class = 0x0b"
definition R_HeaderType :: u8 where "R_HeaderType = 0x0e"
definition R_BaseAddress0 :: u8 where "R_BaseAddress0 = 0x10"
definition R_SubsystemVendorId :: u8 where "R_SubsystemVendorId = 0x2c"
definition R_SubsystemId :: u8 where "R_SubsystemId = 0x2e"
definition R_InterruptLine :: u8 where "R_InterruptLine = 0x3c"
definition R_SecondaryBus :: u8 where "R_SecondaryBus = 0x19"
definition Class_Bridge :: u8 where "Class_Bridge = 0x06"
definition Bridge_PciToPci :: u8 where "Bridge_PciToPci = 0x04"

subsection \<open>State\<close>

record pci_device =
  pd_bus :: u8
  pd_device :: u8
  pd_function :: u8

record pci_bus =
  pb_registers :: "unit spinlock"
  pb_devices :: "pci_device list"

definition pci_bus_new :: pci_bus where
  "pci_bus_new = \<lparr>pb_registers = spinlock_new (), pb_devices = []\<rparr>"

subsection \<open>Configuration space access\<close>

definition calc_config_address :: "u8 \<Rightarrow> u8 \<Rightarrow> u8 \<Rightarrow> u8 \<Rightarrow> u32" where
  "calc_config_address b d f off =
     push_bit 31 1 OR push_bit 16 (ucast b) OR push_bit 11 (ucast d) OR push_bit 8 (ucast f)
     OR (ucast off AND 0xfc)"

definition read32 :: "hw \<Rightarrow> pci_bus \<Rightarrow> u8 \<Rightarrow> u8 \<Rightarrow> u8 \<Rightarrow> u8 \<Rightarrow> cpu \<Rightarrow> (u32 \<times> cpu) option" where
  "read32 hw pb b d f off c =
     (let address = calc_config_address b d f off in
      case lock (pb_registers pb) of
        None \<Rightarrow> None
      | Some g \<Rightarrow> Some (indw hw CONFIG_DATA_PORT (outdw CONFIG_ADDRESS_PORT address c)))"

definition write32 :: "pci_bus \<Rightarrow> u8 \<Rightarrow> u8 \<Rightarrow> u8 \<Rightarrow> u8 \<Rightarrow> u32 \<Rightarrow> cpu \<Rightarrow> cpu option" where
  "write32 pb b d f off v c =
     (let address = calc_config_address b d f off in
      case lock (pb_registers pb) of
        None \<Rightarrow> None
      | Some g \<Rightarrow> Some (outdw CONFIG_DATA_PORT v (outdw CONFIG_ADDRESS_PORT address c)))"

text \<open>The shift counts \<open>(offset & 0x02) * 8\<close> and \<open>(offset & 0x03) * 8\<close>.\<close>

definition shift16 :: "u8 \<Rightarrow> nat" where "shift16 off = unat ((off AND 0x02) * 8)"
definition shift8 :: "u8 \<Rightarrow> nat" where "shift8 off = unat ((off AND 0x03) * 8)"

definition read16 :: "hw \<Rightarrow> pci_bus \<Rightarrow> u8 \<Rightarrow> u8 \<Rightarrow> u8 \<Rightarrow> u8 \<Rightarrow> cpu \<Rightarrow> (u16 \<times> cpu) option" where
  "read16 hw pb b d f off c =
     (case read32 hw pb b d f off c of
        None \<Rightarrow> None
      | Some (v, c') \<Rightarrow> Some (ucast (drop_bit (shift16 off) v AND 0xffff), c'))"

definition write16 :: "hw \<Rightarrow> pci_bus \<Rightarrow> u8 \<Rightarrow> u8 \<Rightarrow> u8 \<Rightarrow> u8 \<Rightarrow> u16 \<Rightarrow> cpu \<Rightarrow> cpu option" where
  "write16 hw pb b d f off v c =
     (case read32 hw pb b d f off c of
        None \<Rightarrow> None
      | Some (data, c') \<Rightarrow>
          write32 pb b d f off
            ((data AND NOT (push_bit (shift16 off) 0xffff)) OR push_bit (shift16 off) (ucast v)) c')"

definition read8 :: "hw \<Rightarrow> pci_bus \<Rightarrow> u8 \<Rightarrow> u8 \<Rightarrow> u8 \<Rightarrow> u8 \<Rightarrow> cpu \<Rightarrow> (u8 \<times> cpu) option" where
  "read8 hw pb b d f off c =
     (case read32 hw pb b d f off c of
        None \<Rightarrow> None
      | Some (v, c') \<Rightarrow> Some (ucast (drop_bit (shift8 off) v AND 0xff), c'))"

definition write8 :: "hw \<Rightarrow> pci_bus \<Rightarrow> u8 \<Rightarrow> u8 \<Rightarrow> u8 \<Rightarrow> u8 \<Rightarrow> u8 \<Rightarrow> cpu \<Rightarrow> cpu option" where
  "write8 hw pb b d f off v c =
     (case read32 hw pb b d f off c of
        None \<Rightarrow> None
      | Some (data, c') \<Rightarrow>
          write32 pb b d f off
            ((data AND NOT (push_bit (shift8 off) 0xff)) OR push_bit (shift8 off) (ucast v)) c')"

subsection \<open>Scanning\<close>

type_synonym scan_state = "pci_bus \<times> cpu"

text \<open>Run a loop body for each number in turn.\<close>

fun for_each :: "nat list \<Rightarrow> (nat \<Rightarrow> scan_state \<Rightarrow> scan_state option) \<Rightarrow> scan_state \<Rightarrow> scan_state option" where
  "for_each [] f s = Some s"
| "for_each (x # xs) f s = (case f x s of None \<Rightarrow> None | Some s' \<Rightarrow> for_each xs f s')"

text \<open>\<open>scan\<close> is the call of \<open>scan_bus\<close> for the secondary bus of a bridge.\<close>

definition check_function ::
  "hw \<Rightarrow> (u8 \<Rightarrow> scan_state \<Rightarrow> scan_state option) \<Rightarrow> u8 \<Rightarrow> u8 \<Rightarrow> u8 \<Rightarrow> scan_state \<Rightarrow> scan_state option" where
  "check_function hw scan b d f s =
     (case s of (pb, c) \<Rightarrow>
      case read8 hw pb b d f R_Class c of
        None \<Rightarrow> None
      | Some (base_class, c1) \<Rightarrow>
          (case read8 hw pb b d f R_Subclass c1 of
             None \<Rightarrow> None
           | Some (sub_class, c2) \<Rightarrow>
               if base_class = Class_Bridge \<and> sub_class = Bridge_PciToPci
               then (case read8 hw pb b d f R_SecondaryBus c2 of
                       None \<Rightarrow> None
                     | Some (secondary_bus, c3) \<Rightarrow> scan secondary_bus (pb, c3))
               else Some (pb\<lparr>pb_devices := pb_devices pb @ [\<lparr>pd_bus = b, pd_device = d, pd_function = f\<rparr>]\<rparr>, c2)))"

definition check_further ::
  "hw \<Rightarrow> (u8 \<Rightarrow> scan_state \<Rightarrow> scan_state option) \<Rightarrow> u8 \<Rightarrow> u8 \<Rightarrow> nat \<Rightarrow> scan_state \<Rightarrow> scan_state option" where
  "check_further hw scan b d f s =
     (case s of (pb, c) \<Rightarrow>
      case read16 hw pb b d (of_nat f) R_VendorId c of
        None \<Rightarrow> None
      | Some (vendor_id, c1) \<Rightarrow>
          if vendor_id = INVALID_VENDOR_ID then Some (pb, c1)
          else check_function hw scan b d (of_nat f) (pb, c1))"

definition check_device ::
  "hw \<Rightarrow> (u8 \<Rightarrow> scan_state \<Rightarrow> scan_state option) \<Rightarrow> u8 \<Rightarrow> u8 \<Rightarrow> scan_state \<Rightarrow> scan_state option" where
  "check_device hw scan b d s =
     (case s of (pb, c) \<Rightarrow>
      case read16 hw pb b d 0 R_VendorId c of
        None \<Rightarrow> None
      | Some (vendor_id, c1) \<Rightarrow>
          if vendor_id = INVALID_VENDOR_ID then Some (pb, c1)
          else
            (case check_function hw scan b d 0 (pb, c1) of
               None \<Rightarrow> None
             | Some (pb2, c2) \<Rightarrow>
                 (case read8 hw pb2 b d 0 R_HeaderType c2 of
                    None \<Rightarrow> None
                  | Some (header_type, c3) \<Rightarrow>
                      if header_type AND 0x80 \<noteq> 0
                      then for_each [1..<MAX_FUNCTIONS_PER_DEVICE] (check_further hw scan b d) (pb2, c3)
                      else Some (pb2, c3))))"

primrec scan_bus :: "nat \<Rightarrow> hw \<Rightarrow> u8 \<Rightarrow> scan_state \<Rightarrow> scan_state option" where
  "scan_bus 0 hw b s = None"
| "scan_bus (Suc n) hw b s =
     for_each [0..<MAX_DEVICES_PER_BUS] (\<lambda>d. check_device hw (scan_bus n hw) b (of_nat d)) s"

text \<open>The loop over the host controllers, with its \<open>break\<close>.\<close>

fun scan_hosts :: "nat \<Rightarrow> hw \<Rightarrow> nat list \<Rightarrow> scan_state \<Rightarrow> scan_state option" where
  "scan_hosts n hw [] s = Some s"
| "scan_hosts n hw (f # fs) (pb, c) =
     (case read16 hw pb 0 0 (of_nat f) R_VendorId c of
        None \<Rightarrow> None
      | Some (vendor_id, c1) \<Rightarrow>
          if vendor_id \<noteq> INVALID_VENDOR_ID then Some (pb, c1)
          else (case scan_bus n hw (of_nat f) (pb, c1) of None \<Rightarrow> None | Some s' \<Rightarrow> scan_hosts n hw fs s'))"

definition scan :: "nat \<Rightarrow> hw \<Rightarrow> scan_state \<Rightarrow> scan_state option" where
  "scan n hw s =
     (case s of (pb, c) \<Rightarrow>
      case read8 hw pb 0 0 0 R_HeaderType c of
        None \<Rightarrow> None
      | Some (header_type, c1) \<Rightarrow>
          if header_type AND 0x80 = 0 then scan_bus n hw 0 (pb, c1)
          else scan_hosts n hw [0..<MAX_FUNCTIONS_PER_DEVICE] (pb, c1))"

subsection \<open>Devices\<close>

definition dev_read8 :: "hw \<Rightarrow> pci_bus \<Rightarrow> pci_device \<Rightarrow> u8 \<Rightarrow> cpu \<Rightarrow> (u8 \<times> cpu) option" where
  "dev_read8 hw pb dev off c = read8 hw pb (pd_bus dev) (pd_device dev) (pd_function dev) off c"

definition dev_write8 :: "hw \<Rightarrow> pci_bus \<Rightarrow> pci_device \<Rightarrow> u8 \<Rightarrow> u8 \<Rightarrow> cpu \<Rightarrow> cpu option" where
  "dev_write8 hw pb dev off v c = write8 hw pb (pd_bus dev) (pd_device dev) (pd_function dev) off v c"

definition dev_read16 :: "hw \<Rightarrow> pci_bus \<Rightarrow> pci_device \<Rightarrow> u8 \<Rightarrow> cpu \<Rightarrow> (u16 \<times> cpu) option" where
  "dev_read16 hw pb dev off c = read16 hw pb (pd_bus dev) (pd_device dev) (pd_function dev) off c"

definition dev_write16 :: "hw \<Rightarrow> pci_bus \<Rightarrow> pci_device \<Rightarrow> u8 \<Rightarrow> u16 \<Rightarrow> cpu \<Rightarrow> cpu option" where
  "dev_write16 hw pb dev off v c = write16 hw pb (pd_bus dev) (pd_device dev) (pd_function dev) off v c"

definition dev_read32 :: "hw \<Rightarrow> pci_bus \<Rightarrow> pci_device \<Rightarrow> u8 \<Rightarrow> cpu \<Rightarrow> (u32 \<times> cpu) option" where
  "dev_read32 hw pb dev off c = read32 hw pb (pd_bus dev) (pd_device dev) (pd_function dev) off c"

definition dev_write32 :: "pci_bus \<Rightarrow> pci_device \<Rightarrow> u8 \<Rightarrow> u32 \<Rightarrow> cpu \<Rightarrow> cpu option" where
  "dev_write32 pb dev off v c = write32 pb (pd_bus dev) (pd_device dev) (pd_function dev) off v c"

definition read_vendor_id :: "hw \<Rightarrow> pci_bus \<Rightarrow> pci_device \<Rightarrow> cpu \<Rightarrow> (u16 \<times> cpu) option" where
  "read_vendor_id hw pb dev = dev_read16 hw pb dev R_VendorId"
definition read_device_id :: "hw \<Rightarrow> pci_bus \<Rightarrow> pci_device \<Rightarrow> cpu \<Rightarrow> (u16 \<times> cpu) option" where
  "read_device_id hw pb dev = dev_read16 hw pb dev R_DeviceId"
definition read_class :: "hw \<Rightarrow> pci_bus \<Rightarrow> pci_device \<Rightarrow> cpu \<Rightarrow> (u8 \<times> cpu) option" where
  "read_class hw pb dev = dev_read8 hw pb dev R_Class"
definition read_subclass :: "hw \<Rightarrow> pci_bus \<Rightarrow> pci_device \<Rightarrow> cpu \<Rightarrow> (u8 \<times> cpu) option" where
  "read_subclass hw pb dev = dev_read8 hw pb dev R_Subclass"
definition read_revision :: "hw \<Rightarrow> pci_bus \<Rightarrow> pci_device \<Rightarrow> cpu \<Rightarrow> (u8 \<times> cpu) option" where
  "read_revision hw pb dev = dev_read8 hw pb dev R_Revision"
definition read_programming_interface :: "hw \<Rightarrow> pci_bus \<Rightarrow> pci_device \<Rightarrow> cpu \<Rightarrow> (u8 \<times> cpu) option" where
  "read_programming_interface hw pb dev = dev_read8 hw pb dev R_ProgrammingInterface"
definition read_subsystem_vendor_id :: "hw \<Rightarrow> pci_bus \<Rightarrow> pci_device \<Rightarrow> cpu \<Rightarrow> (u16 \<times> cpu) option" where
  "read_subsystem_vendor_id hw pb dev = dev_read16 hw pb dev R_SubsystemVendorId"
definition read_subsystem_id :: "hw \<Rightarrow> pci_bus \<Rightarrow> pci_device \<Rightarrow> cpu \<Rightarrow> (u16 \<times> cpu) option" where
  "read_subsystem_id hw pb dev = dev_read16 hw pb dev R_SubsystemId"
definition read_interrupt_line :: "hw \<Rightarrow> pci_bus \<Rightarrow> pci_device \<Rightarrow> cpu \<Rightarrow> (u8 \<times> cpu) option" where
  "read_interrupt_line hw pb dev = dev_read8 hw pb dev R_InterruptLine"
definition dev_read_command :: "hw \<Rightarrow> pci_bus \<Rightarrow> pci_device \<Rightarrow> cpu \<Rightarrow> (u16 \<times> cpu) option" where
  "dev_read_command hw pb dev = dev_read16 hw pb dev R_Command"
definition dev_write_command :: "hw \<Rightarrow> pci_bus \<Rightarrow> pci_device \<Rightarrow> u16 \<Rightarrow> cpu \<Rightarrow> cpu option" where
  "dev_write_command hw pb dev = dev_write16 hw pb dev R_Command"

definition read_bar :: "hw \<Rightarrow> pci_bus \<Rightarrow> pci_device \<Rightarrow> u8 \<Rightarrow> cpu \<Rightarrow> (u32 \<times> cpu) res option" where
  "read_bar hw pb dev index c =
     (if index \<ge> 6 then Some (Inl (PanicMsg ''Invalid BAR index''))
      else
        (case and_then (umul index 4) (uadd R_BaseAddress0) of
           Inl e \<Rightarrow> Some (Inl e)
         | Inr off \<Rightarrow> map_option Inr (dev_read32 hw pb dev off c)))"

definition write_bar :: "pci_bus \<Rightarrow> pci_device \<Rightarrow> u8 \<Rightarrow> u32 \<Rightarrow> cpu \<Rightarrow> cpu res option" where
  "write_bar pb dev index v c =
     (if index \<ge> 6 then Some (Inl (PanicMsg ''Invalid BAR index''))
      else
        (case and_then (umul index 4) (uadd R_BaseAddress0) of
           Inl e \<Rightarrow> Some (Inl e)
         | Inr off \<Rightarrow> map_option Inr (dev_write32 pb dev off v c)))"

subsection \<open>A configuration space behind the ports\<close>

text \<open>
  The host bridge: a write to the address port selects a doubleword, a write to the data port
  is delivered to the selected doubleword, and a read of the data port returns it. What a
  register makes of a write is up to the device: \<open>upd a old v\<close> is the contents of the doubleword \<open>a\<close>
  after \<open>v\<close> was written over \<open>old\<close>, so that read-only and write-1-to-clear bits are covered.
\<close>

type_synonym reg_write = "u32 \<Rightarrow> u32 \<Rightarrow> u32 \<Rightarrow> u32"

fun latched :: "io_event list \<Rightarrow> u32" where
  "latched (Out32 p v # tr) = (if p = CONFIG_ADDRESS_PORT then v else latched tr)"
| "latched (_ # tr) = latched tr"
| "latched [] = 0"

fun cfg_mem :: "reg_write \<Rightarrow> (u32 \<Rightarrow> u32) \<Rightarrow> io_event list \<Rightarrow> u32 \<Rightarrow> u32" where
  "cfg_mem upd init (Out32 p v # tr) =
     (if p = CONFIG_DATA_PORT then (cfg_mem upd init tr)(latched tr := upd (latched tr) (cfg_mem upd init tr (latched tr)) v)
      else cfg_mem upd init tr)"
| "cfg_mem upd init (_ # tr) = cfg_mem upd init tr"
| "cfg_mem upd init [] = init"

definition responds :: "hw \<Rightarrow> reg_write \<Rightarrow> (u32 \<Rightarrow> u32) \<Rightarrow> bool" where
  "responds hw upd init \<longleftrightarrow> (\<forall>tr. hw tr CONFIG_DATA_PORT = cfg_mem upd init tr (latched tr))"

abbreviation cfg :: "reg_write \<Rightarrow> (u32 \<Rightarrow> u32) \<Rightarrow> cpu \<Rightarrow> u32 \<Rightarrow> u32" where
  "cfg upd init c \<equiv> cfg_mem upd init (cpu_trace c)"

definition reg8 :: "(u32 \<Rightarrow> u32) \<Rightarrow> u8 \<Rightarrow> u8 \<Rightarrow> u8 \<Rightarrow> u8 \<Rightarrow> u8" where
  "reg8 m b d f off = ucast (drop_bit (shift8 off) (m (calc_config_address b d f off)) AND 0xff)"

definition reg16 :: "(u32 \<Rightarrow> u32) \<Rightarrow> u8 \<Rightarrow> u8 \<Rightarrow> u8 \<Rightarrow> u8 \<Rightarrow> u16" where
  "reg16 m b d f off = ucast (drop_bit (shift16 off) (m (calc_config_address b d f off)) AND 0xffff)"

lemma config_reads:
  assumes "responds hw upd init" "\<not> is_locked (pb_registers pb)"
  shows "\<exists>c'. read32 hw pb b d f off c = Some (cfg upd init c (calc_config_address b d f off), c') \<and> cfg upd init c' = cfg upd init c"
    "\<exists>c'. read16 hw pb b d f off c = Some (reg16 (cfg upd init c) b d f off, c') \<and> cfg upd init c' = cfg upd init c"
    "\<exists>c'. read8 hw pb b d f off c = Some (reg8 (cfg upd init c) b d f off, c') \<and> cfg upd init c' = cfg upd init c"
  using assms
  by (simp_all add: read32_def read16_def read8_def Let_def lock_eq is_locked_def port_defs responds_def
      reg16_def reg8_def CONFIG_ADDRESS_PORT_def CONFIG_DATA_PORT_def)

lemma config_writes:
  fixes b d f off
  assumes "responds hw upd init" "\<not> is_locked (pb_registers pb)"
  defines "a \<equiv> calc_config_address b d f off"
  shows "\<exists>c'. write32 pb b d f off v32 c = Some c' \<and> cfg upd init c' = (cfg upd init c)(a := upd a (cfg upd init c a) v32)"
    "\<exists>c'. write16 hw pb b d f off v16 c = Some c' \<and> cfg upd init c' = (cfg upd init c)(a := upd a (cfg upd init c a)
       ((cfg upd init c a AND NOT (push_bit (shift16 off) 0xffff)) OR push_bit (shift16 off) (ucast v16)))"
    "\<exists>c'. write8 hw pb b d f off v8 c = Some c' \<and> cfg upd init c' = (cfg upd init c)(a := upd a (cfg upd init c a)
       ((cfg upd init c a AND NOT (push_bit (shift8 off) 0xff)) OR push_bit (shift8 off) (ucast v8)))"
proof -
  have w: "\<exists>c'. write32 pb b d f off v c = Some c' \<and> cfg upd init c' = (cfg upd init c)(a := upd a (cfg upd init c a) v)" for v c
    using assms(2) by (simp add: write32_def Let_def lock_eq is_locked_def port_defs a_def
        CONFIG_ADDRESS_PORT_def CONFIG_DATA_PORT_def)
  show "\<exists>c'. write32 pb b d f off v32 c = Some c' \<and> cfg upd init c' = (cfg upd init c)(a := upd a (cfg upd init c a) v32)" by (rule w)
  obtain c1 where c1: "read32 hw pb b d f off c = Some (cfg upd init c a, c1)" "cfg upd init c1 = cfg upd init c"
    using config_reads(1) [OF assms(1,2), of b d f off c] by (auto simp: a_def)
  show "\<exists>c'. write16 hw pb b d f off v16 c = Some c' \<and> cfg upd init c' = (cfg upd init c)(a := upd a (cfg upd init c a)
       ((cfg upd init c a AND NOT (push_bit (shift16 off) 0xffff)) OR push_bit (shift16 off) (ucast v16)))"
    "\<exists>c'. write8 hw pb b d f off v8 c = Some c' \<and> cfg upd init c' = (cfg upd init c)(a := upd a (cfg upd init c a)
       ((cfg upd init c a AND NOT (push_bit (shift8 off) 0xff)) OR push_bit (shift8 off) (ucast v8)))"
    using w [of _ c1] c1 by (auto simp: write16_def write8_def)
qed

subsection \<open>Addresses and bytes\<close>

lemma small_bits:
  fixes d :: u8
  assumes "d < 2 ^ k" "k < 8" "bit d n"
  shows "n < k"
proof (rule ccontr)
  assume "\<not> n < k"
  have "unat d < 2 ^ k" using assms(1,2) by (simp add: word_less_nat_alt unat_power2)
  also have "(2 :: nat) ^ k \<le> 2 ^ n" using \<open>\<not> n < k\<close> by simp
  finally have "\<not> bit (unat d) n" by (simp add: bit_iff_odd)
  then show False using assms(3) bit_imp_le_length [OF assms(3)] by (simp add: bit_unsigned_iff)
qed

lemma fc_bits: "bit (0xfc :: u32) n \<longleftrightarrow> n \<in> {2..<8}" "bit (0xfc :: u8) n \<longleftrightarrow> n \<in> {2..<8}"
proof -
  have "(0xfc :: u32) = push_bit 2 (mask 6)" "(0xfc :: u8) = push_bit 2 (mask 6)" by (simp_all add: mask_eq_exp_minus_1)
  then show "bit (0xfc :: u32) n \<longleftrightarrow> n \<in> {2..<8}" "bit (0xfc :: u8) n \<longleftrightarrow> n \<in> {2..<8}"
    by (auto simp only: bit_push_bit_iff bit_mask_iff) auto
qed

lemma offset_bits: "bit (x AND (0xfc :: u8)) n \<longleftrightarrow> 2 \<le> n \<and> n < 8 \<and> bit x n"
  by (simp only: bit_and_iff fc_bits) auto

lemma address_bits:
  assumes "d < 32" "f < 8"
  shows "bit (calc_config_address b d f off) n \<longleftrightarrow>
    n = 31 \<or> 16 \<le> n \<and> bit b (n - 16) \<or> 11 \<le> n \<and> bit d (n - 11) \<or> 8 \<le> n \<and> bit f (n - 8) \<or> 2 \<le> n \<and> n < 8 \<and> bit off n"
proof -
  have p: "bit (push_bit k (ucast x :: u32)) n \<longleftrightarrow> k \<le> n \<and> bit x (n - k)" if "k \<le> 24" for x :: u8 and k
    using that bit_imp_le_length [of x "n - k"] by (auto simp: bit_push_bit_iff bit_ucast_iff)
  have q: "bit (ucast off AND (0xfc :: u32)) n \<longleftrightarrow> 2 \<le> n \<and> n < 8 \<and> bit off n"
    by (simp only: bit_and_iff fc_bits bit_ucast_iff) auto
  have "bit (push_bit 31 (1 :: u32)) n \<longleftrightarrow> n = 31" by (simp only: bit_push_bit_iff bit_1_iff) auto
  then show ?thesis unfolding calc_config_address_def by (simp add: bit_or_iff p q del: push_bit_of_1)
qed

lemma address_inj:
  assumes "d < 32" "f < 8" "d' < 32" "f' < 8"
  shows "calc_config_address b d f off = calc_config_address b' d' f' off' \<longleftrightarrow>
    b = b' \<and> d = d' \<and> f = f' \<and> off AND 0xfc = off' AND 0xfc"
proof
  assume eq: "calc_config_address b d f off = calc_config_address b' d' f' off'"
  have lim: "bit d n \<Longrightarrow> n < 5" "bit d' n \<Longrightarrow> n < 5" "bit f n \<Longrightarrow> n < 3" "bit f' n \<Longrightarrow> n < 3"
    "bit x n \<Longrightarrow> n < 8" for n and x :: u8
    using small_bits [of d 5 n] small_bits [of d' 5 n] small_bits [of f 3 n] small_bits [of f' 3 n] assms
      bit_imp_le_length [of x n] by auto
  have e: "bit (calc_config_address b d f off) n \<longleftrightarrow> bit (calc_config_address b' d' f' off') n" for n using eq by simp
  have bb: "bit b n \<longleftrightarrow> bit b' n" if "n < 8" for n
    using e [of "16 + n"] that lim(1,2) [of "5 + n"] lim(3,4) [of "8 + n"]
    by (auto simp: address_bits [OF assms(1,2)] address_bits [OF assms(3,4)])
  have dd: "bit d n \<longleftrightarrow> bit d' n" if "n < 5" for n
    using e [of "11 + n"] that lim(3,4) [of "3 + n"]
    by (auto simp: address_bits [OF assms(1,2)] address_bits [OF assms(3,4)])
  have ff: "bit f n \<longleftrightarrow> bit f' n" if "n < 3" for n
    using e [of "8 + n"] that
    by (auto simp: address_bits [OF assms(1,2)] address_bits [OF assms(3,4)])
  have oo: "bit off n \<longleftrightarrow> bit off' n" if "2 \<le> n" "n < 8" for n
    using e [of n] that
    by (auto simp: address_bits [OF assms(1,2)] address_bits [OF assms(3,4)])
  have "b = b'" by (rule bit_word_eqI) (simp add: bb)
  moreover have "d = d'" by (rule bit_word_eqI) (metis dd lim(1,2))
  moreover have "f = f'" by (rule bit_word_eqI) (metis ff lim(3,4))
  moreover have "off AND 0xfc = off' AND 0xfc" by (rule bit_word_eqI) (metis oo offset_bits)
  ultimately show "b = b' \<and> d = d' \<and> f = f' \<and> off AND 0xfc = off' AND 0xfc" by blast
next
  assume eq: "b = b' \<and> d = d' \<and> f = f' \<and> off AND 0xfc = off' AND 0xfc"
  then have "2 \<le> n \<and> n < 8 \<and> bit off n \<longleftrightarrow> 2 \<le> n \<and> n < 8 \<and> bit off' n" for n
    by (metis offset_bits)
  then show "calc_config_address b d f off = calc_config_address b' d' f' off'"
    using assms eq by (intro bit_word_eqI) (simp add: address_bits)
qed

lemma mask_numerals: "(0xff :: u32) = mask 8" "(0xffff :: u32) = mask 16"
  by (simp_all add: mask_eq_exp_minus_1)

lemma low_offset:
  "off AND (2 :: u8) = (if bit off 1 then 2 else 0)"
  "off AND (3 :: u8) = (if bit off 1 then 2 else 0) + (if bit off 0 then 1 else 0)"
proof -
  have two: "bit (2 :: u8) n \<longleftrightarrow> n = 1" for n
    using bit_push_bit_iff [of 1 "1 :: u8" n] by (auto simp: bit_1_iff)
  have three: "bit (3 :: u8) n \<longleftrightarrow> n < 2" for n
    using bit_mask_iff [of 2 n, where 'a = u8] by (simp add: mask_eq_exp_minus_1 less_2_cases_iff) auto
  have "bit (off AND 2) n \<longleftrightarrow> n = 1 \<and> bit off 1" for n by (simp only: bit_and_iff two) auto
  then show "off AND 2 = (if bit off 1 then 2 else 0)"
    by (intro bit_word_eqI) (simp only: two split: if_splits, simp)
  have "off AND 3 = (if bit off 1 then 2 else 0) OR (if bit off 0 then 1 else 0)"
  proof (rule bit_word_eqI)
    fix n
    show "bit (off AND 3) n \<longleftrightarrow> bit ((if bit off 1 then 2 else 0) OR (if bit off 0 then 1 else 0 :: u8)) n"
      unfolding bit_and_iff bit_or_iff three less_2_cases_iff
      by (cases "bit off 1"; cases "bit off 0") (simp_all only: if_True if_False two bit_1_iff bit_0_eq bot_apply, auto intro: gr0I)
  qed
  also have "\<dots> = (if bit off 1 then 2 else 0) + (if bit off 0 then 1 else 0)" by simp
  finally show "off AND 3 = (if bit off 1 then 2 else 0) + (if bit off 0 then 1 else 0)" .
qed

lemma shifts:
  "shift16 off = (if bit off 1 then 16 else 0)"
  "shift8 off = (if bit off 1 then 16 else 0) + (if bit off 0 then 8 else 0)"
  by (simp_all add: shift16_def shift8_def low_offset)

subsection \<open>Properties of configuration access\<close>

definition byte_of :: "'a::len word \<Rightarrow> nat \<Rightarrow> u8" where
  "byte_of w k = ucast (drop_bit (8 * k) w)"

lemma reg8_byte: "reg8 m b d f off = byte_of (m (calc_config_address b d f off)) (unat (off AND 3))"
proof -
  have "shift8 off = 8 * unat (off AND 3)" by (auto simp: shifts low_offset)
  then show ?thesis unfolding reg8_def byte_of_def mask_numerals
    by (intro bit_word_eqI) (auto simp: bit_ucast_iff bit_and_iff bit_mask_iff)
qed

lemma byte_of_ops:
  fixes x y :: u32
  shows "byte_of (x AND y) k = byte_of x k AND byte_of y k" "byte_of (x OR y) k = byte_of x k OR byte_of y k"
    "k < 4 \<Longrightarrow> byte_of (NOT y) k = NOT (byte_of y k)"
  unfolding byte_of_def by (intro bit_word_eqI; auto simp: bit_simps dest: bit_imp_le_length)+

text \<open>Replacing a byte or a halfword of a doubleword, byte by byte.\<close>

lemma set_byte:
  fixes x :: u32 and v :: u8
  assumes "k < 4" "i < 4"
  shows "byte_of ((x AND NOT (push_bit (8 * i) (mask 8))) OR push_bit (8 * i) (ucast v)) k
    = (if k = i then v else byte_of x k)"
  unfolding byte_of_def using assms
  by (intro bit_word_eqI)
    (auto simp: bit_ucast_iff bit_and_iff bit_or_iff bit_not_iff bit_drop_bit_eq bit_push_bit_iff bit_mask_iff dest: bit_imp_le_length)

lemma set_half:
  fixes x :: u32 and v :: u16
  assumes "k < 4" "i < 2"
  shows "byte_of ((x AND NOT (push_bit (16 * i) (mask 16))) OR push_bit (16 * i) (ucast v)) k
    = (if k div 2 = i then byte_of v (k mod 2) else byte_of x k)"
proof -
  obtain q r where k: "k = 2 * q + r" "r < 2" "q = k div 2" "r = k mod 2" by (metis mod_less_divisor mult_div_mod_eq zero_less_numeral)
  then have "q < 2" using assms(1) by simp
  show ?thesis
    unfolding k(3,4) [symmetric] unfolding byte_of_def k(1) using assms(2) k(2) \<open>q < 2\<close>
    by (intro bit_word_eqI)
      (auto simp: bit_ucast_iff bit_and_iff bit_or_iff bit_not_iff bit_drop_bit_eq bit_push_bit_iff bit_mask_iff dest: bit_imp_le_length)
qed

lemma shift_bytes:
  "shift8 off = 8 * unat (off AND 3)" "shift16 off = 16 * (unat (off AND 3) div 2)" "unat (off AND 3) < 4"
  by (auto simp: shifts low_offset)

text \<open>The doubleword that is written, as bytes: those that the access covers are replaced.\<close>

lemma write_values:
  fixes b d f off c
  assumes "responds hw upd init" and "\<not> is_locked (pb_registers pb)"
  defines "m \<equiv> cfg upd init c" and "a \<equiv> calc_config_address b d f off"
  shows "\<exists>c' w. write8 hw pb b d f off v8 c = Some c' \<and> cfg upd init c' = m(a := upd a (m a) w)
      \<and> (\<forall>k < 4. byte_of w k = (if k = unat (off AND 3) then v8 else byte_of (m a) k))"
    "\<exists>c' w. write16 hw pb b d f off v16 c = Some c' \<and> cfg upd init c' = m(a := upd a (m a) w)
      \<and> (\<forall>k < 4. byte_of w k = (if k div 2 = unat (off AND 3) div 2 then byte_of v16 (k mod 2) else byte_of (m a) k))"
    "\<exists>c'. write32 pb b d f off v32 c = Some c' \<and> cfg upd init c' = m(a := upd a (m a) v32)"
proof -
  note w = config_writes [OF assms(1,2), where b = b and d = d and f = f and off = off and c = c,
      unfolded mask_numerals shift_bytes(1,2), folded a_def m_def]
  have i: "unat (off AND 3) < 4" by (rule shift_bytes(3))
  show "\<exists>c' w. write8 hw pb b d f off v8 c = Some c' \<and> cfg upd init c' = m(a := upd a (m a) w)
      \<and> (\<forall>k < 4. byte_of w k = (if k = unat (off AND 3) then v8 else byte_of (m a) k))"
    using w(3) [of v8] set_byte [OF _ i] by blast
  have "unat (off AND 3) div 2 < 2" using i by simp
  then show "\<exists>c' w. write16 hw pb b d f off v16 c = Some c' \<and> cfg upd init c' = m(a := upd a (m a) w)
      \<and> (\<forall>k < 4. byte_of w k = (if k div 2 = unat (off AND 3) div 2 then byte_of v16 (k mod 2) else byte_of (m a) k))"
    using w(2) [of v16] set_half by blast
  show "\<exists>c'. write32 pb b d f off v32 c = Some c' \<and> cfg upd init c' = m(a := upd a (m a) v32)" by (rule w(1))
qed

text \<open>
  C35. Access to single bytes and halfwords over a bus that only transfers whole doublewords, for
  devices that treat a write as they like: reading a byte returns that byte of the doubleword
  it lies in. An 8, 16 or 32-bit write hands the device exactly one doubleword, in which the
  bytes that the access covers are the ones to be written and the others are the ones just
  read; afterwards the bytes of that doubleword are what the device made of it, and every other
  byte of every function is as before. So registers that store what is written form a byte
  array, but a write-1-to-clear register beside the one that is written, such as Status beside
  Command, gets its own ones written back.
\<close>

theorem pci_config_byte_access:
  assumes "responds hw upd init" and "\<not> is_locked (pb_registers pb)"
    and "d < 32" "f < 8" "d' < 32" "f' < 8"
  shows "let m = cfg upd init c; a = calc_config_address b d f off in
    \<exists>c1 c2 c4 w1 w2. write8 hw pb b d f off v8 c = Some c1 \<and> write16 hw pb b d f off v16 c = Some c2
    \<and> write32 pb b d f off v32 c = Some c4
    \<and> (\<forall>k < 4. byte_of w1 k = (if k = unat (off AND 3) then v8 else byte_of (m a) k))
    \<and> (\<forall>k < 4. byte_of w2 k = (if k div 2 = unat (off AND 3) div 2 then byte_of v16 (k mod 2) else byte_of (m a) k))
    \<and> map_option fst (read8 hw pb b d f off c) = Some (byte_of (m a) (unat (off AND 3)))
    \<and> (\<forall>(w, c') \<in> {(w1, c1), (w2, c2), (v32, c4)}.
        map_option fst (read8 hw pb b' d' f' off' c')
          = (if (b', d', f') = (b, d, f) \<and> off' AND 0xfc = off AND 0xfc
             then Some (byte_of (upd a (m a) w) (unat (off' AND 3)))
             else map_option fst (read8 hw pb b' d' f' off' c)))"
proof -
  let ?a' = "calc_config_address b' d' f' off'"
  define m a where "m = cfg upd init c" and "a = calc_config_address b d f off"
  have rd: "map_option fst (read8 hw pb x y z i u) = Some (byte_of (cfg upd init u (calc_config_address x y z i)) (unat (i AND 3)))" for x y z i u
    using config_reads(3) [OF assms(1,2), of x y z i u] by (auto simp: reg8_byte)
  have inj: "?a' = a \<longleftrightarrow> (b', d', f') = (b, d, f) \<and> off' AND 0xfc = off AND 0xfc"
    using address_inj [OF assms(5,6,3,4)] by (auto simp: a_def)
  note vals = write_values [OF assms(1,2), where b = b and d = d and f = f and off = off and c = c,
      folded a_def m_def]
  obtain c1 w1 where 1: "write8 hw pb b d f off v8 c = Some c1" "cfg upd init c1 = m(a := upd a (m a) w1)"
    "\<forall>k < 4. byte_of w1 k = (if k = unat (off AND 3) then v8 else byte_of (m a) k)" using vals(1) by blast
  obtain c2 w2 where 2: "write16 hw pb b d f off v16 c = Some c2" "cfg upd init c2 = m(a := upd a (m a) w2)"
    "\<forall>k < 4. byte_of w2 k = (if k div 2 = unat (off AND 3) div 2 then byte_of v16 (k mod 2) else byte_of (m a) k)"
    using vals(2) by blast
  obtain c4 where 4: "write32 pb b d f off v32 c = Some c4" "cfg upd init c4 = m(a := upd a (m a) v32)" using vals(3) by blast
  have after: "map_option fst (read8 hw pb b' d' f' off' c')
      = (if (b', d', f') = (b, d, f) \<and> off' AND 0xfc = off AND 0xfc
         then Some (byte_of (upd a (m a) x) (unat (off' AND 3))) else map_option fst (read8 hw pb b' d' f' off' c))"
    if "cfg upd init c' = m(a := upd a (m a) x)" for c' x
    unfolding rd that using inj by (simp add: m_def)
  have "map_option fst (read8 hw pb b d f off c) = Some (byte_of (m a) (unat (off AND 3)))"
    by (simp only: rd m_def a_def)
  with 1(1,3) 2(1,3) 4(1) after [OF 1(2)] after [OF 2(2)] after [OF 4(2)] show ?thesis
    unfolding Let_def m_def [symmetric] a_def [symmetric]
    by (intro exI [of _ c1] exI [of _ c2] exI [of _ c4] exI [of _ w1] exI [of _ w2]) simp
qed

text \<open>
  A host bridge over a given initial configuration space, whose registers have read-write and
  write-1-to-clear bits, all others being read-only.
\<close>

definition masked_write :: "(u32 \<Rightarrow> u32) \<Rightarrow> (u32 \<Rightarrow> u32) \<Rightarrow> reg_write" where
  "masked_write rw w1c a old v =
     (old AND NOT (rw a OR w1c a)) OR (v AND rw a) OR (old AND w1c a AND NOT v)"

definition config_hw :: "reg_write \<Rightarrow> (u32 \<Rightarrow> u32) \<Rightarrow> hw" where
  "config_hw upd init tr p = (if p = CONFIG_DATA_PORT then cfg_mem upd init tr (latched tr) else 0)"

lemma config_hw_responds: "responds (config_hw upd init) upd init"
  by (simp add: responds_def config_hw_def)

definition quiet_cpu :: cpu where
  "quiet_cpu = \<lparr>cpu_rflags = 2, cpu_cr0 = 0, cpu_trace = []\<rparr>"

text \<open>
  Command and Status of a function with two pending error bits: writing 5 to Command stores it,
  and clears the errors.
\<close>

definition command_status :: reg_write where
  "command_status = masked_write (\<lambda>_. 0x0000ffff) (\<lambda>_. 0xf9000000)"

theorem pci_config_byte_access_witness:
  "\<exists>c2. write16 (config_hw command_status (\<lambda>_. 0x30100000)) pci_bus_new 0 3 0 4 0x0005 quiet_cpu = Some c2
     \<and> map_option fst (read8 (config_hw command_status (\<lambda>_. 0x30100000)) pci_bus_new 0 3 0 7 quiet_cpu) = Some 0x30
     \<and> map_option fst (read8 (config_hw command_status (\<lambda>_. 0x30100000)) pci_bus_new 0 3 0 7 c2) = Some 0x00"
proof -
  let ?m = "\<lambda>_. 0x30100000 :: u32" and ?hw = "config_hw command_status (\<lambda>_. 0x30100000)"
  let ?a = "calc_config_address 0 3 0 4"
  have n: "\<not> is_locked (pb_registers pci_bus_new)" by (simp add: pci_bus_new_def)
  have m: "cfg command_status ?m quiet_cpu ?a = 0x30100000" by (simp add: quiet_cpu_def)
  note acc = pci_config_byte_access [OF config_hw_responds n, where upd = command_status and init = ?m and c = quiet_cpu]
  obtain c2 w2 where w: "write16 ?hw pci_bus_new 0 3 0 4 5 quiet_cpu = Some c2"
    "\<forall>k < 4. byte_of w2 k = (if k div 2 = unat ((4 :: u8) AND 3) div 2 then byte_of (5 :: u16) (k mod 2)
        else byte_of (0x30100000 :: u32) k)"
    "map_option fst (read8 ?hw pci_bus_new 0 3 0 7 c2) = Some (byte_of (command_status ?a 0x30100000 w2) 3)"
    using acc [of 3 0 3 0 0 4 0 5 0 0 7] unfolding Let_def m by auto
  have "byte_of w2 3 = byte_of (0x30100000 :: u32) 3" using w(2) [rule_format, of 3] by simp
  then have "byte_of w2 3 = 0x30" by (simp add: byte_of_def)
  moreover have "byte_of (command_status ?a 0x30100000 w2) 3 = 0x30 AND NOT (byte_of w2 3)"
    by (simp add: command_status_def masked_write_def byte_of_ops and.assoc [symmetric]) (simp add: byte_of_def)
  moreover have "map_option fst (read8 ?hw pci_bus_new 0 3 0 7 quiet_cpu) = Some (byte_of (0x30100000 :: u32) 3)"
    using acc [of 3 0 3 0 0 7 0 5 0 0 7] by (auto simp: Let_def quiet_cpu_def)
  ultimately show ?thesis using w(1,3) by (simp add: byte_of_def)
qed

subsection \<open>What a scan should find\<close>

definition present_functions :: "(u32 \<Rightarrow> u32) \<Rightarrow> u8 \<Rightarrow> u8 \<Rightarrow> nat list" where
  "present_functions m b d =
     (if reg16 m b d 0 R_VendorId = INVALID_VENDOR_ID then []
      else 0 # (if reg8 m b d 0 R_HeaderType AND 0x80 \<noteq> 0
                then filter (\<lambda>f. reg16 m b d (of_nat f) R_VendorId \<noteq> INVALID_VENDOR_ID) [1..<8] else []))"

definition is_bridge :: "(u32 \<Rightarrow> u32) \<Rightarrow> u8 \<Rightarrow> u8 \<Rightarrow> u8 \<Rightarrow> bool" where
  "is_bridge m b d f \<longleftrightarrow> reg8 m b d f R_Class = Class_Bridge \<and> reg8 m b d f R_Subclass = Bridge_PciToPci"

definition secondary :: "(u32 \<Rightarrow> u32) \<Rightarrow> u8 \<Rightarrow> u8 \<Rightarrow> u8 \<Rightarrow> u8" where
  "secondary m b d f = reg8 m b d f R_SecondaryBus"

definition found :: "(u8 \<Rightarrow> pci_device list) \<Rightarrow> (u32 \<Rightarrow> u32) \<Rightarrow> u8 \<Rightarrow> u8 \<Rightarrow> u8 \<Rightarrow> pci_device list" where
  "found rec m b d f =
     (if is_bridge m b d f then rec (secondary m b d f) else [\<lparr>pd_bus = b, pd_device = d, pd_function = f\<rparr>])"

primrec listing :: "nat \<Rightarrow> (u32 \<Rightarrow> u32) \<Rightarrow> u8 \<Rightarrow> pci_device list" where
  "listing 0 m b = []"
| "listing (Suc n) m b =
     concat (map (\<lambda>d. concat (map (\<lambda>f. found (listing n m) m b (of_nat d) (of_nat f)) (present_functions m b (of_nat d)))) [0..<32])"

text \<open>No chain of bridges below bus \<open>b\<close> is longer than \<open>n\<close>.\<close>

primrec depth_ok :: "nat \<Rightarrow> (u32 \<Rightarrow> u32) \<Rightarrow> u8 \<Rightarrow> bool" where
  "depth_ok 0 m b \<longleftrightarrow> False"
| "depth_ok (Suc n) m b \<longleftrightarrow>
     (\<forall>d \<in> {..<32}. \<forall>f \<in> set (present_functions m b (of_nat d)).
        is_bridge m b (of_nat d) (of_nat f) \<longrightarrow> depth_ok n m (secondary m b (of_nat d) (of_nat f)))"

text \<open>A step of the scan that appends the devices \<open>ds\<close> and leaves the configuration space alone.\<close>

definition adds :: "reg_write \<Rightarrow> (u32 \<Rightarrow> u32) \<Rightarrow> (u32 \<Rightarrow> u32) \<Rightarrow> (scan_state \<Rightarrow> scan_state option) \<Rightarrow> pci_device list \<Rightarrow> bool" where
  "adds upd init m g ds \<longleftrightarrow>
     (\<forall>pb c. \<not> is_locked (pb_registers pb) \<longrightarrow> cfg upd init c = m \<longrightarrow>
        (\<exists>c'. g (pb, c) = Some (pb\<lparr>pb_devices := pb_devices pb @ ds\<rparr>, c') \<and> cfg upd init c' = m))"

lemma addsD:
  assumes "adds upd init m g ds" "\<not> is_locked (pb_registers pb)" "cfg upd init c = m"
  obtains c' where "g (pb, c) = Some (pb\<lparr>pb_devices := pb_devices pb @ ds\<rparr>, c')" "cfg upd init c' = m"
  using assms unfolding adds_def by blast

lemma adds_for_each:
  assumes "\<And>x. x \<in> set xs \<Longrightarrow> adds upd init m (g x) (h x)"
  shows "adds upd init m (for_each xs g) (concat (map h xs))"
  using assms
proof (induction xs)
  case Nil
  then show ?case by (auto simp: adds_def)
next
  case (Cons x xs)
  show ?case unfolding adds_def
  proof (intro allI impI)
    fix pb :: pci_bus and c
    assume pb: "\<not> is_locked (pb_registers pb)" "cfg upd init c = m"
    obtain c1 where c1: "g x (pb, c) = Some (pb\<lparr>pb_devices := pb_devices pb @ h x\<rparr>, c1)" "cfg upd init c1 = m"
      using addsD [OF Cons.prems [of x] pb] by auto
    obtain c2 where "for_each xs g (pb\<lparr>pb_devices := pb_devices pb @ h x\<rparr>, c1)
        = Some (pb\<lparr>pb_devices := (pb_devices pb @ h x) @ concat (map h xs)\<rparr>, c2)" "cfg upd init c2 = m"
      using addsD [OF Cons.IH [OF Cons.prems], of "pb\<lparr>pb_devices := pb_devices pb @ h x\<rparr>" c1] pb c1(2) by auto
    then show "\<exists>c'. for_each (x # xs) g (pb, c)
        = Some (pb\<lparr>pb_devices := pb_devices pb @ concat (map h (x # xs))\<rparr>, c') \<and> cfg upd init c' = m"
      using c1(1) by simp
  qed
qed

lemma adds_function:
  assumes hw: "responds hw upd init"
    and rec: "is_bridge m b d f \<Longrightarrow> adds upd init m (scan' (secondary m b d f)) (rec (secondary m b d f))"
  shows "adds upd init m (check_function hw scan' b d f) (found rec m b d f)"
  unfolding adds_def
proof (intro allI impI)
  fix pb :: pci_bus and c
  assume pb: "\<not> is_locked (pb_registers pb)" and m: "cfg upd init c = m"
  obtain c1 where c1: "read8 hw pb b d f R_Class c = Some (reg8 m b d f R_Class, c1)" "cfg upd init c1 = m"
    using config_reads(3) [OF hw pb, of b d f R_Class c] m by auto
  obtain c2 where c2: "read8 hw pb b d f R_Subclass c1 = Some (reg8 m b d f R_Subclass, c2)" "cfg upd init c2 = m"
    using config_reads(3) [OF hw pb, of b d f R_Subclass c1] c1 by auto
  obtain c3 where c3: "read8 hw pb b d f R_SecondaryBus c2 = Some (secondary m b d f, c3)" "cfg upd init c3 = m"
    using config_reads(3) [OF hw pb, of b d f R_SecondaryBus c2] c2 by (auto simp: secondary_def)
  show "\<exists>c'. check_function hw scan' b d f (pb, c)
      = Some (pb\<lparr>pb_devices := pb_devices pb @ found rec m b d f\<rparr>, c') \<and> cfg upd init c' = m"
  proof (cases "is_bridge m b d f")
    case True
    obtain c4 where "scan' (secondary m b d f) (pb, c3)
        = Some (pb\<lparr>pb_devices := pb_devices pb @ rec (secondary m b d f)\<rparr>, c4)" "cfg upd init c4 = m"
      using addsD [OF rec [OF True] pb c3(2)] by blast
    then show ?thesis using c1 c2 c3 True by (simp add: check_function_def is_bridge_def found_def)
  next
    case False
    then show ?thesis using c1 c2 by (auto simp: check_function_def is_bridge_def found_def)
  qed
qed

lemma adds_device:
  assumes hw: "responds hw upd init"
    and rec: "\<And>f. f \<in> set (present_functions m b d) \<Longrightarrow> is_bridge m b d (of_nat f) \<Longrightarrow>
      adds upd init m (scan' (secondary m b d (of_nat f))) (rec (secondary m b d (of_nat f)))"
  shows "adds upd init m (check_device hw scan' b d)
    (concat (map (\<lambda>f. found rec m b d (of_nat f)) (present_functions m b d)))"
  unfolding adds_def
proof (intro allI impI)
  fix pb :: pci_bus and c
  assume pb: "\<not> is_locked (pb_registers pb)" and m: "cfg upd init c = m"
  let ?v = "\<lambda>f. reg16 m b d f R_VendorId"
  obtain c1 where c1: "read16 hw pb b d 0 R_VendorId c = Some (?v 0, c1)" "cfg upd init c1 = m"
    using config_reads(2) [OF hw pb, of b d 0 R_VendorId c] m by auto
  let ?goal = "\<exists>c'. check_device hw scan' b d (pb, c) = Some (pb\<lparr>pb_devices := pb_devices pb
      @ concat (map (\<lambda>f. found rec m b d (of_nat f)) (present_functions m b d))\<rparr>, c') \<and> cfg upd init c' = m"
  show ?goal
  proof (cases "?v 0 = INVALID_VENDOR_ID")
    case True
    then show ?thesis using c1 by (simp add: check_device_def present_functions_def)
  next
    case False
    let ?pb = "pb\<lparr>pb_devices := pb_devices pb @ found rec m b d 0\<rparr>"
    have "adds upd init m (check_function hw scan' b d 0) (found rec m b d 0)"
      using adds_function [OF hw, of m b d 0 scan' rec] rec [of 0] False by (simp add: present_functions_def)
    then obtain c2 where c2: "check_function hw scan' b d 0 (pb, c1) = Some (?pb, c2)" "cfg upd init c2 = m"
      using addsD pb c1(2) by blast
    obtain c3 where c3: "read8 hw ?pb b d 0 R_HeaderType c2 = Some (reg8 m b d 0 R_HeaderType, c3)" "cfg upd init c3 = m"
      using config_reads(3) [OF hw, of ?pb b d 0 R_HeaderType c2] pb c2(2) by auto
    show ?thesis
    proof (cases "reg8 m b d 0 R_HeaderType AND 0x80 = 0")
      case True
      then show ?thesis using False c1 c2 c3 by (simp add: check_device_def present_functions_def)
    next
      case multi: False
      let ?h = "\<lambda>f. if ?v (of_nat f) = INVALID_VENDOR_ID then [] else found rec m b d (of_nat f)"
      have each: "adds upd init m (check_further hw scan' b d f) (?h f)" if "f \<in> set [1..<8]" for f
        unfolding adds_def
      proof (intro allI impI)
        fix pb' :: pci_bus and x
        assume pb': "\<not> is_locked (pb_registers pb')" "cfg upd init x = m"
        obtain y where y: "read16 hw pb' b d (of_nat f) R_VendorId x = Some (?v (of_nat f), y)" "cfg upd init y = m"
          using config_reads(2) [OF hw pb'(1), of b d "of_nat f" R_VendorId x] pb'(2) by auto
        show "\<exists>c'. check_further hw scan' b d f (pb', x) = Some (pb'\<lparr>pb_devices := pb_devices pb' @ ?h f\<rparr>, c') \<and> cfg upd init c' = m"
        proof (cases "?v (of_nat f) = INVALID_VENDOR_ID")
          case True
          then show ?thesis using y by (simp add: check_further_def)
        next
          case ok: False
          then have "f \<in> set (present_functions m b d)" using False multi that by (simp add: present_functions_def)
          then have "adds upd init m (check_function hw scan' b d (of_nat f)) (found rec m b d (of_nat f))"
            using adds_function [OF hw, of m b d "of_nat f" scan' rec] rec by blast
          from addsD [OF this pb'(1) y(2)] show ?thesis using y(1) ok by (auto simp: check_further_def)
        qed
      qed
      obtain c4 where c4: "for_each [1..<8] (check_further hw scan' b d) (?pb, c3)
          = Some (?pb\<lparr>pb_devices := pb_devices ?pb @ concat (map ?h [1..<8])\<rparr>, c4)" "cfg upd init c4 = m"
        using addsD [OF adds_for_each [of "[1..<8]" upd init m "check_further hw scan' b d" ?h, OF each], of ?pb c3] pb c3(2)
        by auto
      have flt: "concat (map (\<lambda>f. found rec m b d (of_nat f)) (filter (\<lambda>f. ?v (of_nat f) \<noteq> INVALID_VENDOR_ID) xs))
          = concat (map ?h xs)" for xs :: "nat list"
        by (induction xs) auto
      show ?thesis
        using c1 c2 c3 c4 False multi flt [of "[1..<8]"]
        by (simp add: check_device_def present_functions_def MAX_FUNCTIONS_PER_DEVICE_def del: upt_rec_numeral)
    qed
  qed
qed

lemma adds_scan_bus:
  assumes "responds hw upd init"
  shows "depth_ok n m b \<Longrightarrow> adds upd init m (scan_bus n hw b) (listing n m b)"
proof (induction n arbitrary: b)
  case (Suc n)
  let ?g = "\<lambda>d. check_device hw (scan_bus n hw) b (of_nat d)"
    and ?h = "\<lambda>d. concat (map (\<lambda>f. found (listing n m) m b (of_nat d) (of_nat f)) (present_functions m b (of_nat d)))"
  have "adds upd init m (?g d) (?h d)" if "d \<in> set [0..<32]" for d
    using Suc that by (intro adds_device [OF assms]) auto
  from adds_for_each [of "[0..<32]" upd init m ?g ?h, OF this]
  have "adds upd init m (for_each [0..<32] (\<lambda>d. check_device hw (scan_bus n hw) b (of_nat d))) (listing (Suc n) m b)"
    by (simp del: upt_rec_numeral)
  moreover have "scan_bus (Suc n) hw b = for_each [0..<32] (\<lambda>d. check_device hw (scan_bus n hw) b (of_nat d))"
    by (rule ext) (simp add: MAX_DEVICES_PER_BUS_def del: upt_rec_numeral)
  ultimately show ?case by simp
qed simp


text \<open>Bridges that lead to higher bus numbers form chains of bounded length.\<close>

definition bridges_ascend :: "(u32 \<Rightarrow> u32) \<Rightarrow> bool" where
  "bridges_ascend m \<longleftrightarrow> (\<forall>b d f. is_bridge m b d f \<longrightarrow> b < secondary m b d f)"

lemma ascending_depth: "bridges_ascend m \<Longrightarrow> 256 \<le> unat b + n \<Longrightarrow> depth_ok n m b"
proof (induction n arbitrary: b)
  case 0
  then show ?case using unsigned_less [of b, where 'a = nat] by simp
next
  case (Suc n)
  have "depth_ok n m (secondary m b d f)" if br: "is_bridge m b d f" for d f
  proof -
    have "unat b < unat (secondary m b d f)" using Suc.prems(1) br by (simp add: bridges_ascend_def word_less_nat_alt)
    then show ?thesis using Suc by (intro Suc.IH) simp_all
  qed
  then show ?case by simp
qed

text \<open>The buses that the bridges connect, starting from one bus.\<close>

inductive reaches :: "(u32 \<Rightarrow> u32) \<Rightarrow> u8 \<Rightarrow> u8 \<Rightarrow> bool" for m where
  here: "reaches m b b"
| via: "d < 32 \<Longrightarrow> f \<in> set (present_functions m b (of_nat d)) \<Longrightarrow> is_bridge m b (of_nat d) (of_nat f) \<Longrightarrow>
    reaches m (secondary m b (of_nat d) (of_nat f)) b' \<Longrightarrow> reaches m b b'"

definition device_on :: "(u32 \<Rightarrow> u32) \<Rightarrow> u8 \<Rightarrow> pci_device \<Rightarrow> bool" where
  "device_on m b dev \<longleftrightarrow> (\<exists>d f. d < 32 \<and> f \<in> set (present_functions m b (of_nat d))
     \<and> \<not> is_bridge m b (of_nat d) (of_nat f) \<and> dev = \<lparr>pd_bus = b, pd_device = of_nat d, pd_function = of_nat f\<rparr>)"

lemma listing_sound: "dev \<in> set (listing n m b) \<Longrightarrow> \<exists>b'. reaches m b b' \<and> device_on m b' dev"
proof (induction n arbitrary: b)
  case (Suc n)
  then obtain d f where df: "d < 32" "f \<in> set (present_functions m b (of_nat d))"
    "dev \<in> set (found (listing n m) m b (of_nat d) (of_nat f))"
    by (auto simp del: upt_rec_numeral)
  show ?case
  proof (cases "is_bridge m b (of_nat d) (of_nat f)")
    case True
    then obtain b' where "reaches m (secondary m b (of_nat d) (of_nat f)) b'" "device_on m b' dev"
      using Suc.IH df(3) by (auto simp: found_def)
    then show ?thesis using reaches.via [OF df(1,2) True] by blast
  next
    case False
    then show ?thesis using df reaches.here [of m b] by (auto simp: found_def device_on_def)
  qed
qed simp

lemma listing_complete:
  "reaches m b b' \<Longrightarrow> device_on m b' dev \<Longrightarrow> depth_ok n m b \<Longrightarrow> dev \<in> set (listing n m b)"
proof (induction arbitrary: n rule: reaches.induct)
  case (here b)
  then obtain k where "n = Suc k" by (cases n) auto
  then show ?case using here by (fastforce simp: device_on_def found_def simp del: upt_rec_numeral)
next
  case (via d f b b')
  then obtain k where k: "n = Suc k" by (cases n) auto
  then have "depth_ok k m (secondary m b (of_nat d) (of_nat f))" using via by simp
  then have "dev \<in> set (found (listing k m) m b (of_nat d) (of_nat f))" using via by (simp add: found_def)
  then show ?case using via(1,2) by (auto simp: k simp del: upt_rec_numeral)
qed

subsection \<open>Properties of the scan\<close>

text \<open>
  C14. On a machine with a single host controller whose bridges lead to higher bus numbers, the scan
  terminates and finds exactly the functions that are there: a device is in the list if and
  only if it sits on bus 0 or on a bus that bridges connect to it, its vendor is valid and it
  is no bridge itself. The scan does not change the configuration space.
\<close>

theorem pci_scan_complete:
  assumes "responds hw upd init" and "cfg upd init c = m" and "reg8 m 0 0 0 R_HeaderType AND 0x80 = 0" and "bridges_ascend m"
  shows "\<exists>pb c'. scan 256 hw (pci_bus_new, c) = Some (pb, c') \<and> cfg upd init c' = m \<and> \<not> is_locked (pb_registers pb)
    \<and> (\<forall>dev. dev \<in> set (pb_devices pb) \<longleftrightarrow> (\<exists>b. reaches m 0 b \<and> device_on m b dev))"
proof -
  have n: "\<not> is_locked (pb_registers pci_bus_new)" by (simp add: pci_bus_new_def)
  obtain c1 where c1: "read8 hw pci_bus_new 0 0 0 R_HeaderType c = Some (reg8 m 0 0 0 R_HeaderType, c1)" "cfg upd init c1 = m"
    using config_reads(3) [OF assms(1) n, of 0 0 0 R_HeaderType c] assms(2) by auto
  have d: "depth_ok 256 m 0" by (rule ascending_depth [OF assms(4)]) simp
  obtain c2 where c2: "scan_bus 256 hw 0 (pci_bus_new, c1)
      = Some (pci_bus_new\<lparr>pb_devices := pb_devices pci_bus_new @ listing 256 m 0\<rparr>, c2)" "cfg upd init c2 = m"
    using addsD [OF adds_scan_bus [OF assms(1) d] n c1(2)] by blast
  have "scan 256 hw (pci_bus_new, c) = Some (pci_bus_new\<lparr>pb_devices := listing 256 m 0\<rparr>, c2)"
    using c1(1) c2(1) assms(3) by (simp add: scan_def pci_bus_new_def)
  moreover have "dev \<in> set (listing 256 m 0) \<longleftrightarrow> (\<exists>b. reaches m 0 b \<and> device_on m b dev)" for dev
    using listing_sound listing_complete [OF _ _ d] by blast
  ultimately show ?thesis using c2(2) n by (intro exI [of _ "pci_bus_new\<lparr>pb_devices := listing 256 m 0\<rparr>"] exI [of _ c2]) simp
qed

text \<open>A machine with one network card: device 3 on bus 0, everything else absent.\<close>

definition one_card :: "u32 \<Rightarrow> u32" where
  "one_card a = (if a = calc_config_address 0 3 0 0 then 0x813910ec
     else if a = calc_config_address 0 3 0 0x0b then 0x02000000
     else if a = calc_config_address 0 3 0 0x0e \<or> a = calc_config_address 0 0 0 0x0e then 0 else 0xffffffff)"

lemma no_bridges:
  assumes "\<And>a. m a \<in> {0x813910ec, 0x02000000, 0, 0xffffffff}"
  shows "\<not> is_bridge m b d f"
proof -
  have "shift8 R_Class = 24" by (simp add: shift8_def R_Class_def)
  moreover have "ucast (drop_bit 24 x AND 0xff) \<noteq> Class_Bridge" if "x \<in> {0x813910ec, 0x02000000, 0, 0xffffffff :: u32}" for x
    using that by (auto simp: Class_Bridge_def)
  ultimately show ?thesis using assms by (simp add: is_bridge_def reg8_def)
qed

theorem pci_scan_complete_witness:
  "\<exists>pb c'. scan 256 (config_hw command_status one_card) (pci_bus_new, quiet_cpu) = Some (pb, c')
     \<and> \<lparr>pd_bus = 0, pd_device = 3, pd_function = 0\<rparr> \<in> set (pb_devices pb)"
proof -
  have c: "cfg command_status one_card quiet_cpu = one_card" by (simp add: quiet_cpu_def)
  have nb: "\<not> is_bridge one_card b d f" for b d f by (rule no_bridges) (simp add: one_card_def)
  then have up: "bridges_ascend one_card" by (simp add: bridges_ascend_def)
  have h: "reg8 one_card 0 0 0 R_HeaderType AND 0x80 = 0"
    by (simp add: reg8_def one_card_def R_HeaderType_def calc_config_address_def shift8_def)
  have "reg16 one_card 0 3 0 R_VendorId \<noteq> INVALID_VENDOR_ID"
    by (simp add: reg16_def one_card_def R_VendorId_def calc_config_address_def shift16_def INVALID_VENDOR_ID_def)
  then have "device_on one_card 0 \<lparr>pd_bus = 0, pd_device = 3, pd_function = 0\<rparr>"
    unfolding device_on_def using nb
    by (intro exI [of _ "3 :: nat"] exI [of _ "0 :: nat"]) (simp add: present_functions_def)
  then show ?thesis
    using pci_scan_complete [OF config_hw_responds c h up] reaches.here [of one_card 0] by blast
qed

text \<open>
  C40. On a machine whose host controller is a multi-function device, which implies that its function 0
  exists, the loop over the host controllers stops at that very function: the scan succeeds
  without having looked at any bus and finds no device at all.
\<close>

theorem multi_function_host_scan_finds_nothing:
  assumes "responds hw upd init" and "cfg upd init c = m" and "reg8 m 0 0 0 R_HeaderType AND 0x80 \<noteq> 0"
    and "reg16 m 0 0 0 R_VendorId \<noteq> INVALID_VENDOR_ID"
  shows "\<exists>c'. scan n hw (pci_bus_new, c) = Some (pci_bus_new, c')"
proof -
  have n: "\<not> is_locked (pb_registers pci_bus_new)" by (simp add: pci_bus_new_def)
  obtain c1 where c1: "read8 hw pci_bus_new 0 0 0 R_HeaderType c = Some (reg8 m 0 0 0 R_HeaderType, c1)" "cfg upd init c1 = m"
    using config_reads(3) [OF assms(1) n, of 0 0 0 R_HeaderType c] assms(2) by auto
  obtain c2 where "read16 hw pci_bus_new 0 0 0 R_VendorId c1 = Some (reg16 m 0 0 0 R_VendorId, c2)"
    using config_reads(2) [OF assms(1) n, of 0 0 0 R_VendorId c1] c1(2) by auto
  moreover have "[0..<MAX_FUNCTIONS_PER_DEVICE] = 0 # [1..<8]" by (simp add: MAX_FUNCTIONS_PER_DEVICE_def upt_rec)
  ultimately show ?thesis using c1(1) assms(3,4) by (simp add: scan_def del: upt_rec_numeral)
qed

theorem multi_function_host_scan_finds_nothing_witness:
  "\<exists>c'. scan 256 (config_hw command_status (\<lambda>_. 0x80818081)) (pci_bus_new, quiet_cpu) = Some (pci_bus_new, c')"
proof (rule multi_function_host_scan_finds_nothing [OF config_hw_responds refl])
  show "reg8 (cfg command_status (\<lambda>_. 0x80818081) quiet_cpu) 0 0 0 R_HeaderType AND 0x80 \<noteq> 0"
    by (simp add: quiet_cpu_def reg8_def shift8_def R_HeaderType_def)
  show "reg16 (cfg command_status (\<lambda>_. 0x80818081) quiet_cpu) 0 0 0 R_VendorId \<noteq> INVALID_VENDOR_ID"
    by (simp add: quiet_cpu_def reg16_def shift16_def R_VendorId_def INVALID_VENDOR_ID_def)
qed

end
