(* ===== verification/Packet_Queue.thy ===== *)
theory Packet_Queue
  imports Prelude
begin

text \<open>
  The packet queue of \<^verbatim>\<open>kernel/src/device/rtl8139.rs\<close>: a ring of 64 preallocated Ethernet
  frames between the interrupt handler and the threads. The locale \<open>bounded_fifo\<close> states what
  the driver relies on, a bounded queue that drops what does not fit and counts the drops; the
  ring is interpreted as an instance of it.
\<close>

subsection \<open>The ring\<close>

definition QUEUE_CAPACITY :: nat where "QUEUE_CAPACITY = 64"

record ethernet_frame =
  ef_data :: "u8 list"
  ef_length :: nat

definition frame_empty :: ethernet_frame where
  "frame_empty = \<lparr>ef_data = replicate 2048 0, ef_length = 0\<rparr>"

record packet_queue =
  pq_buffer :: "ethernet_frame list"
  pq_head :: nat
  pq_tail :: nat
  pq_size :: nat
  pq_dropped_packets :: nat

definition packet_queue_new :: packet_queue where
  "packet_queue_new = \<lparr>pq_buffer = replicate QUEUE_CAPACITY frame_empty, pq_head = 0, pq_tail = 0,
     pq_size = 0, pq_dropped_packets = 0\<rparr>"

text \<open>\<open>frame.data[..n].copy_from_slice(packet_data)\<close>, with the bounds check of the slice.\<close>

definition frame_fill :: "u8 list \<Rightarrow> ethernet_frame \<Rightarrow> ethernet_frame res" where
  "frame_fill p fr =
     (if length p \<le> length (ef_data fr)
      then Inr (fr\<lparr>ef_length := length p, ef_data := p @ drop (length p) (ef_data fr)\<rparr>)
      else Inl IndexOutOfBounds)"

definition count_drop :: "packet_queue \<Rightarrow> packet_queue res" where
  "count_drop q = and_then (nadd (pq_dropped_packets q) 1) (\<lambda>d. Inr (q\<lparr>pq_dropped_packets := d\<rparr>))"

definition pq_push :: "u8 list \<Rightarrow> packet_queue \<Rightarrow> packet_queue res" where
  "pq_push packet_data q =
     (if pq_size q = QUEUE_CAPACITY then count_drop q
      else if length packet_data > 2048 then count_drop q
      else
        and_then (get_index (pq_buffer q) (pq_head q)) (\<lambda>frame.
        and_then (frame_fill packet_data frame) (\<lambda>frame'.
        and_then (nadd (pq_head q) 1) (\<lambda>h.
        and_then (nadd (pq_size q) 1) (\<lambda>n.
          Inr (q\<lparr>pq_buffer := (pq_buffer q)[pq_head q := frame'],
                 pq_head := h mod QUEUE_CAPACITY, pq_size := n\<rparr>))))))"

definition pq_pop :: "packet_queue \<Rightarrow> (ethernet_frame option \<times> packet_queue) res" where
  "pq_pop q =
     (if pq_size q = 0 then Inr (None, q)
      else
        and_then (get_index (pq_buffer q) (pq_tail q)) (\<lambda>frame.
        and_then (nadd (pq_tail q) 1) (\<lambda>t.
        and_then (nsub (pq_size q) 1) (\<lambda>n.
          Inr (Some frame, q\<lparr>pq_tail := t mod QUEUE_CAPACITY, pq_size := n\<rparr>)))))"

subsection \<open>Bounded queues\<close>

definition accept :: "nat \<Rightarrow> ('a \<Rightarrow> bool) \<Rightarrow> 'a \<Rightarrow> 'a list \<Rightarrow> 'a list" where
  "accept cap fits x xs = (if length xs < cap \<and> fits x then xs @ [x] else xs)"

text \<open>Any sequence of pushes and pops: what the pops answer, on an implementation and on a list.\<close>

datatype 'a fifo_op = Push 'a | Pop

fun fifo_run ::
  "('a \<Rightarrow> 'q \<Rightarrow> 'q res) \<Rightarrow> ('q \<Rightarrow> ('b option \<times> 'q) res) \<Rightarrow> 'a fifo_op list \<Rightarrow> 'q \<Rightarrow> ('b option list \<times> 'q) res" where
  "fifo_run psh pp [] q = Inr ([], q)"
| "fifo_run psh pp (Push x # ops) q = and_then (psh x q) (fifo_run psh pp ops)"
| "fifo_run psh pp (Pop # ops) q = and_then (pp q) (\<lambda>(r, q1).
     and_then (fifo_run psh pp ops q1) (\<lambda>(rs, q2). Inr (r # rs, q2)))"

fun fifo_spec :: "nat \<Rightarrow> ('a \<Rightarrow> bool) \<Rightarrow> 'a fifo_op list \<Rightarrow> 'a list \<Rightarrow> nat \<Rightarrow> 'a option list \<times> 'a list \<times> nat" where
  "fifo_spec cap fits [] xs n = ([], xs, n)"
| "fifo_spec cap fits (Push x # ops) xs n =
     (if length xs < cap \<and> fits x then fifo_spec cap fits ops (xs @ [x]) n else fifo_spec cap fits ops xs (n + 1))"
| "fifo_spec cap fits (Pop # ops) [] n = (case fifo_spec cap fits ops [] n of (rs, ys) \<Rightarrow> (None # rs, ys))"
| "fifo_spec cap fits (Pop # ops) (x # xs) n = (case fifo_spec cap fits ops xs n of (rs, ys) \<Rightarrow> (Some x # rs, ys))"

fun pushes :: "'a fifo_op list \<Rightarrow> 'a list" where
  "pushes [] = []"
| "pushes (Push x # ops) = x # pushes ops"
| "pushes (Pop # ops) = pushes ops"

definition popped :: "'a option list \<Rightarrow> 'a list" where
  "popped rs = map the (filter (\<lambda>r. r \<noteq> None) rs)"

lemma fifo_spec_count:
  "fifo_spec cap fits ops xs n = (rs, ys, k) \<Longrightarrow> length (popped rs) + length ys + k = length xs + length (pushes ops) + n"
  by (induction cap fits ops xs n arbitrary: rs ys k rule: fifo_spec.induct)
    (auto simp: popped_def split: if_splits prod.splits)

lemma fifo_spec_drops: "fifo_spec cap fits ops xs n = (rs, ys, k) \<Longrightarrow> n \<le> k"
  by (induction cap fits ops xs n arbitrary: rs ys k rule: fifo_spec.induct)
    (auto split: if_splits prod.splits dest: Suc_leD)

lemma fifo_spec_order:
  "fifo_spec cap fits ops xs n = (rs, ys, n) \<Longrightarrow> popped rs @ ys = xs @ pushes ops"
  by (induction cap fits ops xs n arbitrary: rs ys rule: fifo_spec.induct)
    (auto simp: popped_def split: if_splits prod.splits dest: fifo_spec_drops)

locale bounded_fifo =
  fixes cap :: nat
    and fits :: "'a \<Rightarrow> bool"
    and ok :: "'q \<Rightarrow> bool"
    and push :: "'a \<Rightarrow> 'q \<Rightarrow> 'q res"
    and pop :: "'q \<Rightarrow> ('b option \<times> 'q) res"
    and view :: "'b \<Rightarrow> 'a"
    and list_of :: "'q \<Rightarrow> 'a list"
    and drops :: "'q \<Rightarrow> nat"
  assumes push_spec: "ok q \<Longrightarrow> drops q < 2 ^ 64 - 1 \<Longrightarrow>
      \<exists>q'. push x q = Inr q' \<and> ok q' \<and> list_of q' = accept cap fits x (list_of q)
        \<and> drops q' = (if list_of q' = list_of q then drops q + 1 else drops q)"
    and pop_empty: "ok q \<Longrightarrow> list_of q = [] \<Longrightarrow> pop q = Inr (None, q)"
    and pop_first: "ok q \<Longrightarrow> list_of q = x # xs \<Longrightarrow>
      \<exists>y q'. pop q = Inr (Some y, q') \<and> view y = x \<and> ok q' \<and> list_of q' = xs \<and> drops q' = drops q"
begin

lemma fifo_run_refines:
  "ok q \<Longrightarrow> drops q + length ops < 2 ^ 64 \<Longrightarrow>
     \<exists>rs q'. fifo_run push pop ops q = Inr (rs, q') \<and> ok q'
       \<and> fifo_spec cap fits ops (list_of q) (drops q) = (map (map_option view) rs, list_of q', drops q')"
proof (induction ops arbitrary: q)
  case (Cons op ops)
  show ?case
  proof (cases op)
    case (Push x)
    obtain q1 where q1: "push x q = Inr q1" "ok q1" "list_of q1 = accept cap fits x (list_of q)"
      "drops q1 = (if list_of q1 = list_of q then drops q + 1 else drops q)"
      using push_spec [OF Cons.prems(1), of x] Cons.prems(2) by auto
    have "drops q1 + length ops < 2 ^ 64" using q1(4) Cons.prems(2) by (auto split: if_splits)
    from Cons.IH [OF q1(2) this] show ?thesis using q1 Push by (auto simp: accept_def split: if_splits)
  next
    case Pop
    show ?thesis
    proof (cases "list_of q")
      case Nil
      then show ?thesis using Pop Cons.IH [OF Cons.prems(1)] Cons.prems pop_empty [of q] by auto
    next
      case (Cons x xs)
      obtain y q1 where q1: "pop q = Inr (Some y, q1)" "view y = x" "ok q1" "list_of q1 = xs" "drops q1 = drops q"
        using pop_first [OF Cons.prems(1) Cons] by blast
      then show ?thesis using Pop Cons Cons.IH [OF q1(3)] Cons.prems(2) by auto
    qed
  qed
qed simp

lemma fold_accept_fits:
  "(\<And>x. x \<in> set xs \<Longrightarrow> fits x) \<Longrightarrow> length ys + length xs \<le> cap \<Longrightarrow> fold (accept cap fits) xs ys = ys @ xs"
  by (induction xs arbitrary: ys) (simp_all add: accept_def)

end

subsection \<open>The ring is a bounded queue\<close>

definition payload :: "ethernet_frame \<Rightarrow> u8 list" where
  "payload fr = take (ef_length fr) (ef_data fr)"

definition frame_ok :: "ethernet_frame \<Rightarrow> bool" where
  "frame_ok fr \<longleftrightarrow> length (ef_data fr) = 2048 \<and> ef_length fr \<le> 2048"

definition pq_ok :: "packet_queue \<Rightarrow> bool" where
  "pq_ok q \<longleftrightarrow> length (pq_buffer q) = QUEUE_CAPACITY \<and> (\<forall>fr \<in> set (pq_buffer q). frame_ok fr)
     \<and> pq_tail q < QUEUE_CAPACITY \<and> pq_size q \<le> QUEUE_CAPACITY
     \<and> pq_head q = (pq_tail q + pq_size q) mod QUEUE_CAPACITY"

definition queued :: "packet_queue \<Rightarrow> ethernet_frame list" where
  "queued q = map (\<lambda>i. pq_buffer q ! ((pq_tail q + i) mod QUEUE_CAPACITY)) [0..<pq_size q]"

definition packets :: "packet_queue \<Rightarrow> u8 list list" where
  "packets q = map payload (queued q)"

lemma packets_length [simp]: "length (packets q) = pq_size q"
  by (simp add: packets_def queued_def)

lemma pq_new: "pq_ok packet_queue_new" "packets packet_queue_new = []" "pq_dropped_packets packet_queue_new = 0"
  by (simp_all add: pq_ok_def packet_queue_new_def QUEUE_CAPACITY_def frame_ok_def frame_empty_def packets_def queued_def)

lemma mod_ring_inj:
  fixes i j n t :: nat
  assumes "i < n" "j < n" "(t + i) mod n = (t + j) mod n"
  shows "i = j"
proof -
  have *: "x = y" if "x \<le> y" "y < n" "(t + x) mod n = (t + y) mod n" for x y
  proof -
    have "n dvd (t + y) - (t + x)" using that by (metis add_le_cancel_left mod_eq_dvd_iff_nat)
    then have "n dvd y - x" by simp
    then have "y - x = 0" using that(2) by (metis dvd_imp_le less_imp_diff_less not_less zero_less_iff_neq_zero)
    then show ?thesis using that(1) by simp
  qed
  show ?thesis using * [of i j] * [of j i] assms by (cases "i \<le> j") auto
qed

lemma queued_push:
  assumes "pq_ok q" "pq_size q < QUEUE_CAPACITY"
  shows "queued (q\<lparr>pq_buffer := (pq_buffer q)[pq_head q := fr], pq_head := h, pq_size := Suc (pq_size q)\<rparr>)
    = queued q @ [fr]"
proof -
  have h: "pq_head q = (pq_tail q + pq_size q) mod QUEUE_CAPACITY" "pq_head q < length (pq_buffer q)"
    using assms by (auto simp: pq_ok_def QUEUE_CAPACITY_def)
  have "pq_head q \<noteq> (pq_tail q + i) mod QUEUE_CAPACITY" if "i < pq_size q" for i
    using mod_ring_inj [of i QUEUE_CAPACITY "pq_size q" "pq_tail q"] that assms(2) h(1) by auto
  then show ?thesis
    using h(2) by (simp add: queued_def h(1) [symmetric])
qed

lemma queued_pop:
  assumes "0 < pq_size q"
  shows "queued q = pq_buffer q ! (pq_tail q mod QUEUE_CAPACITY)
    # queued (q\<lparr>pq_tail := Suc (pq_tail q) mod QUEUE_CAPACITY, pq_size := pq_size q - 1\<rparr>)"
proof -
  have "[0..<pq_size q] = 0 # map Suc [0..<pq_size q - 1]"
    using assms by (simp add: upt_conv_Cons map_Suc_upt)
  then show ?thesis by (simp add: queued_def o_def mod_add_left_eq)
qed

lemma frame_fill_ok:
  assumes "frame_ok fr" "length p \<le> 2048"
  obtains fr' where "frame_fill p fr = Inr fr'" "frame_ok fr'" "payload fr' = p"
  using assms that by (auto simp: frame_fill_def frame_ok_def payload_def)

lemma pq_push_room:
  assumes "pq_ok q" "pq_size q < QUEUE_CAPACITY" "length p \<le> 2048"
  shows "\<exists>q'. pq_push p q = Inr q' \<and> pq_ok q' \<and> packets q' = packets q @ [p]
    \<and> pq_dropped_packets q' = pq_dropped_packets q"
proof -
  have h: "pq_head q < length (pq_buffer q)" "pq_head q < QUEUE_CAPACITY" "pq_head q = (pq_tail q + pq_size q) mod QUEUE_CAPACITY"
    using assms(1) by (auto simp: pq_ok_def QUEUE_CAPACITY_def)
  have "frame_ok (pq_buffer q ! pq_head q)" using assms(1) h(1) by (auto simp: pq_ok_def)
  then obtain fr where fr: "frame_fill p (pq_buffer q ! pq_head q) = Inr fr" "frame_ok fr" "payload fr = p"
    using frame_fill_ok assms(3) by blast
  define q' where "q' = q\<lparr>pq_buffer := (pq_buffer q)[pq_head q := fr],
    pq_head := Suc (pq_head q) mod QUEUE_CAPACITY, pq_size := Suc (pq_size q)\<rparr>"
  have "pq_push p q = Inr q'"
    using assms(2,3) h fr(1) by (simp add: pq_push_def q'_def nadd_def QUEUE_CAPACITY_def)
  moreover have "pq_ok q'"
    using assms(1,2) h(3) fr(2) by (auto simp: pq_ok_def q'_def mod_Suc_eq dest!: set_update_subset_insert [THEN subsetD])
  moreover have "packets q' = packets q @ [p]"
    using queued_push [OF assms(1,2)] fr(3) by (simp add: packets_def q'_def)
  ultimately show ?thesis by (auto simp: q'_def)
qed

lemma pq_push_spec:
  assumes "pq_ok q" "pq_dropped_packets q < 2 ^ 64 - 1"
  shows "\<exists>q'. pq_push p q = Inr q' \<and> pq_ok q'
    \<and> packets q' = accept QUEUE_CAPACITY (\<lambda>p. length p \<le> 2048) p (packets q)
    \<and> pq_dropped_packets q' = (if packets q' = packets q then pq_dropped_packets q + 1 else pq_dropped_packets q)"
proof (cases "pq_size q < QUEUE_CAPACITY \<and> length p \<le> 2048")
  case True
  then show ?thesis using pq_push_room [OF assms(1), of p] by (fastforce simp: accept_def)
next
  case False
  then have "pq_push p q = Inr (q\<lparr>pq_dropped_packets := pq_dropped_packets q + 1\<rparr>)"
    using assms by (auto simp: pq_push_def count_drop_def nadd_def pq_ok_def)
  then show ?thesis using False assms(1) by (auto simp: accept_def pq_ok_def packets_def queued_def)
qed

lemma pq_pop_spec:
  assumes "pq_ok q" "packets q = p # ps"
  shows "\<exists>fr q'. pq_pop q = Inr (Some fr, q') \<and> payload fr = p \<and> frame_ok fr \<and> pq_ok q' \<and> packets q' = ps
    \<and> pq_dropped_packets q' = pq_dropped_packets q \<and> Suc (pq_size q') = pq_size q"
proof -
  have "pq_size q = Suc (length ps)" using arg_cong [OF assms(2), of length] by simp
  then have s: "0 < pq_size q" "pq_size q - 1 = length ps" by simp_all
  have t: "pq_tail q < length (pq_buffer q)" "pq_tail q < QUEUE_CAPACITY" "pq_size q \<le> QUEUE_CAPACITY"
    using assms(1) by (auto simp: pq_ok_def)
  define q' where "q' = q\<lparr>pq_tail := Suc (pq_tail q) mod QUEUE_CAPACITY, pq_size := pq_size q - 1\<rparr>"
  have "pq_pop q = Inr (Some (pq_buffer q ! pq_tail q), q')"
    using s t by (simp add: pq_pop_def nadd_def nsub_def q'_def QUEUE_CAPACITY_def)
  moreover have "(Suc (pq_tail q) mod n + (pq_size q - 1)) mod n = (pq_tail q + pq_size q) mod n" for n
    using mod_add_left_eq [of "Suc (pq_tail q)" n "pq_size q - 1"] s(1) by simp
  then have "pq_ok q'"
    using assms(1) s(1) unfolding pq_ok_def q'_def by (auto simp: QUEUE_CAPACITY_def)
  moreover have "payload (pq_buffer q ! pq_tail q) = p" "packets q' = ps"
    using queued_pop [OF s(1)] assms(2) t(2) by (auto simp: packets_def q'_def)
  moreover have "frame_ok (pq_buffer q ! pq_tail q)" using assms(1) t(1) by (auto simp: pq_ok_def)
  ultimately show ?thesis using s by (auto simp: q'_def)
qed

interpretation pq: bounded_fifo QUEUE_CAPACITY "\<lambda>p. length p \<le> 2048" pq_ok pq_push pq_pop payload packets pq_dropped_packets
proof
  fix q
  assume "pq_ok q" "packets q = []"
  then have "pq_size q = 0" using packets_length [of q] by simp
  then show "pq_pop q = Inr (None, q)" by (simp add: pq_pop_def)
qed (use pq_push_spec pq_pop_spec in blast)+

text \<open>
  C34. The packet queue implements a bounded queue of byte strings, under any interleaving of the
  interrupt's pushes and the threads' pops: nothing panics, every pop answers what a list of
  at most 64 packets would answer, with exactly the bytes that were pushed and never bytes
  left over from an earlier packet in the same slot; packets of more than 2048 bytes and
  packets that find the queue full are dropped, and counted. So nothing is lost or duplicated:
  answered, waiting and dropped packets add up to the pushed ones, and when none was dropped
  the answered ones followed by the waiting ones are the pushed ones, in order.
\<close>

theorem packet_queue_bounded_fifo:
  assumes "length ops < 2 ^ 64"
  shows "\<exists>frs q. fifo_run pq_push pq_pop ops packet_queue_new = Inr (frs, q)
    \<and> fifo_spec 64 (\<lambda>p. length p \<le> 2048) ops [] 0 = (map (map_option payload) frs, packets q, pq_dropped_packets q)
    \<and> length (popped frs) + pq_size q + pq_dropped_packets q = length (pushes ops)
    \<and> (pq_dropped_packets q = 0 \<longrightarrow> map payload (popped frs) @ packets q = pushes ops)"
proof -
  obtain frs q where q: "fifo_run pq_push pq_pop ops packet_queue_new = Inr (frs, q)"
    "fifo_spec 64 (\<lambda>p. length p \<le> 2048) ops [] 0 = (map (map_option payload) frs, packets q, pq_dropped_packets q)"
    using pq.fifo_run_refines [of packet_queue_new ops] assms by (auto simp: pq_new QUEUE_CAPACITY_def)
  have "popped (map (map_option payload) frs) = map payload (popped frs)"
    by (induction frs) (auto simp: popped_def)
  then show ?thesis using q fifo_spec_count [OF q(2)] fifo_spec_order [of 64 _ ops "[]" 0] by fastforce
qed

theorem packet_queue_bounded_fifo_witness:
  "\<exists>frs q. fifo_run pq_push pq_pop [Push [1, 2, 3], Pop, Push [4], Pop, Pop] packet_queue_new = Inr (frs, q)
    \<and> map payload (popped frs) = [[1, 2, 3], [4]] \<and> packets q = []"
  using packet_queue_bounded_fifo [of "[Push [1, 2, 3], Pop, Push [4], Pop, Pop]"] by (auto simp: popped_def)

end
