(* ===== verification/Rtl8139.thy ===== *)
theory Rtl8139
  imports Cpu Spinlock Packet_Queue
begin

text \<open>
  \<^verbatim>\<open>kernel/src/device/rtl8139.rs\<close>: the driver of the RTL8139 network card. The card writes
  received packets into the receive ring by DMA, so the bytes of that ring are not state of
  the driver but the argument \<open>dma\<close>, a function of the port history like \<open>hw\<close>; the driver's
  vector contributes its address and length. \<open>process_rx_buffer\<close> and \<open>software_reset\<close> loop as
  long as the card says so and are partial functions.
\<close>

subsection \<open>Registers and flags\<close>

definition REG_MAC :: u16 where "REG_MAC = 0x00"
definition REG_TSD0 :: u16 where "REG_TSD0 = 0x10"
definition REG_TSAD0 :: u16 where "REG_TSAD0 = 0x20"
definition REG_RBSTART :: u16 where "REG_RBSTART = 0x30"
definition REG_CMD :: u16 where "REG_CMD = 0x37"
definition REG_CAPR :: u16 where "REG_CAPR = 0x38"
definition REG_IMR :: u16 where "REG_IMR = 0x3C"
definition REG_ISR :: u16 where "REG_ISR = 0x3E"
definition REG_RCR :: u16 where "REG_RCR = 0x44"
definition REG_CONFIG_1 :: u16 where "REG_CONFIG_1 = 0x52"

lemmas reg_defs = REG_MAC_def REG_TSD0_def REG_TSAD0_def REG_RBSTART_def REG_CMD_def REG_CAPR_def
  REG_IMR_def REG_ISR_def REG_RCR_def REG_CONFIG_1_def

definition RX_BUFFER_SIZE :: nat where "RX_BUFFER_SIZE = 8192 + 1500 + 16"

definition BUFFER_EMPTY :: u8 where "BUFFER_EMPTY = 1"
definition TX_ENABLE :: u8 where "TX_ENABLE = 4"
definition RX_ENABLE :: u8 where "RX_ENABLE = 8"
definition RESET :: u8 where "RESET = 16"

definition RECEIVE_OK :: u16 where "RECEIVE_OK = 1"
definition TRANSMIT_OK :: u16 where "TRANSMIT_OK = 4"
definition RX_OVERFLOW :: u16 where "RX_OVERFLOW = 16"

definition ACCEPT_ALL_PACKETS :: u32 where "ACCEPT_ALL_PACKETS = 1"
definition ACCEPT_PHYSICAL_MATCH :: u32 where "ACCEPT_PHYSICAL_MATCH = 2"
definition ACCEPT_MULTICAST :: u32 where "ACCEPT_MULTICAST = 4"
definition ACCEPT_BROADCAST :: u32 where "ACCEPT_BROADCAST = 8"
definition WRAP :: u32 where "WRAP = 128"

definition ROK :: u16 where "ROK = 1"

subsection \<open>State\<close>

type_synonym dma = "io_event list \<Rightarrow> nat \<Rightarrow> u8"

record rx_state =
  rx_buffer_addr :: u64
  rx_buffer_len :: nat
  rx_queue :: packet_queue
  rx_read_offset :: nat

definition rx_state_new :: "u64 \<Rightarrow> rx_state" where
  "rx_state_new addr = \<lparr>rx_buffer_addr = addr, rx_buffer_len = RX_BUFFER_SIZE, rx_queue = packet_queue_new,
     rx_read_offset = 0\<rparr>"

record tx_state =
  tx_current_descriptor :: u8
  tx_buffers_addr :: u64
  tx_buffers :: "u8 list list"
  tx_queue :: packet_queue

definition tx_state_new :: "u64 \<Rightarrow> tx_state" where
  "tx_state_new addr = \<lparr>tx_current_descriptor = 0, tx_buffers_addr = addr,
     tx_buffers = replicate 4 (replicate 2048 0), tx_queue = packet_queue_new\<rparr>"

record rtl8139 =
  nic_io_base :: u16
  nic_rx :: "rx_state spinlock"
  nic_tx :: "tx_state spinlock"

definition rtl8139_new :: "u64 \<Rightarrow> u64 \<Rightarrow> u16 \<Rightarrow> rtl8139" where
  "rtl8139_new rx_addr tx_addr io_base = \<lparr>nic_io_base = io_base, nic_rx = spinlock_new (rx_state_new rx_addr),
     nic_tx = spinlock_new (tx_state_new tx_addr)\<rparr>"

subsection \<open>Register access\<close>

definition write_command :: "u16 \<Rightarrow> u8 \<Rightarrow> cpu \<Rightarrow> cpu res" where
  "write_command io_base cmd c = and_then (uadd io_base REG_CMD) (\<lambda>p. Inr (outb p cmd c))"

definition read_command :: "hw \<Rightarrow> u16 \<Rightarrow> cpu \<Rightarrow> (u8 \<times> cpu) res" where
  "read_command hw io_base c = and_then (uadd io_base REG_CMD) (\<lambda>p. Inr (inb hw p c))"

definition read_interrupt_status :: "hw \<Rightarrow> u16 \<Rightarrow> cpu \<Rightarrow> (u16 \<times> cpu) res" where
  "read_interrupt_status hw io_base c = and_then (uadd io_base REG_ISR) (\<lambda>p. Inr (inw hw p c))"

definition power_on :: "u16 \<Rightarrow> cpu \<Rightarrow> cpu res" where
  "power_on io_base c = and_then (uadd io_base REG_CONFIG_1) (\<lambda>p. Inr (outb p 0x00 c))"

partial_function (option) reset_loop :: "hw \<Rightarrow> u16 \<Rightarrow> cpu \<Rightarrow> cpu res option" where
  "reset_loop hw io_base c =
     (case read_command hw io_base c of
        Inl e \<Rightarrow> Some (Inl e)
      | Inr (v, c') \<Rightarrow> if v AND RESET \<noteq> 0 then reset_loop hw io_base c' else Some (Inr c'))"

definition software_reset :: "hw \<Rightarrow> u16 \<Rightarrow> cpu \<Rightarrow> cpu res option" where
  "software_reset hw io_base c =
     (case write_command io_base RESET c of
        Inl e \<Rightarrow> Some (Inl e)
      | Inr c' \<Rightarrow> reset_loop hw io_base c')"

text \<open>The pointer is truncated to 32 bits.\<close>

definition init_rx_buffer :: "rtl8139 \<Rightarrow> cpu \<Rightarrow> cpu res option" where
  "init_rx_buffer d c =
     (case lock (nic_rx d) of
        None \<Rightarrow> None
      | Some g \<Rightarrow> Some (and_then (uadd (nic_io_base d) REG_RBSTART) (\<lambda>p.
          Inr (outdw p (ucast (rx_buffer_addr (guard_deref g))) c))))"

definition allow_interrupts :: "u16 \<Rightarrow> cpu \<Rightarrow> cpu res" where
  "allow_interrupts io_base c =
     and_then (uadd io_base REG_IMR) (\<lambda>p. Inr (outw p (RECEIVE_OK OR TRANSMIT_OK OR RX_OVERFLOW) c))"

definition configure_receive_buffer :: "u16 \<Rightarrow> cpu \<Rightarrow> cpu res" where
  "configure_receive_buffer io_base c =
     and_then (uadd io_base REG_RCR) (\<lambda>p. Inr (outdw p
       (ACCEPT_ALL_PACKETS OR ACCEPT_PHYSICAL_MATCH OR ACCEPT_MULTICAST OR ACCEPT_BROADCAST OR WRAP) c))"

definition enable_rx_tx :: "u16 \<Rightarrow> cpu \<Rightarrow> cpu res" where
  "enable_rx_tx io_base c = write_command io_base (RX_ENABLE OR TX_ENABLE) c"

definition acknowledge_interrupt :: "u16 \<Rightarrow> u16 \<Rightarrow> cpu \<Rightarrow> cpu res" where
  "acknowledge_interrupt io_base status c = and_then (uadd io_base REG_ISR) (\<lambda>p. Inr (outw p status c))"

definition read_capr :: "hw \<Rightarrow> u16 \<Rightarrow> cpu \<Rightarrow> (u16 \<times> cpu) res" where
  "read_capr hw io_base c = and_then (uadd io_base REG_CAPR) (\<lambda>p. Inr (inw hw p c))"

definition write_capr :: "u16 \<Rightarrow> u16 \<Rightarrow> cpu \<Rightarrow> cpu res" where
  "write_capr io_base capr c = and_then (uadd io_base REG_CAPR) (\<lambda>p. Inr (outw p capr c))"

definition rx_buffer_empty :: "hw \<Rightarrow> u16 \<Rightarrow> cpu \<Rightarrow> (bool \<times> cpu) res" where
  "rx_buffer_empty hw io_base c =
     and_then (read_command hw io_base c) (\<lambda>(v, c'). Inr (v AND BUFFER_EMPTY \<noteq> 0, c'))"

subsection \<open>Receiving\<close>

definition rx_byte :: "dma \<Rightarrow> rx_state \<Rightarrow> cpu \<Rightarrow> nat \<Rightarrow> u8 res" where
  "rx_byte dma rx c i = (if i < rx_buffer_len rx then Inr (dma (cpu_trace c) i) else Inl IndexOutOfBounds)"

definition u32_from_le_bytes :: "u8 \<Rightarrow> u8 \<Rightarrow> u8 \<Rightarrow> u8 \<Rightarrow> u32" where
  "u32_from_le_bytes b0 b1 b2 b3 =
     ucast b0 OR push_bit 8 (ucast b1) OR push_bit 16 (ucast b2) OR push_bit 24 (ucast b3)"

definition rx_header :: "dma \<Rightarrow> rx_state \<Rightarrow> cpu \<Rightarrow> u32 res" where
  "rx_header dma rx c =
     and_then (rx_byte dma rx c (rx_read_offset rx)) (\<lambda>b0.
     and_then (and_then (nadd (rx_read_offset rx) 1) (rx_byte dma rx c)) (\<lambda>b1.
     and_then (and_then (nadd (rx_read_offset rx) 2) (rx_byte dma rx c)) (\<lambda>b2.
     and_then (and_then (nadd (rx_read_offset rx) 3) (rx_byte dma rx c)) (\<lambda>b3.
       Inr (u32_from_le_bytes b0 b1 b2 b3)))))"

text \<open>\<open>&rx.rx_buffer[a..b]\<close>, which panics when the range does not lie in the buffer.\<close>

definition rx_slice :: "dma \<Rightarrow> rx_state \<Rightarrow> cpu \<Rightarrow> nat \<Rightarrow> nat \<Rightarrow> u8 list res" where
  "rx_slice dma rx c a b =
     (if a \<le> b \<and> b \<le> rx_buffer_len rx then Inr (map (dma (cpu_trace c)) [a..<b]) else Inl IndexOutOfBounds)"

text \<open>
  Copying a valid packet to the queue; \<open>len\<close> includes the checksum. The warning that the other
  branch logs is left out, as is the one in \<open>transmit\<close>.
\<close>

definition rx_copy :: "dma \<Rightarrow> nat \<Rightarrow> rx_state \<Rightarrow> cpu \<Rightarrow> rx_state res" where
  "rx_copy dma len rx c =
     (let packet_len = len - 4 in
      and_then (nadd (rx_read_offset rx) 4) (\<lambda>data_start.
      and_then (nadd data_start packet_len) (\<lambda>data_end.
        if data_end \<le> rx_buffer_len rx
        then and_then (rx_slice dma rx c data_start data_end) (\<lambda>packet_data.
             and_then (pq_push packet_data (rx_queue rx)) (\<lambda>q. Inr (rx\<lparr>rx_queue := q\<rparr>)))
        else Inr rx)))"

text \<open>The body of the loop: \<open>x & !3\<close> is \<open>x\<close> rounded down to a multiple of 4.\<close>

definition rx_next :: "dma \<Rightarrow> u16 \<Rightarrow> rx_state \<Rightarrow> cpu \<Rightarrow> (rx_state \<times> cpu) res" where
  "rx_next dma io_base rx c =
     (let offset = rx_read_offset rx in
      and_then (rx_header dma rx c) (\<lambda>header.
      let status = (ucast header :: u16); len = unat (drop_bit 16 header) in
      and_then (if status AND ROK \<noteq> 0 then rx_copy dma len rx c else Inr rx) (\<lambda>rx1.
      and_then (nadd offset 4) (\<lambda>a.
      and_then (nadd a len) (\<lambda>b.
      and_then (nadd b 3) (\<lambda>x.
      let new = (x div 4 * 4) mod 8192 in
      and_then (write_capr io_base (of_nat new - 16) c) (\<lambda>c1.
        Inr (rx1\<lparr>rx_read_offset := new\<rparr>, c1))))))))"

partial_function (option) rx_loop :: "hw \<Rightarrow> dma \<Rightarrow> u16 \<Rightarrow> rx_state \<Rightarrow> cpu \<Rightarrow> (rx_state \<times> cpu) res option" where
  "rx_loop hw dma io_base rx c =
     (case rx_buffer_empty hw io_base c of
        Inl e \<Rightarrow> Some (Inl e)
      | Inr (is_empty, c') \<Rightarrow>
          if is_empty then Some (Inr (rx, c'))
          else
            (case rx_next dma io_base rx c' of
               Inl e \<Rightarrow> Some (Inl e)
             | Inr (rx', c'') \<Rightarrow> rx_loop hw dma io_base rx' c''))"

definition process_rx_buffer :: "hw \<Rightarrow> dma \<Rightarrow> rtl8139 \<Rightarrow> cpu \<Rightarrow> (rtl8139 \<times> cpu) res option" where
  "process_rx_buffer hw dma d c =
     (case try_lock (nic_rx d) of
        (False, l) \<Rightarrow> Some (Inr (d\<lparr>nic_rx := l\<rparr>, c))
      | (True, g) \<Rightarrow>
          (case rx_loop hw dma (nic_io_base d) (guard_deref g) c of
             None \<Rightarrow> None
           | Some (Inl e) \<Rightarrow> Some (Inl e)
           | Some (Inr (rx', c')) \<Rightarrow>
               Some (Inr (d\<lparr>nic_rx := guard_drop (guard_deref_mut (\<lambda>_. rx') g)\<rparr>, c'))))"

subsection \<open>Transmitting\<close>

text \<open>\<open>io_base + reg + (desc as u16 * 4)\<close>.\<close>

definition tx_port :: "u16 \<Rightarrow> u16 \<Rightarrow> u8 \<Rightarrow> u16 res" where
  "tx_port io_base reg desc =
     and_then (uadd io_base reg) (\<lambda>a. and_then (umul (ucast desc) 4) (\<lambda>k. uadd a k))"

definition tx_descriptor_free :: "hw \<Rightarrow> u16 \<Rightarrow> tx_state \<Rightarrow> cpu \<Rightarrow> (bool \<times> cpu) res" where
  "tx_descriptor_free hw io_base tx c =
     (let desc = tx_current_descriptor tx in
      and_then (tx_port io_base REG_TSD0 desc) (\<lambda>tsd_port.
      and_then (tx_port io_base REG_TSAD0 desc) (\<lambda>tsda_port.
      case indw hw tsd_port c of (status, c') \<Rightarrow> Inr (status AND push_bit 13 1 \<noteq> 0, c'))))"

text \<open>Hand one frame to the current descriptor.\<close>

definition send_frame :: "u16 \<Rightarrow> ethernet_frame \<Rightarrow> tx_state \<Rightarrow> cpu \<Rightarrow> (tx_state \<times> cpu) res" where
  "send_frame io_base frame tx c =
     (let desc = tx_current_descriptor tx; n = ef_length frame in
      and_then (get_index (tx_buffers tx) (unat desc)) (\<lambda>buf.
      and_then (if n \<le> length buf \<and> n \<le> length (ef_data frame)
                then Inr (take n (ef_data frame) @ drop n buf) else Inl IndexOutOfBounds) (\<lambda>buf'.
      let physical_address = (ucast (tx_buffers_addr tx + 2048 * ucast desc) :: u32) in
      and_then (tx_port io_base REG_TSAD0 desc) (\<lambda>tsad_port.
      let c1 = outdw tsad_port physical_address c in
      and_then (tx_port io_base REG_TSD0 desc) (\<lambda>tsd_port.
      let c2 = outdw tsd_port (of_nat n) c1 in
      and_then (uadd desc 1) (\<lambda>d1.
        Inr (tx\<lparr>tx_buffers := (tx_buffers tx)[unat desc := buf'], tx_current_descriptor := d1 mod 4\<rparr>, c2)))))))"

lemma send_frame_queue: "send_frame io_base frame tx c = Inr (tx', c') \<Longrightarrow> tx_queue tx' = tx_queue tx"
  by (auto simp: send_frame_def Let_def and_then_eq_Inr)

lemma pq_pop_size: "pq_pop q = Inr (Some fr, q') \<Longrightarrow> pq_size q' < pq_size q"
  by (auto simp: pq_pop_def and_then_eq_Inr nsub_def split: if_splits)

function flush_loop :: "hw \<Rightarrow> u16 \<Rightarrow> tx_state \<Rightarrow> cpu \<Rightarrow> (tx_state \<times> cpu) res" where
  "flush_loop hw io_base tx c =
     (if pq_size (tx_queue tx) = 0 then Inr (tx, c)
      else
        (case tx_descriptor_free hw io_base tx c of
           Inl e \<Rightarrow> Inl e
         | Inr (False, c1) \<Rightarrow> Inr (tx, c1)
         | Inr (True, c1) \<Rightarrow>
             (case pq_pop (tx_queue tx) of
                Inl e \<Rightarrow> Inl e
              | Inr (None, q) \<Rightarrow> Inr (tx\<lparr>tx_queue := q\<rparr>, c1)
              | Inr (Some frame, q) \<Rightarrow>
                  (case send_frame io_base frame (tx\<lparr>tx_queue := q\<rparr>) c1 of
                     Inl e \<Rightarrow> Inl e
                   | Inr (tx', c2) \<Rightarrow> flush_loop hw io_base tx' c2))))"
  by pat_completeness auto
termination
  by (relation "measure (\<lambda>(_, _, tx, _). pq_size (tx_queue tx))")
    (auto dest!: send_frame_queue pq_pop_size)

declare flush_loop.simps [simp del]

definition flush_tx_queue :: "hw \<Rightarrow> rtl8139 \<Rightarrow> cpu \<Rightarrow> (rtl8139 \<times> cpu) res" where
  "flush_tx_queue hw d c =
     (case try_lock (nic_tx d) of
        (False, l) \<Rightarrow> Inr (d\<lparr>nic_tx := l\<rparr>, c)
      | (True, g) \<Rightarrow> and_then (flush_loop hw (nic_io_base d) (guard_deref g) c) (\<lambda>(tx', c').
          Inr (d\<lparr>nic_tx := guard_drop (guard_deref_mut (\<lambda>_. tx') g)\<rparr>, c')))"

definition transmit :: "hw \<Rightarrow> u8 list \<Rightarrow> rtl8139 \<Rightarrow> cpu \<Rightarrow> (rtl8139 \<times> cpu) res option" where
  "transmit hw data d c =
     (case lock (nic_tx d) of
        None \<Rightarrow> None
      | Some g \<Rightarrow>
          if length data > 1792 then Some (Inr (d\<lparr>nic_tx := guard_drop g\<rparr>, c))
          else Some (and_then (pq_push data (tx_queue (guard_deref g))) (\<lambda>q.
            flush_tx_queue hw (d\<lparr>nic_tx := guard_drop (guard_deref_mut (tx_queue_update (\<lambda>_. q)) g)\<rparr>) c)))"

subsection \<open>Initialisation, interrupts and the interface\<close>

text \<open>The static \<open>RTL8139\<close>: \<open>None\<close> until \<open>init\<close> has run; a driver that exists already is kept.\<close>

definition init_rtl8139 ::
  "hw \<Rightarrow> u64 \<Rightarrow> u64 \<Rightarrow> u16 \<Rightarrow> rtl8139 option \<Rightarrow> cpu \<Rightarrow> (rtl8139 \<times> cpu) res option" where
  "init_rtl8139 hw rx_addr tx_addr io_base nic c =
     (let d = (case nic of Some d \<Rightarrow> d | None \<Rightarrow> rtl8139_new rx_addr tx_addr io_base); io = nic_io_base d in
      case power_on io c of
        Inl e \<Rightarrow> Some (Inl e)
      | Inr c1 \<Rightarrow>
          (case software_reset hw io c1 of
             None \<Rightarrow> None
           | Some (Inl e) \<Rightarrow> Some (Inl e)
           | Some (Inr c2) \<Rightarrow>
               (case init_rx_buffer d c2 of
                  None \<Rightarrow> None
                | Some r \<Rightarrow> Some (and_then r (\<lambda>c3.
                    and_then (allow_interrupts io c3) (\<lambda>c4.
                    and_then (configure_receive_buffer io c4) (\<lambda>c5.
                    and_then (enable_rx_tx io c5) (\<lambda>c6. Inr (d, c6)))))))))"

definition rtl8139_trigger :: "hw \<Rightarrow> dma \<Rightarrow> rtl8139 option \<Rightarrow> cpu \<Rightarrow> (rtl8139 \<times> cpu) res option" where
  "rtl8139_trigger hw dma nic c =
     (case nic of
        None \<Rightarrow> Some (Inl UnwrapNone)
      | Some d \<Rightarrow>
          (case read_interrupt_status hw (nic_io_base d) c of
             Inl e \<Rightarrow> Some (Inl e)
           | Inr (status, c1) \<Rightarrow>
               (case (if status AND RECEIVE_OK \<noteq> 0 \<or> status AND RX_OVERFLOW \<noteq> 0
                      then process_rx_buffer hw dma d c1 else Some (Inr (d, c1))) of
                  None \<Rightarrow> None
                | Some r \<Rightarrow> Some (and_then r (\<lambda>(d1, c2).
                    and_then (if status AND TRANSMIT_OK \<noteq> 0 then flush_tx_queue hw d1 c2 else Inr (d1, c2)) (\<lambda>(d2, c3).
                    and_then (acknowledge_interrupt (nic_io_base d2) status c3) (\<lambda>c4. Inr (d2, c4))))))))"

definition send_packet :: "hw \<Rightarrow> u8 list \<Rightarrow> rtl8139 option \<Rightarrow> cpu \<Rightarrow> (rtl8139 \<times> cpu) res option" where
  "send_packet hw data nic c =
     (case nic of None \<Rightarrow> Some (Inl UnwrapNone) | Some d \<Rightarrow> transmit hw data d c)"

definition receive_packet :: "rtl8139 option \<Rightarrow> (ethernet_frame option \<times> rtl8139) res option" where
  "receive_packet nic =
     (case nic of
        None \<Rightarrow> Some (Inl UnwrapNone)
      | Some d \<Rightarrow>
          (case lock (nic_rx d) of
             None \<Rightarrow> None
           | Some g \<Rightarrow> Some (and_then (pq_pop (rx_queue (guard_deref g))) (\<lambda>(fr, q).
               Inr (fr, d\<lparr>nic_rx := guard_drop (guard_deref_mut (rx_queue_update (\<lambda>_. q)) g)\<rparr>)))))"

subsection \<open>Ports\<close>

text \<open>An I/O base address that leaves room for the 256 registers of the card.\<close>

definition io_ok :: "u16 \<Rightarrow> bool" where
  "io_ok io \<longleftrightarrow> unat io + 256 \<le> 2 ^ 16"

lemma reg_port: "io_ok io \<Longrightarrow> unat r < 256 \<Longrightarrow> uadd io r = Inr (io + r)"
  by (simp add: io_ok_def uadd_nat)

lemma unat_desc [simp]: "unat (ucast (d :: u8) :: u16) = unat d"
  using unsigned_less [of d, where 'a = nat] by (simp add: unsigned_ucast_eq take_bit_nat_eq_self)

lemma tx_port_ok:
  assumes "io_ok io" "unat d < 4" "unat r \<le> 0x20"
  shows "tx_port io r d = Inr (io + r + 4 * ucast d)"
proof -
  have u: "unat (ucast d * 4 :: u16) = unat d * 4"
    using assms(2) by (simp add: unat_word_ariths)
  have s: "unat (io + r) = unat io + unat r" using assms by (intro unat_add_noov) (simp add: io_ok_def)
  have "umul (ucast d) (4 :: u16) = Inr (ucast d * 4)"
    using assms(2) by (simp add: umul_nat)
  moreover have "uadd (io + r) (ucast d * 4) = Inr (io + r + ucast d * 4)"
    using assms u s by (simp add: uadd_nat io_ok_def)
  moreover have "uadd io r = Inr (io + r)" using assms by (intro reg_port) simp_all
  ultimately show ?thesis by (simp add: tx_port_def mult.commute)
qed

subsection \<open>Receiving\<close>

definition rx_ok :: "rx_state \<Rightarrow> bool" where
  "rx_ok rx \<longleftrightarrow> rx_buffer_len rx = RX_BUFFER_SIZE \<and> pq_ok (rx_queue rx) \<and> rx_read_offset rx < 8192
     \<and> 4 dvd rx_read_offset rx"

abbreviation fits_frame :: "u8 list \<Rightarrow> bool" where
  "fits_frame p \<equiv> length p \<le> 2048"

definition header_at :: "(nat \<Rightarrow> u8) \<Rightarrow> nat \<Rightarrow> u32" where
  "header_at mem off = u32_from_le_bytes (mem off) (mem (off + 1)) (mem (off + 2)) (mem (off + 3))"

definition next_offset :: "nat \<Rightarrow> nat \<Rightarrow> nat" where
  "next_offset off len = ((off + 4 + len + 3) div 4 * 4) mod 8192"

lemma next_offset_ok: "next_offset off len < 8192" "4 dvd next_offset off len"
  unfolding next_offset_def by (simp, rule dvd_mod) simp_all

lemma rx_header_ok: "rx_ok rx \<Longrightarrow> rx_header dma rx c = Inr (header_at (dma (cpu_trace c)) (rx_read_offset rx))"
  by (simp add: rx_header_def rx_byte_def nadd_def header_at_def rx_ok_def RX_BUFFER_SIZE_def)

text \<open>What one header makes of the queue.\<close>

definition rx_accept :: "(nat \<Rightarrow> u8) \<Rightarrow> nat \<Rightarrow> u8 list list \<Rightarrow> u8 list list" where
  "rx_accept mem off ps =
     (let h = header_at mem off; n = unat (drop_bit 16 h) - 4 in
      if (ucast h :: u16) AND ROK \<noteq> 0 \<and> off + 4 + n \<le> RX_BUFFER_SIZE
      then accept 64 fits_frame (map mem [off + 4..<off + 4 + n]) ps else ps)"

lemma rx_next_ok:
  fixes dma c
  assumes "rx_ok rx" "io_ok io" "pq_dropped_packets (rx_queue rx) < 2 ^ 64 - 1"
  defines "mem \<equiv> dma (cpu_trace c)" and "off \<equiv> rx_read_offset rx"
  shows "\<exists>q'. rx_next dma io rx c
      = Inr (rx\<lparr>rx_queue := q', rx_read_offset := next_offset off (unat (drop_bit 16 (header_at mem off)))\<rparr>,
             outw (io + REG_CAPR) (of_nat (next_offset off (unat (drop_bit 16 (header_at mem off)))) - 16) c)
    \<and> pq_ok q' \<and> packets q' = rx_accept mem off (packets (rx_queue rx))
    \<and> pq_dropped_packets q' \<le> Suc (pq_dropped_packets (rx_queue rx))"
proof -
  define h len where "h = header_at mem off" and "len = unat (drop_bit 16 h)"
  let ?p = "map mem [off + 4..<off + 4 + (len - 4)]"
  have off: "off < 8192" "rx_buffer_len rx = RX_BUFFER_SIZE" "pq_ok (rx_queue rx)"
    using assms(1) by (simp_all add: rx_ok_def off_def)
  have "len = drop_bit 16 (unat h)"
    using unsigned_less [of h, where 'a = nat] by (simp add: len_def unsigned_drop_bit_eq take_bit_nat_eq_self)
  then have "len = unat h div 65536" by (simp add: drop_bit_eq_div)
  then have len: "len < 65536"
    using unsigned_less [of h, where 'a = nat] by simp
  have cap: "write_capr io v c = Inr (outw (io + REG_CAPR) v c)" for v
    using reg_port [OF assms(2), of REG_CAPR] by (simp add: write_capr_def REG_CAPR_def)
  have nx: "(\<lambda>a. and_then (nadd a len) (\<lambda>b. and_then (nadd b 3) f)) (off + 4) = f (off + 4 + len + 3)" for f :: "nat \<Rightarrow> (rx_state \<times> cpu) res"
    using off(1) len by (simp add: nadd_def)
  obtain q1 where q1: "pq_push ?p (rx_queue rx) = Inr q1" "pq_ok q1"
    "packets q1 = accept QUEUE_CAPACITY fits_frame ?p (packets (rx_queue rx))"
    "pq_dropped_packets q1 \<le> Suc (pq_dropped_packets (rx_queue rx))"
    using pq_push_spec [OF off(3) assms(3), of ?p] by (auto split: if_splits)
  define q' where "q' = (if (ucast h :: u16) AND ROK \<noteq> 0 \<and> off + 4 + (len - 4) \<le> RX_BUFFER_SIZE then q1 else rx_queue rx)"
  have copy: "rx_copy dma len rx c = Inr (rx\<lparr>rx_queue := (if off + 4 + (len - 4) \<le> RX_BUFFER_SIZE then q1 else rx_queue rx)\<rparr>)"
    using off q1(1) len by (simp add: rx_copy_def rx_slice_def Let_def nadd_def off_def [symmetric] mem_def [symmetric])
  then have sel: "(if (ucast h :: u16) AND ROK \<noteq> 0 then rx_copy dma len rx c else Inr rx) = Inr (rx\<lparr>rx_queue := q'\<rparr>)"
    by (simp add: q'_def)
  have "rx_next dma io rx c = Inr (rx\<lparr>rx_queue := q', rx_read_offset := next_offset off len\<rparr>,
      outw (io + REG_CAPR) (of_nat (next_offset off len) - 16) c)"
    unfolding rx_next_def Let_def rx_header_ok [OF assms(1)] and_then_simps off_def [symmetric] mem_def [symmetric]
      h_def [symmetric] len_def [symmetric] sel
    using off(1) len by (simp add: nadd_def cap next_offset_def)
  moreover have "packets q' = rx_accept mem off (packets (rx_queue rx))"
    using q1(3) by (simp add: q'_def rx_accept_def Let_def h_def [symmetric] len_def [symmetric] QUEUE_CAPACITY_def)
  ultimately show ?thesis
    using q1(2,4) off(3) unfolding h_def [symmetric] len_def [symmetric] by (intro exI [of _ q']) (simp add: q'_def)
qed


text \<open>
  A device that has \<open>n\<close> more packets in its ring: the command register reports an empty buffer
  exactly when the driver has advanced CAPR that many times.
\<close>

definition consumed :: "u16 \<Rightarrow> io_event list \<Rightarrow> nat" where
  "consumed io tr = length (filter (\<lambda>e. case e of Out16 p _ \<Rightarrow> p = io + REG_CAPR | _ \<Rightarrow> False) tr)"

definition holds_packets :: "hw \<Rightarrow> u16 \<Rightarrow> nat \<Rightarrow> bool" where
  "holds_packets hw io n \<longleftrightarrow>
     (\<forall>tr. (ucast (hw tr (io + REG_CMD)) :: u8) AND BUFFER_EMPTY \<noteq> 0 \<longleftrightarrow> n \<le> consumed io tr)"

text \<open>
  The ring contents from an offset on, as a list of packets with the card's verdict on them; the
  length in a header counts the four bytes of the checksum.
\<close>

fun ring_holds :: "(nat \<Rightarrow> u8) \<Rightarrow> nat \<Rightarrow> (bool \<times> u8 list) list \<Rightarrow> bool" where
  "ring_holds mem off [] = True"
| "ring_holds mem off ((good, p) # ps) \<longleftrightarrow>
     ((ucast (header_at mem off) :: u16) AND ROK \<noteq> 0 \<longleftrightarrow> good)
     \<and> unat (drop_bit 16 (header_at mem off)) = length p + 4
     \<and> off + 4 + length p \<le> RX_BUFFER_SIZE \<and> map mem [off + 4..<off + 4 + length p] = p
     \<and> ring_holds mem (next_offset off (length p + 4)) ps"

fun ring_offsets :: "nat \<Rightarrow> (bool \<times> u8 list) list \<Rightarrow> nat list" where
  "ring_offsets off [] = []"
| "ring_offsets off ((good, p) # ps) = next_offset off (length p + 4) # ring_offsets (next_offset off (length p + 4)) ps"

lemma rx_poll:
  assumes "io_ok io" "holds_packets hw io n"
  shows "\<exists>c'. rx_buffer_empty hw io c = Inr (n \<le> consumed io (cpu_trace c), c')
    \<and> consumed io (cpu_trace c') = consumed io (cpu_trace c) \<and> outputs c' = outputs c"
proof -
  have "read_command hw io c = Inr (inb hw (io + REG_CMD) c)"
    using reg_port [OF assms(1), of REG_CMD] by (simp add: read_command_def REG_CMD_def)
  moreover have "outputs (snd (inb hw (io + REG_CMD) c)) = outputs c" by simp
  ultimately show ?thesis
    using assms(2) by (simp add: rx_buffer_empty_def inb_def Let_def holds_packets_def consumed_def)
qed

lemma rx_loop_delivers:
  assumes "io_ok io" "holds_packets hw io n"
  shows "rx_ok rx \<Longrightarrow> ring_holds mem (rx_read_offset rx) ps \<Longrightarrow> consumed io (cpu_trace c) + length ps = n \<Longrightarrow>
     pq_dropped_packets (rx_queue rx) + length ps < 2 ^ 64 - 1 \<Longrightarrow>
     \<exists>rx' c'. rx_loop hw (\<lambda>_. mem) io rx c = Some (Inr (rx', c')) \<and> rx_ok rx'
       \<and> packets (rx_queue rx') = fold (accept 64 fits_frame) (map snd (filter fst ps)) (packets (rx_queue rx))
       \<and> rx_read_offset rx' = last (rx_read_offset rx # ring_offsets (rx_read_offset rx) ps)
       \<and> outputs c' = outputs c @ map (\<lambda>o'. Out16 (io + REG_CAPR) (of_nat o' - 16)) (ring_offsets (rx_read_offset rx) ps)"
proof (induction ps arbitrary: rx c)
  case Nil
  obtain c' where "rx_buffer_empty hw io c = Inr (True, c')" "outputs c' = outputs c"
    using rx_poll [OF assms, of c] Nil.prems(3) by auto
  then show ?case using Nil.prems by (subst rx_loop.simps) simp
next
  case (Cons e ps)
  obtain good p where e: "e = (good, p)" by (cases e)
  let ?off = "rx_read_offset rx"
  note h = Cons.prems(2) [unfolded e ring_holds.simps]
  obtain c1 where c1: "rx_buffer_empty hw io c = Inr (False, c1)" "consumed io (cpu_trace c1) = consumed io (cpu_trace c)"
    "outputs c1 = outputs c"
    using rx_poll [OF assms, of c] Cons.prems(3) by auto
  define o1 where "o1 = next_offset ?off (length p + 4)"
  define c2 where "c2 = outw (io + REG_CAPR) (of_nat o1 - 16) c1"
  obtain q' where q': "rx_next (\<lambda>_. mem) io rx c1 = Inr (rx\<lparr>rx_queue := q', rx_read_offset := o1\<rparr>, c2)"
    "pq_ok q'" "packets q' = rx_accept mem ?off (packets (rx_queue rx))"
    "pq_dropped_packets q' \<le> Suc (pq_dropped_packets (rx_queue rx))"
    using rx_next_ok [OF Cons.prems(1) assms(1), of "\<lambda>_. mem" c1] Cons.prems(4) h
    by (auto simp: o1_def c2_def)
  define rx1 where "rx1 = rx\<lparr>rx_queue := q', rx_read_offset := o1\<rparr>"
  have acc: "packets q' = fold (accept 64 fits_frame) (map snd (filter fst [e])) (packets (rx_queue rx))"
    using q'(3) h by (simp add: rx_accept_def Let_def e)
  have "rx_ok rx1" using Cons.prems(1) q'(2) next_offset_ok by (simp add: rx_ok_def rx1_def o1_def)
  moreover have "ring_holds mem (rx_read_offset rx1) ps" using h by (simp add: rx1_def o1_def)
  moreover have "consumed io (cpu_trace c2) = Suc (consumed io (cpu_trace c))"
    using c1(2) by (simp add: c2_def outw_def consumed_def)
  ultimately obtain rx' c' where "rx_loop hw (\<lambda>_. mem) io rx1 c2 = Some (Inr (rx', c'))" "rx_ok rx'"
    "packets (rx_queue rx') = fold (accept 64 fits_frame) (map snd (filter fst ps)) (packets (rx_queue rx1))"
    "rx_read_offset rx' = last (rx_read_offset rx1 # ring_offsets (rx_read_offset rx1) ps)"
    "outputs c' = outputs c2 @ map (\<lambda>o'. Out16 (io + REG_CAPR) (of_nat o' - 16)) (ring_offsets (rx_read_offset rx1) ps)"
    using Cons.IH [of rx1 c2] Cons.prems(3,4) q'(4) by (auto simp: rx1_def)
  moreover have "rx_loop hw (\<lambda>_. mem) io rx c = rx_loop hw (\<lambda>_. mem) io rx1 c2"
    using c1(1) q'(1) by (subst rx_loop.simps) (simp add: rx1_def)
  moreover have "outputs c2 = outputs c @ [Out16 (io + REG_CAPR) (of_nat o1 - 16)]"
    using c1(3) by (simp add: c2_def)
  ultimately show ?case
    using acc by (intro exI [of _ rx'] exI [of _ c']) (simp add: e rx1_def o1_def)
qed

text \<open>
  C13. The receive path delivers what the card received. When the card's ring holds any list of
  packets behind the read offset, each with the card's verdict, \<open>process_rx_buffer\<close> returns;
  the good packets are appended to the receive queue byte for byte and in order, as far as
  they are at most 2048 bytes long and the queue has room; bad ones are skipped; the read
  offset has moved past all of them, CAPR was written once per packet with the offset minus
  16, and the lock is free again.
\<close>

theorem rx_delivers_packets:
  assumes "io_ok (nic_io_base d)" and "\<not> is_locked (nic_rx d)" and "rx_ok (inner (nic_rx d))"
    and "holds_packets hw (nic_io_base d) (consumed (nic_io_base d) (cpu_trace c) + length ps)"
    and "ring_holds mem (rx_read_offset (inner (nic_rx d))) ps"
    and "pq_dropped_packets (rx_queue (inner (nic_rx d))) + length ps < 2 ^ 64 - 1"
  shows "\<exists>d' c'. process_rx_buffer hw (\<lambda>_. mem) d c = Some (Inr (d', c'))
    \<and> \<not> is_locked (nic_rx d') \<and> rx_ok (inner (nic_rx d')) \<and> nic_tx d' = nic_tx d
    \<and> packets (rx_queue (inner (nic_rx d')))
        = fold (accept 64 fits_frame) (map snd (filter fst ps)) (packets (rx_queue (inner (nic_rx d))))
    \<and> outputs c' = outputs c @ map (\<lambda>o'. Out16 (nic_io_base d + REG_CAPR) (of_nat o' - 16))
        (ring_offsets (rx_read_offset (inner (nic_rx d))) ps)"
proof -
  obtain rx' c' where r: "rx_loop hw (\<lambda>_. mem) (nic_io_base d) (inner (nic_rx d)) c = Some (Inr (rx', c'))" "rx_ok rx'"
    "packets (rx_queue rx') = fold (accept 64 fits_frame) (map snd (filter fst ps)) (packets (rx_queue (inner (nic_rx d))))"
    "outputs c' = outputs c @ map (\<lambda>o'. Out16 (nic_io_base d + REG_CAPR) (of_nat o' - 16))
        (ring_offsets (rx_read_offset (inner (nic_rx d))) ps)"
    using rx_loop_delivers [OF assms(1,4) assms(3,5) refl assms(6)] by blast
  then show ?thesis
    using assms(2) by (intro exI [of _ "d\<lparr>nic_rx := spinlock_new rx'\<rparr>"] exI [of _ c'])
      (simp add: process_rx_buffer_def spinlock_defs)
qed

definition demo_nic :: rtl8139 where
  "demo_nic = rtl8139_new 0x100000 0x110000 0xc000"

definition demo_ring :: "nat \<Rightarrow> u8" where
  "demo_ring = (\<lambda>_. 0)(0 := 1, 2 := 7, 4 := 7, 5 := 8, 6 := 9)"

definition boot_cpu :: cpu where
  "boot_cpu = \<lparr>cpu_rflags = 2, cpu_cr0 = 0, cpu_trace = []\<rparr>"

definition demo_card :: hw where
  "demo_card tr p = (if p = 0xc037 then (if 1 \<le> consumed 0xc000 tr then 1 else 0) else 0x2000)"

theorem rx_delivers_packets_witness:
  "\<exists>d' c'. process_rx_buffer demo_card (\<lambda>_. demo_ring) demo_nic boot_cpu = Some (Inr (d', c'))
     \<and> packets (rx_queue (inner (nic_rx d'))) = [[7, 8, 9]] \<and> outputs c' = [Out16 0xc038 (- 4)]"
proof -
  have n: "nic_io_base demo_nic = 0xc000" "inner (nic_rx demo_nic) = rx_state_new 0x100000"
    "\<not> is_locked (nic_rx demo_nic)" by (simp_all add: demo_nic_def rtl8139_new_def)
  have ok: "io_ok (nic_io_base demo_nic)" "rx_ok (inner (nic_rx demo_nic))"
    by (simp_all add: n io_ok_def rx_ok_def rx_state_new_def pq_new)
  have dev: "holds_packets demo_card (nic_io_base demo_nic)
      (consumed (nic_io_base demo_nic) (cpu_trace boot_cpu) + length [(True, [7, 8, 9 :: u8])])"
    by (simp add: holds_packets_def demo_card_def n REG_CMD_def BUFFER_EMPTY_def consumed_def boot_cpu_def)
  have ring: "ring_holds demo_ring (rx_read_offset (inner (nic_rx demo_nic))) [(True, [7, 8, 9])]"
    by (simp add: n rx_state_new_def demo_ring_def header_at_def u32_from_le_bytes_def ROK_def RX_BUFFER_SIZE_def upt_rec)
  show ?thesis
    using rx_delivers_packets [OF ok(1) n(3) ok(2) dev ring]
    by (simp add: n rx_state_new_def pq_new accept_def next_offset_def REG_CAPR_def outputs_def boot_cpu_def) blast
qed









subsection \<open>Transmitting\<close>

definition tx_ok :: "tx_state \<Rightarrow> bool" where
  "tx_ok tx \<longleftrightarrow> tx_current_descriptor tx < 4 \<and> length (tx_buffers tx) = 4
     \<and> (\<forall>b \<in> set (tx_buffers tx). length b = 2048) \<and> pq_ok (tx_queue tx)"

text \<open>What sending a list of packets from descriptor \<open>d\<close> on means for the card and for the buffers.\<close>

fun sent :: "u16 \<Rightarrow> u64 \<Rightarrow> u8 \<Rightarrow> u8 list list \<Rightarrow> io_event list" where
  "sent io addr d [] = []"
| "sent io addr d (p # ps) =
     [Out32 (io + REG_TSAD0 + 4 * ucast d) (ucast (addr + 2048 * ucast d)),
      Out32 (io + REG_TSD0 + 4 * ucast d) (of_nat (length p))] @ sent io addr ((d + 1) mod 4) ps"

fun stored :: "u8 \<Rightarrow> u8 list list \<Rightarrow> u8 list list \<Rightarrow> u8 list list" where
  "stored d [] bufs = bufs"
| "stored d (p # ps) bufs = stored ((d + 1) mod 4) ps (bufs[unat d := p @ drop (length p) (bufs ! unat d)])"

fun descriptor_after :: "u8 \<Rightarrow> 'a list \<Rightarrow> u8" where
  "descriptor_after d [] = d"
| "descriptor_after d (_ # ps) = descriptor_after ((d + 1) mod 4) ps"

lemma send_frame_ok:
  assumes "tx_ok tx" "io_ok io" "frame_ok fr"
  defines "d \<equiv> tx_current_descriptor tx"
  shows "\<exists>tx' c'. send_frame io fr tx c = Inr (tx', c') \<and> tx_ok tx' \<and> tx_queue tx' = tx_queue tx
    \<and> tx_current_descriptor tx' = (d + 1) mod 4 \<and> tx_buffers_addr tx' = tx_buffers_addr tx
    \<and> tx_buffers tx' = stored d [payload fr] (tx_buffers tx)
    \<and> outputs c' = outputs c @ sent io (tx_buffers_addr tx) d [payload fr]"
proof -
  have d: "unat d < 4" "unat d < length (tx_buffers tx)" using assms(1) by (simp_all add: tx_ok_def d_def word_less_nat_alt)
  have b: "length (tx_buffers tx ! unat d) = 2048" using assms(1) d(2) by (auto simp: tx_ok_def)
  have f: "ef_length fr \<le> 2048" "length (ef_data fr) = 2048" using assms(3) by (auto simp: frame_ok_def)
  have p: "tx_port io REG_TSAD0 d = Inr (io + REG_TSAD0 + 4 * ucast d)" "tx_port io REG_TSD0 d = Inr (io + REG_TSD0 + 4 * ucast d)"
    using tx_port_ok [OF assms(2) d(1)] by (simp_all add: REG_TSAD0_def REG_TSD0_def)
  have u: "uadd d 1 = Inr (d + 1)" using d(1) by (simp add: uadd_nat)
  have l: "length (payload fr) = ef_length fr" using f by (simp add: payload_def)
  have m: "(d + 1) mod 4 < 4" by (simp add: word_mod_less_divisor)
  define tx' where "tx' = tx\<lparr>tx_buffers := (tx_buffers tx)[unat d := payload fr @ drop (ef_length fr) (tx_buffers tx ! unat d)],
    tx_current_descriptor := (d + 1) mod 4\<rparr>"
  have "send_frame io fr tx c = Inr (tx', outdw (io + REG_TSD0 + 4 * ucast d) (of_nat (ef_length fr))
      (outdw (io + REG_TSAD0 + 4 * ucast d) (ucast (tx_buffers_addr tx + 2048 * ucast d)) c))"
    using d b f by (simp add: send_frame_def Let_def d_def [symmetric] p u tx'_def payload_def)
  moreover have "tx_ok tx'"
    using assms(1) m l b f by (auto simp: tx_ok_def tx'_def dest!: set_update_subset_insert [THEN subsetD])
  ultimately show ?thesis by (simp add: tx'_def l)
qed


lemma tx_poll:
  assumes "tx_ok tx" "io_ok io"
  shows "\<exists>status c1. tx_descriptor_free hw io tx c = Inr (status AND push_bit 13 1 \<noteq> 0, c1) \<and> outputs c1 = outputs c
    \<and> cpu_trace c1 = In32 (io + REG_TSD0 + 4 * ucast (tx_current_descriptor tx)) status # cpu_trace c"
proof -
  have "unat (tx_current_descriptor tx) < 4" using assms(1) by (simp add: tx_ok_def word_less_nat_alt)
  then have p: "tx_port io REG_TSD0 (tx_current_descriptor tx) = Inr (io + REG_TSD0 + 4 * ucast (tx_current_descriptor tx))"
    "tx_port io REG_TSAD0 (tx_current_descriptor tx) = Inr (io + REG_TSAD0 + 4 * ucast (tx_current_descriptor tx))"
    using tx_port_ok [OF assms(2)] by (simp_all add: REG_TSAD0_def REG_TSD0_def)
  have "outputs (snd (indw hw pt c)) = outputs c" for pt by simp
  then show ?thesis by (simp add: tx_descriptor_free_def Let_def p indw_def)
qed

text \<open>The card refused the descriptor: its last answer has the OWN bit clear.\<close>

definition refused :: "u16 \<Rightarrow> u8 \<Rightarrow> cpu \<Rightarrow> bool" where
  "refused io d c \<longleftrightarrow> (\<exists>status tr. cpu_trace c = In32 (io + REG_TSD0 + 4 * ucast d) status # tr \<and> status AND push_bit 13 1 = 0)"

lemma flush_loop_sends:
  assumes "io_ok io"
  shows "tx_ok tx \<Longrightarrow> packets (tx_queue tx) = ps \<Longrightarrow>
    \<exists>k tx' c'. flush_loop hw io tx c = Inr (tx', c') \<and> tx_ok tx' \<and> k \<le> length ps
      \<and> packets (tx_queue tx') = drop k ps
      \<and> tx_current_descriptor tx' = descriptor_after (tx_current_descriptor tx) (take k ps)
      \<and> tx_buffers tx' = stored (tx_current_descriptor tx) (take k ps) (tx_buffers tx)
      \<and> outputs c' = outputs c @ sent io (tx_buffers_addr tx) (tx_current_descriptor tx) (take k ps)
      \<and> (k = length ps \<or> refused io (tx_current_descriptor tx') c')"
proof (induction ps arbitrary: tx c)
  case Nil
  have "pq_size (tx_queue tx) = 0" using packets_length [of "tx_queue tx"] Nil.prems(2) by simp
  then show ?case using Nil.prems by (subst flush_loop.simps) simp
next
  case (Cons p ps)
  let ?d = "tx_current_descriptor tx"
  have sz: "pq_size (tx_queue tx) \<noteq> 0" using packets_length [of "tx_queue tx"] Cons.prems(2) by simp
  obtain status c1 where c1: "tx_descriptor_free hw io tx c = Inr (status AND push_bit 13 1 \<noteq> 0, c1)" "outputs c1 = outputs c"
    "cpu_trace c1 = In32 (io + REG_TSD0 + 4 * ucast ?d) status # cpu_trace c"
    using tx_poll [OF Cons.prems(1) assms] by blast
  show ?case
  proof (cases "status AND push_bit 13 1 = 0")
    case True
    then have "flush_loop hw io tx c = Inr (tx, c1)" using sz c1(1) by (subst flush_loop.simps) simp
    moreover have "refused io ?d c1" unfolding refused_def using c1(3) True by blast
    ultimately show ?thesis using Cons.prems c1(2) by (intro exI [of _ 0]) simp
  next
    case False
    have "pq_ok (tx_queue tx)" using Cons.prems(1) by (simp add: tx_ok_def)
    then obtain fr q where fr: "pq_pop (tx_queue tx) = Inr (Some fr, q)" "payload fr = p" "frame_ok fr" "pq_ok q" "packets q = ps"
      using pq_pop_spec Cons.prems(2) by blast
    have "tx_ok (tx\<lparr>tx_queue := q\<rparr>)" using Cons.prems(1) fr(4) by (simp add: tx_ok_def)
    from send_frame_ok [OF this assms fr(3), of c1] obtain tx1 c2 where s:
      "send_frame io fr (tx\<lparr>tx_queue := q\<rparr>) c1 = Inr (tx1, c2)" "tx_ok tx1" "tx_queue tx1 = q"
      "tx_current_descriptor tx1 = (?d + 1) mod 4" "tx_buffers_addr tx1 = tx_buffers_addr tx"
      "tx_buffers tx1 = stored ?d [p] (tx_buffers tx)"
      "outputs c2 = outputs c @ sent io (tx_buffers_addr tx) ?d [p]"
      by (auto simp: fr(2) c1(2))
    have "flush_loop hw io tx c = flush_loop hw io tx1 c2"
      using sz c1(1) fr(1) s(1) False by (subst flush_loop.simps) simp
    moreover from Cons.IH [OF s(2), of c2] obtain k tx' c' where
      "flush_loop hw io tx1 c2 = Inr (tx', c')" "tx_ok tx'" "k \<le> length ps" "packets (tx_queue tx') = drop k ps"
      "tx_current_descriptor tx' = descriptor_after (tx_current_descriptor tx1) (take k ps)"
      "tx_buffers tx' = stored (tx_current_descriptor tx1) (take k ps) (tx_buffers tx1)"
      "outputs c' = outputs c2 @ sent io (tx_buffers_addr tx1) (tx_current_descriptor tx1) (take k ps)"
      "k = length ps \<or> refused io (tx_current_descriptor tx') c'"
      using s(3) fr(5) by auto
    ultimately show ?thesis
      using s by (intro exI [of _ "Suc k"] exI [of _ tx'] exI [of _ c']) simp
  qed
qed

text \<open>
  C20. Sending keeps order and loses nothing. \<open>transmit\<close> refuses packets of more than 1792 bytes without
  any effect and otherwise returns with the lock free; some prefix of the waiting packets,
  the new one last, has been handed to the card in order, one descriptor after the other,
  each with its bytes copied into the descriptor's buffer and its address and length written
  to the descriptor's registers; the rest still waits in order, and then the card refused
  the next descriptor.
\<close>

theorem transmit_in_order:
  assumes "io_ok (nic_io_base d)" and "\<not> is_locked (nic_tx d)" and "inner (nic_tx d) = tx" and "tx_ok tx"
    and "pq_size (tx_queue tx) < 64"
  shows "(length data > 1792 \<longrightarrow> transmit hw data d c = Some (Inr (d, c)))
    \<and> (length data \<le> 1792 \<longrightarrow> (\<exists>k d' c'. transmit hw data d c = Some (Inr (d', c'))
        \<and> \<not> is_locked (nic_tx d') \<and> nic_rx d' = nic_rx d \<and> tx_ok (inner (nic_tx d'))
        \<and> packets (tx_queue (inner (nic_tx d'))) = drop k (packets (tx_queue tx) @ [data])
        \<and> tx_buffers (inner (nic_tx d')) = stored (tx_current_descriptor tx) (take k (packets (tx_queue tx) @ [data])) (tx_buffers tx)
        \<and> outputs c' = outputs c @ sent (nic_io_base d) (tx_buffers_addr tx) (tx_current_descriptor tx) (take k (packets (tx_queue tx) @ [data]))
        \<and> (packets (tx_queue (inner (nic_tx d'))) = [] \<or> refused (nic_io_base d) (tx_current_descriptor (inner (nic_tx d'))) c')))"
proof -
  have l: "nic_tx d = \<lparr>sl_lock = False, sl_data = tx\<rparr>" using assms(2,3) by (simp add: spinlock_defs)
  have big: "transmit hw data d c = Some (Inr (d, c))" if "length data > 1792"
    using that l by (cases d) (simp add: transmit_def lock_eq spinlock_defs)
  have "\<exists>k d' c'. transmit hw data d c = Some (Inr (d', c'))
        \<and> \<not> is_locked (nic_tx d') \<and> nic_rx d' = nic_rx d \<and> tx_ok (inner (nic_tx d'))
        \<and> packets (tx_queue (inner (nic_tx d'))) = drop k (packets (tx_queue tx) @ [data])
        \<and> tx_buffers (inner (nic_tx d')) = stored (tx_current_descriptor tx) (take k (packets (tx_queue tx) @ [data])) (tx_buffers tx)
        \<and> outputs c' = outputs c @ sent (nic_io_base d) (tx_buffers_addr tx) (tx_current_descriptor tx) (take k (packets (tx_queue tx) @ [data]))
        \<and> (packets (tx_queue (inner (nic_tx d'))) = [] \<or> refused (nic_io_base d) (tx_current_descriptor (inner (nic_tx d'))) c')"
    if small: "length data \<le> 1792"
  proof -
    obtain q where q: "pq_push data (tx_queue tx) = Inr q" "pq_ok q" "packets q = packets (tx_queue tx) @ [data]"
      using pq_push_room [of "tx_queue tx" data] assms(4,5) small by (auto simp: tx_ok_def QUEUE_CAPACITY_def)
    define tx1 where "tx1 = tx\<lparr>tx_queue := q\<rparr>"
    have "tx_ok tx1" using assms(4) q(2) by (simp add: tx_ok_def tx1_def)
    from flush_loop_sends [OF assms(1) this, of "packets (tx_queue tx) @ [data]" hw c] obtain k tx' c' where
      f: "flush_loop hw (nic_io_base d) tx1 c = Inr (tx', c')" "tx_ok tx'" "k \<le> length (packets (tx_queue tx) @ [data])"
      "packets (tx_queue tx') = drop k (packets (tx_queue tx) @ [data])"
      "tx_buffers tx' = stored (tx_current_descriptor tx) (take k (packets (tx_queue tx) @ [data])) (tx_buffers tx)"
      "outputs c' = outputs c @ sent (nic_io_base d) (tx_buffers_addr tx) (tx_current_descriptor tx) (take k (packets (tx_queue tx) @ [data]))"
      "k = length (packets (tx_queue tx) @ [data]) \<or> refused (nic_io_base d) (tx_current_descriptor tx') c'"
      using q(3) by (auto simp: tx1_def)
    have "transmit hw data d c = Some (Inr (d\<lparr>nic_tx := spinlock_new tx'\<rparr>, c'))"
      using small l q(1) f(1) by (simp add: transmit_def lock_eq spinlock_defs flush_tx_queue_def tx1_def)
    then show ?thesis
      using f by (intro exI [of _ k] exI [of _ "d\<lparr>nic_tx := spinlock_new tx'\<rparr>"] exI [of _ c']) auto
  qed
  then show ?thesis using big by blast
qed

theorem transmit_in_order_witness:
  "\<exists>k d' c'. transmit demo_card [1, 2, 3] demo_nic boot_cpu = Some (Inr (d', c'))
     \<and> packets (tx_queue (inner (nic_tx d'))) = drop k [[1, 2, 3]]"
proof -
  have n: "nic_io_base demo_nic = 0xc000" "inner (nic_tx demo_nic) = tx_state_new 0x110000"
    "\<not> is_locked (nic_tx demo_nic)" by (simp_all add: demo_nic_def rtl8139_new_def)
  have ok: "io_ok (nic_io_base demo_nic)" "tx_ok (tx_state_new 0x110000)" "pq_size (tx_queue (tx_state_new 0x110000)) < 64"
    "packets (tx_queue (tx_state_new 0x110000)) = []"
    by (simp_all add: n io_ok_def tx_ok_def tx_state_new_def pq_new) (simp add: packet_queue_new_def)
  show ?thesis
    using transmit_in_order [OF ok(1) n(3,2) ok(2,3), of "[1, 2, 3]" demo_card boot_cpu] ok(4) by auto
qed

end
