(* ===== verification/Plugin.thy ===== *)
theory Plugin
  imports Pit Keyboard Pci Rtl8139
begin

text \<open>
  How the drivers are attached to their interrupt lines: \<open>plugin\<close> of
  \<^verbatim>\<open>kernel/src/device/pit.rs\<close> (in theory \<open>Pit\<close>), of \<^verbatim>\<open>keyboard.rs\<close> and of \<^verbatim>\<open>rtl8139.rs\<close>. Each opens a
  line of the interrupt controller and registers a routine in the vector map; a line that is open
  without a routine would make the dispatcher panic. The line that the last plugin logs when it finds
  a card is left out.
\<close>

subsection \<open>The plugins\<close>

definition keyboard_plugin :: "hw \<Rightarrow> isr int_vectors spinlock \<Rightarrow> cpu \<Rightarrow> (isr int_vectors spinlock \<times> cpu) res option" where
  "keyboard_plugin hw vectors c =
     (case allow hw irq.Keyboard c of
        Inl e \<Rightarrow> Some (Inl e)
      | Inr c1 \<Rightarrow>
          (case register interrupt_vector.Keyboard KeyboardISR vectors c1 of
             (None, _) \<Rightarrow> None
           | (Some r, c2) \<Rightarrow> Some (and_then r (\<lambda>v. Inr (v, c2)))))"

definition Command_IoEnable :: u16 where "Command_IoEnable = 0x0001"
definition Command_BusMasterEnable :: u16 where "Command_BusMasterEnable = 0x0004"

text \<open>\<open>find\<close>: the first device with the two identifiers; the second is read only when the first matches.\<close>

fun find_nic :: "hw \<Rightarrow> pci_bus \<Rightarrow> pci_device list \<Rightarrow> cpu \<Rightarrow> (pci_device option \<times> cpu) option" where
  "find_nic hw pb [] c = Some (None, c)"
| "find_nic hw pb (d # ds) c =
     (case read_vendor_id hw pb d c of
        None \<Rightarrow> None
      | Some (vendor, c1) \<Rightarrow>
          if vendor \<noteq> 0x10ec then find_nic hw pb ds c1
          else
            (case read_device_id hw pb d c1 of
               None \<Rightarrow> None
             | Some (device, c2) \<Rightarrow> if device = 0x8139 then Some (Some d, c2) else find_nic hw pb ds c2))"

definition nic_irq :: "u8 \<Rightarrow> irq res" where
  "nic_irq irq_num =
     (if irq_num = 9 then Inr irq.Free1 else if irq_num = 10 then Inr irq.Free2 else if irq_num = 11 then Inr irq.Free3
      else Inl (PanicMsg ''Unsupported PCI IRQ''))"

text \<open>Open the line of the card and register its routine.\<close>

definition nic_register :: "hw \<Rightarrow> u8 \<Rightarrow> isr int_vectors spinlock \<Rightarrow> cpu \<Rightarrow> (isr int_vectors spinlock \<times> cpu) res option" where
  "nic_register hw irq_num vectors c =
     (case nic_irq irq_num of
        Inl e \<Rightarrow> Some (Inl e)
      | Inr irq \<Rightarrow>
          (case allow hw irq c of
             Inl e \<Rightarrow> Some (Inl e)
           | Inr c1 \<Rightarrow>
               (case uadd irq_num 32 of
                  Inl e \<Rightarrow> Some (Inl e)
                | Inr vector_num \<Rightarrow>
                    (case register_dynamic (unat vector_num) Rtl8139ISR vectors c1 of
                       (None, _) \<Rightarrow> None
                     | (Some r, c2) \<Rightarrow> Some (and_then r (\<lambda>v. Inr (v, c2)))))))"

definition nic_enable :: "hw \<Rightarrow> pci_bus \<Rightarrow> pci_device \<Rightarrow> cpu \<Rightarrow> cpu option" where
  "nic_enable hw pb dev c =
     (case dev_read_command hw pb dev c of
        None \<Rightarrow> None
      | Some (cmd, c1) \<Rightarrow> dev_write_command hw pb dev (cmd OR Command_IoEnable OR Command_BusMasterEnable) c1)"

definition rtl8139_plugin ::
  "hw \<Rightarrow> pci_bus \<Rightarrow> u64 \<Rightarrow> u64 \<Rightarrow> rtl8139 option \<Rightarrow> isr int_vectors spinlock \<Rightarrow> cpu
     \<Rightarrow> (rtl8139 option \<times> isr int_vectors spinlock \<times> cpu) res option" where
  "rtl8139_plugin hw pb rx_addr tx_addr nic vectors c =
     (case find_nic hw pb (pb_devices pb) c of
        None \<Rightarrow> None
      | Some (None, c1) \<Rightarrow> Some (Inr (nic, vectors, c1))
      | Some (Some dev, c1) \<Rightarrow>
          (case nic_enable hw pb dev c1 of
             None \<Rightarrow> None
           | Some c2 \<Rightarrow>
               (case read_bar hw pb dev 0 c2 of
                  None \<Rightarrow> None
                | Some (Inl e) \<Rightarrow> Some (Inl e)
                | Some (Inr (bar0, c3)) \<Rightarrow>
                    if bar0 AND 1 = 0 then Some (Inl (PanicMsg ''RTL8139 MMIO is not supported''))
                    else
                      (case init_rtl8139 hw rx_addr tx_addr (ucast (bar0 AND 0xfffc)) nic c3 of
                         None \<Rightarrow> None
                       | Some (Inl e) \<Rightarrow> Some (Inl e)
                       | Some (Inr (d, c4)) \<Rightarrow>
                           (case read_interrupt_line hw pb dev c4 of
                              None \<Rightarrow> None
                            | Some (irq_num, c5) \<Rightarrow>
                                (case nic_register hw irq_num vectors c5 of
                                   None \<Rightarrow> None
                                 | Some r \<Rightarrow> Some (and_then r (\<lambda>(v, c6). Inr (Some d, v, c6)))))))))"

subsection \<open>Lines and routines\<close>

text \<open>Every line that reaches the processor has a routine; the cascade line carries no interrupt itself.\<close>

definition wired :: "isr int_vectors spinlock \<Rightarrow> cpu \<Rightarrow> bool" where
  "wired vectors c \<longleftrightarrow> \<not> is_locked vectors \<and> length (inner vectors) = IDT_SIZE
     \<and> (\<forall>i. enabled c i \<and> i \<noteq> irq.Cascade \<longrightarrow> inner vectors ! (32 + unat (irq_number i)) \<noteq> None)"

text \<open>Port accesses that touch neither the masks nor the interrupt flag.\<close>

definition keeps_masks :: "cpu \<Rightarrow> cpu \<Rightarrow> bool" where
  "keeps_masks c c' \<longleftrightarrow> last_out Data1 (cpu_trace c') = last_out Data1 (cpu_trace c)
     \<and> last_out Data2 (cpu_trace c') = last_out Data2 (cpu_trace c) \<and> cpu_rflags c' = cpu_rflags c"

lemma keeps_enabled: "keeps_masks c c' \<Longrightarrow> enabled c' = enabled c"
  by (simp add: keeps_masks_def enabled_def fun_eq_iff)

lemma keeps_int: "keeps_masks c c' \<Longrightarrow> is_int_enabled c' = is_int_enabled c"
  by (simp add: keeps_masks_def is_int_enabled_def get_flags_def)

lemma keeps_wired: "keeps_masks c c' \<Longrightarrow> wired v c' = wired v c"
  by (simp add: wired_def keeps_enabled)

lemma keeps_refl [simp]: "keeps_masks c c"
  by (simp add: keeps_masks_def)

lemma keeps_trans: "keeps_masks a b \<Longrightarrow> keeps_masks b c \<Longrightarrow> keeps_masks a c"
  by (simp add: keeps_masks_def)

lemma keeps_ports:
  "keeps_masks c (outdw p v c)" "keeps_masks c (outw p w c)" "keeps_masks c (snd (indw hw p c))" "keeps_masks c (snd (inb hw p c))"
  "p \<noteq> Data1 \<Longrightarrow> p \<noteq> Data2 \<Longrightarrow> keeps_masks c (outb p b c)"
  by (simp_all add: keeps_masks_def port_defs)

lemma register_dynamic_free:
  assumes "\<not> is_locked vectors" "n < length (inner vectors)"
  shows "\<exists>c'. register_dynamic n r vectors c = (Some (Inr (spinlock_new ((inner vectors)[n := Some r]))), c')
    \<and> cpu_trace c' = cpu_trace c \<and> (\<not> is_int_enabled c \<longrightarrow> \<not> is_int_enabled c')"
proof -
  have "replace_entry n r vectors = Some (Inr (spinlock_new ((inner vectors)[n := Some r])))"
    using assms by (simp add: replace_entry_def lock_eq spinlock_defs)
  then show ?thesis
    by (simp add: register_dynamic_def without_interrupts_def disable_int_nested_def enable_int_nested_def
        enable_int_def disable_int_def is_int_enabled_bit bit_and_iff bit_not_iff bit_RFLAGS_IF)
qed

lemma register_is_dynamic: "register v r = register_dynamic (vector_number v) r"
  by (simp add: fun_eq_iff register_def register_dynamic_def)

lemma attach_wires:
  assumes w: "wired vectors c" and hw: "masks_readable hw"
  shows "\<exists>c1 v' c2. allow hw irq c = Inr c1 \<and> register_dynamic (32 + unat (irq_number irq)) r vectors c1 = (Some (Inr v'), c2)
    \<and> wired v' c2 \<and> inner v' = (inner vectors)[32 + unat (irq_number irq) := Some r]
    \<and> (\<forall>j. enabled c2 j \<longleftrightarrow> j = irq \<or> enabled c j) \<and> (\<not> is_int_enabled c \<longrightarrow> \<not> is_int_enabled c2)"
proof -
  let ?n = "32 + unat (irq_number irq)"
  obtain c1 where c1: "allow hw irq c = Inr c1" "\<And>j. enabled c1 j \<longleftrightarrow> j = irq \<or> enabled c j" "cpu_rflags c1 = cpu_rflags c"
    using allow_enables [OF hw] by blast
  have v: "\<not> is_locked vectors" "length (inner vectors) = IDT_SIZE" using w by (simp_all add: wired_def)
  have n: "?n < length (inner vectors)" using v(2) line_facts(1) [of irq] by (simp add: IDT_SIZE_def)
  obtain c2 where c2: "register_dynamic ?n r vectors c1 = (Some (Inr (spinlock_new ((inner vectors)[?n := Some r]))), c2)"
    "cpu_trace c2 = cpu_trace c1" "\<not> is_int_enabled c1 \<longrightarrow> \<not> is_int_enabled c2" using register_dynamic_free [OF v(1) n] by blast
  have e: "enabled c2 j \<longleftrightarrow> j = irq \<or> enabled c j" for j
    unfolding c1(2) [symmetric] by (simp add: enabled_def c2(2))
  have f: "\<not> is_int_enabled c \<longrightarrow> \<not> is_int_enabled c2" using c1(3) c2(3) by (simp add: is_int_enabled_def get_flags_def)
  have "wired (spinlock_new ((inner vectors)[?n := Some r])) c2"
    using w e n by (auto simp: wired_def nth_list_update)
  then show ?thesis using c1(1) c2(1) e f by (intro exI [of _ c1] exI [of _ "spinlock_new ((inner vectors)[?n := Some r])"] exI [of _ c2]) simp
qed

lemma pit_plugin_wires:
  assumes "wired vectors c" "masks_readable hw"
  shows "\<exists>v' c'. pit_plugin hw False vectors c = Some (Inr (v', c')) \<and> wired v' c'
    \<and> inner v' = (inner vectors)[0x20 := Some (TimerISR 1)] \<and> (\<forall>j. enabled c' j \<longleftrightarrow> j = Timer \<or> enabled c j)
    \<and> (\<not> is_int_enabled c \<longrightarrow> \<not> is_int_enabled c')"
proof -
  have "\<exists>c1. set_interrupt_interval TIMER_INTERRUPT_INTERVAL_MS c = Inr c1 \<and> keeps_masks c c1"
    by (simp add: set_interrupt_interval_def TIMER_INTERRUPT_INTERVAL_MS_def nmul_def Let_def keeps_masks_def outb_def
        PIT_CONTROL_def PIT_DATA_def Data1_def Data2_def)
  then obtain c1 where c1: "set_interrupt_interval TIMER_INTERRUPT_INTERVAL_MS c = Inr c1" "keeps_masks c c1" by blast
  have "wired vectors c1" using assms(1) keeps_wired [OF c1(2)] by simp
  from attach_wires [OF this assms(2), of Timer "TimerISR 1"] show ?thesis
    using c1(1) keeps_enabled [OF c1(2)] keeps_int [OF c1(2)]
    by (auto simp: pit_plugin_def register_is_dynamic TIMER_INTERRUPT_INTERVAL_MS_def)
qed

lemma keyboard_plugin_wires:
  assumes "wired vectors c" "masks_readable hw"
  shows "\<exists>v' c'. keyboard_plugin hw vectors c = Some (Inr (v', c')) \<and> wired v' c'
    \<and> inner v' = (inner vectors)[0x21 := Some KeyboardISR] \<and> (\<forall>j. enabled c' j \<longleftrightarrow> j = irq.Keyboard \<or> enabled c j)
    \<and> (\<not> is_int_enabled c \<longrightarrow> \<not> is_int_enabled c')"
  using attach_wires [OF assms, of irq.Keyboard KeyboardISR] by (auto simp: keyboard_plugin_def register_is_dynamic)

subsection \<open>The network card\<close>

lemma pci_keeps:
  "read32 hw pb b d f r c = Some (v32, c') \<Longrightarrow> keeps_masks c c'"
  "write32 pb b d f r x c = Some c' \<Longrightarrow> keeps_masks c c'"
  by (auto simp: read32_def write32_def keeps_masks_def port_defs split: option.splits)

lemma pci_keeps_small:
  "read16 hw pb b d f r c = Some (v16, c') \<Longrightarrow> keeps_masks c c'"
  "read8 hw pb b d f r c = Some (v8, c') \<Longrightarrow> keeps_masks c c'"
  "write16 hw pb b d f r y c = Some c' \<Longrightarrow> keeps_masks c c'"
  by (auto simp: read16_def read8_def write16_def split: option.splits prod.splits
      dest!: pci_keeps intro: pci_keeps keeps_trans)

lemma for_each_keeps:
  assumes "\<And>x s s'. f x s = Some s' \<Longrightarrow> keeps_masks (snd s) (snd s')"
  shows "for_each xs f s = Some s' \<Longrightarrow> keeps_masks (snd s) (snd s')"
  by (induction xs arbitrary: s) (auto split: option.splits dest: assms intro: keeps_trans)

lemma check_function_keeps:
  assumes "\<And>b s s'. sc b s = Some s' \<Longrightarrow> keeps_masks (snd s) (snd s')"
  shows "check_function hw sc b d f s = Some s' \<Longrightarrow> keeps_masks (snd s) (snd s')"
  by (cases s) (auto simp: check_function_def split: option.splits if_splits dest!: assms pci_keeps_small; meson keeps_trans)

lemma check_device_keeps:
  assumes "\<And>b s s'. sc b s = Some s' \<Longrightarrow> keeps_masks (snd s) (snd s')"
  shows "check_device hw sc b d s = Some s' \<Longrightarrow> keeps_masks (snd s) (snd s')"
proof -
  have cf: "check_function hw sc b d f s = Some s' \<Longrightarrow> keeps_masks (snd s) (snd s')" for f s s'
    by (rule check_function_keeps [where sc = sc]) (rule assms)
  have further: "check_further hw sc b d x s = Some s' \<Longrightarrow> keeps_masks (snd s) (snd s')" for x s s'
    by (cases s) (auto simp: check_further_def split: option.splits if_splits dest!: cf pci_keeps_small; meson keeps_trans)
  have fe: "for_each xs (check_further hw sc b d) s = Some s' \<Longrightarrow> keeps_masks (snd s) (snd s')" for xs s s'
    by (rule for_each_keeps) (rule further)
  assume "check_device hw sc b d s = Some s'"
  then show ?thesis
    by (cases s) (auto simp: check_device_def split: option.splits if_splits dest!: cf fe pci_keeps_small; meson keeps_trans)
qed

lemma scan_bus_keeps: "scan_bus n hw b s = Some s' \<Longrightarrow> keeps_masks (snd s) (snd s')"
proof (induction n arbitrary: b s s')
  case (Suc n)
  show ?case by (rule for_each_keeps [OF check_device_keeps [OF Suc.IH] Suc.prems [unfolded scan_bus.simps]])
qed simp

lemma scan_hosts_keeps: "scan_hosts n hw fs s = Some s' \<Longrightarrow> keeps_masks (snd s) (snd s')"
proof (induction n hw fs s rule: scan_hosts.induct)
  case (2 n hw f fs pb c)
  obtain v c1 where r: "read16 hw pb 0 0 (of_nat f) R_VendorId c = Some (v, c1)"
    using "2.prems" by (auto split: option.splits)
  note k = pci_keeps_small(1) [OF r]
  show ?case
  proof (cases "v = INVALID_VENDOR_ID")
    case True
    then obtain s1 where s1: "scan_bus n hw (of_nat f) (pb, c1) = Some s1" "scan_hosts n hw fs s1 = Some s'"
      using "2.prems" r by (auto split: option.splits)
    then show ?thesis
      using "2.IH" [OF r refl _ s1(1)] True scan_bus_keeps [OF s1(1)] k keeps_trans by (metis snd_conv)
  next
    case False
    then show ?thesis using "2.prems" r k by auto
  qed
qed simp

lemma scan_keeps: "scan n hw s = Some s' \<Longrightarrow> keeps_masks (snd s) (snd s')"
  by (cases s) (auto simp: scan_def split: option.splits if_splits
      dest!: scan_bus_keeps scan_hosts_keeps pci_keeps_small; meson keeps_trans)

lemmas pci_device_defs = read_vendor_id_def read_device_id_def dev_read_command_def dev_write_command_def
  read_interrupt_line_def dev_read16_def dev_read8_def dev_write16_def dev_read32_def

lemma find_nic_keeps: "find_nic hw pb ds c = Some (r, c') \<Longrightarrow> keeps_masks c c'"
  by (induction ds arbitrary: c)
    (auto simp: pci_device_defs split: option.splits prod.splits if_splits dest!: pci_keeps_small intro: keeps_trans)

lemma nic_enable_keeps: "nic_enable hw pb dev c = Some c' \<Longrightarrow> keeps_masks c c'"
  by (auto simp: nic_enable_def pci_device_defs split: option.splits dest!: pci_keeps_small intro: keeps_trans)

lemma read_bar_keeps: "read_bar hw pb dev k c = Some (Inr (v, c')) \<Longrightarrow> keeps_masks c c'"
  by (auto simp: read_bar_def pci_device_defs and_then_eq_Inr split: option.splits if_splits sum.splits dest!: pci_keeps)

lemma high_port:
  assumes "uadd io r = Inr p" "256 \<le> unat io"
  shows "p \<noteq> Data1 \<and> p \<noteq> Data2"
  using uadd_Inr_unat [OF assms(1)] assms(2) by (auto simp: Data1_def Data2_def)

lemma read_command_keeps: "Rtl8139.read_command hw io c = Inr (v, c') \<Longrightarrow> keeps_masks c c'"
  using keeps_ports(4) by (auto simp: Rtl8139.read_command_def and_then_eq_Inr) (metis snd_conv)

lemma reset_loop_keeps: "reset_loop hw io c = Some r \<Longrightarrow> \<forall>d. r = Inr d \<longrightarrow> keeps_masks c d"
proof (rule reset_loop.raw_induct [where P = "\<lambda>hw io c r. \<forall>d. r = Inr d \<longrightarrow> keeps_masks c d"])
  fix loop hw io c y
  assume ih: "\<And>hw io c y. loop hw io c = Some y \<Longrightarrow> \<forall>d. y = Inr d \<longrightarrow> keeps_masks c d"
    and body: "(case Rtl8139.read_command hw io c of
        Inl e \<Rightarrow> Some (Inl e)
      | Inr (v, c') \<Rightarrow> if v AND RESET \<noteq> 0 then loop hw io c' else Some (Inr c')) = Some y"
  show "\<forall>d. y = Inr d \<longrightarrow> keeps_masks c d"
  proof (cases "Rtl8139.read_command hw io c")
    case (Inl e)
    then show ?thesis using body by auto
  next
    case (Inr vc)
    obtain v c1 where vc: "vc = (v, c1)" by force
    then have k: "keeps_masks c c1" using Inr read_command_keeps by simp
    show ?thesis
    proof (cases "v AND RESET \<noteq> 0")
      case True
      then have "loop hw io c1 = Some y" using body Inr vc by simp
      then show ?thesis using ih keeps_trans [OF k] by blast
    next
      case False
      then show ?thesis using body Inr vc k by auto
    qed
  qed
qed

lemma init_rtl8139_keeps:
  assumes r: "init_rtl8139 hw ra ta io None c = Some (Inr (d, c'))" and io: "256 \<le> unat (nic_io_base d)"
  shows "keeps_masks c c'"
proof -
  have out32: "keeps_masks x y" if "and_then (uadd io r) (\<lambda>p. Inr (outdw p b x)) = Inr y" for r b x y
    using that keeps_ports(1) by (auto simp: and_then_eq_Inr)
  have out16: "keeps_masks x y" if "and_then (uadd io r) (\<lambda>p. Inr (outw p b x)) = Inr y" for r b x y
    using that keeps_ports(2) by (auto simp: and_then_eq_Inr)
  define nic where "nic = rtl8139_new ra ta io"
  have nic: "nic_io_base nic = io" "lock (nic_rx nic) = Some \<lparr>sl_lock = True, sl_data = rx_state_new ra\<rparr>"
    by (simp_all add: nic_def rtl8139_new_def lock_eq spinlock_new_def)
  obtain c1 c2 c2' c3 c4 c5 where st: "power_on io c = Inr c1" "Rtl8139.write_command io RESET c1 = Inr c2'"
    "reset_loop hw io c2' = Some (Inr c2)" "init_rx_buffer nic c2 = Some (Inr c3)" "allow_interrupts io c3 = Inr c4"
    "configure_receive_buffer io c4 = Inr c5" "enable_rx_tx io c5 = Inr c'" "d = nic"
    using r unfolding init_rtl8139_def option.case Let_def nic_def [symmetric] nic(1)
    by (auto simp: and_then_eq_Inr software_reset_def split: sum.splits option.splits)
  have high: "256 \<le> unat io" using io st(8) nic(1) by simp
  have out: "keeps_masks x y" if "and_then (uadd io r) (\<lambda>p. Inr (outb p b x)) = Inr y" for r b x y
    using that high_port [OF _ high] keeps_ports(5) by (auto simp: and_then_eq_Inr)
  have "keeps_masks c c1" using st(1) by (auto simp: power_on_def intro: out)
  moreover have "keeps_masks c1 c2'" using st(2) by (auto simp: Rtl8139.write_command_def intro: out)
  moreover have "keeps_masks c2' c2" using reset_loop_keeps [OF st(3)] by blast
  moreover have "keeps_masks c2 c3" using st(4) by (auto simp: init_rx_buffer_def nic intro: out32)
  moreover have "keeps_masks c3 c4" using st(5) by (auto simp: allow_interrupts_def intro: out16)
  moreover have "keeps_masks c4 c5" using st(6) by (auto simp: configure_receive_buffer_def intro: out32)
  moreover have "keeps_masks c5 c'" using st(7) by (auto simp: enable_rx_tx_def Rtl8139.write_command_def intro: out)
  ultimately show ?thesis using keeps_trans by metis
qed

lemma nic_register_wires:
  assumes w: "wired vectors c" "masks_readable hw" and r: "nic_register hw n vectors c = Some (Inr (v', c'))"
  shows "wired v' c' \<and> n \<in> {9, 10, 11} \<and> inner v' = (inner vectors)[32 + unat n := Some Rtl8139ISR]
    \<and> (\<forall>j. enabled c' j \<longleftrightarrow> irq_number j = n \<or> enabled c j) \<and> (\<not> is_int_enabled c \<longrightarrow> \<not> is_int_enabled c')"
proof -
  obtain i where i: "nic_irq n = Inr i" using r by (auto simp: nic_register_def split: sum.splits)
  then have n: "irq_number i = n" "n \<in> {9, 10, 11}" "uadd n 32 = Inr (n + 32)" "unat (n + 32) = 32 + unat (irq_number i)"
    by (auto simp: nic_irq_def uadd_nat split: if_splits)
  have inj: "irq_number j = n \<longleftrightarrow> j = i" for j using n(1) irq_numbers(2) by metis
  obtain c1 v2 c2 where a: "allow hw i c = Inr c1" "register_dynamic (32 + unat (irq_number i)) Rtl8139ISR vectors c1 = (Some (Inr v2), c2)"
    "wired v2 c2" "inner v2 = (inner vectors)[32 + unat (irq_number i) := Some Rtl8139ISR]" "\<forall>j. enabled c2 j \<longleftrightarrow> j = i \<or> enabled c j"
    "\<not> is_int_enabled c \<longrightarrow> \<not> is_int_enabled c2"
    using attach_wires [OF w, of i Rtl8139ISR] by blast
  have "nic_register hw n vectors c = Some (Inr (v2, c2))" using i a(1,2) n(3,4) by (simp add: nic_register_def)
  then have "v' = v2" "c' = c2" using r by simp_all
  then show ?thesis using a(3-6) n(1,2) inj by simp
qed

lemma rtl8139_plugin_wires:
  assumes w: "wired vectors c" "masks_readable hw"
    and r: "rtl8139_plugin hw pb ra ta None vectors c = Some (Inr (nic, v', c'))"
    and io: "\<forall>d. nic = Some d \<longrightarrow> 256 \<le> unat (nic_io_base d)"
  shows "wired v' c' \<and> (\<forall>j. enabled c j \<longrightarrow> enabled c' j) \<and> (\<forall>k < 41. inner v' ! k = inner vectors ! k)
    \<and> (\<not> is_int_enabled c \<longrightarrow> \<not> is_int_enabled c')"
proof -
  obtain dev c1 where f: "find_nic hw pb (pb_devices pb) c = Some (dev, c1)"
    using r by (auto simp: rtl8139_plugin_def split: option.splits)
  have k1: "keeps_masks c c1" by (rule find_nic_keeps [OF f])
  show ?thesis
  proof (cases dev)
    case None
    then have "v' = vectors" "c' = c1" using r f by (simp_all add: rtl8139_plugin_def)
    then show ?thesis using w keeps_wired [OF k1] keeps_enabled [OF k1] keeps_int [OF k1] by simp
  next
    case (Some dv)
    obtain c2 bar c3 d c4 n c5 where st: "nic_enable hw pb dv c1 = Some c2" "read_bar hw pb dv 0 c2 = Some (Inr (bar, c3))"
      "init_rtl8139 hw ra ta (ucast (bar AND 0xfffc)) None c3 = Some (Inr (d, c4))"
      "read_interrupt_line hw pb dv c4 = Some (n, c5)" "nic_register hw n vectors c5 = Some (Inr (v', c'))" "nic = Some d"
      using r f Some by (auto simp: rtl8139_plugin_def and_then_eq_Inr split: option.splits sum.splits if_splits)
    have "256 \<le> unat (nic_io_base d)" using io st(6) by simp
    then have "keeps_masks c3 c4" by (rule init_rtl8139_keeps [OF st(3)])
    moreover have "keeps_masks c1 c2" "keeps_masks c2 c3" using nic_enable_keeps [OF st(1)] read_bar_keeps [OF st(2)] by simp_all
    moreover have "keeps_masks c4 c5" using st(4) by (auto simp: pci_device_defs dest: pci_keeps_small)
    ultimately have k: "keeps_masks c c5" using k1 keeps_trans by metis
    have "wired vectors c5" using w keeps_wired [OF k] by simp
    from nic_register_wires [OF this w(2) st(5)] show ?thesis using keeps_enabled [OF k] keeps_int [OF k] by (auto simp: nth_list_update)
  qed
qed

text \<open>
  C8. After the interrupt controller is initialised, plugging in the timer and the keyboard returns
  without a panic, opens exactly their two lines besides the cascade and leads the vectors 32 and 33
  to their routines. The network card, when its plugin succeeds with a card whose ports lie above
  \<open>0xff\<close>, keeps both. At every point of this sequence each open line other than the cascade has a
  routine, so no device interrupt makes the dispatcher panic.
\<close>

theorem interrupts_wired_at_boot:
  assumes hw: "masks_readable hw" and init: "int_vectors_init int_vectors_new = Inr m"
  shows "wired (spinlock_new m) (pic_init c) \<and> (\<exists>v1 c1 v2 c2.
      pit_plugin hw False (spinlock_new m) (pic_init c) = Some (Inr (v1, c1)) \<and> wired v1 c1
    \<and> keyboard_plugin hw v1 c1 = Some (Inr (v2, c2)) \<and> wired v2 c2
    \<and> (\<forall>i. enabled c2 i \<longleftrightarrow> i = Timer \<or> i = irq.Keyboard \<or> i = irq.Cascade)
    \<and> inner v2 ! 0x20 = Some (TimerISR 1) \<and> inner v2 ! 0x21 = Some KeyboardISR
    \<and> (\<forall>pb ra ta nic v3 c3. rtl8139_plugin hw pb ra ta None v2 c2 = Some (Inr (nic, v3, c3))
         \<and> (\<forall>d. nic = Some d \<longrightarrow> 256 \<le> unat (nic_io_base d))
         \<longrightarrow> wired v3 c3 \<and> enabled c3 Timer \<and> enabled c3 irq.Keyboard
           \<and> inner v3 ! 0x20 = Some (TimerISR 1) \<and> inner v3 ! 0x21 = Some KeyboardISR))"
proof -
  have m: "m = replicate IDT_SIZE None" using init by (simp add: int_vectors_init_eq)
  have w0: "wired (spinlock_new m) (pic_init c)" using m init_enables by (simp add: wired_def)
  obtain v1 c1 where 1: "pit_plugin hw False (spinlock_new m) (pic_init c) = Some (Inr (v1, c1))" "wired v1 c1"
    "inner v1 = m[0x20 := Some (TimerISR 1)]" "\<forall>j. enabled c1 j \<longleftrightarrow> j = Timer \<or> enabled (pic_init c) j"
    using pit_plugin_wires [OF w0 hw] by auto
  obtain v2 c2 where 2: "keyboard_plugin hw v1 c1 = Some (Inr (v2, c2))" "wired v2 c2"
    "inner v2 = (inner v1)[0x21 := Some KeyboardISR]" "\<forall>j. enabled c2 j \<longleftrightarrow> j = irq.Keyboard \<or> enabled c1 j"
    using keyboard_plugin_wires [OF 1(2) hw] by blast
  have e: "\<forall>i. enabled c2 i \<longleftrightarrow> i = Timer \<or> i = irq.Keyboard \<or> i = irq.Cascade" using 1(4) 2(4) init_enables by auto
  have n: "inner v2 ! 0x20 = Some (TimerISR 1)" "inner v2 ! 0x21 = Some KeyboardISR"
    using 1(3) 2(3) m by (simp_all add: IDT_SIZE_def)
  have "wired v3 c3 \<and> enabled c3 Timer \<and> enabled c3 irq.Keyboard
      \<and> inner v3 ! 0x20 = Some (TimerISR 1) \<and> inner v3 ! 0x21 = Some KeyboardISR"
    if "rtl8139_plugin hw pb ra ta None v2 c2 = Some (Inr (nic, v3, c3)) \<and> (\<forall>d. nic = Some d \<longrightarrow> 256 \<le> unat (nic_io_base d))"
    for pb ra ta nic v3 c3
    using rtl8139_plugin_wires [OF 2(2) hw, of pb ra ta nic v3 c3] that e n by simp
  then show ?thesis using w0 1(1,2) 2(1,2) e n by (intro conjI exI) auto
qed

theorem interrupts_wired_at_boot_witness:
  "\<exists>m v1 c1 v2 c2. int_vectors_init int_vectors_new = Inr m
    \<and> pit_plugin mask_hw False (spinlock_new m) (pic_init quiet_cpu) = Some (Inr (v1, c1))
    \<and> keyboard_plugin mask_hw v1 c1 = Some (Inr (v2, c2)) \<and> enabled c2 Timer \<and> \<not> enabled c2 irq.Mouse
    \<and> inner v2 ! 0x21 = Some KeyboardISR"
proof -
  have i: "int_vectors_init int_vectors_new = Inr (replicate IDT_SIZE None :: isr int_vectors)" by (rule int_vectors_init_eq)
  show ?thesis using interrupts_wired_at_boot [OF mask_hw_readable i, of quiet_cpu] i by fastforce
qed

end
