(* ===== verification/Serial.thy ===== *)
theory Serial
  imports Cpu Text_Output Spinlock
begin

text \<open>
  \<^verbatim>\<open>kernel/src/device/serial.rs\<close>: the serial port, output only. The loop that waits for the port to
  accept a byte is a partial function; \<^term>\<open>None\<close> means that the port never becomes ready.
\<close>

subsection \<open>The port\<close>

datatype com_base_address = Com1 | Com2 | Com3 | Com4

fun com_address :: "com_base_address \<Rightarrow> u16" where
  "com_address Com1 = 0x3f8"
| "com_address Com2 = 0x2f8"
| "com_address Com3 = 0x3e8"
| "com_address Com4 = 0x2e8"

definition READY_TO_WRITE :: u8 where "READY_TO_WRITE = 0x20"

record com_port =
  com_data_port :: u16
  com_interrupt_control_port :: u16
  com_line_control_port :: u16
  com_line_status_port :: u16

definition com_port_new :: "com_base_address \<Rightarrow> com_port" where
  "com_port_new base_addr =
     \<lparr>com_data_port = com_address base_addr, com_interrupt_control_port = com_address base_addr + 1,
      com_line_control_port = com_address base_addr + 3, com_line_status_port = com_address base_addr + 5\<rparr>"

definition com_init :: "com_port \<Rightarrow> cpu \<Rightarrow> cpu" where
  "com_init p c =
     (let c1 = outb (com_interrupt_control_port p) 0x00 c;
          c2 = outb (com_line_control_port p) 0x80 c1;
          c3 = outb (com_data_port p) 0x01 c2;
          c4 = outb (com_interrupt_control_port p) 0x00 c3
      in outb (com_line_control_port p) 0x03 c4)"

partial_function (option) wait_ready :: "hw \<Rightarrow> com_port \<Rightarrow> cpu \<Rightarrow> cpu option" where
  "wait_ready hw p c =
     (case inb hw (com_line_status_port p) c of (status, c') \<Rightarrow>
        if status AND READY_TO_WRITE \<noteq> 0 then Some c' else wait_ready hw p c')"

text \<open>A newline is written after a carriage return; the recursive call is unfolded, as it is only one deep.\<close>

definition write_raw :: "hw \<Rightarrow> com_port \<Rightarrow> u8 \<Rightarrow> cpu \<Rightarrow> cpu option" where
  "write_raw hw p byte c =
     (case wait_ready hw p c of None \<Rightarrow> None | Some c' \<Rightarrow> Some (outb (com_data_port p) byte c'))"

definition write_byte :: "hw \<Rightarrow> com_port \<Rightarrow> u8 \<Rightarrow> cpu \<Rightarrow> cpu res option" where
  "write_byte hw p byte c =
     (case (if byte = 10 then write_raw hw p 13 c else Some c) of
        None \<Rightarrow> None
      | Some c1 \<Rightarrow> (case write_raw hw p byte c1 of None \<Rightarrow> None | Some c2 \<Rightarrow> Some (Inr c2)))"

definition com_write_str :: "hw \<Rightarrow> com_port \<Rightarrow> u8 list \<Rightarrow> cpu \<Rightarrow> cpu res option" where
  "com_write_str hw p = write_all (write_byte hw p)"

subsection \<open>Polling\<close>

primrec polls :: "nat \<Rightarrow> hw \<Rightarrow> u16 \<Rightarrow> cpu \<Rightarrow> cpu" where
  "polls 0 hw port c = c"
| "polls (Suc n) hw port c = polls n hw port (snd (inb hw port c))"

text \<open>The hardware hypothesis: however the port was used, it accepts a byte after finitely many polls.\<close>

definition com_live :: "hw \<Rightarrow> com_port \<Rightarrow> bool" where
  "com_live hw p \<longleftrightarrow> (\<forall>c. \<exists>n. fst (inb hw (com_line_status_port p) (polls n hw (com_line_status_port p) c)) AND READY_TO_WRITE \<noteq> 0)"

text \<open>Every byte on the data line was sent right after the port said it is ready.\<close>

fun handshaken :: "com_port \<Rightarrow> io_event list \<Rightarrow> bool" where
  "handshaken p (Out8 port v # In8 port' s # tr) \<longleftrightarrow>
     (port = com_data_port p \<longrightarrow> port' = com_line_status_port p \<and> s AND READY_TO_WRITE \<noteq> 0) \<and> handshaken p tr"
| "handshaken p (Out8 port v # tr) \<longleftrightarrow> port \<noteq> com_data_port p \<and> handshaken p tr"
| "handshaken p (e # tr) \<longleftrightarrow> handshaken p tr"
| "handshaken p [] \<longleftrightarrow> True"

lemma wait_ready_polls:
  "fst (inb hw (com_line_status_port p) (polls n hw (com_line_status_port p) c)) AND READY_TO_WRITE \<noteq> 0 \<Longrightarrow>
     \<exists>c' s. wait_ready hw p c = Some c' \<and> outputs c' = outputs c \<and> cpu_rflags c' = cpu_rflags c \<and> cpu_cr0 c' = cpu_cr0 c
       \<and> s AND READY_TO_WRITE \<noteq> 0
       \<and> (\<exists>tr. cpu_trace c' = In8 (com_line_status_port p) s # tr \<and> (handshaken p (cpu_trace c) \<longrightarrow> handshaken p tr))"
proof (induction n arbitrary: c)
  case 0
  then show ?case by (subst wait_ready.simps) (auto simp: split_beta inb_def Let_def outputs_def)
next
  case (Suc n)
  let ?c = "snd (inb hw (com_line_status_port p) c)"
  show ?case
  proof (cases "fst (inb hw (com_line_status_port p) c) AND READY_TO_WRITE \<noteq> 0")
    case True
    then show ?thesis by (subst wait_ready.simps) (auto simp: split_beta inb_def Let_def outputs_def)
  next
    case False
    have "wait_ready hw p c = wait_ready hw p ?c" using False by (subst wait_ready.simps) (simp add: split_beta)
    moreover have "handshaken p (cpu_trace ?c) \<longleftrightarrow> handshaken p (cpu_trace c)" by (simp add: inb_def Let_def)
    moreover have "outputs ?c = outputs c" "cpu_rflags ?c = cpu_rflags c" "cpu_cr0 ?c = cpu_cr0 c"
      by (simp_all add: inb_def Let_def outputs_def)
    ultimately show ?thesis using Suc.IH [of ?c] Suc.prems by simp
  qed
qed

lemma write_raw_sends:
  assumes "com_live hw p"
  shows "\<exists>c'. write_raw hw p byte c = Some c' \<and> outputs c' = outputs c @ [Out8 (com_data_port p) byte]
    \<and> cpu_rflags c' = cpu_rflags c \<and> cpu_cr0 c' = cpu_cr0 c \<and> (handshaken p (cpu_trace c) \<longrightarrow> handshaken p (cpu_trace c'))"
proof -
  obtain n where "fst (inb hw (com_line_status_port p) (polls n hw (com_line_status_port p) c)) AND READY_TO_WRITE \<noteq> 0"
    using assms by (auto simp: com_live_def)
  from wait_ready_polls [OF this] obtain c1 s tr where w: "wait_ready hw p c = Some c1" "outputs c1 = outputs c" "cpu_rflags c1 = cpu_rflags c"
    "cpu_cr0 c1 = cpu_cr0 c" "s AND READY_TO_WRITE \<noteq> 0"
    "cpu_trace c1 = In8 (com_line_status_port p) s # tr" "handshaken p (cpu_trace c) \<longrightarrow> handshaken p tr" by blast
  have "cpu_trace (outb (com_data_port p) byte c1) = Out8 (com_data_port p) byte # In8 (com_line_status_port p) s # tr"
    using w(6) by (simp add: outb_def)
  moreover have "cpu_cr0 (outb (com_data_port p) byte c1) = cpu_cr0 c1" by (simp add: outb_def)
  ultimately show ?thesis using w by (simp add: write_raw_def)
qed

text \<open>The specification: what arrives at the other end.\<close>

definition crlf :: "u8 \<Rightarrow> u8 list" where
  "crlf b = (if b = 10 then [13, 10] else [b])"

definition com_rel :: "hw \<Rightarrow> com_port \<Rightarrow> io_event list \<Rightarrow> cpu \<Rightarrow> u8 list \<Rightarrow> bool" where
  "com_rel hw p before c sent \<longleftrightarrow> com_live hw p \<and> handshaken p (cpu_trace c)
     \<and> outputs c = before @ map (Out8 (com_data_port p)) sent"

lemma write_byte_sends:
  assumes live: "com_live hw p"
  shows "\<exists>c'. write_byte hw p byte c = Some (Inr c') \<and> outputs c' = outputs c @ map (Out8 (com_data_port p)) (crlf byte)
    \<and> cpu_rflags c' = cpu_rflags c \<and> cpu_cr0 c' = cpu_cr0 c \<and> (handshaken p (cpu_trace c) \<longrightarrow> handshaken p (cpu_trace c'))"
proof (cases "byte = 10")
  case True
  obtain c1 where c1: "write_raw hw p 13 c = Some c1" "outputs c1 = outputs c @ [Out8 (com_data_port p) 13]"
    "cpu_rflags c1 = cpu_rflags c" "cpu_cr0 c1 = cpu_cr0 c"
    "handshaken p (cpu_trace c) \<longrightarrow> handshaken p (cpu_trace c1)" using write_raw_sends [OF live] by blast
  obtain c2 where "write_raw hw p 10 c1 = Some c2" "outputs c2 = outputs c1 @ [Out8 (com_data_port p) 10]"
    "cpu_rflags c2 = cpu_rflags c1" "cpu_cr0 c2 = cpu_cr0 c1"
    "handshaken p (cpu_trace c1) \<longrightarrow> handshaken p (cpu_trace c2)" using write_raw_sends [OF live] by blast
  then show ?thesis using True c1 by (simp add: write_byte_def crlf_def)
next
  case False
  then show ?thesis using write_raw_sends [OF live, of byte c] by (auto simp: write_byte_def crlf_def)
qed

interpretation com: text_sink "write_byte hw p" "com_rel hw p before" "\<lambda>b sent. sent @ crlf b"
  for hw p before
proof
  fix c byte
  fix sent :: "u8 list"
  assume "com_rel hw p before c sent"
  then show "\<exists>c'. write_byte hw p byte c = Some (Inr c') \<and> com_rel hw p before c' (sent @ crlf byte)"
    using write_byte_sends [of hw p byte c] by (auto simp: com_rel_def)
qed

text \<open>The same without the handshake, for a processor that has used other devices before.\<close>

definition com_out_rel :: "hw \<Rightarrow> com_port \<Rightarrow> cpu \<Rightarrow> cpu \<Rightarrow> u8 list \<Rightarrow> bool" where
  "com_out_rel hw p c0 c sent \<longleftrightarrow> com_live hw p \<and> outputs c = outputs c0 @ map (Out8 (com_data_port p)) sent
     \<and> cpu_rflags c = cpu_rflags c0 \<and> cpu_cr0 c = cpu_cr0 c0"

interpretation com_out: text_sink "write_byte hw p" "com_out_rel hw p c0" "\<lambda>b sent. sent @ crlf b"
  for hw p c0
proof
  fix c byte
  fix sent :: "u8 list"
  assume "com_out_rel hw p c0 c sent"
  then show "\<exists>c'. write_byte hw p byte c = Some (Inr c') \<and> com_out_rel hw p c0 c' (sent @ crlf byte)"
    using write_byte_sends [of hw p byte c] by (auto simp: com_out_rel_def)
qed

lemma fold_append_concat: "fold (\<lambda>b acc. acc @ f b) bs acc = acc @ concat (map f bs)"
  by (induction bs arbitrary: acc) simp_all

lemma com_write_str_sends:
  assumes "com_live hw p" "handshaken p (cpu_trace c)"
  shows "\<exists>c'. com_write_str hw p bs c = Some (Inr c')
    \<and> outputs c' = outputs c @ map (Out8 (com_data_port p)) (concat (map crlf bs)) \<and> handshaken p (cpu_trace c')"
  using com.write_all_simulates [of hw p "outputs c" c "[]" bs] assms
  by (auto simp: com_write_str_def com_rel_def fold_append_concat)

lemma com_write_str_returns:
  assumes "com_live hw p"
  shows "\<exists>c'. com_write_str hw p bs c = Some (Inr c') \<and> outputs c' = outputs c @ map (Out8 (com_data_port p)) (concat (map crlf bs))
    \<and> cpu_rflags c' = cpu_rflags c \<and> cpu_cr0 c' = cpu_cr0 c"
  using com_out.write_all_simulates [of hw p c c "[]" bs] assms
  by (auto simp: com_write_str_def com_out_rel_def fold_append_concat)

text \<open>
  Writing a string to the serial port, for any port that accepts a byte after finitely many polls,
  returns and sends exactly the bytes of the string in order, with a carriage return before each
  newline and nothing else written to any port, and each byte is sent immediately after a status
  read that reported the port as ready.
\<close>

theorem serial_sends_text:
  assumes "com_live hw p" "handshaken p (cpu_trace c)"
  shows "\<exists>c'. com_write_str hw p bs c = Some (Inr c')
    \<and> outputs c' = outputs c @ map (Out8 (com_data_port p)) (concat (map crlf bs)) \<and> handshaken p (cpu_trace c')"
  using assms by (rule com_write_str_sends)

theorem serial_sends_text_witness:
  "\<exists>c'. com_write_str (\<lambda>tr _. if even (length tr) then 0 else 0x60) (com_port_new Com1) [72, 10]
       \<lparr>cpu_rflags = 0, cpu_cr0 = 0, cpu_trace = []\<rparr> = Some (Inr c')
     \<and> outputs c' = [Out8 0x3f8 72, Out8 0x3f8 13, Out8 0x3f8 10]"
proof -
  let ?hw = "\<lambda>tr (_ :: u16). if even (length tr) then 0 else (0x60 :: u32)"
  have "\<exists>n. fst (inb ?hw (com_line_status_port (com_port_new Com1)) (polls n ?hw (com_line_status_port (com_port_new Com1)) c))
      AND READY_TO_WRITE \<noteq> 0" for c
  proof (cases "even (length (cpu_trace c))")
    case True
    then show ?thesis by (intro exI [of _ 1]) (simp add: inb_def Let_def READY_TO_WRITE_def)
  next
    case False
    then show ?thesis by (intro exI [of _ 0]) (simp add: inb_def Let_def READY_TO_WRITE_def)
  qed
  then have "com_live ?hw (com_port_new Com1)" by (simp add: com_live_def)
  from serial_sends_text [OF this, of "\<lparr>cpu_rflags = 0, cpu_cr0 = 0, cpu_trace = []\<rparr>" "[72, 10]"] show ?thesis
    by (auto simp: outputs_def crlf_def com_port_new_def)
qed

end
