(* ===== verification/Nic_Boot.thy ===== *)
theory Nic_Boot
  imports Plugin Serial
begin

text \<open>
  The network card at boot. The plugin of \<^verbatim>\<open>kernel/src/device/rtl8139.rs\<close> scans the PCI bus, starts the
  card it finds and waits for its reset. This theory states what the hardware has to do for that to
  come to an end (bridges that lead to higher buses, a card with I/O ports and an interrupt line
  the kernel supports, a reset that ends) and proves that scan and plugin then return without a panic.
\<close>

subsection \<open>Steps that leave the configuration space alone\<close>

fun is_out32 :: "io_event \<Rightarrow> bool" where
  "is_out32 (Out32 _ _) = True"
| "is_out32 _ = False"

definition dwords :: "cpu \<Rightarrow> io_event list" where
  "dwords c = filter is_out32 (cpu_trace c)"

lemma latched_dwords: "latched tr = latched (filter is_out32 tr)"
  by (induction tr rule: latched.induct) simp_all

lemma cfg_mem_dwords: "cfg_mem upd init tr = cfg_mem upd init (filter is_out32 tr)"
proof (induction tr)
  case (Cons e tr)
  then show ?case by (cases e) (simp_all add: latched_dwords [of tr] fun_upd_def)
qed simp

lemma cfg_dwords: "dwords c' = dwords c \<Longrightarrow> cfg upd init c' = cfg upd init c"
  unfolding dwords_def by (metis cfg_mem_dwords)

lemma dwords_ports [simp]:
  "dwords (outb p b c) = dwords c" "dwords (outw p w c) = dwords c" "dwords (snd (inb hw p c)) = dwords c"
  by (simp_all add: dwords_def port_defs)

lemma cfg_outdw: "p \<noteq> CONFIG_DATA_PORT \<Longrightarrow> cfg upd init (outdw p v c) = cfg upd init c"
  by (simp add: outdw_def)

lemma dwords_outputs: "dwords c = rev (filter is_out32 (outputs c))"
proof -
  have "filter is_out32 (filter is_output tr) = filter is_out32 tr" for tr
    by (induction tr) (auto elim: is_out32.elims)
  then show ?thesis by (simp add: dwords_def outputs_def rev_filter)
qed

lemma outputs_keep_dwords: "outputs c' = outputs c @ map (Out8 q) bs \<Longrightarrow> dwords c' = dwords c"
  by (simp add: dwords_outputs filter_map comp_def)

lemma allow_dwords: "allow hw irq c = Inr c' \<Longrightarrow> dwords c' = dwords c"
  by (auto simp: allow_def and_then_eq_Inr dwords_def port_defs split: prod.splits)

lemma register_dwords: "register_dynamic n r v c = (x, c') \<Longrightarrow> dwords c' = dwords c"
  by (auto simp: register_dynamic_def without_interrupts_def disable_int_nested_def enable_int_nested_def
      enable_int_def disable_int_def dwords_def split: prod.splits if_splits)

lemma set_interval_dwords: "set_interrupt_interval n c = Inr c' \<Longrightarrow> dwords c' = dwords c"
  by (auto simp: set_interrupt_interval_def and_then_eq_Inr Let_def split: if_splits)

lemma pit_plugin_dwords:
  assumes "pit_plugin hw False v c = Some (Inr (v', c'))"
  shows "dwords c' = dwords c"
  using assms
  by (auto simp: pit_plugin_def and_then_eq_Inr register_is_dynamic split: sum.splits option.splits prod.splits
      dest!: set_interval_dwords allow_dwords register_dwords)

lemma keyboard_plugin_dwords: "keyboard_plugin hw v c = Some (Inr (v', c')) \<Longrightarrow> dwords c' = dwords c"
  by (auto simp: keyboard_plugin_def and_then_eq_Inr register_is_dynamic split: sum.splits option.splits prod.splits
      dest!: allow_dwords register_dwords)

lemma pic_init_dwords: "dwords (pic_init c) = dwords c"
  by (simp add: pic_init_def outb_wait_def io_wait_def)

subsection \<open>The scan returns\<close>

text \<open>Also for a host controller that answers as a multi-function device or not at all.\<close>

lemma listing_devices: "dev \<in> set (listing n m b) \<Longrightarrow> \<exists>b'. device_on m b' dev"
  using listing_sound by blast

lemma scan_hosts_returns:
  assumes hw: "responds hw upd init" and up: "bridges_ascend m"
  shows "\<not> is_locked (pb_registers pb) \<Longrightarrow> cfg upd init c = m \<Longrightarrow> \<forall>dev \<in> set (pb_devices pb). \<exists>b. device_on m b dev \<Longrightarrow>
    \<exists>pb' c'. scan_hosts 256 hw fs (pb, c) = Some (pb', c') \<and> cfg upd init c' = m \<and> \<not> is_locked (pb_registers pb')
      \<and> (\<forall>dev \<in> set (pb_devices pb'). \<exists>b. device_on m b dev)"
proof (induction fs arbitrary: pb c)
  case (Cons f fs)
  let ?v = "reg16 m 0 0 (of_nat f) R_VendorId"
  obtain c1 where c1: "read16 hw pb 0 0 (of_nat f) R_VendorId c = Some (?v, c1)" "cfg upd init c1 = m"
    using config_reads(2) [OF hw Cons.prems(1), of 0 0 "of_nat f" R_VendorId c] Cons.prems(2) by auto
  show ?case
  proof (cases "?v = INVALID_VENDOR_ID")
    case True
    let ?pb = "pb\<lparr>pb_devices := pb_devices pb @ listing 256 m (of_nat f)\<rparr>"
    have "depth_ok 256 m (of_nat f)" by (rule ascending_depth [OF up]) simp
    from addsD [OF adds_scan_bus [OF hw this] Cons.prems(1) c1(2)] obtain c2 where
      c2: "scan_bus 256 hw (of_nat f) (pb, c1) = Some (?pb, c2)" "cfg upd init c2 = m" by blast
    have "\<forall>dev \<in> set (pb_devices ?pb). \<exists>b. device_on m b dev" using Cons.prems(3) listing_devices by auto
    from Cons.IH [OF _ c2(2) this] show ?thesis using Cons.prems(1) c1(1) c2(1) True by simp
  next
    case False
    then show ?thesis using c1 Cons.prems(1,3) by simp
  qed
qed simp

lemma scan_returns:
  assumes hw: "responds hw upd init" and up: "bridges_ascend m" and m: "cfg upd init c = m"
  shows "\<exists>pb c'. scan 256 hw (pci_bus_new, c) = Some (pb, c') \<and> cfg upd init c' = m \<and> \<not> is_locked (pb_registers pb)
    \<and> (\<forall>dev \<in> set (pb_devices pb). \<exists>b. device_on m b dev)
    \<and> (reg8 m 0 0 0 R_HeaderType AND 0x80 = 0 \<longrightarrow> (\<forall>dev. dev \<in> set (pb_devices pb) \<longleftrightarrow> (\<exists>b. reaches m 0 b \<and> device_on m b dev)))"
proof -
  have n: "\<not> is_locked (pb_registers pci_bus_new)" "pb_devices pci_bus_new = []" by (simp_all add: pci_bus_new_def)
  obtain c1 where c1: "read8 hw pci_bus_new 0 0 0 R_HeaderType c = Some (reg8 m 0 0 0 R_HeaderType, c1)" "cfg upd init c1 = m"
    using config_reads(3) [OF hw n(1), of 0 0 0 R_HeaderType c] m by auto
  show ?thesis
  proof (cases "reg8 m 0 0 0 R_HeaderType AND 0x80 = 0")
    case True
    let ?pb = "pci_bus_new\<lparr>pb_devices := listing 256 m 0\<rparr>"
    have d: "depth_ok 256 m 0" by (rule ascending_depth [OF up]) simp
    from addsD [OF adds_scan_bus [OF hw d] n(1) c1(2)] obtain c2 where
      c2: "scan_bus 256 hw 0 (pci_bus_new, c1) = Some (?pb, c2)" "cfg upd init c2 = m" unfolding n(2) by auto
    have "dev \<in> set (listing 256 m 0) \<longleftrightarrow> (\<exists>b. reaches m 0 b \<and> device_on m b dev)" for dev
      using listing_sound listing_complete [OF _ _ d] by blast
    then show ?thesis using c1(1) c2 True n(1) by (intro exI [of _ ?pb] exI [of _ c2]) (auto simp: scan_def)
  next
    case False
    then show ?thesis
      using scan_hosts_returns [OF hw up n(1) c1(2), of "[0..<MAX_FUNCTIONS_PER_DEVICE]"] c1(1) n(2) by (auto simp: scan_def)
  qed
qed

subsection \<open>The card\<close>

definition is_nic :: "(u32 \<Rightarrow> u32) \<Rightarrow> pci_device \<Rightarrow> bool" where
  "is_nic m dev \<longleftrightarrow> reg16 m (pd_bus dev) (pd_device dev) (pd_function dev) R_VendorId = 0x10ec
     \<and> reg16 m (pd_bus dev) (pd_device dev) (pd_function dev) R_DeviceId = 0x8139"

text \<open>The base address register and the interrupt line, as the firmware has set them.\<close>

definition nic_bar :: "(u32 \<Rightarrow> u32) \<Rightarrow> pci_device \<Rightarrow> u32" where
  "nic_bar m dev = m (calc_config_address (pd_bus dev) (pd_device dev) (pd_function dev) R_BaseAddress0)"

definition nic_ports :: "(u32 \<Rightarrow> u32) \<Rightarrow> pci_device \<Rightarrow> u16" where
  "nic_ports m dev = ucast (nic_bar m dev AND 0xfffc)"

definition nic_line :: "(u32 \<Rightarrow> u32) \<Rightarrow> pci_device \<Rightarrow> u8" where
  "nic_line m dev = reg8 m (pd_bus dev) (pd_device dev) (pd_function dev) R_InterruptLine"

text \<open>However the card was used before, its reset bit is cleared after finitely many polls.\<close>

definition reset_ends :: "hw \<Rightarrow> u16 \<Rightarrow> bool" where
  "reset_ends hw io \<longleftrightarrow>
     (\<forall>c. \<exists>n. fst (inb hw (io + REG_CMD) (polls n hw (io + REG_CMD) c)) AND RESET = 0)"

text \<open>
  What the kernel supports: I/O ports in one of the 256-byte blocks of the port space above the first,
  and an interrupt line that is left free by the other devices.
\<close>

definition nic_supported :: "hw \<Rightarrow> (u32 \<Rightarrow> u32) \<Rightarrow> pci_device \<Rightarrow> bool" where
  "nic_supported hw m dev \<longleftrightarrow> nic_bar m dev AND 1 \<noteq> 0 \<and> 0 < unat (nic_ports m dev) \<and> unat (nic_ports m dev) mod 256 = 0
     \<and> nic_line m dev \<in> {9, 10, 11} \<and> reset_ends hw (nic_ports m dev)"

definition nics_supported :: "hw \<Rightarrow> (u32 \<Rightarrow> u32) \<Rightarrow> bool" where
  "nics_supported hw m \<longleftrightarrow> (\<forall>b dev. device_on m b dev \<and> is_nic m dev \<longrightarrow> nic_supported hw m dev)"

lemma find_nic_returns:
  assumes hw: "responds hw upd init" and pb: "\<not> is_locked (pb_registers pb)"
  shows "cfg upd init c = m \<Longrightarrow> \<exists>c'. find_nic hw pb ds c = Some (find (is_nic m) ds, c') \<and> cfg upd init c' = m"
proof (induction ds arbitrary: c)
  case (Cons d ds)
  obtain c1 where c1: "read_vendor_id hw pb d c = Some (reg16 m (pd_bus d) (pd_device d) (pd_function d) R_VendorId, c1)" "cfg upd init c1 = m"
    using config_reads(2) [OF hw pb, of "pd_bus d" "pd_device d" "pd_function d" R_VendorId c] Cons.prems
    by (auto simp: pci_device_defs)
  obtain c2 where c2: "read_device_id hw pb d c1 = Some (reg16 m (pd_bus d) (pd_device d) (pd_function d) R_DeviceId, c2)" "cfg upd init c2 = m"
    using config_reads(2) [OF hw pb, of "pd_bus d" "pd_device d" "pd_function d" R_DeviceId c1] c1(2)
    by (auto simp: pci_device_defs)
  show ?case using c1 c2 Cons.IH [OF c1(2)] Cons.IH [OF c2(2)] by (simp add: is_nic_def)
qed simp

text \<open>Enabling the card writes its command register and nothing else of its configuration.\<close>

lemma nic_enable_returns:
  assumes hw: "responds hw upd init" and pb: "\<not> is_locked (pb_registers pb)"
  shows "\<exists>c'. nic_enable hw pb dev c = Some c'
    \<and> (\<forall>a. a \<noteq> calc_config_address (pd_bus dev) (pd_device dev) (pd_function dev) R_Command \<longrightarrow> cfg upd init c' a = cfg upd init c a)"
proof -
  let ?b = "pd_bus dev" and ?d = "pd_device dev" and ?f = "pd_function dev"
  obtain v c1 where c1: "dev_read_command hw pb dev c = Some (v, c1)" "cfg upd init c1 = cfg upd init c"
    using config_reads(2) [OF hw pb, of ?b ?d ?f R_Command c] by (auto simp: pci_device_defs)
  let ?w = "v OR Command_IoEnable OR Command_BusMasterEnable"
  obtain c2 where "dev_write_command hw pb dev ?w c1 = Some c2" and u:
    "\<exists>x. cfg upd init c2 = (cfg upd init c1)(calc_config_address ?b ?d ?f R_Command := x)"
    using config_writes(2) [OF hw pb, of ?b ?d ?f R_Command ?w c1] by (auto simp: pci_device_defs)
  moreover have "cfg upd init c2 a = cfg upd init c a" if "a \<noteq> calc_config_address ?b ?d ?f R_Command" for a
    using u c1(2) that by auto
  ultimately show ?thesis using c1(1) by (simp add: nic_enable_def)
qed

lemma command_apart:
  assumes "device_on m b dev"
  shows "calc_config_address (pd_bus dev) (pd_device dev) (pd_function dev) R_BaseAddress0
      \<noteq> calc_config_address (pd_bus dev) (pd_device dev) (pd_function dev) R_Command"
    "calc_config_address (pd_bus dev) (pd_device dev) (pd_function dev) R_InterruptLine
      \<noteq> calc_config_address (pd_bus dev) (pd_device dev) (pd_function dev) R_Command"
proof -
  obtain d f where df: "d < 32" "f \<in> set (present_functions m b (of_nat d))"
    "dev = \<lparr>pd_bus = b, pd_device = of_nat d, pd_function = of_nat f\<rparr>" using assms by (auto simp: device_on_def)
  have "f < 8" using df(2) by (auto simp: present_functions_def split: if_splits)
  then have "pd_device dev < 32" "pd_function dev < 8" using df(1,3) by (simp_all add: word_less_nat_alt unat_of_nat)
  note inj = address_inj [OF this this]
  show "calc_config_address (pd_bus dev) (pd_device dev) (pd_function dev) R_BaseAddress0
      \<noteq> calc_config_address (pd_bus dev) (pd_device dev) (pd_function dev) R_Command"
    "calc_config_address (pd_bus dev) (pd_device dev) (pd_function dev) R_InterruptLine
      \<noteq> calc_config_address (pd_bus dev) (pd_device dev) (pd_function dev) R_Command"
    by (simp_all add: inj R_BaseAddress0_def R_InterruptLine_def R_Command_def)
qed

lemma reset_loop_returns:
  assumes "io_ok io" "fst (inb hw (io + REG_CMD) (polls n hw (io + REG_CMD) c)) AND RESET = 0"
  shows "\<exists>c'. reset_loop hw io c = Some (Inr c') \<and> dwords c' = dwords c"
  using assms(2)
proof (induction n arbitrary: c)
  let ?p = "io + REG_CMD"
  have rd: "Rtl8139.read_command hw io c = Inr (inb hw ?p c)" for c
    using reg_port [OF assms(1), of REG_CMD] by (simp add: Rtl8139.read_command_def REG_CMD_def)
  {
    case 0
    then show ?case by (subst reset_loop.simps) (simp add: rd split_beta)
  next
    case (Suc n)
    show ?case
    proof (cases "fst (inb hw ?p c) AND RESET = 0")
      case True
      then show ?thesis by (subst reset_loop.simps) (simp add: rd split_beta)
    next
      case False
      then have "reset_loop hw io c = reset_loop hw io (snd (inb hw ?p c))" by (subst reset_loop.simps) (simp add: rd split_beta)
      then show ?thesis using Suc.IH [of "snd (inb hw ?p c)"] Suc.prems by simp
    qed
  }
qed

text \<open>The ports of the card are none of the two configuration ports.\<close>

lemma nic_port:
  fixes io r :: u16
  assumes "unat io mod 256 = 0" "unat r < 0x80"
  shows "io_ok io" "uadd io r = Inr (io + r)" "io + r \<noteq> CONFIG_DATA_PORT"
proof -
  obtain q where q: "unat io = 256 * q" using assms(1) by (metis mod_0_imp_dvd dvdE)
  have "unat io < 2 ^ 16" using unsigned_less [of io, where 'a = nat] by simp
  then have "q < 256" using q by simp
  then show ok: "io_ok io" using q by (simp add: io_ok_def)
  show "uadd io r = Inr (io + r)" using reg_port [OF ok] assms(2) by simp
  have "unat (io + r) = 256 * q + unat r" using q \<open>q < 256\<close> assms(2) by (subst unat_add_noov) simp_all
  then have "unat (io + r) mod 256 = unat r" using assms(2) by simp
  moreover have "unat CONFIG_DATA_PORT mod 256 = 0xfc" by (simp add: CONFIG_DATA_PORT_def)
  ultimately show "io + r \<noteq> CONFIG_DATA_PORT" using assms(2) by auto
qed

lemma init_rtl8139_returns:
  assumes io: "unat io mod 256 = 0" and r: "reset_ends hw io"
  shows "\<exists>c'. init_rtl8139 hw ra ta io None c = Some (Inr (rtl8139_new ra ta io, c')) \<and> cfg upd init c' = cfg upd init c"
proof -
  note p = nic_port [OF io]
  define d where "d = rtl8139_new ra ta io"
  have d: "nic_io_base d = io" "lock (nic_rx d) = Some \<lparr>sl_lock = True, sl_data = rx_state_new ra\<rparr>"
    by (simp_all add: d_def rtl8139_new_def lock_eq spinlock_new_def)
  let ?c1 = "outb (io + REG_CONFIG_1) 0 c"
  let ?c2 = "outb (io + REG_CMD) RESET ?c1"
  obtain n where n: "fst (inb hw (io + REG_CMD) (polls n hw (io + REG_CMD) ?c2)) AND RESET = 0"
    using r unfolding reset_ends_def by blast
  from reset_loop_returns [OF p(1) [of REG_CMD] this] obtain c3 where
    c3: "reset_loop hw io ?c2 = Some (Inr c3)" "dwords c3 = dwords c" by (auto simp: REG_CMD_def)
  have f3: "cfg upd init c3 = cfg upd init c" by (rule cfg_dwords [OF c3(2)])
  let ?c4 = "outdw (io + REG_RBSTART) (ucast ra) c3"
  let ?c5 = "outw (io + REG_IMR) (RECEIVE_OK OR TRANSMIT_OK OR RX_OVERFLOW) ?c4"
  let ?c6 = "outdw (io + REG_RCR) (ACCEPT_ALL_PACKETS OR ACCEPT_PHYSICAL_MATCH OR ACCEPT_MULTICAST OR ACCEPT_BROADCAST OR WRAP) ?c5"
  let ?c7 = "outb (io + REG_CMD) (RX_ENABLE OR TX_ENABLE) ?c6"
  have u: "uadd io REG_CONFIG_1 = Inr (io + REG_CONFIG_1)" "uadd io REG_CMD = Inr (io + REG_CMD)"
    "uadd io REG_RBSTART = Inr (io + REG_RBSTART)" "uadd io REG_IMR = Inr (io + REG_IMR)" "uadd io REG_RCR = Inr (io + REG_RCR)"
    using p(2) by (simp_all add: reg_defs)
  have "software_reset hw io ?c1 = Some (Inr c3)" using u(2) c3(1) by (simp add: software_reset_def Rtl8139.write_command_def)
  moreover have "init_rx_buffer d c3 = Some (Inr ?c4)" using u(3) d by (simp add: init_rx_buffer_def guard_deref_def rx_state_new_def)
  ultimately have run: "init_rtl8139 hw ra ta io None c = Some (Inr (d, ?c7))"
    using u d unfolding init_rtl8139_def option.case Let_def d_def [symmetric] d(1)
    by (simp add: power_on_def allow_interrupts_def configure_receive_buffer_def enable_rx_tx_def Rtl8139.write_command_def)
  have "io + REG_RBSTART \<noteq> CONFIG_DATA_PORT" "io + REG_RCR \<noteq> CONFIG_DATA_PORT" using p(3) by (simp_all add: reg_defs)
  then have "cfg upd init ?c7 = cfg upd init c" using f3 by (simp add: port_defs)
  then show ?thesis using run d_def by blast
qed

lemma nic_register_returns:
  assumes w: "wired v c" "masks_readable hw" and n: "n \<in> {9, 10, 11}"
  shows "\<exists>v' c'. nic_register hw n v c = Some (Inr (v', c'))"
proof -
  obtain i where i: "nic_irq n = Inr i" "irq_number i = n" using n by (auto simp: nic_irq_def)
  have u: "uadd n 32 = Inr (n + 32)" "unat (n + 32) = 32 + unat n" using n by (auto simp: uadd_nat)
  show ?thesis using attach_wires [OF w, of i Rtl8139ISR] i u by (auto simp: nic_register_def)
qed

text \<open>The plugin returns, and runs the first card of the list.\<close>

lemma rtl8139_plugin_returns:
  assumes hw: "responds hw upd init" "masks_readable hw" and pb: "\<not> is_locked (pb_registers pb)" "cfg upd init c = m"
    and dev: "\<forall>dev \<in> set (pb_devices pb). \<exists>b. device_on m b dev" and nics: "nics_supported hw m"
    and w: "wired v c"
  shows "\<exists>v' c'. rtl8139_plugin hw pb ra ta None v c
    = Some (Inr (map_option (\<lambda>dev. rtl8139_new ra ta (nic_ports m dev)) (find (is_nic m) (pb_devices pb)), v', c'))"
proof -
  obtain c1 where f: "find_nic hw pb (pb_devices pb) c = Some (find (is_nic m) (pb_devices pb), c1)" "cfg upd init c1 = m"
    using find_nic_returns [OF hw(1) pb] by blast
  show ?thesis
  proof (cases "find (is_nic m) (pb_devices pb)")
    case None
    then show ?thesis using f(1) by (simp add: rtl8139_plugin_def)
  next
    case (Some dev)
    then have "dev \<in> set (pb_devices pb)" "is_nic m dev" by (auto simp: find_Some_iff)
    then obtain b where on: "device_on m b dev" and s: "nic_supported hw m dev"
      using dev nics by (auto simp: nics_supported_def)
    let ?b = "pd_bus dev" and ?d = "pd_device dev" and ?f = "pd_function dev" and ?io = "nic_ports m dev"
    have io: "unat ?io mod 256 = 0" "256 \<le> unat ?io" using s by (auto simp: nic_supported_def mod_eq_0_iff_dvd dest: dvd_imp_le)
    obtain c2 where c2: "nic_enable hw pb dev c1 = Some c2"
      "\<And>a. a \<noteq> calc_config_address ?b ?d ?f R_Command \<Longrightarrow> cfg upd init c2 a = m a"
      using nic_enable_returns [OF hw(1) pb(1), of dev c1] f(2) by auto
    note same = c2(2) [OF command_apart(1) [OF on]] c2(2) [OF command_apart(2) [OF on]]
    obtain c3 where c3: "read_bar hw pb dev 0 c2 = Some (Inr (nic_bar m dev, c3))" "cfg upd init c3 = cfg upd init c2"
      using config_reads(1) [OF hw(1) pb(1), of ?b ?d ?f R_BaseAddress0 c2] same(1)
      by (auto simp: read_bar_def umul_nat uadd_nat pci_device_defs nic_bar_def R_BaseAddress0_def)
    obtain c4 where c4: "init_rtl8139 hw ra ta ?io None c3 = Some (Inr (rtl8139_new ra ta ?io, c4))" "cfg upd init c4 = cfg upd init c2"
      using init_rtl8139_returns [OF io(1), of hw ra ta c3 upd init] s c3(2) by (auto simp: nic_supported_def)
    have "reg8 (cfg upd init c4) ?b ?d ?f R_InterruptLine = nic_line m dev" using same(2) c4(2) by (simp add: reg8_def nic_line_def)
    then obtain c5 where c5: "read_interrupt_line hw pb dev c4 = Some (nic_line m dev, c5)"
      using config_reads(3) [OF hw(1) pb(1), of ?b ?d ?f R_InterruptLine c4] by (auto simp: pci_device_defs)
    have "keeps_masks c1 c2" "keeps_masks c2 c3" "keeps_masks c c1"
      using nic_enable_keeps [OF c2(1)] read_bar_keeps [OF c3(1)] find_nic_keeps [OF f(1)] by simp_all
    moreover have "keeps_masks c3 c4" using init_rtl8139_keeps [OF c4(1)] io(2) by (simp add: rtl8139_new_def)
    moreover have "keeps_masks c4 c5" using c5 by (auto simp: pci_device_defs dest: pci_keeps_small)
    ultimately have "keeps_masks c c5" using keeps_trans by metis
    then have "wired v c5" using w keeps_wired by blast
    moreover have "nic_line m dev \<in> {9, 10, 11}" using s by (simp add: nic_supported_def)
    ultimately obtain v' c' where "nic_register hw (nic_line m dev) v c5 = Some (Inr (v', c'))"
      using nic_register_returns [OF _ hw(2)] by blast
    moreover have "nic_bar m dev AND 1 \<noteq> 0" using s by (simp add: nic_supported_def)
    ultimately show ?thesis
      using f(1) c2(1) c3(1) c4(1) c5 Some by (simp add: rtl8139_plugin_def nic_ports_def)
  qed
qed

text \<open>Scan and plugin together. A card that the scan can reach is running afterwards.\<close>

definition reachable_nic :: "(u32 \<Rightarrow> u32) \<Rightarrow> pci_device \<Rightarrow> bool" where
  "reachable_nic m dev \<longleftrightarrow> (\<exists>b. reaches m 0 b \<and> device_on m b dev) \<and> is_nic m dev"

definition nic_result :: "(u32 \<Rightarrow> u32) \<Rightarrow> u64 \<Rightarrow> u64 \<Rightarrow> rtl8139 option \<Rightarrow> bool" where
  "nic_result m ra ta nic \<longleftrightarrow> (\<forall>d. nic = Some d \<longrightarrow> 256 \<le> unat (nic_io_base d))
     \<and> (reg8 m 0 0 0 R_HeaderType AND 0x80 = 0 \<longrightarrow>
          (nic = None \<longleftrightarrow> (\<nexists>dev. reachable_nic m dev))
        \<and> (\<forall>d. nic = Some d \<longrightarrow> (\<exists>dev. reachable_nic m dev \<and> d = rtl8139_new ra ta (nic_ports m dev))))"

lemma nic_starts:
  assumes hw: "responds hw upd init" "masks_readable hw" and m: "bridges_ascend m" "nics_supported hw m" "cfg upd init c = m"
    and w: "wired v c"
  shows "\<exists>pb c1 nic v' c'. scan 256 hw (pci_bus_new, c) = Some (pb, c1) \<and> keeps_masks c c1
    \<and> rtl8139_plugin hw pb ra ta None v c1 = Some (Inr (nic, v', c')) \<and> nic_result m ra ta nic"
proof -
  obtain pb c1 where s: "scan 256 hw (pci_bus_new, c) = Some (pb, c1)" "cfg upd init c1 = m" "\<not> is_locked (pb_registers pb)"
    "\<forall>dev \<in> set (pb_devices pb). \<exists>b. device_on m b dev"
    "reg8 m 0 0 0 R_HeaderType AND 0x80 = 0 \<longrightarrow> (\<forall>dev. dev \<in> set (pb_devices pb) \<longleftrightarrow> (\<exists>b. reaches m 0 b \<and> device_on m b dev))"
    using scan_returns [OF hw(1) m(1,3)] by blast
  have k: "keeps_masks c c1" using scan_keeps [OF s(1)] by simp
  let ?find = "find (is_nic m) (pb_devices pb)"
  obtain v' c' where p: "rtl8139_plugin hw pb ra ta None v c1
      = Some (Inr (map_option (\<lambda>dev. rtl8139_new ra ta (nic_ports m dev)) ?find, v', c'))"
    using rtl8139_plugin_returns [OF hw s(3,2,4) m(2), of v ra ta] w keeps_wired [OF k] by blast
  have found: "dev \<in> set (pb_devices pb) \<and> is_nic m dev" if "?find = Some dev" for dev
    using that by (auto simp: find_Some_iff)
  have "256 \<le> unat (nic_ports m dev)" if "?find = Some dev" for dev
  proof -
    have "nic_supported hw m dev" using found [OF that] s(4) m(2) by (auto simp: nics_supported_def)
    then show ?thesis by (auto simp: nic_supported_def mod_eq_0_iff_dvd dest: dvd_imp_le)
  qed
  then have "nic_result m ra ta (map_option (\<lambda>dev. rtl8139_new ra ta (nic_ports m dev)) ?find)"
    using found s(5) by (auto simp: nic_result_def reachable_nic_def rtl8139_new_def find_None_iff) blast
  then show ?thesis using s(1) k p by blast
qed

end
