(* ===== verification/Speaker.thy ===== *)
theory Speaker
  imports Pit
begin

text \<open>
  \<^verbatim>\<open>kernel/src/device/speaker.rs\<close>: tones and tunes on the PC speaker. Playing a tone programs counter 2
  of the timer, opens the gate, waits and closes the gate again. The readings of the system time that
  the waits make are the argument \<open>clock\<close>, with the number of readings made so far carried along. A
  tune is the list of its calls to \<open>play\<close> and \<open>delay\<close>.
\<close>

subsection \<open>The speaker\<close>

definition SPEAKER_DATA2 :: u16 where "SPEAKER_DATA2 = 0x42"
definition SPEAKER_CONTROL :: u16 where "SPEAKER_CONTROL = 0x43"
definition SPEAKER_PPI :: u16 where "SPEAKER_PPI = 0x61"
definition PIT_FREQUENCY :: nat where "PIT_FREQUENCY = 1193180"

definition speaker_on :: "hw \<Rightarrow> cpu \<Rightarrow> cpu" where
  "speaker_on hw c = (case inb hw SPEAKER_PPI c of (v, c') \<Rightarrow> outb SPEAKER_PPI (v OR 0b11) c')"

definition speaker_off :: "hw \<Rightarrow> cpu \<Rightarrow> cpu" where
  "speaker_off hw c = (case inb hw SPEAKER_PPI c of (v, c') \<Rightarrow> outb SPEAKER_PPI (v AND NOT 0b11) c')"

text \<open>\<open>delay\<close>: the number of readings after the wait.\<close>

definition delay :: "(nat \<Rightarrow> usize) \<Rightarrow> nat \<Rightarrow> nat \<Rightarrow> nat res option" where
  "delay clock duration n =
     (case wait (\<lambda>i. clock (n + i)) (of_nat duration) of
        None \<Rightarrow> None
      | Some r \<Rightarrow> Some (and_then r (\<lambda>k. Inr (Suc (n + k)))))"

definition play :: "hw \<Rightarrow> (nat \<Rightarrow> usize) \<Rightarrow> nat \<Rightarrow> nat \<Rightarrow> cpu \<times> nat \<Rightarrow> (cpu \<times> nat) res option" where
  "play hw clock frequency duration st =
     (case st of (c, n) \<Rightarrow>
      if frequency = 0 then Some (Inl panic.DivisionByZero)
      else
        let counter = PIT_FREQUENCY div frequency;
            c1 = outb SPEAKER_CONTROL 0xB6 c;
            c2 = outb SPEAKER_DATA2 (of_nat (counter mod 256)) c1;
            c3 = outb SPEAKER_DATA2 (of_nat (counter div 256)) c2;
            c4 = speaker_on hw c3
        in (case delay clock duration n of
              None \<Rightarrow> None
            | Some r \<Rightarrow> Some (and_then r (\<lambda>n'. Inr (speaker_off hw c4, n')))))"

datatype tone = Play nat nat | Delay nat

fun perform :: "hw \<Rightarrow> (nat \<Rightarrow> usize) \<Rightarrow> tone \<Rightarrow> cpu \<times> nat \<Rightarrow> (cpu \<times> nat) res option" where
  "perform hw clock (Play frequency duration) st = play hw clock frequency duration st"
| "perform hw clock (Delay duration) (c, n) =
     (case delay clock duration n of None \<Rightarrow> None | Some r \<Rightarrow> Some (and_then r (\<lambda>n'. Inr (c, n'))))"

subsection \<open>The tunes\<close>

definition tetris_notes :: "tone list" where
  "tetris_notes = [
     Play 658 125, Play 1320 500, Play 990 250, Play 1056 250, Play 1188 250, Play 1320 125, Play 1188 125, Play 1056 250, Play 990 250,
     Play 880 500, Play 880 250, Play 1056 250, Play 1320 500, Play 1188 250, Play 1056 250, Play 990 750, Play 1056 250, Play 1188 500,
     Play 1320 500, Play 1056 500, Play 880 500, Play 880 500, Delay 250, Play 1188 500, Play 1408 250, Play 1760 500, Play 1584 250,
     Play 1408 250, Play 1320 750, Play 1056 250, Play 1320 500, Play 1188 250, Play 1056 250, Play 990 500, Play 990 250, Play 1056 250,
     Play 1188 500, Play 1320 500, Play 1056 500, Play 880 500, Play 880 500, Delay 500, Play 1320 500, Play 990 250, Play 1056 250,
     Play 1188 250, Play 1320 125, Play 1188 125, Play 1056 250, Play 990 250, Play 880 500, Play 880 250, Play 1056 250, Play 1320 500,
     Play 1188 250, Play 1056 250, Play 990 750, Play 1056 250, Play 1188 500, Play 1320 500, Play 1056 500, Play 880 500, Play 880 500,
     Delay 250, Play 1188 500, Play 1408 250, Play 1760 500, Play 1584 250, Play 1408 250, Play 1320 750, Play 1056 250, Play 1320 500,
     Play 1188 250, Play 1056 250, Play 990 500, Play 990 250, Play 1056 250, Play 1188 500, Play 1320 500, Play 1056 500, Play 880 500,
     Play 880 500, Delay 500, Play 660 1000, Play 528 1000, Play 594 1000, Play 495 1000, Play 528 1000, Play 440 1000, Play 419 1000,
     Play 495 1000, Play 660 1000, Play 528 1000, Play 594 1000, Play 495 1000, Play 528 500, Play 660 500, Play 880 1000, Play 838 2000,
     Play 660 1000, Play 528 1000, Play 594 1000, Play 495 1000, Play 528 1000, Play 440 1000, Play 419 1000, Play 495 1000, Play 660 1000,
     Play 528 1000, Play 594 1000, Play 495 1000, Play 528 500, Play 660 500, Play 880 1000, Play 838 2000]"

definition aerodynamic_notes_1 :: "tone list" where
  "aerodynamic_notes_1 = [
     Play 587 122, Play 370 122, Play 493 122, Play 370 122, Play 587 122, Play 370 122, Play 493 122, Play 370 122, Play 587 122,
     Play 370 122, Play 493 122, Play 370 122, Play 587 122, Play 370 122, Play 493 122, Play 370 122, Play 587 122, Play 415 122,
     Play 493 122, Play 415 122, Play 587 122, Play 415 122, Play 493 122, Play 415 122, Play 587 122, Play 415 122, Play 493 122,
     Play 415 122, Play 587 122, Play 415 122, Play 493 122, Play 415 122, Play 784 122, Play 493 122, Play 659 122, Play 493 122,
     Play 784 122, Play 493 122, Play 659 122, Play 493 122, Play 784 122, Play 493 122, Play 659 122, Play 493 122, Play 784 122,
     Play 493 122, Play 659 122, Play 493 122, Play 659 122, Play 440 122, Play 554 122, Play 440 122, Play 659 122, Play 440 122,
     Play 554 122, Play 440 122, Play 659 122, Play 440 122, Play 554 122, Play 440 122, Play 659 122, Play 440 122, Play 554 122,
     Play 440 122, Play 1174 122, Play 740 122, Play 987 122, Play 740 122, Play 1174 122, Play 740 122, Play 987 122, Play 740 122,
     Play 1174 122, Play 740 122, Play 987 122, Play 740 122, Play 1174 122, Play 740 122, Play 987 122, Play 740 122, Play 1174 122,
     Play 830 122, Play 987 122, Play 830 122, Play 1174 122, Play 830 122, Play 987 122, Play 830 122, Play 1174 122, Play 830 122,
     Play 987 122, Play 830 122, Play 1174 122, Play 830 122, Play 987 122, Play 830 122, Play 1568 122, Play 987 122, Play 1318 122,
     Play 987 122, Play 1568 122, Play 987 122, Play 1318 122, Play 987 122, Play 1568 122, Play 987 122, Play 1318 122, Play 987 122,
     Play 1568 122, Play 987 122, Play 1318 122, Play 987 122, Play 1318 122, Play 880 122, Play 1108 122, Play 880 122, Play 1318 122,
     Play 880 122, Play 1108 122, Play 880 122, Play 1318 122, Play 880 122, Play 1108 122, Play 880 122, Play 1318 122, Play 880 122,
     Play 1108 122, Play 1174 122]"

definition aerodynamic_notes_2 :: "tone list" where
  "aerodynamic_notes_2 = [
     Play 740 122, Play 987 122, Play 740 122, Play 1174 122, Play 740 122, Play 987 122, Play 740 122, Play 1174 122, Play 740 122,
     Play 987 122, Play 740 122, Play 1174 122, Play 740 122, Play 987 122, Play 740 122, Play 1174 122, Play 830 122, Play 987 122,
     Play 830 122, Play 1174 122, Play 830 122, Play 987 122, Play 830 122, Play 1174 122, Play 830 122, Play 987 122, Play 830 122,
     Play 1174 122, Play 830 122, Play 987 122, Play 830 122, Play 1568 122, Play 987 122, Play 1318 122, Play 987 122, Play 1568 122,
     Play 987 122, Play 1318 122, Play 987 122, Play 1568 122, Play 987 122, Play 1318 122, Play 987 122, Play 1568 122, Play 987 122,
     Play 1318 122, Play 987 122, Play 1318 122, Play 880 122, Play 1108 122, Play 880 122, Play 1318 122, Play 880 122, Play 1108 122,
     Play 880 122, Play 1318 122, Play 880 122, Play 1108 122, Play 880 122, Play 1318 122, Play 880 122, Play 1108 122, Play 1174 122,
     Play 740 122, Play 987 122, Play 740 122, Play 1174 122, Play 740 122, Play 987 122, Play 740 122, Play 1174 122, Play 740 122,
     Play 987 122, Play 740 122, Play 1174 122, Play 740 122, Play 987 122, Play 740 122, Play 1174 122, Play 830 122, Play 987 122,
     Play 830 122, Play 1174 122, Play 830 122, Play 987 122, Play 830 122, Play 1174 122, Play 830 122, Play 987 122, Play 830 122,
     Play 1174 122, Play 830 122, Play 987 122, Play 830 122, Play 1568 122, Play 987 122, Play 1318 122, Play 987 122, Play 1568 122,
     Play 987 122, Play 1318 122, Play 987 122, Play 1568 122, Play 987 122, Play 1318 122, Play 987 122, Play 1568 122, Play 987 122,
     Play 1318 122, Play 987 122, Play 1318 122, Play 880 122, Play 1108 122, Play 880 122, Play 1318 122, Play 880 122, Play 1108 122,
     Play 880 122, Play 1318 122, Play 880 122, Play 1108 122, Play 880 122, Play 1318 122, Play 880 122, Play 1108 122, Play 1174 122,
     Play 740 122, Play 987 122]"

definition aerodynamic_notes_3 :: "tone list" where
  "aerodynamic_notes_3 = [
     Play 740 122, Play 1174 122, Play 740 122, Play 987 122, Play 740 122, Play 1174 122, Play 740 122, Play 987 122, Play 740 122,
     Play 1174 122, Play 740 122, Play 987 122, Play 740 122, Play 1174 122, Play 830 122, Play 987 122, Play 830 122, Play 1174 122,
     Play 830 122, Play 987 122, Play 830 122, Play 1174 122, Play 830 122, Play 987 122, Play 830 122, Play 1174 122, Play 830 122,
     Play 987 122, Play 830 122, Play 1568 122, Play 987 122, Play 1318 122, Play 987 122, Play 1568 122, Play 987 122, Play 1318 122,
     Play 987 122, Play 1568 122, Play 987 122, Play 1318 122, Play 987 122, Play 1568 122, Play 987 122, Play 1318 122, Play 987 122,
     Play 1318 122, Play 880 122, Play 1108 122, Play 880 122, Play 1318 122, Play 880 122, Play 1108 122, Play 880 122, Play 1318 122,
     Play 880 122, Play 1108 122, Play 880 122, Play 1318 122, Play 880 122, Play 1108 122, Play 1174 122, Play 740 122, Play 987 122,
     Play 740 122, Play 1174 122, Play 740 122, Play 987 122, Play 740 122, Play 1174 122, Play 740 122, Play 987 122, Play 740 122,
     Play 1174 122, Play 740 122, Play 987 122, Play 740 122, Play 1174 122, Play 830 122, Play 987 122, Play 830 122, Play 1174 122,
     Play 830 122, Play 987 122, Play 830 122, Play 1174 122, Play 830 122, Play 987 122, Play 830 122, Play 1174 122, Play 830 122,
     Play 987 122, Play 830 122, Play 1568 122, Play 987 122, Play 1318 122, Play 987 122, Play 1568 122, Play 987 122, Play 1318 122,
     Play 987 122, Play 1568 122, Play 987 122, Play 1318 122, Play 987 122, Play 1568 122, Play 987 122, Play 1318 122, Play 987 122,
     Play 1318 122, Play 880 122, Play 1108 122, Play 880 122, Play 1318 122, Play 880 122, Play 1108 122, Play 880 122, Play 1318 122,
     Play 880 122, Play 1108 122, Play 880 122, Play 1318 122, Play 880 122, Play 1108 122, Play 587 122, Play 370 122, Play 493 122,
     Play 370 122, Play 587 122]"

definition aerodynamic_notes_4 :: "tone list" where
  "aerodynamic_notes_4 = [
     Play 370 122, Play 493 122, Play 370 122, Play 587 122, Play 370 122, Play 493 122, Play 370 122, Play 587 122, Play 370 122,
     Play 493 122, Play 370 122, Play 587 122, Play 415 122, Play 493 122, Play 415 122, Play 587 122, Play 415 122, Play 493 122,
     Play 415 122, Play 587 122, Play 415 122, Play 493 122, Play 415 122, Play 587 122, Play 415 122, Play 493 122, Play 415 122,
     Play 784 122, Play 493 122, Play 659 122, Play 493 122, Play 784 122, Play 493 122, Play 659 122, Play 493 122, Play 784 122,
     Play 493 122, Play 659 122, Play 493 122, Play 784 122, Play 493 122, Play 659 122, Play 493 122, Play 659 122, Play 440 122,
     Play 554 122, Play 440 122, Play 659 122, Play 440 122, Play 554 122, Play 440 122, Play 659 122, Play 440 122, Play 554 122,
     Play 440 122, Play 659 122, Play 440 122, Play 554 122, Play 587 122, Play 370 122, Play 493 122, Play 370 122, Play 587 122,
     Play 370 122, Play 493 122, Play 370 122, Play 587 122, Play 370 122, Play 493 122, Play 370 122, Play 587 122, Play 370 122,
     Play 493 122, Play 370 122, Play 587 122, Play 415 122, Play 493 122, Play 415 122, Play 587 122, Play 415 122, Play 493 122,
     Play 415 122, Play 587 122, Play 415 122, Play 493 122, Play 415 122, Play 587 122, Play 415 122, Play 493 122, Play 415 122,
     Play 784 122, Play 493 122, Play 659 122, Play 493 122, Play 784 122, Play 493 122, Play 659 122, Play 493 122, Play 784 122,
     Play 493 122, Play 659 122, Play 493 122, Play 784 122, Play 493 122, Play 659 122, Play 493 122, Play 659 122, Play 440 122,
     Play 554 122, Play 440 122, Play 659 122, Play 440 122, Play 554 122, Play 440 122, Play 659 122, Play 440 122, Play 554 122,
     Play 440 122, Play 659 122, Play 440 122, Play 554 122, Play 1174 122, Play 740 122, Play 987 122, Play 740 122, Play 1174 122,
     Play 740 122, Play 987 122]"

definition aerodynamic_notes_5 :: "tone list" where
  "aerodynamic_notes_5 = [
     Play 740 122, Play 1174 122, Play 740 122, Play 987 122, Play 740 122, Play 1174 122, Play 740 122, Play 987 122, Play 740 122,
     Play 1174 122, Play 830 122, Play 987 122, Play 830 122, Play 1174 122, Play 830 122, Play 987 122, Play 830 122, Play 1174 122,
     Play 830 122, Play 987 122, Play 830 122, Play 1174 122, Play 830 122, Play 987 122, Play 830 122, Play 1568 122, Play 987 122,
     Play 1318 122, Play 987 122, Play 1568 122, Play 987 122, Play 1318 122, Play 987 122, Play 1568 122, Play 987 122, Play 1318 122,
     Play 987 122, Play 1568 122, Play 987 122, Play 1318 122, Play 987 122, Play 1318 122, Play 880 122, Play 1108 122, Play 880 122,
     Play 1318 122, Play 880 122, Play 1108 122, Play 880 122, Play 1318 122, Play 880 122, Play 1108 122, Play 880 122, Play 1318 122,
     Play 880 122, Play 1108 122, Play 1174 122, Play 740 122, Play 987 122, Play 740 122, Play 1174 122, Play 740 122, Play 987 122,
     Play 740 122, Play 1174 122, Play 740 122, Play 987 122, Play 740 122, Play 1174 122, Play 740 122, Play 987 122, Play 740 122,
     Play 1174 122, Play 830 122, Play 987 122, Play 830 122, Play 1174 122, Play 830 122, Play 987 122, Play 830 122, Play 1174 122,
     Play 830 122, Play 987 122, Play 830 122, Play 1174 122, Play 830 122, Play 987 122, Play 830 122, Play 1568 122, Play 987 122,
     Play 1318 122, Play 987 122, Play 1568 122, Play 987 122, Play 1318 122, Play 987 122, Play 1568 122, Play 987 122, Play 1318 122,
     Play 987 122, Play 1568 122, Play 987 122, Play 1318 122, Play 987 122, Play 1318 122, Play 880 122, Play 1108 122, Play 880 122,
     Play 1318 122, Play 880 122, Play 1108 122, Play 880 122, Play 1318 122, Play 880 122, Play 1108 122, Play 880 122, Play 1318 122,
     Play 880 122, Play 1108 122, Play 880 122]"

definition aerodynamic_notes :: "tone list" where
  "aerodynamic_notes = aerodynamic_notes_1 @ aerodynamic_notes_2 @ aerodynamic_notes_3 @ aerodynamic_notes_4 @ aerodynamic_notes_5"

text \<open>Both tunes give up at once when another thread holds the speaker, and end with \<open>off\<close>.\<close>

definition play_tune ::
  "tone list \<Rightarrow> hw \<Rightarrow> (nat \<Rightarrow> usize) \<Rightarrow> unit spinlock \<Rightarrow> cpu \<times> nat \<Rightarrow> (unit spinlock \<times> cpu \<times> nat) res option" where
  "play_tune notes hw clock l st =
     (case try_lock l of
        (False, l') \<Rightarrow> Some (Inr (l', st))
      | (True, g) \<Rightarrow>
          (case write_all (perform hw clock) notes st of
             None \<Rightarrow> None
           | Some r \<Rightarrow> Some (and_then r (\<lambda>(c, n). Inr (guard_drop g, speaker_off hw c, n)))))"

definition tetris :: "hw \<Rightarrow> (nat \<Rightarrow> usize) \<Rightarrow> unit spinlock \<Rightarrow> cpu \<times> nat \<Rightarrow> (unit spinlock \<times> cpu \<times> nat) res option" where
  "tetris = play_tune tetris_notes"

definition aerodynamic :: "hw \<Rightarrow> (nat \<Rightarrow> usize) \<Rightarrow> unit spinlock \<Rightarrow> cpu \<times> nat \<Rightarrow> (unit spinlock \<times> cpu \<times> nat) res option" where
  "aerodynamic = play_tune aerodynamic_notes"

subsection \<open>A clock that advances\<close>

text \<open>
  The readings as natural numbers: they never decrease, every time is reached, and two consecutive
  readings are at most \<open>gap\<close> milliseconds apart.
\<close>

definition advancing :: "(nat \<Rightarrow> nat) \<Rightarrow> nat \<Rightarrow> bool" where
  "advancing T gap \<longleftrightarrow> (\<forall>i. T i \<le> T (Suc i) \<and> T (Suc i) \<le> T i + gap) \<and> (\<forall>x. \<exists>i. x \<le> T i)"

lemma advancing_mono: "advancing T gap \<Longrightarrow> i \<le> j \<Longrightarrow> T i \<le> T j"
  by (rule lift_Suc_mono_le [of T]) (auto simp: advancing_def)

lemma delay_returns:
  assumes T: "advancing T gap" and lt: "T n + ms + 2 * gap < 2 ^ 64"
  shows "\<exists>n'. delay (\<lambda>i. of_nat (T i)) ms n = Some (Inr n') \<and> T n + ms \<le> T n' \<and> T n' \<le> T n + ms + 2 * gap"
proof -
  obtain x where x: "T n + ms \<le> T x" using T by (auto simp: advancing_def)
  have "T n + ms \<le> T (n + Suc x)" using x advancing_mono [OF T, of x "n + Suc x"] by linarith
  then have ex: "\<exists>e. 0 < e \<and> T n + ms \<le> T (n + e)" by blast
  define e where "e = (LEAST e. 0 < e \<and> T n + ms \<le> T (n + e))"
  have e: "0 < e" "T n + ms \<le> T (n + e)" using LeastI_ex [OF ex] by (simp_all add: e_def)
  have early: "T (n + i) < T n + ms" if "0 < i" "i < e" for i
    using not_less_Least [of i "\<lambda>e. 0 < e \<and> T n + ms \<le> T (n + e)"] that by (auto simp: e_def)
  have step: "T (Suc i) \<le> T i + gap" for i using T by (simp add: advancing_def)
  have late: "T (n + e) \<le> T n + ms + gap"
  proof (cases "e = 1")
    case True
    then show ?thesis using step [of n] by simp
  next
    case False
    then show ?thesis using early [of "e - 1"] step [of "n + e - 1"] e(1) by simp
  qed
  let ?clock = "\<lambda>i. of_nat (T (n + i)) :: usize"
  have bound: "T (n + i) < 2 ^ 64" if "i \<le> e" for i
    using that late lt advancing_mono [OF T, of "n + i" "n + e"] by linarith
  then have u: "unat (?clock i) = T (n + i)" if "i \<le> e" for i using that by (simp add: unat_of_nat)
  have m: "?clock i \<le> ?clock j" if "i \<le> j" "j \<le> e" for i j
    using that advancing_mono [OF T, of "n + i" "n + j"] u [of i] u [of j] by (simp add: word_le_nat_alt)
  have ms: "unat (of_nat ms :: usize) = ms" using lt by (simp add: unat_of_nat)
  have diff: "unat (?clock i - ?clock 0) = T (n + i) - T n" if "i \<le> e" for i
    using unat_sub_le [OF m [of 0 i]] that u [of 0] u [of i] by simp
  have "of_nat ms \<le> ?clock e - ?clock 0" using diff [of e] e(2) ms by (simp add: word_le_nat_alt)
  then obtain r where r: "wait ?clock (of_nat ms) = Some (Inr r)" "0 < r" "r \<le> e" "of_nat ms \<le> ?clock r - ?clock 0"
    using wait_loop_returns [of e ?clock "?clock 0" 1 "of_nat ms"] m [of 0 1] m e(1) unfolding wait_def by (auto simp: Suc_le_eq)
  have "ms \<le> T (n + r) - T n" using r(3,4) diff [of r] ms by (simp add: word_le_nat_alt)
  then have re: "r = e" using early [of r] r(2,3) advancing_mono [OF T, of n "n + r"] by (cases "r < e") auto
  have "T n + ms \<le> T (Suc (n + e)) \<and> T (Suc (n + e)) \<le> T n + ms + 2 * gap"
    using e(2) late step [of "n + e"] advancing_mono [OF T, of "n + e" "Suc (n + e)"] by simp
  then show ?thesis using r(1) re by (simp add: delay_def)
qed

subsection \<open>Performing a tune\<close>

text \<open>A tone whose frequency the 16-bit counter can hold, and its length.\<close>

fun tone_ok :: "tone \<Rightarrow> bool" where
  "tone_ok (Play f d) \<longleftrightarrow> 19 \<le> f"
| "tone_ok (Delay d) \<longleftrightarrow> True"

fun duration :: "tone \<Rightarrow> nat" where
  "duration (Play f d) = d"
| "duration (Delay d) = d"

text \<open>What a tone sends: the counter of its frequency, the gate opened, the gate closed.\<close>

fun sounds :: "tone \<Rightarrow> io_event list \<Rightarrow> bool" where
  "sounds (Play f d) evs \<longleftrightarrow> (\<exists>lo hi on off. evs = [Out8 0x43 0xB6, Out8 0x42 lo, Out8 0x42 hi, Out8 0x61 on, Out8 0x61 off]
     \<and> unat lo + 256 * unat hi = 1193180 div f \<and> on AND 0b11 = 0b11 \<and> off AND 0b11 = 0)"
| "sounds (Delay d) evs \<longleftrightarrow> evs = []"

lemma gate_bits: "((v :: u8) OR 3) AND 3 = 3" "(v AND NOT 3) AND 3 = 0"
proof -
  show "(v OR 3) AND 3 = 3" by (rule bit_word_eqI) (auto simp: bit_and_iff bit_or_iff)
  have "NOT 3 AND 3 = (0 :: u8)" by simp
  then show "(v AND NOT 3) AND 3 = 0" by (simp only: and.assoc and_zero_eq)
qed

lemma outputs_gate:
  "\<exists>v. outputs (speaker_on hw c) = outputs c @ [Out8 0x61 (v OR 3)]"
  "\<exists>v. outputs (speaker_off hw c) = outputs c @ [Out8 0x61 (v AND NOT 3)]"
  by (auto simp: speaker_on_def speaker_off_def SPEAKER_PPI_def split_beta)

lemma counter_split:
  assumes "19 \<le> f"
  shows "unat (of_nat (1193180 div f mod 256) :: u8) + 256 * unat (of_nat (1193180 div f div 256) :: u8) = 1193180 div f"
proof -
  have "1193180 div f \<le> 1193180 div 19" using assms by (intro div_le_mono2) simp_all
  then have "1193180 div f div 256 < 256" by simp
  then show ?thesis by (simp add: unat_of_nat)
qed

lemma perform_tone:
  assumes T: "advancing T gap" and lt: "T n + duration t + 2 * gap < 2 ^ 64" and ok: "tone_ok t"
  shows "\<exists>c' n' evs. perform hw (\<lambda>i. of_nat (T i)) t (c, n) = Some (Inr (c', n')) \<and> outputs c' = outputs c @ evs \<and> sounds t evs
    \<and> T n + duration t \<le> T n' \<and> T n' \<le> T n + duration t + 2 * gap"
proof -
  obtain n' where n': "delay (\<lambda>i. of_nat (T i)) (duration t) n = Some (Inr n')"
    "T n + duration t \<le> T n'" "T n' \<le> T n + duration t + 2 * gap" using delay_returns [OF T lt] by blast
  show ?thesis
  proof (cases t)
    case (Delay d)
    then show ?thesis using n' by auto
  next
    case (Play f d)
    let ?k = "PIT_FREQUENCY div f"
    let ?c3 = "outb SPEAKER_DATA2 (of_nat (?k div 256)) (outb SPEAKER_DATA2 (of_nat (?k mod 256)) (outb SPEAKER_CONTROL 0xB6 c))"
    obtain v w where g: "outputs (speaker_on hw ?c3) = outputs ?c3 @ [Out8 0x61 (v OR 3)]"
      "outputs (speaker_off hw (speaker_on hw ?c3)) = outputs (speaker_on hw ?c3) @ [Out8 0x61 (w AND NOT 3)]"
      using outputs_gate by metis
    have "perform hw (\<lambda>i. of_nat (T i)) t (c, n) = Some (Inr (speaker_off hw (speaker_on hw ?c3), n'))"
      using Play n'(1) ok by (simp add: play_def Let_def)
    moreover have "sounds t [Out8 0x43 0xB6, Out8 0x42 (of_nat (?k mod 256)), Out8 0x42 (of_nat (?k div 256)),
        Out8 0x61 (v OR 3), Out8 0x61 (w AND NOT 3)]"
      using Play ok counter_split [of f] gate_bits [of v] gate_bits [of w] by (simp add: PIT_FREQUENCY_def)
    ultimately show ?thesis using n' Play g
      by (intro exI [of _ "speaker_off hw (speaker_on hw ?c3)"] exI [of _ n'] exI)
        (auto simp: SPEAKER_CONTROL_def SPEAKER_DATA2_def)
  qed
qed

lemma perform_all:
  assumes T: "advancing T gap"
  shows "\<forall>t \<in> set ts. tone_ok t \<Longrightarrow> T n + sum_list (map duration ts) + 2 * gap * length ts < 2 ^ 64 \<Longrightarrow>
    \<exists>c' n' evss. write_all (perform hw (\<lambda>i. of_nat (T i))) ts (c, n) = Some (Inr (c', n'))
      \<and> outputs c' = outputs c @ concat evss \<and> list_all2 sounds ts evss \<and> T n + sum_list (map duration ts) \<le> T n'"
proof (induction ts arbitrary: c n)
  case Nil
  then show ?case by auto
next
  case (Cons t ts)
  have "T n + duration t + 2 * gap < 2 ^ 64" using Cons.prems(2) by simp
  then obtain c1 n1 evs where 1: "perform hw (\<lambda>i. of_nat (T i)) t (c, n) = Some (Inr (c1, n1))" "outputs c1 = outputs c @ evs"
    "sounds t evs" "T n + duration t \<le> T n1" "T n1 \<le> T n + duration t + 2 * gap"
    using perform_tone [OF T] Cons.prems(1) by (metis list.set_intros(1))
  have "T n1 + sum_list (map duration ts) + 2 * gap * length ts < 2 ^ 64" using 1(5) Cons.prems(2) by simp
  then obtain c2 n2 evss where 2: "write_all (perform hw (\<lambda>i. of_nat (T i))) ts (c1, n1) = Some (Inr (c2, n2))"
    "outputs c2 = outputs c1 @ concat evss" "list_all2 sounds ts evss" "T n1 + sum_list (map duration ts) \<le> T n2"
    using Cons.IH [of n1 c1] Cons.prems(1) by auto
  have "outputs c2 = outputs c @ concat (evs # evss)" "list_all2 sounds (t # ts) (evs # evss)"
    "T n + sum_list (map duration (t # ts)) \<le> T n2" using 1 2 by simp_all
  moreover have "write_all (perform hw (\<lambda>i. of_nat (T i))) (t # ts) (c, n) = Some (Inr (c2, n2))" using 1(1) 2(1) by simp
  ultimately show ?case by blast
qed

lemma aerodynamic_parts:
  "list_all tone_ok aerodynamic_notes_1" "list_all tone_ok aerodynamic_notes_2" "list_all tone_ok aerodynamic_notes_3"
  "list_all tone_ok aerodynamic_notes_4" "list_all tone_ok aerodynamic_notes_5"
  unfolding aerodynamic_notes_1_def aerodynamic_notes_2_def aerodynamic_notes_3_def aerodynamic_notes_4_def aerodynamic_notes_5_def
  by (simp_all only: list.pred_inject tone_ok.simps) simp_all

lemma notes_ok: "list_all tone_ok tetris_notes" "list_all tone_ok aerodynamic_notes"
proof -
  show "list_all tone_ok tetris_notes"
    unfolding tetris_notes_def by (simp only: list.pred_inject tone_ok.simps) simp
  show "list_all tone_ok aerodynamic_notes" using aerodynamic_parts by (simp add: aerodynamic_notes_def)
qed

text \<open>
  Both tunes play to their end. When the speaker is free and the clock advances (readings at most
  \<open>gap\<close> milliseconds apart, no wrap-around while the tune lasts), \<open>tetris\<close> and \<open>aerodynamic\<close> return
  without a panic or overflow, not before the sum of their durations has passed; every tone of the
  tune in turn is sounded with the counter of its frequency and silenced, and afterwards the gate is
  closed and the speaker free again. When another thread holds the speaker nothing is played.
\<close>

theorem tunes_play_to_the_end:
  assumes T: "advancing T gap" and tune: "(tune, notes) = (tetris, tetris_notes) \<or> (tune, notes) = (aerodynamic, aerodynamic_notes)"
    and lt: "T n + sum_list (map duration notes) + 2 * gap * length notes < 2 ^ 64"
  shows "(\<exists>c' n' evss off. tune hw (\<lambda>i. of_nat (T i)) (spinlock_new ()) (c, n) = Some (Inr (spinlock_new (), c', n'))
      \<and> outputs c' = outputs c @ concat evss @ [Out8 0x61 off] \<and> off AND 0b11 = 0 \<and> list_all2 sounds notes evss
      \<and> T n + sum_list (map duration notes) \<le> T n')
    \<and> tune hw (\<lambda>i. of_nat (T i)) \<lparr>sl_lock = True, sl_data = ()\<rparr> (c, n) = Some (Inr (\<lparr>sl_lock = True, sl_data = ()\<rparr>, c, n))"
proof -
  have eq: "tune = play_tune notes" and ok: "\<forall>t \<in> set notes. tone_ok t"
    using tune notes_ok by (auto simp: tetris_def aerodynamic_def list_all_iff)
  obtain c1 n1 evss where 1: "write_all (perform hw (\<lambda>i. of_nat (T i))) notes (c, n) = Some (Inr (c1, n1))"
    "outputs c1 = outputs c @ concat evss" "list_all2 sounds notes evss" "T n + sum_list (map duration notes) \<le> T n1"
    using perform_all [OF T ok lt] by blast
  obtain v where v: "outputs (speaker_off hw c1) = outputs c1 @ [Out8 0x61 (v AND NOT 3)]" using outputs_gate(2) by blast
  have "tune hw (\<lambda>i. of_nat (T i)) (spinlock_new ()) (c, n) = Some (Inr (spinlock_new (), speaker_off hw c1, n1))"
    using 1(1) by (simp add: eq play_tune_def spinlock_defs)
  moreover have "outputs (speaker_off hw c1) = outputs c @ concat evss @ [Out8 0x61 (v AND NOT 3)]" using v 1(2) by simp
  moreover have "tune hw (\<lambda>i. of_nat (T i)) \<lparr>sl_lock = True, sl_data = ()\<rparr> (c, n) = Some (Inr (\<lparr>sl_lock = True, sl_data = ()\<rparr>, c, n))"
    by (simp add: eq play_tune_def spinlock_defs)
  ultimately show ?thesis using 1(3,4) gate_bits(2) [of v] by auto
qed

theorem tunes_play_to_the_end_witness:
  "\<exists>c' n'. tetris (\<lambda>_ _. 0) (\<lambda>i. of_nat i) (spinlock_new ()) (\<lparr>cpu_rflags = 0, cpu_cr0 = 0, cpu_trace = []\<rparr>, 0)
     = Some (Inr (spinlock_new (), c', n'))"
proof -
  have T: "advancing (\<lambda>i. i) 1" by (auto simp: advancing_def)
  have "0 + sum_list (map duration tetris_notes) + 2 * 1 * length tetris_notes < 2 ^ 64" by (simp add: tetris_notes_def)
  then show ?thesis using tunes_play_to_the_end [OF T, of tetris tetris_notes 0 "\<lambda>_ _. 0" "\<lparr>cpu_rflags = 0, cpu_cr0 = 0, cpu_trace = []\<rparr>"]
    by auto
qed

end
