(* ===== verification/Bitmap.thy ===== *)
theory Bitmap
  imports Framebuffer Tarfs
begin

text \<open>
  \<^verbatim>\<open>kernel/src/library/bitmap.rs\<close> and \<open>draw_bitmap\<close> of \<^verbatim>\<open>kernel/src/device/framebuffer.rs\<close>: reading
  uncompressed bitmap files with 24 bits per pixel and drawing them. The packed header structure is
  read from the bytes of the file at its field offsets. A slice out of range and a chunk size of
  zero panic.
\<close>

subsection \<open>The file header\<close>

text \<open>Signed fields are kept as their bit patterns.\<close>

record bitmap_info_header =
  bi_header_size :: u32
  bi_width :: u32
  bi_height :: u32
  bi_color_planes :: u16
  bi_bits_per_pixel :: u16
  bi_compression :: u32
  bi_image_size :: u32
  bi_x_pixels_per_meter :: u32
  bi_y_pixels_per_meter :: u32
  bi_colors_used :: u32
  bi_important_colors :: u32

record bitmap_file_header =
  bf_signature :: "u8 list"
  bf_file_size :: u32
  bf_reserved :: u32
  bf_data_offset :: u32
  bf_info_header :: bitmap_info_header

definition SIZE_OF_HEADER :: nat where "SIZE_OF_HEADER = 54"

definition read_header :: "u8 list \<Rightarrow> bitmap_file_header" where
  "read_header data =
     \<lparr>bf_signature = [data ! 0, data ! 1], bf_file_size = le32 data 2, bf_reserved = le32 data 6,
      bf_data_offset = le32 data 10,
      bf_info_header =
        \<lparr>bi_header_size = le32 data 14, bi_width = le32 data 18, bi_height = le32 data 22,
         bi_color_planes = le16 data 26, bi_bits_per_pixel = le16 data 28, bi_compression = le32 data 30,
         bi_image_size = le32 data 34, bi_x_pixels_per_meter = le32 data 38, bi_y_pixels_per_meter = le32 data 42,
         bi_colors_used = le32 data 46, bi_important_colors = le32 data 50\<rparr>\<rparr>"

subsection \<open>Reading\<close>

record bitmap =
  bmp_header :: bitmap_file_header
  bmp_pixel_data :: "u32 list"

definition argb :: "u8 \<Rightarrow> u8 \<Rightarrow> u8 \<Rightarrow> u8 \<Rightarrow> u32" where
  "argb r g b a = push_bit 24 (ucast a) OR push_bit 16 (ucast r) OR push_bit 8 (ucast g) OR ucast b"

function chunks :: "nat \<Rightarrow> 'a list \<Rightarrow> 'a list list" where
  "chunks n xs = (if n = 0 \<or> xs = [] then [] else take n xs # chunks n (drop n xs))"
  by pat_completeness auto
termination
  by (relation "measure (length \<circ> snd)") auto

declare chunks.simps [simp del]

fun pixels_of :: "u8 list \<Rightarrow> u32 list" where
  "pixels_of (b # g # r # rest) = argb r g b 0xFF # pixels_of rest"
| "pixels_of _ = []"

fun read_rows :: "nat \<Rightarrow> u8 list list \<Rightarrow> u32 list res" where
  "read_rows row_size [] = Inr []"
| "read_rows row_size (row # rows) =
     (if row_size \<le> length row
      then and_then (read_rows row_size rows) (\<lambda>ps. Inr (pixels_of (take row_size row) @ ps))
      else Inl IndexOutOfBounds)"

text \<open>\<open>(row_size + 3) & !3\<close> rounds down to a multiple of 4; the width is sign extended by the cast.\<close>

definition from_bytes :: "u8 list \<Rightarrow> bitmap option res" where
  "from_bytes data =
     (if length data < SIZE_OF_HEADER then Inl IndexOutOfBounds
      else
        let header = read_header data; info = bf_info_header header in
        if bf_signature header \<noteq> [0x42, 0x4D] then Inr None
        else if bi_color_planes info \<noteq> 1 \<or> bi_bits_per_pixel info \<noteq> 24 then Inr None
        else
          let width = unat (scast (bi_width info) :: usize); off = unat (bf_data_offset header) in
          and_then (nmul width 3) (\<lambda>row_size.
          and_then (nadd row_size 3) (\<lambda>r3.
          let padded_row_size = r3 div 4 * 4 in
          if off > length data then Inl IndexOutOfBounds
          else if padded_row_size = 0 then Inl (PanicMsg ''chunk size must be non-zero'')
          else and_then (read_rows row_size (chunks padded_row_size (drop off data))) (\<lambda>ps.
            Inr (Some \<lparr>bmp_header = header, bmp_pixel_data = ps\<rparr>)))))"

definition bmp_width :: "bitmap \<Rightarrow> u32" where
  "bmp_width bmp = bi_width (bf_info_header (bmp_header bmp))"

definition bmp_height :: "bitmap \<Rightarrow> u32" where
  "bmp_height bmp = bi_height (bf_info_header (bmp_header bmp))"

text \<open>Open the file, read all of it and parse it. The handle stays open.\<close>

definition read_from_file :: "string \<Rightarrow> tarfs \<Rightarrow> ((fs_error + bitmap option) \<times> tarfs) res option" where
  "read_from_file path fs =
     (case open_path path fs of
        None \<Rightarrow> None
      | Some (Inl e) \<Rightarrow> Some (Inl e)
      | Some (Inr (Inl err, fs1)) \<Rightarrow> Some (Inr (Inl err, fs1))
      | Some (Inr (Inr file, fs1)) \<Rightarrow>
          (case size_of_handle file fs1 of
             None \<Rightarrow> None
           | Some (Inl e) \<Rightarrow> Some (Inl e)
           | Some (Inr (Inl err, fs2)) \<Rightarrow> Some (Inr (Inl err, fs2))
           | Some (Inr (Inr n, fs2)) \<Rightarrow>
               (case read_handle file (replicate n 0) fs2 of
                  None \<Rightarrow> None
                | Some (Inl e) \<Rightarrow> Some (Inl e)
                | Some (Inr (Inl err, fs3)) \<Rightarrow> Some (Inr (Inl err, fs3))
                | Some (Inr (Inr (_, bmp_data), fs3)) \<Rightarrow>
                    Some (and_then (from_bytes bmp_data) (\<lambda>b. Inr (Inr b, fs3))))))"

subsection \<open>Drawing\<close>

fun draw_cols :: "framebuffer \<Rightarrow> u32 list \<Rightarrow> nat \<Rightarrow> nat \<Rightarrow> nat \<Rightarrow> nat \<Rightarrow> nat \<Rightarrow> nat list \<Rightarrow> vram \<Rightarrow> vram res" where
  "draw_cols fb data bw th x y row [] m = Inr m"
| "draw_cols fb data bw th x y row (col # cols) m =
     and_then (and_then (nsub th row) (\<lambda>d. nsub d 1)) (\<lambda>bmp_row.
     and_then (and_then (nmul bmp_row bw) (\<lambda>i. nadd i col)) (\<lambda>i.
     and_then (get_index data i) (\<lambda>p.
     and_then (nadd x col) (\<lambda>px.
     and_then (nadd y row) (\<lambda>py.
     and_then (draw_pixel_unchecked fb px py p m) (\<lambda>m'. draw_cols fb data bw th x y row cols m'))))))"

fun draw_bmp_rows :: "framebuffer \<Rightarrow> u32 list \<Rightarrow> nat \<Rightarrow> nat \<Rightarrow> nat \<Rightarrow> nat \<Rightarrow> nat \<Rightarrow> nat list \<Rightarrow> vram \<Rightarrow> vram res" where
  "draw_bmp_rows fb data bw tw th x y [] m = Inr m"
| "draw_bmp_rows fb data bw tw th x y (row # rows) m =
     and_then (draw_cols fb data bw th x y row [0..<tw] m) (\<lambda>m'. draw_bmp_rows fb data bw tw th x y rows m')"

definition draw_bitmap :: "framebuffer \<Rightarrow> bitmap \<Rightarrow> nat \<Rightarrow> nat \<Rightarrow> vram \<Rightarrow> vram res" where
  "draw_bitmap fb bmp x y m =
     (let bw = unat (bmp_width bmp); bh = unat (bmp_height bmp) in
      and_then (nadd x bw) (\<lambda>right.
      let tw = (if right > fb_width fb then fb_width fb - x else bw) in
      and_then (nadd y bh) (\<lambda>lower.
      let th = (if lower > fb_height fb then fb_height fb - y else bh) in
        draw_bmp_rows fb (bmp_pixel_data bmp) bw tw th x y [0..<th] m)))"

subsection \<open>Decoding what an encoder wrote\<close>

text \<open>The file of an image given by its rows of red, green and blue values, the bottom row first.\<close>

type_synonym rgb = "u8 \<times> u8 \<times> u8"

definition encode_pixel :: "rgb \<Rightarrow> u8 list" where
  "encode_pixel p = (case p of (r, g, b) \<Rightarrow> [b, g, r])"

definition row_padding :: "nat \<Rightarrow> nat" where
  "row_padding w = (3 * w + 3) div 4 * 4 - 3 * w"

definition encode_row :: "nat \<Rightarrow> rgb list \<Rightarrow> u8 list" where
  "encode_row w row = concat (map encode_pixel row) @ replicate (row_padding w) 0"

definition encode_header :: "nat \<Rightarrow> nat \<Rightarrow> u8 list" where
  "encode_header w h =
     [0x42, 0x4D] @ le32_bytes (of_nat (54 + (3 * w + row_padding w) * h)) @ le32_bytes 0 @ le32_bytes 54
     @ le32_bytes 40 @ le32_bytes (of_nat w) @ le32_bytes (of_nat h) @ le16_bytes 1 @ le16_bytes 24
     @ le32_bytes 0 @ le32_bytes 0 @ le32_bytes 2835 @ le32_bytes 2835 @ le32_bytes 0 @ le32_bytes 0"

definition encode_bmp :: "nat \<Rightarrow> rgb list list \<Rightarrow> u8 list" where
  "encode_bmp w rows = encode_header w (length rows) @ concat (map (encode_row w) rows)"

definition rgb_color :: "rgb \<Rightarrow> u32" where
  "rgb_color p = (case p of (r, g, b) \<Rightarrow> argb r g b 0xFF)"

lemma length_encode_header: "length (encode_header w h) = 54"
  by (simp add: encode_header_def le32_bytes_def le16_bytes_def)

lemma header_fields:
  "le32 (encode_header w h @ rest) 10 = 54" "le32 (encode_header w h @ rest) 18 = of_nat w"
  "le32 (encode_header w h @ rest) 22 = of_nat h" "le16 (encode_header w h @ rest) 26 = 1"
  "le16 (encode_header w h @ rest) 28 = 24"
  "(encode_header w h @ rest) ! 0 = 0x42" "(encode_header w h @ rest) ! Suc 0 = 0x4D"
  by (simp_all add: encode_header_def le32_bytes_def le16_bytes_def le32_def le16_def le_bytes_join le16_bytes_join)

lemma pixels_of_encoded: "pixels_of (concat (map encode_pixel row)) = map rgb_color row"
  by (induction row) (auto simp: encode_pixel_def rgb_color_def)

lemma length_encoded [simp]: "length (concat (map encode_pixel row)) = 3 * length row"
  by (induction row) (auto simp: encode_pixel_def)

lemma chunks_concat:
  "0 < n \<Longrightarrow> \<forall>row \<in> set rows. length row = n \<Longrightarrow> chunks n (concat rows) = rows"
proof (induction rows)
  case Nil
  then show ?case by (simp add: chunks.simps)
next
  case (Cons row rows)
  then have "row @ concat rows \<noteq> []" by auto
  then show ?case using Cons by (subst chunks.simps) auto
qed

lemma read_rows_encoded:
  "\<forall>row \<in> set rows. length row = w \<Longrightarrow> read_rows (3 * w) (map (encode_row w) rows) = Inr (concat (map (map rgb_color) rows))"
  by (induction rows) (auto simp: encode_row_def pixels_of_encoded)

text \<open>Reading back what the encoder writes gives the image.\<close>

lemma decode_encode:
  assumes w: "0 < w" "w < 2 ^ 31" and rows: "\<forall>row \<in> set rows. length row = w"
  shows "\<exists>b. from_bytes (encode_bmp w rows) = Inr (Some b) \<and> bmp_width b = of_nat w
    \<and> bmp_height b = of_nat (length rows) \<and> bmp_pixel_data b = concat (map (map rgb_color) rows)"
proof -
  let ?data = "encode_bmp w rows"
  have sw: "unat (scast (of_nat w :: u32) :: usize) = w"
  proof -
    have "sint (of_nat w :: u32) = int w" using w(2) by (simp add: signed_of_nat signed_take_bit_int_eq_self)
    then have "(scast (of_nat w :: u32) :: usize) = of_nat w" by (metis of_int_of_nat_eq of_int_sint)
    then show ?thesis using w(2) by (simp add: unat_of_nat)
  qed
  have pad: "(3 * w + 3) div 4 * 4 = 3 * w + row_padding w" "0 < 3 * w + row_padding w" "0 < (3 * w + 3) div 4"
    using w by (auto simp: row_padding_def div_greater_zero_iff)
  have "chunks (3 * w + row_padding w) (concat (map (encode_row w) rows)) = map (encode_row w) rows"
    using pad(2) rows by (intro chunks_concat) (auto simp: encode_row_def)
  moreover have "nmul w 3 = Inr (3 * w)" "nadd (3 * w) 3 = Inr (3 * w + 3)" using w by (simp_all add: nmul_def nadd_def)
  ultimately show ?thesis
    using pad read_rows_encoded [OF rows]
    by (simp add: from_bytes_def encode_bmp_def read_header_def header_fields length_encode_header SIZE_OF_HEADER_def sw
        bmp_width_def bmp_height_def Let_def)
qed

subsection \<open>What is drawn\<close>

lemma paints_cols:
  assumes "fb_ok fb m" "row < th" "y + row < fb_height fb" "\<forall>c \<in> set cs. c < bw \<and> x + c < fb_width fb"
    "th * bw \<le> length data" "length data < 2 ^ 64"
  shows "paints fb (draw_cols fb data bw th x y row cs m) m
    (\<lambda>x' y'. if y' = y + row \<and> x \<le> x' \<and> x' - x \<in> set cs then data ! ((th - row - 1) * bw + (x' - x)) else pixel fb m x' y')"
  using assms
proof (induction cs arbitrary: m)
  case Nil
  then show ?case by (auto simp: paints_def)
next
  case (Cons c cs)
  let ?i = "(th - row - 1) * bw + c"
  have c: "c < bw" "x + c < fb_width fb" using Cons.prems(4) by simp_all
  have "Suc (th - row - 1) * bw \<le> th * bw" using Cons.prems(2) by (intro mult_le_mono1) simp
  then have i: "?i < length data" using c(1) Cons.prems(5) by simp
  then have lt: "?i < 2 ^ 64" "(th - row - 1) * bw < 2 ^ 64" using Cons.prems(6) by linarith+
  have wh: "fb_width fb < 2 ^ 32" "fb_height fb < 2 ^ 32" using Cons.prems(1) by (simp_all add: fb_ok_def)
  have ops: "nsub th row = Inr (th - row)" "nsub (th - row) 1 = Inr (th - row - 1)"
    "nmul (th - row - 1) bw = Inr ((th - row - 1) * bw)" "nadd ((th - row - 1) * bw) c = Inr ?i"
    "nadd x c = Inr (x + c)" "nadd y row = Inr (y + row)"
    using Cons.prems(2,3) c(2) wh nmul_ok [OF lt(2)] nadd_ok [OF lt(1)] by (simp_all add: nsub_def nadd_def)
  obtain m1 where m1: "draw_pixel_unchecked fb (x + c) (y + row) (data ! ?i) m = Inr m1" "fb_ok fb m1"
    "\<And>x' y'. x' < fb_width fb \<Longrightarrow> y' < fb_height fb \<Longrightarrow> pixel fb m1 x' y' =
       (if (x', y') = (x + c, y + row) then data ! ?i else pixel fb m x' y')"
    using paintsE [OF paints_pixel [OF Cons.prems(1) c(2) Cons.prems(3), of "data ! ?i"]] by blast
  obtain m2 where m2: "draw_cols fb data bw th x y row cs m1 = Inr m2" "fb_ok fb m2"
    "\<And>x' y'. x' < fb_width fb \<Longrightarrow> y' < fb_height fb \<Longrightarrow> pixel fb m2 x' y' =
       (if y' = y + row \<and> x \<le> x' \<and> x' - x \<in> set cs then data ! ((th - row - 1) * bw + (x' - x)) else pixel fb m1 x' y')"
    using paintsE [OF Cons.IH [OF m1(2)]] Cons.prems by (metis list.set_intros(2))
  show ?case
  proof (rule paintsI [where m' = m2])
    show "draw_cols fb data bw th x y row (c # cs) m = Inr m2"
      using ops i m1(1) m2(1) by (simp only: draw_cols.simps and_then_simps get_index_in)
    show "fb_ok fb m2" by (rule m2(2))
    fix x' y'
    assume b: "x' < fb_width fb" "y' < fb_height fb"
    show "pixel fb m2 x' y' = (if y' = y + row \<and> x \<le> x' \<and> x' - x \<in> set (c # cs)
        then data ! ((th - row - 1) * bw + (x' - x)) else pixel fb m x' y')"
      using m1(3) [OF b] m2(3) [OF b] by (cases "x' = x + c") auto
  qed
qed

lemma paints_bmp_rows:
  assumes "fb_ok fb m" "\<forall>r \<in> set rs. r < th \<and> y + r < fb_height fb" "tw \<le> bw" "\<forall>c < tw. x + c < fb_width fb"
    "th * bw \<le> length data" "length data < 2 ^ 64"
  shows "paints fb (draw_bmp_rows fb data bw tw th x y rs m) m
    (\<lambda>x' y'. if y \<le> y' \<and> y' - y \<in> set rs \<and> x \<le> x' \<and> x' - x < tw
       then data ! ((th - (y' - y) - 1) * bw + (x' - x)) else pixel fb m x' y')"
  using assms
proof (induction rs arbitrary: m)
  case Nil
  then show ?case by (auto simp: paints_def)
next
  case (Cons r rs)
  obtain m1 where m1: "draw_cols fb data bw th x y r [0..<tw] m = Inr m1" "fb_ok fb m1"
    "\<And>x' y'. x' < fb_width fb \<Longrightarrow> y' < fb_height fb \<Longrightarrow> pixel fb m1 x' y' =
       (if y' = y + r \<and> x \<le> x' \<and> x' - x \<in> set [0..<tw] then data ! ((th - r - 1) * bw + (x' - x)) else pixel fb m x' y')"
    using paintsE [OF paints_cols [OF Cons.prems(1), of r th y "[0..<tw]" bw x data]] Cons.prems by auto
  obtain m2 where m2: "draw_bmp_rows fb data bw tw th x y rs m1 = Inr m2" "fb_ok fb m2"
    "\<And>x' y'. x' < fb_width fb \<Longrightarrow> y' < fb_height fb \<Longrightarrow> pixel fb m2 x' y' =
       (if y \<le> y' \<and> y' - y \<in> set rs \<and> x \<le> x' \<and> x' - x < tw
        then data ! ((th - (y' - y) - 1) * bw + (x' - x)) else pixel fb m1 x' y')"
    using paintsE [OF Cons.IH [OF m1(2)]] Cons.prems by (metis list.set_intros(2))
  show ?case
  proof (rule paintsI [where m' = m2])
    show "draw_bmp_rows fb data bw tw th x y (r # rs) m = Inr m2" using m1(1) m2(1) by simp
    show "fb_ok fb m2" by (rule m2(2))
    fix x' y'
    assume b: "x' < fb_width fb" "y' < fb_height fb"
    show "pixel fb m2 x' y' = (if y \<le> y' \<and> y' - y \<in> set (r # rs) \<and> x \<le> x' \<and> x' - x < tw
        then data ! ((th - (y' - y) - 1) * bw + (x' - x)) else pixel fb m x' y')"
      using m1(3) [OF b] m2(3) [OF b] by (cases "y' = y + r") auto
  qed
qed

lemma paints_bitmap:
  assumes ok: "fb_ok fb m" and xy: "x < 2 ^ 32" "y < 2 ^ 32"
    and data: "unat (bmp_height b) * unat (bmp_width b) \<le> length (bmp_pixel_data b)" "length (bmp_pixel_data b) < 2 ^ 64"
  shows "paints fb (draw_bitmap fb b x y m) m
    (\<lambda>x' y'. if x \<le> x' \<and> x' < x + unat (bmp_width b) \<and> y \<le> y' \<and> y' < y + unat (bmp_height b)
       then bmp_pixel_data b ! ((min (unat (bmp_height b)) (fb_height fb - y) - (y' - y) - 1) * unat (bmp_width b) + (x' - x))
       else pixel fb m x' y')"
proof -
  let ?bw = "unat (bmp_width b)" and ?bh = "unat (bmp_height b)"
  let ?tw = "min ?bw (fb_width fb - x)" and ?th = "min ?bh (fb_height fb - y)"
  have "?bw < 2 ^ 32" "?bh < 2 ^ 32" 
    using unsigned_less [of "bmp_width b", where 'a = nat] unsigned_less [of "bmp_height b", where 'a = nat] by simp_all
  then have "nadd x ?bw = Inr (x + ?bw)" "nadd y ?bh = Inr (y + ?bh)" using xy by (auto intro!: nadd_ok)
  moreover have "(if fb_width fb < x + ?bw then fb_width fb - x else ?bw) = ?tw"
    "(if fb_height fb < y + ?bh then fb_height fb - y else ?bh) = ?th" by auto
  ultimately have eq: "draw_bitmap fb b x y m = draw_bmp_rows fb (bmp_pixel_data b) ?bw ?tw ?th x y [0..<?th] m"
    by (simp only: draw_bitmap_def Let_def and_then_simps)
  have "?th * ?bw \<le> length (bmp_pixel_data b)" using data(1) mult_le_mono1 [of ?th ?bh ?bw] by linarith
  then have "paints fb (draw_bitmap fb b x y m) m
    (\<lambda>x' y'. if y \<le> y' \<and> y' - y \<in> set [0..<?th] \<and> x \<le> x' \<and> x' - x < ?tw
       then bmp_pixel_data b ! ((?th - (y' - y) - 1) * ?bw + (x' - x)) else pixel fb m x' y')"
    unfolding eq using data(2) by (intro paints_bmp_rows [OF ok]) auto
  then show ?thesis
    by (elim paintsE) (rule paintsI, auto)
qed

lemma nth_concat_uniform:
  "\<forall>row \<in> set rows. length row = w \<Longrightarrow> i < length rows \<Longrightarrow> j < w \<Longrightarrow> concat rows ! (i * w + j) = rows ! i ! j"
proof (induction rows arbitrary: i)
  case Nil
  then show ?case by simp
next
  case (Cons row rows)
  then show ?case by (cases i) (auto simp: nth_append add.assoc)
qed

lemma length_concat_uniform: "\<forall>row \<in> set rows. length row = w \<Longrightarrow> length (concat rows) = length rows * w"
  by (induction rows) auto

text \<open>
  C16. A bitmap file is shown as the image it encodes. Parsing the file that the encoder writes for
  any image of \<open>h\<close> rows of \<open>w\<close> pixels (the bottom row first, as the format has it) succeeds, and
  drawing the result at any position of any framebuffer succeeds, stays inside the video memory and
  changes exactly the pixels of the framebuffer in the rectangle of the image. An image that fits
  vertically appears as it is, cut at the right edge when it is too wide; of an image that is too
  high by \<open>d\<close> rows the lower \<open>h - d\<close> rows appear, so the cut rows are the top of the image.
\<close>

theorem bitmap_shows_image:
  assumes ok: "fb_ok fb m" and xy: "x < 2 ^ 32" "y < 2 ^ 32"
    and image: "0 < w" "w < 2 ^ 31" "0 < length rows" "length rows < 2 ^ 31" "\<forall>row \<in> set rows. length row = w"
  shows "\<exists>b m'. from_bytes (encode_bmp w rows) = Inr (Some b) \<and> draw_bitmap fb b x y m = Inr m'
    \<and> (\<forall>x' < fb_width fb. \<forall>y' < fb_height fb. pixel fb m' x' y' =
         (if x \<le> x' \<and> x' < x + w \<and> y \<le> y' \<and> y' < y + length rows
          then rgb_color (rows ! (min (length rows) (fb_height fb - y) - 1 - (y' - y)) ! (x' - x)) else pixel fb m x' y'))"
proof -
  let ?h = "length rows" and ?cs = "map (map rgb_color) rows"
  obtain b where b: "from_bytes (encode_bmp w rows) = Inr (Some b)" "bmp_width b = of_nat w"
    "bmp_height b = of_nat ?h" "bmp_pixel_data b = concat ?cs"
    using decode_encode [OF image(1,2,5)] by blast
  have wh: "unat (bmp_width b) = w" "unat (bmp_height b) = ?h" using b(2,3) image(2,4) by (simp_all add: unat_of_nat)
  have u: "\<forall>row \<in> set ?cs. length row = w" using image(5) by auto
  have "?h * w < 2 ^ 32 * 2 ^ 32" using image by (intro mult_strict_mono) simp_all
  then have len: "length (bmp_pixel_data b) = ?h * w" "length (bmp_pixel_data b) < 2 ^ 64"
    using length_concat_uniform [OF u] by (simp_all add: b(4))
  obtain m' where m': "draw_bitmap fb b x y m = Inr m'"
    "\<And>x' y'. x' < fb_width fb \<Longrightarrow> y' < fb_height fb \<Longrightarrow> pixel fb m' x' y' =
       (if x \<le> x' \<and> x' < x + w \<and> y \<le> y' \<and> y' < y + ?h
        then bmp_pixel_data b ! ((min ?h (fb_height fb - y) - (y' - y) - 1) * w + (x' - x)) else pixel fb m x' y')"
    using paintsE [OF paints_bitmap [OF ok xy, of b]] len wh by (metis order_refl)
  have "bmp_pixel_data b ! ((min ?h (fb_height fb - y) - (y' - y) - 1) * w + (x' - x))
      = rgb_color (rows ! (min ?h (fb_height fb - y) - 1 - (y' - y)) ! (x' - x))"
    if "x \<le> x'" "x' < x + w" "y \<le> y'" "y' < y + ?h" for x' y'
  proof -
    let ?i = "min ?h (fb_height fb - y) - (y' - y) - 1"
    have i: "?i < ?h" "x' - x < w" using that image(3) by auto
    then have "bmp_pixel_data b ! (?i * w + (x' - x)) = ?cs ! ?i ! (x' - x)" using nth_concat_uniform [OF u] by (simp add: b(4))
    also have "\<dots> = rgb_color (rows ! ?i ! (x' - x))" using i image(5) by simp
    finally show ?thesis by (simp add: diff_right_commute [of _ "y' - y"])
  qed
  then show ?thesis using b(1) m' by auto
qed

theorem bitmap_shows_image_witness:
  "\<exists>b m'. from_bytes (encode_bmp 1 [[(1, 2, 3)], [(4, 5, 6)]]) = Inr (Some b)
    \<and> draw_bitmap \<lparr>fb_width = 2, fb_height = 2, fb_pitch = 8, fb_address = 0\<rparr> b 0 0 \<lparr>vm_size = 16, vm_byte = (\<lambda>_. 0)\<rparr> = Inr m'
    \<and> pixel \<lparr>fb_width = 2, fb_height = 2, fb_pitch = 8, fb_address = 0\<rparr> m' 0 0 = 0xFF040506
    \<and> pixel \<lparr>fb_width = 2, fb_height = 2, fb_pitch = 8, fb_address = 0\<rparr> m' 0 1 = 0xFF010203"
proof -
  let ?fb = "\<lparr>fb_width = 2, fb_height = 2, fb_pitch = 8, fb_address = 0\<rparr>" and ?m = "\<lparr>vm_size = 16, vm_byte = (\<lambda>_. 0)\<rparr>"
  let ?rows = "[[(1, 2, 3)], [(4, 5, 6)]] :: rgb list list"
  have ok: "fb_ok ?fb ?m" by (simp add: fb_ok_def)
  obtain b m' where r: "from_bytes (encode_bmp 1 ?rows) = Inr (Some b)" "draw_bitmap ?fb b 0 0 ?m = Inr m'"
    "\<And>x' y'. x' < 2 \<Longrightarrow> y' < 2 \<Longrightarrow> pixel ?fb m' x' y' =
      (if 0 \<le> x' \<and> x' < 0 + 1 \<and> 0 \<le> y' \<and> y' < 0 + length ?rows
       then rgb_color (?rows ! (min (length ?rows) (2 - 0) - 1 - (y' - 0)) ! (x' - 0)) else pixel ?fb ?m x' y')"
    using bitmap_shows_image [OF ok, of 0 0 1 ?rows] by auto
  have "pixel ?fb m' 0 0 = 0xFF040506" "pixel ?fb m' 0 1 = 0xFF010203"
    by (simp_all add: r(3) rgb_color_def argb_def)
  then show ?thesis using r(1,2) by blast
qed

text \<open>A file shorter than the header is not refused with \<open>None\<close>: reading its header panics.\<close>

lemma short_file_panics: "length data < 54 \<Longrightarrow> from_bytes data = Inl IndexOutOfBounds"
  by (simp add: from_bytes_def SIZE_OF_HEADER_def)

text \<open>Reading from the file system parses the contents of the file.\<close>

lemma read_from_file_spec:
  assumes ok: "fs_ok fs" and names: "\<forall>e \<in> set (fs_archive fs). en_filename e \<noteq> None" and more: "fs_next_handle fs + 1 \<noteq> 0"
    and f: "List.find (\<lambda>e. en_filename e = Some (strip_slash path)) (fs_archive fs) = Some e" and ne: "en_data e \<noteq> []"
  shows "\<exists>fs'. fs_ok fs' \<and> read_from_file path fs = Some (and_then (from_bytes (en_data e)) (\<lambda>b. Inr (Inr b, fs')))"
proof -
  obtain fs1 fs2 where "open_path path fs = Some (Inr (Inr (fs_next_handle fs), fs1))"
    "size_of_handle (fs_next_handle fs) fs1 = Some (Inr (Inr (length (en_data e)), fs1))"
    "read_handle (fs_next_handle fs) (replicate (length (en_data e)) 0) fs1 = Some (Inr (Inr (length (en_data e), en_data e), fs2))"
    "fs_ok fs2"
    using whole_file [OF assms] by blast
  then show ?thesis by (auto simp: read_from_file_def)
qed

end
