(* ===== verification/Multiboot.thy ===== *)
theory Multiboot
  imports Framebuffer
begin

text \<open>
  \<^verbatim>\<open>kernel/src/multiboot.rs\<close>: the tags of the Multiboot2 boot information. The boot information is the
  list of the bytes from its base address on; reading past its end is \<^term>\<open>Inl MemoryFault\<close>. A tag is
  the offset at which it was found. The type field of a tag is compared as a number, also when it is
  none of the listed types.
\<close>

subsection \<open>Tags\<close>

definition MULTIBOOT2_MAGIC :: u32 where "MULTIBOOT2_MAGIC = 0x36d76289"

datatype tag_type =
    CommandLine | BootLoaderName | Module | FramebufferInfo
  | Efi64BitSystemTablePointer | EfiBootServicesNotTerminated | Efi64BitImageHandlePointer

fun tag_number :: "tag_type \<Rightarrow> u32" where
  "tag_number CommandLine = 1"
| "tag_number BootLoaderName = 2"
| "tag_number Module = 3"
| "tag_number FramebufferInfo = 8"
| "tag_number Efi64BitSystemTablePointer = 12"
| "tag_number EfiBootServicesNotTerminated = 18"
| "tag_number Efi64BitImageHandlePointer = 20"

definition SIZE_OF_BOOT_INFO :: nat where "SIZE_OF_BOOT_INFO = 8"

definition mem32 :: "u8 list \<Rightarrow> nat \<Rightarrow> u32 res" where
  "mem32 info off = (if off + 4 \<le> length info then Inr (le32 info off) else Inl MemoryFault)"

lemma and_then_cong [fundef_cong]:
  "r = s \<Longrightarrow> (\<And>x. s = Inr x \<Longrightarrow> f x = g x) \<Longrightarrow> and_then r f = and_then s g"
  by (cases s) simp_all

lemma round8: "unat ((x :: u32) AND - 8) = unat x div 8 * 8"
  using unat_and_not_mask [of x 3] by (simp add: mask_eq_exp_minus_1)

text \<open>The loop of \<open>find_tag\<close>; the total size is the first word of the boot information.\<close>

function find_from :: "u8 list \<Rightarrow> nat \<Rightarrow> tag_type \<Rightarrow> nat \<Rightarrow> nat option res" where
  "find_from info base ty off =
     and_then (mem32 info 0) (\<lambda>total_size.
     if off \<ge> unat total_size then Inr None
     else
       and_then (nadd base off) (\<lambda>_.
       and_then (mem32 info off) (\<lambda>kind.
       and_then (mem32 info (off + 4)) (\<lambda>sz.
       if kind = tag_number ty then Inr (Some off)
       else if sz = 0 then Inr None
       else and_then (uadd sz 7) (\<lambda>s.
            and_then (nadd off (unat (s AND NOT 7))) (\<lambda>off'. find_from info base ty off'))))))"
  by pat_completeness auto
termination
proof (relation "measure (\<lambda>(info, base, ty, off). unat (le32 info 0) - off)")
  fix info :: "u8 list" and base off :: nat and ty :: tag_type and total_size kind sz s :: u32 and x off' :: nat
  assume a: "mem32 info 0 = Inr total_size" "\<not> off \<ge> unat total_size" "sz \<noteq> 0" "uadd sz 7 = Inr s"
    "nadd off (unat (s AND NOT 7)) = Inr off'"
  have "unat sz \<noteq> 0" using a(3) by (simp add: unat_eq_0)
  then have "8 \<le> unat s" using uadd_Inr_unat [OF a(4)] by simp
  then have "8 \<le> unat (s AND NOT 7)" by (simp add: round8)
  moreover have "off' = off + unat (s AND NOT 7)" "total_size = le32 info 0"
    using a(1,5) by (auto simp: nadd_def mem32_def split: if_splits)
  ultimately show "((info, base, ty, off'), info, base, ty, off) \<in> measure (\<lambda>(info, base, ty, off). unat (le32 info 0) - off)"
    using a(2) by simp
qed simp

declare find_from.simps [simp del]

definition find_tag :: "u8 list \<Rightarrow> nat \<Rightarrow> tag_type \<Rightarrow> nat option res" where
  "find_tag info base ty = find_from info base ty SIZE_OF_BOOT_INFO"

subsection \<open>Contents of tags\<close>

definition le64 :: "u8 list \<Rightarrow> nat \<Rightarrow> u64" where
  "le64 data i = ucast (le32 data i) OR push_bit 32 (ucast (le32 data (i + 4)))"

definition framebuffer_type_of :: "u8 \<Rightarrow> framebuffer_type option" where
  "framebuffer_type_of b = (if b = 0 then Some Indexed else if b = 1 then Some RGB else if b = 2 then Some EGAText else None)"

text \<open>The fields of a framebuffer tag; a type byte that is no variant is an invalid memory access.\<close>

definition read_framebuffer_info :: "u8 list \<Rightarrow> nat \<Rightarrow> framebuffer_info res" where
  "read_framebuffer_info info off =
     (if off + 30 \<le> length info
      then (case framebuffer_type_of (info ! (off + 29)) of
              None \<Rightarrow> Inl MemoryFault
            | Some t \<Rightarrow> Inr \<lparr>fi_address = le64 info (off + 8), fi_pitch = le32 info (off + 16), fi_width = le32 info (off + 20),
                fi_height = le32 info (off + 24), fi_bpp = info ! (off + 28), fi_typ = t\<rparr>)
      else Inl MemoryFault)"

definition module_start :: "u8 list \<Rightarrow> nat \<Rightarrow> u32" where
  "module_start info off = le32 info (off + 8)"

definition module_size :: "u8 list \<Rightarrow> nat \<Rightarrow> nat res" where
  "module_size info off = and_then (usub (le32 info (off + 12)) (le32 info (off + 8))) (\<lambda>n. Inr (unat n))"

text \<open>The slice of a module: its address and length.\<close>

definition module_as_slice :: "u8 list \<Rightarrow> nat \<Rightarrow> (u64 \<times> nat) res" where
  "module_as_slice info off = and_then (module_size info off) (\<lambda>n. Inr (ucast (module_start info off), n))"

text \<open>How \<open>main\<close> obtains the framebuffer.\<close>

definition boot_framebuffer :: "u32 \<Rightarrow> u8 list \<Rightarrow> nat \<Rightarrow> framebuffer res" where
  "boot_framebuffer magic info base =
     (if magic \<noteq> MULTIBOOT2_MAGIC then Inl (PanicMsg ''Invalid multiboot magic number'')
      else
        and_then (find_tag info base FramebufferInfo) (\<lambda>r.
        case r of
          None \<Rightarrow> Inl (ExpectFailed ''Missing framebuffer info'')
        | Some off \<Rightarrow>
            and_then (read_framebuffer_info info off) (\<lambda>fi.
            case from_multiboot fi of
              None \<Rightarrow> Inl (ExpectFailed ''Failed to initialize framebuffer'')
            | Some fb \<Rightarrow> Inr fb)))"

subsection \<open>A boot information made of given tags\<close>

definition tag_padding :: "nat \<Rightarrow> nat" where
  "tag_padding n = (n + 15) div 8 * 8 - (n + 8)"

definition encode_tag :: "u32 \<times> u8 list \<Rightarrow> u8 list" where
  "encode_tag t = (case t of (kind, payload) \<Rightarrow>
     le32_bytes kind @ le32_bytes (of_nat (8 + length payload)) @ payload @ replicate (tag_padding (length payload)) 0)"

definition encode_info :: "(u32 \<times> u8 list) list \<Rightarrow> u8 list" where
  "encode_info tags =
     le32_bytes (of_nat (8 + length (concat (map encode_tag tags)))) @ le32_bytes 0 @ concat (map encode_tag tags)"

lemma length_encode_tag: "length (encode_tag (kind, payload)) = (length payload + 15) div 8 * 8"
  by (simp add: encode_tag_def tag_padding_def)

text \<open>What it means that a tag with this content stands at an offset.\<close>

definition tag_at :: "u8 list \<Rightarrow> nat \<Rightarrow> u32 \<times> u8 list \<Rightarrow> bool" where
  "tag_at info off t \<longleftrightarrow> (case t of (kind, payload) \<Rightarrow>
     off + 8 + length payload \<le> length info \<and> le32 info off = kind \<and> le32 info (off + 4) = of_nat (8 + length payload)
     \<and> take (length payload) (drop (off + 8) info) = payload)"

lemma encoded_tag_at: "tag_at (pre @ encode_tag t @ post) (length pre) t"
proof -
  obtain kind payload where t: "t = (kind, payload)" by force
  let ?rest = "payload @ replicate (tag_padding (length payload)) 0 @ post"
  have "le32 (pre @ le32_bytes kind @ (le32_bytes (of_nat (8 + length payload)) @ ?rest)) (length pre) = kind" by (rule le32_at)
  moreover have "le32 ((pre @ le32_bytes kind) @ le32_bytes (of_nat (8 + length payload)) @ ?rest) (length (pre @ le32_bytes kind))
      = of_nat (8 + length payload)" by (rule le32_at)
  ultimately show ?thesis by (simp add: tag_at_def t encode_tag_def)
qed

lemma find_from_encoded:
  assumes "info = pre @ concat (map encode_tag tags) @ post" "8 \<le> length pre"
    and "unat (le32 info 0) = length pre + length (concat (map encode_tag tags))" "base + length info < 2 ^ 64"
  shows "case List.find (\<lambda>t. fst t = tag_number ty) tags of
      None \<Rightarrow> find_from info base ty (length pre) = Inr None
    | Some t \<Rightarrow> \<exists>off. find_from info base ty (length pre) = Inr (Some off) \<and> tag_at info off t"
  using assms
proof (induction tags arbitrary: pre)
  case Nil
  then show ?case by (subst find_from.simps) (simp add: mem32_def)
next
  case (Cons t tags)
  obtain kind payload where t: "t = (kind, payload)" by force
  let ?n = "length payload" and ?post = "concat (map encode_tag tags) @ post"
  have here: "tag_at info (length pre) t" using encoded_tag_at [of pre t ?post] Cons.prems(1) by simp
  have len: "length (encode_tag t) = (?n + 15) div 8 * 8" by (simp add: t length_encode_tag)
  have lt: "unat (le32 info 0) < 2 ^ 32" using unsigned_less [of "le32 info 0", where 'a = nat] by simp
  have n: "8 + ?n + 7 < 2 ^ 32"
  proof -
    have "?n + 8 \<le> (?n + 15) div 8 * 8" by simp
    then show ?thesis using len lt Cons.prems(2,3) by simp
  qed
  have m: "mem32 info 0 = Inr (le32 info 0)" "mem32 info (length pre) = Inr kind"
    "mem32 info (length pre + 4) = Inr (of_nat (8 + ?n))" "length pre < unat (le32 info 0)"
    using here Cons.prems(2,3) len by (auto simp: mem32_def tag_at_def t)
  have base: "nadd base (length pre) = Inr (base + length pre)" using Cons.prems(1,4) by (simp add: nadd_def)
  show ?case
  proof (cases "kind = tag_number ty")
    case True
    then show ?thesis using here t m base by (subst find_from.simps) (auto simp: not_le)
  next
    case False
    have eq: "find_from info base ty (length pre) = find_from info base ty (length (pre @ encode_tag t))"
    proof -
      define z where "z = (of_nat (8 + ?n) :: u32)"
      have z: "unat z = 8 + ?n" using n by (simp only: z_def unat_of_nat) simp
      then have s: "uadd z 7 = Inr (z + 7)" "unat (z + 7) = ?n + 15" "z \<noteq> 0"
        using n by (auto simp: uadd_nat unat_add_noov)
      have "nadd (length pre) (unat ((z + 7) AND NOT 7)) = Inr (length (pre @ encode_tag t))"
        using Cons.prems(1,4) s(2) len by (simp add: round8 nadd_def)
      then show ?thesis using m base s(1,3) False by (subst find_from.simps) (simp add: not_le z_def [symmetric] del: of_nat_add)
    qed
    have "info = (pre @ encode_tag t) @ concat (map encode_tag tags) @ post" "8 \<le> length (pre @ encode_tag t)"
      "unat (le32 info 0) = length (pre @ encode_tag t) + length (concat (map encode_tag tags))" using Cons.prems(1-3) by simp_all
    from Cons.IH [OF this Cons.prems(4)] show ?thesis using False unfolding eq by (simp add: t)
  qed
qed

lemma find_tag_encoded:
  assumes "length (encode_info tags) < 2 ^ 32" "base + length (encode_info tags) < 2 ^ 64"
  shows "case List.find (\<lambda>t. fst t = tag_number ty) tags of
      None \<Rightarrow> find_tag (encode_info tags) base ty = Inr None
    | Some t \<Rightarrow> \<exists>off. find_tag (encode_info tags) base ty = Inr (Some off) \<and> tag_at (encode_info tags) off t"
proof -
  let ?info = "encode_info tags" and ?tail = "concat (map encode_tag tags)"
  let ?pre = "le32_bytes (of_nat (8 + length ?tail)) @ le32_bytes 0"
  have "length ?info = 8 + length ?tail" by (simp add: encode_info_def)
  then have lt: "8 + length ?tail < 2 ^ 32" using assms(1) by simp
  have info: "?info = ?pre @ ?tail @ []" by (simp add: encode_info_def)
  have "le32 ([] @ le32_bytes (of_nat (8 + length ?tail)) @ (le32_bytes 0 @ ?tail)) (length ([] :: u8 list)) = of_nat (8 + length ?tail)"
    by (rule le32_at)
  then have "le32 ?info 0 = of_nat (8 + length ?tail)" by (simp add: encode_info_def)
  then have "unat (le32 ?info 0) = 8 + length ?tail" using lt by (simp only: unat_of_nat) simp
  then have "unat (le32 ?info 0) = length ?pre + length ?tail" by simp
  note found = find_from_encoded [OF info _ this assms(2), of ty]
  have "find_tag ?info base ty = find_from ?info base ty (length ?pre)" by (simp add: find_tag_def SIZE_OF_BOOT_INFO_def)
  then show ?thesis using found by (simp only:) simp
qed

text \<open>
  C36. For every boot information made of a list of tags (any types, any payloads, each padded to eight
  bytes, as the format has it), the search for a tag type terminates without a panic or a read
  outside the boot information and returns the first tag of that type, at an offset where exactly
  its payload stands, or \<open>None\<close> when the list has no such tag.
\<close>

theorem find_tag_finds_first:
  assumes "length (encode_info tags) < 2 ^ 32" "base + length (encode_info tags) < 2 ^ 64"
  shows "case List.find (\<lambda>t. fst t = tag_number ty) tags of
      None \<Rightarrow> find_tag (encode_info tags) base ty = Inr None
    | Some t \<Rightarrow> \<exists>off. find_tag (encode_info tags) base ty = Inr (Some off) \<and> tag_at (encode_info tags) off t"
  using assms by (rule find_tag_encoded)

theorem find_tag_finds_first_witness:
  "\<exists>off. find_tag (encode_info [(6, [1, 2, 3]), (3, [0, 0, 16, 0, 0, 1, 16, 0, 0])]) 0x10000 Module = Inr (Some off)
     \<and> tag_at (encode_info [(6, [1, 2, 3]), (3, [0, 0, 16, 0, 0, 1, 16, 0, 0])]) off (3, [0, 0, 16, 0, 0, 1, 16, 0, 0])"
proof -
  let ?tags = "[(6, [1, 2, 3]), (3, [0, 0, 16, 0, 0, 1, 16, 0, 0])] :: (u32 \<times> u8 list) list"
  have "length (encode_info ?tags) = 48" by (simp add: encode_info_def encode_tag_def tag_padding_def)
  then show ?thesis using find_tag_finds_first [of ?tags "0x10000" Module] by simp
qed

end
