(* ===== verification/Utf8.thy ===== *)
theory Utf8
  imports Prelude
begin

text \<open>
  UTF-8, as \<open>core::str\<close> defines it: the bytes of a string slice (\<open>as_ptr\<close>, \<open>len\<close>), which user programs hand
  to the kernel, and \<open>core::str::from_utf8\<close>, which the kernel checks them with. Overlong forms,
  surrogates and numbers above \<open>0x10FFFF\<close> are refused. Bytes and code points are natural numbers
  inside the codec and words at its interface.
\<close>

subsection \<open>The codec\<close>

definition scalar :: "nat \<Rightarrow> bool" where
  "scalar c \<longleftrightarrow> c < 0xD800 \<or> 0xE000 \<le> c \<and> c < 0x110000"

definition char_bytes :: "nat \<Rightarrow> nat list" where
  "char_bytes c =
     (if c < 0x80 then [c]
      else if c < 0x800 then [0xC0 + c div 64, 0x80 + c mod 64]
      else if c < 0x10000 then [0xE0 + c div 4096, 0x80 + c div 64 mod 64, 0x80 + c mod 64]
      else [0xF0 + c div 262144, 0x80 + c div 4096 mod 64, 0x80 + c div 64 mod 64, 0x80 + c mod 64])"

definition continuation :: "nat \<Rightarrow> bool" where
  "continuation b \<longleftrightarrow> 0x80 \<le> b \<and> b \<le> 0xBF"

text \<open>The first two bytes of sequences of length three and four.\<close>

definition leads3 :: "nat \<Rightarrow> nat \<Rightarrow> bool" where
  "leads3 a b \<longleftrightarrow> a = 0xE0 \<and> 0xA0 \<le> b \<and> b \<le> 0xBF \<or> 0xE1 \<le> a \<and> a \<le> 0xEC \<and> 0x80 \<le> b \<and> b \<le> 0xBF
     \<or> a = 0xED \<and> 0x80 \<le> b \<and> b \<le> 0x9F \<or> 0xEE \<le> a \<and> a \<le> 0xEF \<and> 0x80 \<le> b \<and> b \<le> 0xBF"

definition leads4 :: "nat \<Rightarrow> nat \<Rightarrow> bool" where
  "leads4 a b \<longleftrightarrow> a = 0xF0 \<and> 0x90 \<le> b \<and> b \<le> 0xBF \<or> 0xF1 \<le> a \<and> a \<le> 0xF3 \<and> 0x80 \<le> b \<and> b \<le> 0xBF
     \<or> a = 0xF4 \<and> 0x80 \<le> b \<and> b \<le> 0x8F"

fun utf8_decode :: "nat list \<Rightarrow> nat list option" where
  "utf8_decode [] = Some []"
| "utf8_decode (a # bs) =
     (if a < 0x80 then map_option ((#) a) (utf8_decode bs)
      else case bs of
        [] \<Rightarrow> None
      | b # cs \<Rightarrow>
          if 0xC2 \<le> a \<and> a \<le> 0xDF \<and> continuation b
          then map_option ((#) ((a - 0xC0) * 64 + (b - 0x80))) (utf8_decode cs)
          else (case cs of
            [] \<Rightarrow> None
          | c # ds \<Rightarrow>
              if leads3 a b \<and> continuation c
              then map_option ((#) ((a - 0xE0) * 4096 + (b - 0x80) * 64 + (c - 0x80))) (utf8_decode ds)
              else (case ds of
                [] \<Rightarrow> None
              | d # es \<Rightarrow>
                  if leads4 a b \<and> continuation c \<and> continuation d
                  then map_option ((#) ((a - 0xF0) * 262144 + (b - 0x80) * 4096 + (c - 0x80) * 64 + (d - 0x80)))
                         (utf8_decode es)
                  else None)))"

lemmas utf8_defs = scalar_def char_bytes_def continuation_def leads3_def leads4_def

subsection \<open>Correctness\<close>

lemma digits64:
  "k < 64 \<Longrightarrow> (n * 64 + k) div 64 = n" "k < 64 \<Longrightarrow> (n * 64 + k) mod 64 = (k :: nat)"
  "n div 4096 = n div 64 div 64" "n div 262144 = n div 64 div 64 div 64" for n k :: nat
  by (simp_all add: div_mult2_eq [symmetric])

lemma char_bytes_two:
  assumes "0xC2 \<le> a" "a \<le> 0xDF" "continuation b"
  shows "char_bytes ((a - 0xC0) * 64 + (b - 0x80)) = [a, b]" "scalar ((a - 0xC0) * 64 + (b - 0x80))"
proof -
  obtain x y where "a = 0xC0 + x" "b = 0x80 + y" "2 \<le> x" "x < 32" "y < 64"
    using assms by (intro that [of "a - 0xC0" "b - 0x80"]) (auto simp: continuation_def)
  then show "char_bytes ((a - 0xC0) * 64 + (b - 0x80)) = [a, b]" "scalar ((a - 0xC0) * 64 + (b - 0x80))"
    by (auto simp: char_bytes_def scalar_def)
qed

lemma char_bytes_three:
  assumes "leads3 a b" "continuation c"
  shows "char_bytes ((a - 0xE0) * 4096 + (b - 0x80) * 64 + (c - 0x80)) = [a, b, c]"
    "scalar ((a - 0xE0) * 4096 + (b - 0x80) * 64 + (c - 0x80))"
proof -
  obtain x y z where e: "a = 0xE0 + x" "b = 0x80 + y" "c = 0x80 + z" "x < 16" "y < 64" "z < 64"
    and r: "x = 0 \<longrightarrow> 32 \<le> y" "x = 13 \<longrightarrow> y < 32"
    using assms by (intro that [of "a - 0xE0" "b - 0x80" "c - 0x80"]) (auto simp: continuation_def leads3_def)
  define v where "v = x * 4096 + y * 64 + z"
  have v: "v = (x * 64 + y) * 64 + z" by (simp add: v_def)
  have d: "v div 4096 = x" "v div 64 mod 64 = y" "v mod 64 = z" unfolding v using e(5,6) by (simp_all only: digits64)
  have lo: "2048 \<le> v" "v < 65536" using e r(1) unfolding v_def by (cases "x = 0"; simp)+
  show "char_bytes ((a - 0xE0) * 4096 + (b - 0x80) * 64 + (c - 0x80)) = [a, b, c]"
    using lo d e by (simp add: char_bytes_def v_def [symmetric])
  have "v < 0xD800 \<or> 0xE000 \<le> v"
    using e r(2) unfolding v_def by (cases "x < 13"; cases "x = 13") simp_all
  then show "scalar ((a - 0xE0) * 4096 + (b - 0x80) * 64 + (c - 0x80))"
    using lo e by (auto simp: scalar_def v_def [symmetric])
qed

lemma char_bytes_four:
  assumes "leads4 a b" "continuation c" "continuation d"
  shows "char_bytes ((a - 0xF0) * 262144 + (b - 0x80) * 4096 + (c - 0x80) * 64 + (d - 0x80)) = [a, b, c, d]"
    "scalar ((a - 0xF0) * 262144 + (b - 0x80) * 4096 + (c - 0x80) * 64 + (d - 0x80))"
proof -
  obtain x y z u where e: "a = 0xF0 + x" "b = 0x80 + y" "c = 0x80 + z" "d = 0x80 + u" "x \<le> 4" "y < 64" "z < 64" "u < 64"
    and r: "x = 0 \<longrightarrow> 16 \<le> y" "x = 4 \<longrightarrow> y < 16"
    using assms by (intro that [of "a - 0xF0" "b - 0x80" "c - 0x80" "d - 0x80"]) (auto simp: continuation_def leads4_def)
  define v where "v = x * 262144 + y * 4096 + z * 64 + u"
  have v: "v = ((x * 64 + y) * 64 + z) * 64 + u" by (simp add: v_def)
  have d: "v div 262144 = x" "v div 4096 mod 64 = y" "v div 64 mod 64 = z" "v mod 64 = u"
    unfolding v using e(6-8) by (simp_all only: digits64)
  have lo: "0x10000 \<le> v" "v < 0x110000" using e r unfolding v_def by (cases "x = 0"; cases "x = 4"; simp)+
  show "char_bytes ((a - 0xF0) * 262144 + (b - 0x80) * 4096 + (c - 0x80) * 64 + (d - 0x80)) = [a, b, c, d]"
    using lo d e by (simp add: char_bytes_def v_def [symmetric])
  show "scalar ((a - 0xF0) * 262144 + (b - 0x80) * 4096 + (c - 0x80) * 64 + (d - 0x80))"
    using lo e by (simp add: scalar_def v_def [symmetric])
qed

lemma utf8_decode_sound:
  "utf8_decode ns = Some cs \<Longrightarrow> concat (map char_bytes cs) = ns \<and> (\<forall>c \<in> set cs. scalar c)"
proof (induction ns arbitrary: cs rule: utf8_decode.induct)
  case 1
  then show ?case by simp
next
  case (2 a bs)
  have one: "char_bytes a = [a]" "scalar a" if "a < 0x80" using that by (simp_all add: char_bytes_def scalar_def)
  consider "a < 0x80" | b cs' where "bs = b # cs'" "0xC2 \<le> a" "a \<le> 0xDF" "continuation b"
    | b c ds where "bs = b # c # ds" "leads3 a b" "continuation c"
    | b c d es where "bs = b # c # d # es" "leads4 a b" "continuation c" "continuation d"
    using "2.prems" by (auto split: if_splits list.splits)
  then show ?case
  proof cases
    case 1
    then show ?thesis using "2.prems" "2.IH"(1) by (auto simp: char_bytes_def scalar_def)
  next
    case (2 b cs')
    then show ?thesis using "2.prems" "2.IH"(2) [of b cs'] char_bytes_two [OF 2(2-4)] by auto
  next
    case (3 b c ds)
    then have "\<not> a < 0x80" "\<not> a \<le> 0xDF" by (auto simp: leads3_def)
    then show ?thesis using "2.prems" "2.IH"(3) [of b "c # ds" c ds] 3 char_bytes_three [OF 3(2,3)] by auto
  next
    case (4 b c d es)
    then have "\<not> a < 0x80" "\<not> a \<le> 0xDF" "\<not> leads3 a b" by (auto simp: leads3_def leads4_def)
    then show ?thesis using "2.prems" "2.IH"(4) [of b "c # d # es" c "d # es" d es] 4 char_bytes_four [OF 4(2-4)] by auto
  qed
qed

lemma char_bytes_shape:
  assumes "scalar c"
  obtains "c < 0x80" "char_bytes c = [c]"
  | a b where "char_bytes c = [a, b]" "0xC2 \<le> a" "a \<le> 0xDF" "continuation b" "c = (a - 0xC0) * 64 + (b - 0x80)"
  | a b d where "char_bytes c = [a, b, d]" "leads3 a b" "continuation d"
      "c = (a - 0xE0) * 4096 + (b - 0x80) * 64 + (d - 0x80)"
  | a b d f where "char_bytes c = [a, b, d, f]" "leads4 a b" "continuation d" "continuation f"
      "c = (a - 0xF0) * 262144 + (b - 0x80) * 4096 + (d - 0x80) * 64 + (f - 0x80)"
proof -
  define x3 x2 x1 x0 where x: "x3 = c div 262144" "x2 = c div 4096 mod 64" "x1 = c div 64 mod 64" "x0 = c mod 64"
  have "c = ((x3 * 64 + x2) * 64 + x1) * 64 + x0"
    unfolding x digits64(3,4) by (simp only: div_mult_mod_eq)
  then have c: "c = x3 * 262144 + x2 * 4096 + x1 * 64 + x0" "x2 < 64" "x1 < 64" "x0 < 64"
    by (simp_all add: x(2-4))
  consider "c < 0x80" | "0x80 \<le> c" "c < 0x800" | "0x800 \<le> c" "c < 0x10000" | "0x10000 \<le> c" by linarith
  then show ?thesis
  proof cases
    case 1
    then show ?thesis by (intro that(1)) (simp_all add: char_bytes_def)
  next
    case 2
    have "c div 64 * 64 + x0 = c" using div_mult_mod_eq [of c 64] x(4) by simp
    moreover have "2 \<le> c div 64" "c div 64 < 32" using 2 by (auto simp: div_less_iff_less_mult less_eq_div_iff_mult_less_eq)
    ultimately show ?thesis using 2 c(4)
      by (intro that(2) [of "0xC0 + c div 64" "0x80 + x0"]) (simp_all add: char_bytes_def continuation_def x)
  next
    case 3
    then have "x3 = 0" "c div 4096 = x2" by (simp_all add: x(1,2))
    then have c0: "c = x2 * 4096 + x1 * 64 + x0" using c(1) by simp
    have "32 \<le> x1 \<or> 0 < x2" "x2 < 16" using 3 c0 c(3,4) by linarith+
    moreover have "c < 55296 \<or> 57344 \<le> c" using assms by (auto simp: scalar_def)
    then have "x2 = 13 \<longrightarrow> x1 < 32" using c0 c(3,4) by linarith
    moreover have "char_bytes c = [0xE0 + x2, 0x80 + x1, 0x80 + x0]"
      using 3 \<open>c div 4096 = x2\<close> by (simp add: char_bytes_def x(3,4))
    ultimately show ?thesis using c(3,4) c0
      by (intro that(3) [of "0xE0 + x2" "0x80 + x1" "0x80 + x0"]) (auto simp: continuation_def leads3_def)
  next
    case 4
    then have "c < 0x110000" using assms by (simp add: scalar_def)
    then have "16 \<le> x2 \<or> 0 < x3" "x3 \<le> 4" "x3 = 4 \<longrightarrow> x2 < 16" using 4 c by linarith+
    moreover have "char_bytes c = [0xF0 + x3, 0x80 + x2, 0x80 + x1, 0x80 + x0]"
      using 4 by (simp add: char_bytes_def x)
    ultimately show ?thesis using c
      by (intro that(4) [of "0xF0 + x3" "0x80 + x2" "0x80 + x1" "0x80 + x0"]) (auto simp: continuation_def leads4_def)
  qed
qed

lemma utf8_decode_char:
  assumes "scalar c"
  shows "utf8_decode (char_bytes c @ ns) = map_option ((#) c) (utf8_decode ns)"
  using assms
proof (cases rule: char_bytes_shape)
  case 1
  then show ?thesis by simp
next
  case (2 a b)
  then show ?thesis by simp
next
  case (3 a b d)
  then have "\<not> a < 0x80" "\<not> a \<le> 0xDF" by (auto simp: leads3_def)
  then show ?thesis using 3 by simp
next
  case (4 a b d f)
  then have "\<not> a < 0x80" "\<not> a \<le> 0xDF" "\<not> leads3 a b" by (auto simp: leads3_def leads4_def)
  then show ?thesis using 4 by simp
qed

lemma utf8_decode_complete:
  "(\<forall>c \<in> set cs. scalar c) \<Longrightarrow> utf8_decode (concat (map char_bytes cs)) = Some cs"
  by (induction cs) (simp_all add: utf8_decode_char del: utf8_decode.simps(2))

subsection \<open>The interface\<close>

text \<open>The characters of a string slice, its bytes, and the check of a byte slice.\<close>

definition valid_str :: "u32 list \<Rightarrow> bool" where
  "valid_str cs \<longleftrightarrow> (\<forall>c \<in> set cs. scalar (unat c))"

definition str_bytes :: "u32 list \<Rightarrow> u8 list" where
  "str_bytes cs = map of_nat (concat (map (\<lambda>c. char_bytes (unat c)) cs))"

definition from_utf8 :: "u8 list \<Rightarrow> u32 list option" where
  "from_utf8 bs = map_option (map of_nat) (utf8_decode (map unat bs))"

lemma scalar_lt: "scalar c \<Longrightarrow> c < 2 ^ 32"
  by (auto simp: scalar_def)

lemma char_bytes_lt: "scalar c \<Longrightarrow> b \<in> set (char_bytes c) \<Longrightarrow> b < 2 ^ 8"
  by (erule char_bytes_shape) (auto simp: continuation_def leads3_def leads4_def)

lemma map_word_nat: "(\<forall>n \<in> set ns. n < 2 ^ LENGTH('l)) \<Longrightarrow> map unat (map of_nat ns :: 'l::len word list) = ns"
  by (induction ns) (simp_all add: unat_of_nat)

lemma str_bytes_unat:
  assumes "valid_str cs"
  shows "map unat (str_bytes cs) = concat (map char_bytes (map unat cs))"
  unfolding str_bytes_def using assms char_bytes_lt
  by (subst map_word_nat) (auto simp: valid_str_def o_def)

text \<open>
  \<open>from_utf8\<close> accepts exactly the byte sequences that are the bytes of a string, and returns that string.
\<close>

theorem from_utf8_iff: "from_utf8 bs = Some cs \<longleftrightarrow> valid_str cs \<and> str_bytes cs = bs"
proof
  assume "from_utf8 bs = Some cs"
  then obtain ns where ns: "utf8_decode (map unat bs) = Some ns" "cs = map of_nat ns" by (auto simp: from_utf8_def)
  have d: "concat (map char_bytes ns) = map unat bs" "\<forall>n \<in> set ns. scalar n" using utf8_decode_sound [OF ns(1)] by auto
  have u: "map unat cs = ns" unfolding ns(2) using d(2) scalar_lt by (intro map_word_nat) auto
  have v: "valid_str cs" using d(2) u by (auto simp: valid_str_def)
  have "map unat (str_bytes cs) = map unat bs" using str_bytes_unat [OF v] u d(1) by simp
  then have "map of_nat (map unat (str_bytes cs)) = (map of_nat (map unat bs) :: u8 list)" by (rule arg_cong)
  then show "valid_str cs \<and> str_bytes cs = bs" using v by (simp add: o_def)
next
  assume a: "valid_str cs \<and> str_bytes cs = bs"
  then have "map unat bs = concat (map char_bytes (map unat cs))" using str_bytes_unat by blast
  moreover have "\<forall>c \<in> set (map unat cs). scalar c" using a by (simp add: valid_str_def)
  ultimately have "utf8_decode (map unat bs) = Some (map unat cs)" by (simp only: utf8_decode_complete)
  then show "from_utf8 bs = Some cs" by (simp add: from_utf8_def o_def)
qed

lemma from_utf8_str_bytes [simp]: "valid_str cs \<Longrightarrow> from_utf8 (str_bytes cs) = Some cs"
  by (simp add: from_utf8_iff)

text \<open>Text within ASCII is its own encoding.\<close>

lemma str_bytes_ascii: "(\<forall>c \<in> set cs. c < 0x80) \<Longrightarrow> str_bytes cs = map ucast cs \<and> valid_str cs"
  by (induction cs) (auto simp: str_bytes_def valid_str_def char_bytes_def scalar_def word_less_nat_alt)

end
