(* ===== verification/Multiboot_Tags.thy ===== *)
theory Multiboot_Tags
  imports Multiboot Utf8
begin

text \<open>
  The string tags and the EFI tags of \<^verbatim>\<open>kernel/src/multiboot.rs\<close>: command line, boot loader name and
  module name end in a string that a zero byte closes; the EFI tags hold a pointer.
\<close>

subsection \<open>Strings\<close>

text \<open>\<open>CStr::from_bytes_with_nul\<close>: the only zero byte is the last one.\<close>

definition from_bytes_with_nul :: "u8 list \<Rightarrow> u8 list option" where
  "from_bytes_with_nul bs = (if bs \<noteq> [] \<and> last bs = 0 \<and> 0 \<notin> set (butlast bs) then Some (butlast bs) else None)"

text \<open>The string starts behind the fixed part of the tag, which has \<open>size_of_T\<close> bytes.\<close>

definition convert_str :: "nat \<Rightarrow> u8 list \<Rightarrow> nat \<Rightarrow> u32 list res" where
  "convert_str size_of_T info off =
     and_then (mem32 info (off + 4)) (\<lambda>size.
     and_then (nsub (unat size) size_of_T) (\<lambda>len.
     if off + size_of_T + len \<le> length info
     then (case from_bytes_with_nul (take len (drop (off + size_of_T) info)) of
             None \<Rightarrow> Inl (ExpectFailed ''Multiboot: Invalid C string'')
           | Some s \<Rightarrow>
               (case from_utf8 s of
                  None \<Rightarrow> Inl (ExpectFailed ''Multiboot: C string contains invalid UTF-8'')
                | Some str \<Rightarrow> Inr str))
     else Inl MemoryFault))"

definition SIZE_OF_STRING_TAG :: nat where "SIZE_OF_STRING_TAG = 8"
definition SIZE_OF_MODULE_TAG :: nat where "SIZE_OF_MODULE_TAG = 16"

definition command_line_as_str :: "u8 list \<Rightarrow> nat \<Rightarrow> u32 list res" where
  "command_line_as_str = convert_str SIZE_OF_STRING_TAG"

definition boot_loader_name_as_str :: "u8 list \<Rightarrow> nat \<Rightarrow> u32 list res" where
  "boot_loader_name_as_str = convert_str SIZE_OF_STRING_TAG"

definition module_tag_name :: "u8 list \<Rightarrow> nat \<Rightarrow> u32 list res" where
  "module_tag_name = convert_str SIZE_OF_MODULE_TAG"

subsection \<open>EFI pointers\<close>

definition efi_tag_pointer :: "u8 list \<Rightarrow> nat \<Rightarrow> u64 res" where
  "efi_tag_pointer info off = (if off + 16 \<le> length info then Inr (le64 info (off + 8)) else Inl MemoryFault)"

definition efi_system_table_as_ptr :: "u8 list \<Rightarrow> nat \<Rightarrow> u64 res" where
  "efi_system_table_as_ptr = efi_tag_pointer"

definition efi_image_handle_as_ptr :: "u8 list \<Rightarrow> nat \<Rightarrow> u64 res" where
  "efi_image_handle_as_ptr = efi_tag_pointer"

subsection \<open>Properties\<close>

text \<open>Reading the fields of a tag whose payload is known.\<close>

lemma tag_nth:
  assumes "tag_at info off (kind, p)" "i < length p"
  shows "info ! (off + 8 + i) = p ! i"
proof -
  have t: "off + 8 + length p \<le> length info" "take (length p) (drop (off + 8) info) = p"
    using assms(1) by (simp_all add: tag_at_def)
  have "take (length p) (drop (off + 8) info) ! i = info ! (off + 8 + i)" using assms(2) t(1) by simp
  then show ?thesis unfolding t(2) by simp
qed

lemma tag_le32:
  assumes "tag_at info off (kind, p)" "i + 4 \<le> length p"
  shows "le32 info (off + 8 + i) = le32 p i"
  using tag_nth [OF assms(1), of i] tag_nth [OF assms(1), of "i + 1"] tag_nth [OF assms(1), of "i + 2"]
    tag_nth [OF assms(1), of "i + 3"] assms(2)
  by (simp add: le32_def le16_def add.assoc)

lemma tag_le64: "tag_at info off (kind, p) \<Longrightarrow> i + 8 \<le> length p \<Longrightarrow> le64 info (off + 8 + i) = le64 p i"
  using tag_le32 [of info off kind p i] tag_le32 [of info off kind p "i + 4"] by (simp add: le64_def add.assoc)

lemma char_bytes_nonzero: "scalar c \<Longrightarrow> 0 \<in> set (char_bytes c) \<Longrightarrow> c = 0"
  by (erule char_bytes_shape) (auto simp: continuation_def leads3_def leads4_def)

lemma str_bytes_nonzero:
  assumes "valid_str cs" "0 \<notin> set cs"
  shows "0 \<notin> set (str_bytes cs)"
proof
  assume "0 \<in> set (str_bytes cs)"
  then have "0 \<in> set (map unat (str_bytes cs))" by (simp add: image_iff) force
  then obtain c where c: "c \<in> set cs" "0 \<in> set (char_bytes (unat c))" by (auto simp: str_bytes_unat [OF assms(1)])
  then have "unat c = 0" using char_bytes_nonzero assms(1) by (auto simp: valid_str_def)
  then show False using assms(2) c(1) by (simp add: unat_eq_0)
qed

lemma from_bytes_with_nul_iff: "from_bytes_with_nul bs = Some s \<longleftrightarrow> bs = s @ [0] \<and> 0 \<notin> set s"
  by (auto simp: from_bytes_with_nul_def split: if_splits) (metis append_butlast_last_id)

text \<open>
  Whatever string (of any characters but the zero character) a boot loader puts into a tag behind a fixed
  part of the right size, reading the tag gives back that string.
\<close>

theorem tag_string_roundtrip:
  assumes t: "tag_at info off (kind, fixed @ str_bytes cs @ [0])" and len: "length fixed + 8 = size_of_T"
    and str: "valid_str cs" "0 \<notin> set cs" and small: "length info < 2 ^ 32"
  shows "convert_str size_of_T info off = Inr cs"
proof -
  let ?s = "str_bytes cs @ [0]" and ?p = "fixed @ str_bytes cs @ [0]"
  have i: "off + 8 + length ?p \<le> length info" "le32 info (off + 4) = of_nat (8 + length ?p)"
    "take (length ?p) (drop (off + 8) info) = ?p"
    using t by (auto simp: tag_at_def)
  have "8 + length ?p < 2 ^ 32" using i(1) small by linarith
  then have "unat (of_nat (8 + length ?p) :: u32) = 8 + length ?p" by (simp only: unat_of_nat) simp
  then have n: "unat (le32 info (off + 4)) = size_of_T + length ?s" unfolding i(2) using len by simp
  have "take (length ?s) (drop (length fixed) (drop (off + 8) info)) = drop (length fixed) (take (length ?p) (drop (off + 8) info))"
    by (simp add: drop_take)
  also have "\<dots> = ?s" unfolding i(3) by simp
  finally have s: "take (length ?s) (drop (off + size_of_T) info) = ?s" using len by (simp add: add.commute add.left_commute)
  have "from_bytes_with_nul ?s = Some (str_bytes cs)" using str_bytes_nonzero [OF str] by (simp add: from_bytes_with_nul_iff)
  moreover have "mem32 info (off + 4) = Inr (le32 info (off + 4))" using i(1) by (simp add: mem32_def)
  moreover have "nsub (unat (le32 info (off + 4))) size_of_T = Inr (length ?s)" using n by (simp add: nsub_def)
  moreover have "off + size_of_T + length ?s \<le> length info" using i(1) len by simp
  ultimately show ?thesis using s str(1) by (simp add: convert_str_def del: length_append)
qed

end
