(* ===== verification/Logger.thy ===== *)
theory Logger
  imports Serial Thread
begin

text \<open>
  \<^verbatim>\<open>kernel/src/logger.rs\<close>: the logger, which writes one line per record to the first serial port,
  and the abbreviations of the log levels. Decimal printing of the time in seconds, a floating point
  number, is the formatting of \<open>core\<close>: it is the argument \<open>fmt_time\<close> on the time in milliseconds.
  The text of the record is the argument \<open>args\<close>.
\<close>

subsection \<open>Levels\<close>

datatype level = Level_Error | Level_Warn | Level_Info | Level_Debug | Level_Trace

fun level_abbreviation :: "level \<Rightarrow> string" where
  "level_abbreviation Level_Trace = ''TRC''"
| "level_abbreviation Level_Debug = ''DBG''"
| "level_abbreviation Level_Info = ''INF''"
| "level_abbreviation Level_Warn = ''WRN''"
| "level_abbreviation Level_Error = ''ERR''"

definition level_from_abbreviation :: "string \<Rightarrow> level option" where
  "level_from_abbreviation abbr =
     (if abbr = ''TRC'' \<or> abbr = ''trc'' then Some Level_Trace
      else if abbr = ''DBG'' \<or> abbr = ''dbg'' then Some Level_Debug
      else if abbr = ''INF'' \<or> abbr = ''inf'' then Some Level_Info
      else if abbr = ''WRN'' \<or> abbr = ''wrn'' then Some Level_Warn
      else if abbr = ''ERR'' \<or> abbr = ''err'' then Some Level_Error
      else None)"

subsection \<open>Records\<close>

record log_record =
  lr_level :: level
  lr_file :: "string option"
  lr_line :: "u32 option"

text \<open>The last piece of \<open>rsplit('/')\<close>, which always yields at least one piece.\<close>

definition file_name :: "string \<Rightarrow> string" where
  "file_name full_path = rev (takeWhile (\<lambda>c. c \<noteq> CHR ''/'') (rev full_path))"

fun hex_digits :: "nat \<Rightarrow> string" where
  "hex_digits n = (if n < 16 then [char_of (if n < 10 then 48 + n else 87 + n)]
     else hex_digits (n div 16) @ [char_of (if n mod 16 < 10 then 48 + n mod 16 else 87 + n mod 16)])"

declare hex_digits.simps [simp del]

definition ascii :: "string \<Rightarrow> u8 list" where
  "ascii s = map (\<lambda>c. of_nat (of_char c)) s"

definition log_line :: "(usize \<Rightarrow> u8 list) \<Rightarrow> usize \<Rightarrow> log_record \<Rightarrow> u8 list \<Rightarrow> u8 list" where
  "log_line fmt_time now r args =
     (let level = level_abbreviation (lr_level r);
          full_path = (case lr_file r of Some f \<Rightarrow> f | None \<Rightarrow> ''unknown'');
          line = (case lr_line r of Some l \<Rightarrow> l | None \<Rightarrow> 0)
      in ascii ''['' @ fmt_time now @ ascii ''][''  @ ascii level @ ascii ''][''
         @ ascii (file_name full_path) @ ascii ''@'' @ ascii (dec_digits (unat line)) @ ascii ''] '' @ args @ [10])"

text \<open>\<open>log\<close> of the logger: \<open>com1\<close> is the port behind its lock, released when the guard is dropped.\<close>

definition logger_log ::
  "hw \<Rightarrow> (usize \<Rightarrow> u8 list) \<Rightarrow> usize \<Rightarrow> log_record \<Rightarrow> u8 list \<Rightarrow> com_port spinlock \<Rightarrow> cpu \<Rightarrow> (com_port spinlock \<times> cpu) res option" where
  "logger_log hw fmt_time now r args com1 c =
     (case lock com1 of
        None \<Rightarrow> None
      | Some g \<Rightarrow>
          (case com_write_str hw (guard_deref g) (log_line fmt_time now r args) c of
             None \<Rightarrow> None
           | Some res \<Rightarrow> Some (and_then res (\<lambda>c'. Inr (guard_drop g, c')))))"

subsection \<open>Properties\<close>

text \<open>Every level is found again by its abbreviation, in capitals and in small letters.\<close>

theorem level_abbreviation_roundtrip: "level_from_abbreviation (level_abbreviation l) = Some l"
  by (cases l) (simp_all add: level_from_abbreviation_def)

lemma file_name_no_slash: "CHR ''/'' \<notin> set (file_name p)"
  by (auto simp: file_name_def dest: set_takeWhileD)

text \<open>The file name is what follows the last slash of the path, the whole path when it has none.\<close>

lemma file_name_last:
  assumes "CHR ''/'' \<notin> set s"
  shows "file_name (dir @ CHR ''/'' # s) = s" "file_name s = s"
proof -
  have p: "x \<in> set (rev s) \<Longrightarrow> x \<noteq> CHR ''/''" for x using assms by auto
  show "file_name (dir @ CHR ''/'' # s) = s"
    using takeWhile_append2 [of "rev s" "\<lambda>c. c \<noteq> CHR ''/''" "CHR ''/'' # rev dir", OF p] by (simp add: file_name_def)
  show "file_name s = s"
    unfolding file_name_def by (subst iffD2 [OF takeWhile_eq_all_conv]) (use p in auto)
qed

text \<open>
  On a free port that accepts bytes, logging a record returns, sends the whole line and nothing else,
  and leaves the lock free; while the lock is held on the same processor, it never returns.
\<close>

theorem logger_sends_line:
  assumes "com_live hw (sl_data com1)" "handshaken (sl_data com1) (cpu_trace c)"
  shows "(\<not> is_locked com1 \<longrightarrow> (\<exists>c'. logger_log hw fmt_time now r args com1 c = Some (Inr (com1, c'))
      \<and> outputs c' = outputs c @ map (Out8 (com_data_port (sl_data com1))) (concat (map crlf (log_line fmt_time now r args)))))
    \<and> (is_locked com1 \<longrightarrow> logger_log hw fmt_time now r args com1 c = None)"
proof -
  obtain c' where "com_write_str hw (sl_data com1) (log_line fmt_time now r args) c = Some (Inr c')"
    "outputs c' = outputs c @ map (Out8 (com_data_port (sl_data com1))) (concat (map crlf (log_line fmt_time now r args)))"
    using com_write_str_sends [OF assms, of "log_line fmt_time now r args"] by blast
  then show ?thesis
    by (auto simp: logger_log_def lock_eq spinlock_defs)
qed

end
