(* ===== verification/Boot.thy ===== *)
theory Boot
  imports Multiboot_Tags Nic_Boot Heap Pages Tarfs Logger
begin

text \<open>
  \<^verbatim>\<open>kernel/src/boot.rs\<close>: the entry point of the kernel, which brings up all components in order, and
  \<open>demo_menu\<close> of \<^verbatim>\<open>kernel/src/demo/menu.rs\<close>, which hands over to the scheduler. The record
  \<open>platform\<close> holds what the machine, the boot loader and other crates supply; the record
  \<open>kstate\<close> is the global state of the kernel. As everywhere, \<^term>\<open>None\<close> is a call that never returns and
  \<^term>\<open>Inl e\<close> a panic. The logger runs while the system time is still zero. Not followed are the line
  \<open>Found RTL8139 device!\<close> that the plugin of the network card logs, and the heap allocations of the
  steps after \<open>init_allocator\<close>: the heap of the state is the one that was initialised.
\<close>

subsection \<open>State\<close>

record platform =
  pf_hw :: hw
  pf_fmt_time :: "usize \<Rightarrow> u8 list"
  pf_file :: string
  pf_list_file :: string
  pf_set_logger :: bool
  pf_magic :: u32
  pf_info :: "u8 list"
  pf_base :: nat
  pf_handle_from_ptr :: "u64 \<Rightarrow> bool"
  pf_cr3 :: u64
  pf_kernel_end :: usize
  pf_ram :: "u64 \<Rightarrow> u8"
  pf_untar :: "u8 list \<Rightarrow> entry list option"
  pf_idt :: u64
  pf_dma :: "u64 \<times> u64"

record kstate =
  ks_cpu :: cpu
  ks_com1 :: "com_port spinlock"
  ks_terminal :: "terminal spinlock once"
  ks_vram :: vram
  ks_uefi :: "u64 option \<times> u64 option"
  ks_tables :: memory
  ks_heap :: "list_allocator spinlock"
  ks_fs :: "tarfs once"
  ks_vectors :: "isr int_vectors spinlock"
  ks_idtr :: "idt_descriptor option"
  ks_nic :: "rtl8139 option"

text \<open>The statics as the loader leaves them; \<open>start\<close> of \<^verbatim>\<open>boot.asm\<close> has disabled interrupts.\<close>

definition kernel_image :: "cpu \<Rightarrow> vram \<Rightarrow> memory \<Rightarrow> kstate" where
  "kernel_image c v tables = \<lparr>ks_cpu = disable_int c, ks_com1 = spinlock_new (com_port_new Com1), ks_terminal = once_new,
     ks_vram = v, ks_uefi = (None, None), ks_tables = tables, ks_heap = locked_new list_allocator_new, ks_fs = once_new,
     ks_vectors = spinlock_new int_vectors_new, ks_idtr = None, ks_nic = None\<rparr>"

subsection \<open>Logging\<close>

definition log_from :: "string \<Rightarrow> platform \<Rightarrow> level \<Rightarrow> u32 \<Rightarrow> string \<Rightarrow> kstate \<Rightarrow> kstate res option" where
  "log_from src pf level line text st =
     run_then (logger_log (pf_hw pf) (pf_fmt_time pf) 0 \<lparr>lr_level = level, lr_file = Some src, lr_line = Some line\<rparr>
         (ascii text) (ks_com1 st) (ks_cpu st))
       (\<lambda>(com, c). Some (Inr (st\<lparr>ks_com1 := com, ks_cpu := c\<rparr>)))"

definition boot_log :: "platform \<Rightarrow> level \<Rightarrow> u32 \<Rightarrow> string \<Rightarrow> kstate \<Rightarrow> kstate res option" where
  "boot_log pf = log_from (pf_file pf) pf"

abbreviation info_log :: "platform \<Rightarrow> u32 \<Rightarrow> string \<Rightarrow> kstate \<Rightarrow> kstate res option" where
  "info_log pf \<equiv> boot_log pf Level_Info"

subsection \<open>The steps of main\<close>

definition init_com1 :: "kstate \<Rightarrow> kstate res option" where
  "init_com1 st =
     (case lock (ks_com1 st) of
        None \<Rightarrow> None
      | Some g \<Rightarrow> Some (Inr (st\<lparr>ks_com1 := guard_drop g, ks_cpu := com_init (guard_deref g) (ks_cpu st)\<rparr>)))"

definition boot_terminal :: "platform \<Rightarrow> kstate \<Rightarrow> kstate res option" where
  "boot_terminal pf st = Some (
     and_then (boot_framebuffer (pf_magic pf) (pf_info pf) (pf_base pf)) (\<lambda>fb.
     and_then (init_terminal fb (ks_terminal st) (ks_vram st)) (\<lambda>(t, v).
       Inr (st\<lparr>ks_terminal := t, ks_vram := v\<rparr>))))"

definition exit_uefi_boot_services :: "platform \<Rightarrow> kstate \<Rightarrow> kstate res option" where
  "exit_uefi_boot_services pf st =
     run_then (Some (find_tag (pf_info pf) (pf_base pf) EfiBootServicesNotTerminated)) (\<lambda>not_terminated.
     if not_terminated = None then Some (Inl (PanicMsg ''EFI boot services were terminated by the bootloader''))
     else run_then (Some (find_tag (pf_info pf) (pf_base pf) Efi64BitImageHandlePointer)) (\<lambda>image.
       case image of
         None \<Rightarrow> Some (Inl (PanicMsg ''Missing EFI image handle pointer tag''))
       | Some off \<Rightarrow>
           run_then (Some (efi_image_handle_as_ptr (pf_info pf) off)) (\<lambda>handle.
           run_then (boot_log pf Level_Debug 172 (''EFI image is located at: 0x'' @ hex_digits (unat handle)) st) (\<lambda>st1.
           if \<not> pf_handle_from_ptr pf handle then Some (Inl (ExpectFailed ''Failed to get EFI image handle''))
           else
             let st2 = st1\<lparr>ks_uefi := (Some handle, snd (ks_uefi st1))\<rparr> in
             run_then (Some (find_tag (pf_info pf) (pf_base pf) Efi64BitSystemTablePointer)) (\<lambda>sys.
             case sys of
               None \<Rightarrow> Some (Inl (PanicMsg ''Missing EFI system table pointer tag''))
             | Some off' \<Rightarrow>
                 run_then (Some (efi_system_table_as_ptr (pf_info pf) off')) (\<lambda>tab.
                 run_then (boot_log pf Level_Debug 197 (''EFI system table is located at: 0x'' @ hex_digits (unat tab)) st2) (\<lambda>st3.
                 info_log pf 213 ''Exiting UEFI boot services...''
                   (st3\<lparr>ks_uefi := (fst (ks_uefi st3), Some tab)\<rparr>))))))))"

definition boot_paging :: "platform \<Rightarrow> kstate \<Rightarrow> kstate" where
  "boot_paging pf st = (case setup_initial_paging (pf_cr3 pf) (ks_cpu st, ks_tables st) of (c, m) \<Rightarrow>
     st\<lparr>ks_cpu := c, ks_tables := m\<rparr>)"

text \<open>The allocator logs its bounds at the end of its \<open>init\<close>, while its lock is still held; the logger does not use it.\<close>

definition boot_heap :: "platform \<Rightarrow> kstate \<Rightarrow> kstate res option" where
  "boot_heap pf st =
     run_then (Some (heap_start (pf_kernel_end pf))) (\<lambda>hs.
     run_then (init_allocator hs HEAP_SIZE (ks_heap st)) (\<lambda>h.
       log_from (pf_list_file pf) pf Level_Info 68 (''List allocator initialized: 0x'' @ hex_digits (unat hs) @ '' - 0x''
         @ hex_digits (unat hs + unat HEAP_SIZE) @ '' (Size: '' @ dec_digits (unat HEAP_SIZE) @ '' bytes)'') (st\<lparr>ks_heap := h\<rparr>)))"

definition boot_initrd :: "platform \<Rightarrow> entry list res" where
  "boot_initrd pf =
     and_then (find_tag (pf_info pf) (pf_base pf) Module) (\<lambda>r.
     case r of
       None \<Rightarrow> Inl (ExpectFailed ''Missing initial ramdisk'')
     | Some off \<Rightarrow>
         and_then (module_as_slice (pf_info pf) off) (\<lambda>(a, n).
         case pf_untar pf (map (\<lambda>i. pf_ram pf (a + of_nat i)) [0..<n]) of
           None \<Rightarrow> Inl (ExpectFailed ''Failed to parse initrd'')
         | Some archive \<Rightarrow> Inr archive))"

definition init_interrupt_dispatcher :: "kstate \<Rightarrow> kstate res option" where
  "init_interrupt_dispatcher st =
     (case lock (ks_vectors st) of
        None \<Rightarrow> None
      | Some g \<Rightarrow> Some (and_then (int_vectors_init (guard_deref g)) (\<lambda>m.
          Inr (st\<lparr>ks_vectors := guard_drop (guard_deref_mut (\<lambda>_. m) g)\<rparr>))))"

text \<open>A plugin that works on the vector map and the processor.\<close>

definition plug ::
  "(isr int_vectors spinlock \<Rightarrow> cpu \<Rightarrow> (isr int_vectors spinlock \<times> cpu) res option) \<Rightarrow> kstate \<Rightarrow> kstate res option" where
  "plug p st = run_then (p (ks_vectors st) (ks_cpu st)) (\<lambda>(v, c). Some (Inr (st\<lparr>ks_vectors := v, ks_cpu := c\<rparr>)))"

text \<open>The first use of \<open>pci_bus()\<close> scans the bus; 256 nested bridges are more than there are bus numbers.\<close>

definition plug_nic :: "platform \<Rightarrow> kstate \<Rightarrow> kstate res option" where
  "plug_nic pf st =
     (case scan 256 (pf_hw pf) (pci_bus_new, ks_cpu st) of
        None \<Rightarrow> None
      | Some (pb, c) \<Rightarrow>
          run_then (rtl8139_plugin (pf_hw pf) pb (fst (pf_dma pf)) (snd (pf_dma pf)) (ks_nic st) (ks_vectors st) c)
            (\<lambda>(nic, v, c'). Some (Inr (st\<lparr>ks_nic := nic, ks_vectors := v, ks_cpu := c'\<rparr>))))"

subsection \<open>main\<close>

text \<open>Up to the heap and the file system; \<open>load_gdt\<close> changes nothing of this state.\<close>

definition boot_memory :: "platform \<Rightarrow> kstate \<Rightarrow> kstate res option" where
  "boot_memory pf st =
     run_then (init_com1 st) (\<lambda>st1.
     if \<not> pf_set_logger pf then Some (Inl (PanicMsg ''Failed to initialize logger''))
     else
       run_then (boot_terminal pf st1) (\<lambda>st2.
       run_then (exit_uefi_boot_services pf st2) (\<lambda>st3.
       run_then (info_log pf 103 ''Kernel initialized successfully!'' (boot_paging pf st3)) (\<lambda>st4.
       run_then (boot_heap pf st4) (\<lambda>st5.
       run_then (Some (boot_initrd pf)) (\<lambda>archive.
       run_then (info_log pf 115 ''Initializing tarfs filesystem'' st5) (\<lambda>st6.
         Some (Inr (st6\<lparr>ks_fs := init_filesystem archive (ks_fs st6)\<rparr>)))))))))"

text \<open>The devices, up to the point where interrupts are enabled.\<close>

definition boot_devices :: "platform \<Rightarrow> kstate \<Rightarrow> kstate res option" where
  "boot_devices pf st =
     run_then (info_log pf 118 ''Initializing interrupt dispatcher'' st) (\<lambda>st1.
     run_then (init_interrupt_dispatcher st1) (\<lambda>st2.
     run_then (info_log pf 121 ''Initializing IDT'' st2) (\<lambda>st3.
     run_then (info_log pf 124 ''Initializing PIC'' (st3\<lparr>ks_idtr := Some (load (pf_idt pf))\<rparr>)) (\<lambda>st4.
     run_then (info_log pf 127 ''Initializing PIT'' (st4\<lparr>ks_cpu := pic_init (ks_cpu st4)\<rparr>)) (\<lambda>st5.
     run_then (plug (pit_plugin (pf_hw pf) False) st5) (\<lambda>st6.
     run_then (info_log pf 130 ''Initializing keyboard'' st6) (\<lambda>st7.
     run_then (plug (keyboard_plugin (pf_hw pf)) st7) (\<lambda>st8.
     run_then (info_log pf 133 ''Initializing RTL8139'' st8) (\<lambda>st9.
     run_then (plug_nic pf st9) (\<lambda>st10.
       info_log pf 136 ''Enabling interrupts'' st10))))))))))"

definition demo_menu :: "thread \<Rightarrow> thread \<Rightarrow> unit outcome" where
  "demo_menu idle menu_thread =
     (case ready menu_thread (scheduler_new idle) of
        Done _ s \<Rightarrow> schedule s
      | r \<Rightarrow> r)"

text \<open>The result of \<open>main\<close> is how the call of \<open>demo_menu\<close> ends, with the state it runs in.\<close>

definition main :: "platform \<Rightarrow> thread \<Rightarrow> thread \<Rightarrow> kstate \<Rightarrow> (unit outcome \<times> kstate) res option" where
  "main pf idle menu_thread st =
     run_then (boot_memory pf st) (\<lambda>st1.
     run_then (boot_devices pf st1) (\<lambda>st2.
       Some (Inr (demo_menu idle menu_thread, st2\<lparr>ks_cpu := enable_int (ks_cpu st2)\<rparr>))))"

subsection \<open>Logging keeps everything else\<close>

definition can_log :: "platform \<Rightarrow> kstate \<Rightarrow> bool" where
  "can_log pf st \<longleftrightarrow> com_live (pf_hw pf) (com_port_new Com1) \<and> ks_com1 st = spinlock_new (com_port_new Com1)"

lemma last_out_outputs: "last_out p (cpu_trace c) = last_out p (rev (outputs c))"
proof -
  have "last_out p tr = last_out p (filter is_output tr)" for tr
    by (induction p tr rule: last_out.induct) auto
  then show ?thesis by (simp add: outputs_def rev_filter [symmetric])
qed

lemma last_out_other: "q \<noteq> p \<Longrightarrow> last_out p (map (Out8 q) bs @ tr) = last_out p tr"
  by (induction bs) simp_all

lemma outputs_keep_masks:
  assumes "outputs c' = outputs c @ map (Out8 q) bs" "q \<noteq> Data1" "q \<noteq> Data2" "cpu_rflags c' = cpu_rflags c"
  shows "keeps_masks c c'"
  using assms by (simp add: keeps_masks_def last_out_outputs [of _ c'] last_out_outputs [of _ c] rev_map last_out_other)

lemma log_from_ok:
  assumes "can_log pf st"
  shows "\<exists>c'. log_from src pf l n t st = Some (Inr (st\<lparr>ks_cpu := c'\<rparr>)) \<and> keeps_masks (ks_cpu st) c' \<and> dwords c' = dwords (ks_cpu st)"
proof -
  let ?p = "com_port_new Com1"
  define bs where "bs = log_line (pf_fmt_time pf) 0 \<lparr>lr_level = l, lr_file = Some src, lr_line = Some n\<rparr> (ascii t)"
  have a: "com_live (pf_hw pf) ?p" "ks_com1 st = spinlock_new ?p" using assms by (simp_all add: can_log_def)
  obtain c' where c': "com_write_str (pf_hw pf) ?p bs (ks_cpu st) = Some (Inr c')"
    "outputs c' = outputs (ks_cpu st) @ map (Out8 (com_data_port ?p)) (concat (map crlf bs))"
    "cpu_rflags c' = cpu_rflags (ks_cpu st)"
    using com_write_str_returns [OF a(1), of bs "ks_cpu st"] by blast
  have "com_data_port ?p \<noteq> Data1" "com_data_port ?p \<noteq> Data2" by (simp_all add: com_port_new_def Data1_def Data2_def)
  then have "keeps_masks (ks_cpu st) c'" by (rule outputs_keep_masks [OF c'(2) _ _ c'(3)])
  moreover have "st\<lparr>ks_com1 := spinlock_new ?p, ks_cpu := c'\<rparr> = st\<lparr>ks_cpu := c'\<rparr>" using a(2) by (cases st) simp
  then have "log_from src pf l n t st = Some (Inr (st\<lparr>ks_cpu := c'\<rparr>))"
    using c'(1) a(2) by (simp add: log_from_def logger_log_def lock_eq spinlock_defs bs_def)
  ultimately show ?thesis using outputs_keep_dwords [OF c'(2)] by blast
qed

lemmas boot_log_ok = log_from_ok [of pf _ "pf_file pf" for pf, folded boot_log_def]

lemma can_log_cpu [simp]: "can_log pf (st\<lparr>ks_cpu := c\<rparr>) = can_log pf st"
  by (simp add: can_log_def)

lemma can_log_fields [simp]:
  "can_log pf (st\<lparr>ks_terminal := t\<rparr>) = can_log pf st" "can_log pf (st\<lparr>ks_vram := v\<rparr>) = can_log pf st"
  "can_log pf (st\<lparr>ks_uefi := u\<rparr>) = can_log pf st" "can_log pf (st\<lparr>ks_tables := m\<rparr>) = can_log pf st"
  "can_log pf (st\<lparr>ks_heap := h\<rparr>) = can_log pf st" "can_log pf (st\<lparr>ks_vectors := vs\<rparr>) = can_log pf st"
  "can_log pf (st\<lparr>ks_idtr := i\<rparr>) = can_log pf st" "can_log pf (st\<lparr>ks_nic := n\<rparr>) = can_log pf st"
  by (simp_all add: can_log_def)

subsection \<open>Memory, terminal and file system\<close>

text \<open>What the boot loader and the machine have to supply.\<close>

record boot_info =
  bi_fb :: framebuffer
  bi_handle :: u64
  bi_table :: u64
  bi_archive :: "entry list"

definition bootable :: "platform \<Rightarrow> vram \<Rightarrow> boot_info \<Rightarrow> bool" where
  "bootable pf v b \<longleftrightarrow> pf_set_logger pf
   \<and> boot_framebuffer (pf_magic pf) (pf_info pf) (pf_base pf) = Inr (bi_fb b)
   \<and> fb_ok (bi_fb b) v \<and> CHAR_WIDTH \<le> fb_width (bi_fb b) \<and> CHAR_HEIGHT \<le> fb_height (bi_fb b)
   \<and> (\<exists>o0. find_tag (pf_info pf) (pf_base pf) EfiBootServicesNotTerminated = Inr (Some o0))
   \<and> (\<exists>o1. find_tag (pf_info pf) (pf_base pf) Efi64BitImageHandlePointer = Inr (Some o1)
        \<and> efi_tag_pointer (pf_info pf) o1 = Inr (bi_handle b)) \<and> pf_handle_from_ptr pf (bi_handle b)
   \<and> (\<exists>o2. find_tag (pf_info pf) (pf_base pf) Efi64BitSystemTablePointer = Inr (Some o2)
        \<and> efi_tag_pointer (pf_info pf) o2 = Inr (bi_table b))
   \<and> 0 < pf_kernel_end pf \<and> unat (pf_kernel_end pf) < 2 ^ 62 \<and> boot_initrd pf = Inr (bi_archive b)"

lemma exit_uefi_ok:
  assumes b: "bootable pf v b" and st: "can_log pf st" "ks_uefi st = (None, None)"
  shows "\<exists>c'. exit_uefi_boot_services pf st = Some (Inr (st\<lparr>ks_cpu := c', ks_uefi := (Some (bi_handle b), Some (bi_table b))\<rparr>))
    \<and> keeps_masks (ks_cpu st) c' \<and> dwords c' = dwords (ks_cpu st)"
proof -
  let ?find = "find_tag (pf_info pf) (pf_base pf)" and ?h = "bi_handle b" and ?t = "bi_table b"
  obtain o0 o1 o2 where f: "?find EfiBootServicesNotTerminated = Inr (Some o0)" "?find Efi64BitImageHandlePointer = Inr (Some o1)"
    "efi_tag_pointer (pf_info pf) o1 = Inr ?h" "pf_handle_from_ptr pf ?h"
    "?find Efi64BitSystemTablePointer = Inr (Some o2)" "efi_tag_pointer (pf_info pf) o2 = Inr ?t"
    using b by (auto simp: bootable_def)
  obtain c1 where 1: "boot_log pf Level_Debug 172 (''EFI image is located at: 0x'' @ hex_digits (unat ?h)) st = Some (Inr (st\<lparr>ks_cpu := c1\<rparr>))"
    "keeps_masks (ks_cpu st) c1" "dwords c1 = dwords (ks_cpu st)" using boot_log_ok [OF st(1)] by blast
  define st2 where "st2 = st\<lparr>ks_cpu := c1, ks_uefi := (Some ?h, None)\<rparr>"
  have "can_log pf st2" using st(1) by (simp add: st2_def)
  from boot_log_ok [OF this] obtain c2 where 2:
    "boot_log pf Level_Debug 197 (''EFI system table is located at: 0x'' @ hex_digits (unat ?t)) st2 = Some (Inr (st2\<lparr>ks_cpu := c2\<rparr>))"
    "keeps_masks (ks_cpu st2) c2" "dwords c2 = dwords (ks_cpu st2)" by blast
  define st3 where "st3 = st2\<lparr>ks_cpu := c2, ks_uefi := (Some ?h, Some ?t)\<rparr>"
  have "can_log pf st3" using st(1) by (simp add: st3_def st2_def)
  from boot_log_ok [OF this] obtain c3 where 3:
    "info_log pf 213 ''Exiting UEFI boot services...'' st3 = Some (Inr (st3\<lparr>ks_cpu := c3\<rparr>))" "keeps_masks (ks_cpu st3) c3"
    "dwords c3 = dwords (ks_cpu st3)" by blast
  have u: "st2\<lparr>ks_cpu := c2, ks_uefi := (fst (ks_uefi st2), Some ?t)\<rparr> = st3" by (simp add: st3_def st2_def)
  have "exit_uefi_boot_services pf st = Some (Inr (st3\<lparr>ks_cpu := c3\<rparr>))"
    using f 1(1) 2(1) 3(1) st(2) u
    by (simp add: exit_uefi_boot_services_def efi_image_handle_as_ptr_def efi_system_table_as_ptr_def Let_def
        st2_def [symmetric] st3_def [symmetric])
  moreover have "st3\<lparr>ks_cpu := c3\<rparr> = st\<lparr>ks_cpu := c3, ks_uefi := (Some ?h, Some ?t)\<rparr>" by (simp add: st3_def st2_def)
  moreover have "keeps_masks (ks_cpu st) c3" 
    using keeps_trans [OF keeps_trans [OF 1(2)]] 2(2) 3(2) by (simp add: st2_def st3_def)
  moreover have "dwords c3 = dwords (ks_cpu st)" using 1(3) 2(3) 3(3) by (simp add: st2_def st3_def)
  ultimately show ?thesis by metis
qed

text \<open>The memory half of the boot: the fields it sets, and that it leaves the others alone.\<close>

lemma boot_memory_ok:
  assumes b: "bootable pf v b" and live: "com_live (pf_hw pf) (com_port_new Com1)"
  shows "\<exists>st t a. boot_memory pf (kernel_image c v tables) = Some (Inr st)
    \<and> can_log pf st \<and> \<not> is_int_enabled (ks_cpu st) \<and> ks_vectors st = spinlock_new int_vectors_new \<and> ks_nic st = None
    \<and> once_get (ks_terminal st) = Inr (Some t) \<and> \<not> is_locked t \<and> shows_screen (inner t) (ks_vram st) blank_screen
    \<and> inner (t_framebuffer (inner t)) = bi_fb b
    \<and> ks_heap st = spinlock_new a \<and> heap_ok a \<and> filesystem (ks_fs st) = Inr (tarfs_new (bi_archive b))
    \<and> ks_tables st = setup_initial_page_map 4 (read_cr3 (pf_cr3 pf)) tables
    \<and> ks_uefi st = (Some (bi_handle b), Some (bi_table b)) \<and> dwords (ks_cpu st) = dwords c"
proof -
  let ?fb = "bi_fb b"
  have bt: "pf_set_logger pf" "boot_framebuffer (pf_magic pf) (pf_info pf) (pf_base pf) = Inr ?fb" "fb_ok ?fb v"
    "CHAR_WIDTH \<le> fb_width ?fb" "CHAR_HEIGHT \<le> fb_height ?fb" "0 < pf_kernel_end pf" "unat (pf_kernel_end pf) < 2 ^ 62"
    "boot_initrd pf = Inr (bi_archive b)"
    using b by (simp_all add: bootable_def)
  define st0 where "st0 = kernel_image c v tables"
  define st1 where "st1 = st0\<lparr>ks_cpu := com_init (com_port_new Com1) (ks_cpu st0)\<rparr>"
  have i1: "init_com1 st0 = Some (Inr st1)"
    by (simp add: init_com1_def st0_def st1_def kernel_image_def lock_eq spinlock_defs)
  have int1: "\<not> is_int_enabled (ks_cpu st1)"
    by (simp add: st1_def st0_def kernel_image_def com_init_def is_int_enabled_bit disable_int_def bit_and_iff bit_not_iff bit_RFLAGS_IF)
  have dw1: "dwords (ks_cpu st1) = dwords c"
    by (simp add: st1_def st0_def kernel_image_def com_init_def) (simp add: dwords_def disable_int_def)
  obtain t v' where t: "terminal_new ?fb v = Inr (t, v')" "shows_screen t v' blank_screen" "inner (t_framebuffer t) = ?fb"
    using new_shows_blank [OF bt(3-5)] by blast
  define st2 where "st2 = st1\<lparr>ks_terminal := \<lparr>on_initialized = True, on_value = Some (spinlock_new t)\<rparr>, ks_vram := v'\<rparr>"
  have i2: "boot_terminal pf st1 = Some (Inr st2)"
    using bt(2) t(1) by (simp add: boot_terminal_def st2_def st1_def st0_def kernel_image_def init_terminal_def once_new_def once_init_def Let_def)
  have s2: "can_log pf st2" "ks_uefi st2 = (None, None)"
    using live by (simp_all add: can_log_def st2_def st1_def st0_def kernel_image_def)
  obtain c3 where i3: "exit_uefi_boot_services pf st2 = Some (Inr (st2\<lparr>ks_cpu := c3, ks_uefi := (Some (bi_handle b), Some (bi_table b))\<rparr>))"
    "keeps_masks (ks_cpu st2) c3" "dwords c3 = dwords (ks_cpu st2)" using exit_uefi_ok [OF b s2] by blast
  define st3 where "st3 = boot_paging pf (st2\<lparr>ks_cpu := c3, ks_uefi := (Some (bi_handle b), Some (bi_table b))\<rparr>)"
  have pag: "ks_tables st3 = setup_initial_page_map 4 (read_cr3 (pf_cr3 pf)) tables" "cpu_rflags (ks_cpu st3) = cpu_rflags c3"
    "ks_com1 st3 = ks_com1 st2" "dwords (ks_cpu st3) = dwords c3"
    by (simp_all add: st3_def boot_paging_def setup_initial_paging_def Let_def write_cr0_def dwords_def st2_def st1_def st0_def kernel_image_def
        del: setup_initial_page_map.simps)
  have fields3: "ks_terminal st3 = ks_terminal st2" "ks_vram st3 = v'" "ks_heap st3 = locked_new list_allocator_new" "ks_fs st3 = once_new"
    "ks_vectors st3 = spinlock_new int_vectors_new" "ks_nic st3 = None" "ks_uefi st3 = (Some (bi_handle b), Some (bi_table b))"
    by (simp_all add: st3_def boot_paging_def setup_initial_paging_def Let_def write_cr0_def dwords_def st2_def st1_def st0_def kernel_image_def
        del: setup_initial_page_map.simps)
  have "can_log pf st3" using s2(1) pag(3) by (simp add: can_log_def)
  from boot_log_ok [OF this] obtain c4 where i4: "info_log pf 103 ''Kernel initialized successfully!'' st3 = Some (Inr (st3\<lparr>ks_cpu := c4\<rparr>))"
    "keeps_masks (ks_cpu st3) c4" "dwords c4 = dwords (ks_cpu st3)" by blast
  obtain hs a where h: "heap_start (pf_kernel_end pf) = Inr hs" "heap_ok a"
    "init_allocator hs HEAP_SIZE (locked_new list_allocator_new) = Some (Inr (spinlock_new a))"
    using heap_boots [OF bt(6,7)] by blast
  define st4 where "st4 = st3\<lparr>ks_cpu := c4, ks_heap := spinlock_new a\<rparr>"
  have "can_log pf st4" using s2(1) pag(3) by (simp add: can_log_def st4_def)
  note log5 = log_from_ok [OF this, of "pf_list_file pf" Level_Info 68]
  obtain c5 where i5: "boot_heap pf (st3\<lparr>ks_cpu := c4\<rparr>) = Some (Inr (st4\<lparr>ks_cpu := c5\<rparr>))" "keeps_masks (ks_cpu st4) c5"
    "dwords c5 = dwords (ks_cpu st4)"
    using log5 h(1,3) fields3(3) unfolding boot_heap_def by (simp add: st4_def) metis
  define st5 where "st5 = st3\<lparr>ks_cpu := c5, ks_heap := spinlock_new a\<rparr>"
  have st5: "st4\<lparr>ks_cpu := c5\<rparr> = st5" by (simp add: st4_def st5_def)
  have "can_log pf st5" using s2(1) pag(3) by (simp add: can_log_def st5_def)
  from boot_log_ok [OF this] obtain c6 where i6: "info_log pf 115 ''Initializing tarfs filesystem'' st5 = Some (Inr (st5\<lparr>ks_cpu := c6\<rparr>))"
    "keeps_masks (ks_cpu st5) c6" "dwords c6 = dwords (ks_cpu st5)" by blast
  define st7 where "st7 = st5\<lparr>ks_cpu := c6, ks_fs := init_filesystem (bi_archive b) once_new\<rparr>"
  have m: "boot_memory pf st0 = Some (Inr st7)"
    using i1 i2 i3(1) i4(1) i5(1) [unfolded st5] i6(1) bt(1,8) fields3(4)
    by (simp add: boot_memory_def st3_def [symmetric] st7_def) (simp add: st5_def)
  have "is_int_enabled c3 = is_int_enabled (ks_cpu st2)" "is_int_enabled c4 = is_int_enabled (ks_cpu st3)"
    "is_int_enabled c5 = is_int_enabled c4" "is_int_enabled c6 = is_int_enabled c5"
    using keeps_int i3(2) i4(2) i5(2) i6(2) by (auto simp: st4_def st5_def)
  moreover have "is_int_enabled (ks_cpu st3) = is_int_enabled c3" "ks_cpu st2 = ks_cpu st1" using pag(2) by (simp_all add: is_int_enabled_def st2_def)
  ultimately have "\<not> is_int_enabled (ks_cpu st7)" using int1 by (simp add: st7_def)
  moreover have "dwords (ks_cpu st7) = dwords c"
    using dw1 i3(3) pag(4) i4(3) i5(3) i6(3) by (simp add: st7_def st5_def st4_def st2_def)
  moreover have "can_log pf st7" using s2(1) pag(3) by (simp add: can_log_def st7_def st5_def)
  moreover have "filesystem (ks_fs st7) = Inr (tarfs_new (bi_archive b))"
    by (simp add: st7_def init_filesystem_def filesystem_def once_init_def once_new_def once_get_def assume_init_ref_def Let_def)
  moreover have "once_get (ks_terminal st7) = Inr (Some (spinlock_new t))"
    by (simp add: st7_def st5_def fields3(1) st2_def once_get_def assume_init_ref_def)
  ultimately show ?thesis
    using m t(2,3) h(2) pag(1) fields3(2,5-7) unfolding st0_def
    by (intro exI [of _ st7] exI [of _ "spinlock_new t"] exI [of _ a]) (simp add: st7_def st5_def spinlock_defs)
qed

subsection \<open>Devices\<close>

definition lines_ready :: "kstate \<Rightarrow> bool" where
  "lines_ready st \<longleftrightarrow> wired (ks_vectors st) (ks_cpu st) \<and> enabled (ks_cpu st) Timer \<and> enabled (ks_cpu st) irq.Keyboard
     \<and> inner (ks_vectors st) ! 0x20 = Some (TimerISR 1) \<and> inner (ks_vectors st) ! 0x21 = Some KeyboardISR"

lemma lines_ready_keep: "keeps_masks (ks_cpu st) c \<Longrightarrow> lines_ready (st\<lparr>ks_cpu := c\<rparr>) = lines_ready st"
  by (simp add: lines_ready_def keeps_wired keeps_enabled)

text \<open>
  What the machine has to do: the serial port accepts bytes, the interrupt masks read back, and the
  configuration space \<open>m\<close> that the kernel finds at its start has bridges that lead to higher buses
  and only network cards that the kernel supports.
\<close>

definition machine_ok :: "hw \<Rightarrow> reg_write \<Rightarrow> (u32 \<Rightarrow> u32) \<Rightarrow> (u32 \<Rightarrow> u32) \<Rightarrow> bool" where
  "machine_ok hw upd cfg0 m \<longleftrightarrow> com_live hw (com_port_new Com1) \<and> masks_readable hw \<and> responds hw upd cfg0
     \<and> bridges_ascend m \<and> nics_supported hw m"

lemma plug_nic_ready:
  assumes hw: "machine_ok (pf_hw pf) upd cfg0 m" "cfg upd cfg0 (ks_cpu st) = m"
    and st: "lines_ready st" "ks_nic st = None" "\<not> is_int_enabled (ks_cpu st)"
  shows "\<exists>nic v c. plug_nic pf st = Some (Inr (st\<lparr>ks_nic := nic, ks_vectors := v, ks_cpu := c\<rparr>))
    \<and> lines_ready (st\<lparr>ks_nic := nic, ks_vectors := v, ks_cpu := c\<rparr>) \<and> \<not> is_int_enabled c
    \<and> nic_result m (fst (pf_dma pf)) (snd (pf_dma pf)) nic"
proof -
  have h: "responds (pf_hw pf) upd cfg0" "masks_readable (pf_hw pf)" "bridges_ascend m" "nics_supported (pf_hw pf) m"
    using hw(1) by (simp_all add: machine_ok_def)
  have w: "wired (ks_vectors st) (ks_cpu st)" using st(1) by (simp add: lines_ready_def)
  obtain pb c1 nic v c where r: "scan 256 (pf_hw pf) (pci_bus_new, ks_cpu st) = Some (pb, c1)" "keeps_masks (ks_cpu st) c1"
    "rtl8139_plugin (pf_hw pf) pb (fst (pf_dma pf)) (snd (pf_dma pf)) None (ks_vectors st) c1 = Some (Inr (nic, v, c))"
    "nic_result m (fst (pf_dma pf)) (snd (pf_dma pf)) nic"
    using nic_starts [OF h hw(2) w] by blast
  have w1: "wired (ks_vectors st) c1" using w keeps_wired [OF r(2)] by simp
  have "\<forall>d. nic = Some d \<longrightarrow> 256 \<le> unat (nic_io_base d)" using r(4) by (simp add: nic_result_def)
  from rtl8139_plugin_wires [OF w1 h(2) r(3) this] show ?thesis
    using r(1,3,4) st keeps_enabled [OF r(2)] keeps_int [OF r(2)]
    by (intro exI [of _ nic] exI [of _ v] exI [of _ c]) (simp add: plug_nic_def lines_ready_def)
qed

lemma boot_devices_ok:
  assumes hw: "machine_ok (pf_hw pf) upd cfg0 m" "cfg upd cfg0 (ks_cpu st) = m"
    and st: "can_log pf st" "ks_vectors st = spinlock_new int_vectors_new" "ks_nic st = None" "\<not> is_int_enabled (ks_cpu st)"
  shows "\<exists>v c nic. boot_devices pf st = Some (Inr (st\<lparr>ks_vectors := v, ks_idtr := Some (load (pf_idt pf)), ks_nic := nic, ks_cpu := c\<rparr>))
    \<and> lines_ready (st\<lparr>ks_vectors := v, ks_idtr := Some (load (pf_idt pf)), ks_nic := nic, ks_cpu := c\<rparr>) \<and> \<not> is_int_enabled c
    \<and> nic_result m (fst (pf_dma pf)) (snd (pf_dma pf)) nic"
proof -
  have masks: "masks_readable (pf_hw pf)" using hw(1) by (simp add: machine_ok_def)
  define vs :: "isr int_vectors" where "vs = replicate IDT_SIZE None"
  have i: "int_vectors_init int_vectors_new = Inr vs" unfolding vs_def by (rule int_vectors_init_eq)
  obtain c1 where 1: "info_log pf 118 ''Initializing interrupt dispatcher'' st = Some (Inr (st\<lparr>ks_cpu := c1\<rparr>))" "keeps_masks (ks_cpu st) c1" "dwords c1 = dwords (ks_cpu st)"
    using boot_log_ok [OF st(1)] by blast
  define st2 where "st2 = st\<lparr>ks_cpu := c1, ks_vectors := spinlock_new vs\<rparr>"
  have 2: "init_interrupt_dispatcher (st\<lparr>ks_cpu := c1\<rparr>) = Some (Inr st2)"
    using st(2) i by (simp add: init_interrupt_dispatcher_def lock_eq spinlock_defs st2_def)
  have "can_log pf st2" using st(1) by (simp add: st2_def)
  from boot_log_ok [OF this] obtain c3 where 3: "info_log pf 121 ''Initializing IDT'' st2 = Some (Inr (st2\<lparr>ks_cpu := c3\<rparr>))" "keeps_masks (ks_cpu st2) c3"
    "dwords c3 = dwords (ks_cpu st2)" by blast
  define st3 where "st3 = st2\<lparr>ks_cpu := c3, ks_idtr := Some (load (pf_idt pf))\<rparr>"
  have "can_log pf st3" using st(1) by (simp add: st3_def st2_def)
  from boot_log_ok [OF this] obtain c4 where 4: "info_log pf 124 ''Initializing PIC'' st3 = Some (Inr (st3\<lparr>ks_cpu := c4\<rparr>))" "keeps_masks (ks_cpu st3) c4"
    "dwords c4 = dwords (ks_cpu st3)" by blast
  define st4 where "st4 = st3\<lparr>ks_cpu := pic_init c4\<rparr>"
  have "can_log pf st4" using st(1) by (simp add: st4_def st3_def st2_def)
  from boot_log_ok [OF this] obtain c5 where 5: "info_log pf 127 ''Initializing PIT'' st4 = Some (Inr (st4\<lparr>ks_cpu := c5\<rparr>))" "keeps_masks (ks_cpu st4) c5"
    "dwords c5 = dwords (ks_cpu st4)" by blast
  have "wired (spinlock_new vs) (pic_init c4)" using init_enables by (simp add: wired_def vs_def)
  then have w5: "wired (spinlock_new vs) c5" using keeps_wired [OF 5(2)] by (simp add: st4_def)
  have "cpu_rflags (pic_init c4) = cpu_rflags c4" by (simp add: pic_init_def outb_wait_def)
  then have "is_int_enabled (pic_init c4) = is_int_enabled c4" by (simp add: is_int_enabled_def)
  then have int5: "\<not> is_int_enabled c5"
    using keeps_int [OF 1(2)] keeps_int [OF 3(2)] keeps_int [OF 4(2)] keeps_int [OF 5(2)] st(4) by (simp add: st2_def st3_def st4_def)
  obtain v6 c6 where 6: "pit_plugin (pf_hw pf) False (spinlock_new vs) c5 = Some (Inr (v6, c6))" "wired v6 c6"
    "inner v6 = vs[0x20 := Some (TimerISR 1)]" "\<forall>j. enabled c6 j \<longleftrightarrow> j = Timer \<or> enabled c5 j" "\<not> is_int_enabled c6"
    using pit_plugin_wires [OF w5 masks] int5 by auto
  define st6 where "st6 = st4\<lparr>ks_vectors := v6, ks_cpu := c6\<rparr>"
  have p6: "plug (pit_plugin (pf_hw pf) False) (st4\<lparr>ks_cpu := c5\<rparr>) = Some (Inr st6)"
    using 6(1) by (simp add: plug_def st6_def st4_def st3_def st2_def)
  have c6: "ks_cpu st6 = c6" by (simp add: st6_def)
  have "can_log pf st6" using st(1) by (simp add: st6_def st4_def st3_def st2_def)
  from boot_log_ok [OF this, unfolded c6] obtain c7 where 7: "info_log pf 130 ''Initializing keyboard'' st6 = Some (Inr (st6\<lparr>ks_cpu := c7\<rparr>))" "keeps_masks c6 c7"
    "dwords c7 = dwords c6" by blast
  have w7: "wired v6 c7" using 6(2) keeps_wired [OF 7(2)] by simp
  obtain v8 c8 where 8: "keyboard_plugin (pf_hw pf) v6 c7 = Some (Inr (v8, c8))" "wired v8 c8"
    "inner v8 = (inner v6)[0x21 := Some KeyboardISR]" "\<forall>j. enabled c8 j \<longleftrightarrow> j = irq.Keyboard \<or> enabled c7 j" "\<not> is_int_enabled c8"
    using keyboard_plugin_wires [OF w7 masks] 6(5) keeps_int [OF 7(2)] by auto
  define st8 where "st8 = st6\<lparr>ks_vectors := v8, ks_cpu := c8\<rparr>"
  have p8: "plug (keyboard_plugin (pf_hw pf)) (st6\<lparr>ks_cpu := c7\<rparr>) = Some (Inr st8)" using 8(1) by (simp add: plug_def st8_def st6_def)
  have r8: "lines_ready st8"
    using 8(2-4) 6(3,4) keeps_enabled [OF 7(2)] by (simp add: lines_ready_def st8_def vs_def IDT_SIZE_def)
  have "can_log pf st8" using st(1) by (simp add: st8_def st6_def st4_def st3_def st2_def)
  from boot_log_ok [OF this] obtain c9 where 9: "info_log pf 133 ''Initializing RTL8139'' st8 = Some (Inr (st8\<lparr>ks_cpu := c9\<rparr>))"
    "keeps_masks (ks_cpu st8) c9" "dwords c9 = dwords (ks_cpu st8)" by blast
  have dw: "dwords c9 = dwords (ks_cpu st)"
    using 1(3) 3(3) 4(3) 5(3) pit_plugin_dwords [OF 6(1)] 7(3) keyboard_plugin_dwords [OF 8(1)] 9(3)
    by (simp add: st2_def st3_def st4_def st8_def pic_init_dwords)
  have cfg: "cfg upd cfg0 (ks_cpu (st8\<lparr>ks_cpu := c9\<rparr>)) = m" using cfg_dwords [OF dw, of upd cfg0] hw(2) by simp
  have "lines_ready (st8\<lparr>ks_cpu := c9\<rparr>)" using r8 lines_ready_keep [OF 9(2)] by simp
  moreover have "ks_nic (st8\<lparr>ks_cpu := c9\<rparr>) = None" using st(3) by (simp add: st8_def st6_def st4_def st3_def st2_def)
  moreover have "\<not> is_int_enabled (ks_cpu (st8\<lparr>ks_cpu := c9\<rparr>))" using 8(5) keeps_int [OF 9(2)] by (simp add: st8_def)
  ultimately obtain nic v10 c10 where 10: "plug_nic pf (st8\<lparr>ks_cpu := c9\<rparr>) = Some (Inr (st8\<lparr>ks_nic := nic, ks_vectors := v10, ks_cpu := c10\<rparr>))"
    "lines_ready (st8\<lparr>ks_nic := nic, ks_vectors := v10, ks_cpu := c10\<rparr>)" "\<not> is_int_enabled c10"
    "nic_result m (fst (pf_dma pf)) (snd (pf_dma pf)) nic"
    using plug_nic_ready [OF hw(1) cfg] by auto
  define st10 where "st10 = st8\<lparr>ks_nic := nic, ks_vectors := v10, ks_cpu := c10\<rparr>"
  have "can_log pf st10" using st(1) by (simp add: st10_def st8_def st6_def st4_def st3_def st2_def)
  from boot_log_ok [OF this] obtain c11 where 11: "info_log pf 136 ''Enabling interrupts'' st10 = Some (Inr (st10\<lparr>ks_cpu := c11\<rparr>))"
    "keeps_masks (ks_cpu st10) c11" by blast
  have run: "boot_devices pf st = Some (Inr (st10\<lparr>ks_cpu := c11\<rparr>))"
    using 1(1) 2 3(1) 4(1) 5(1) p6 7(1) p8 9(1) 10(1) 11(1)
    by (simp add: boot_devices_def st3_def [symmetric] st4_def [symmetric] st10_def [symmetric])
  have eq: "st10\<lparr>ks_cpu := c11\<rparr> = st\<lparr>ks_vectors := v10, ks_idtr := Some (load (pf_idt pf)), ks_nic := nic, ks_cpu := c11\<rparr>"
    by (simp add: st10_def st8_def st6_def st4_def st3_def st2_def)
  have "lines_ready (st10\<lparr>ks_cpu := c11\<rparr>)" using 10(2) lines_ready_keep [OF 11(2)] by (simp add: st10_def)
  moreover have "\<not> is_int_enabled c11" using 10(3) keeps_int [OF 11(2)] by (simp add: st10_def)
  ultimately show ?thesis using run 10(4) unfolding eq by blast
qed

subsection \<open>The whole boot\<close>

lemma demo_menu_starts:
  "\<exists>s. demo_menu idle menu_thread = Started idle s \<and> \<not> is_locked s \<and> ss_active (inner s) = Some idle
     \<and> elems (ss_ready (inner s)) = [menu_thread] \<and> ss_initialized (inner s)"
  by (simp add: demo_menu_def ready_def schedule_def scheduler_new_def unlock_scheduler_def lock_eq spinlock_defs Let_def)

text \<open>
  C3. The kernel boots. On a machine whose serial port accepts bytes, whose interrupt masks read back
  what was written and whose PCI configuration space is such that bridges lead to higher buses and a
  network card, if there is one, is of the kind the kernel supports and ends its reset, with a boot loader
  that supplies framebuffer, EFI and ramdisk tags, \<open>main\<close> runs to \<open>demo_menu\<close> without a panic
  and without waiting for ever. There the terminal is free and shows an empty screen on the
  framebuffer of the boot loader, the heap is well formed as it was initialised, the file system holds the entries of the
  ramdisk, the page tables are those of \<open>setup_initial_paging\<close>, timer and keyboard have their
  routines, every open interrupt line has one, and on a machine with a single host controller the driver of
  the network card runs exactly when the bus has such a card, at the ports of the card. Interrupts
  are off after the memory half and after the device half of the boot and on when \<open>demo_menu\<close> is
  called, which creates the scheduler and starts the idle thread with the menu thread waiting.
\<close>

theorem kernel_boots:
  assumes b: "bootable pf v b" and hw: "machine_ok (pf_hw pf) upd cfg0 m" "cfg upd cfg0 c = m"
  shows "\<exists>st1 st s t a. boot_memory pf (kernel_image c v tables) = Some (Inr st1)
    \<and> (\<exists>st2. boot_devices pf st1 = Some (Inr st2) \<and> \<not> is_int_enabled (ks_cpu st1) \<and> \<not> is_int_enabled (ks_cpu st2)
         \<and> st = st2\<lparr>ks_cpu := enable_int (ks_cpu st2)\<rparr>)
    \<and> main pf idle menu_thread (kernel_image c v tables) = Some (Inr (Started idle s, st)) \<and> is_int_enabled (ks_cpu st)
    \<and> lines_ready st \<and> ks_idtr st = Some (load (pf_idt pf)) \<and> nic_result m (fst (pf_dma pf)) (snd (pf_dma pf)) (ks_nic st)
    \<and> once_get (ks_terminal st) = Inr (Some t) \<and> \<not> is_locked t \<and> shows_screen (inner t) (ks_vram st) blank_screen
    \<and> inner (t_framebuffer (inner t)) = bi_fb b
    \<and> ks_heap st = spinlock_new a \<and> heap_ok a \<and> filesystem (ks_fs st) = Inr (tarfs_new (bi_archive b))
    \<and> ks_tables st = setup_initial_page_map 4 (read_cr3 (pf_cr3 pf)) tables
    \<and> \<not> is_locked s \<and> elems (ss_ready (inner s)) = [menu_thread] \<and> ss_initialized (inner s)"
proof -
  obtain st1 t a where m: "boot_memory pf (kernel_image c v tables) = Some (Inr st1)"
    "can_log pf st1" "\<not> is_int_enabled (ks_cpu st1)" "ks_vectors st1 = spinlock_new int_vectors_new" "ks_nic st1 = None"
    "once_get (ks_terminal st1) = Inr (Some t)" "\<not> is_locked t" "shows_screen (inner t) (ks_vram st1) blank_screen"
    "inner (t_framebuffer (inner t)) = bi_fb b" "ks_heap st1 = spinlock_new a" "heap_ok a"
    "filesystem (ks_fs st1) = Inr (tarfs_new (bi_archive b))" "ks_tables st1 = setup_initial_page_map 4 (read_cr3 (pf_cr3 pf)) tables"
    "dwords (ks_cpu st1) = dwords c"
    using boot_memory_ok [OF b] hw(1) unfolding machine_ok_def by blast
  have cfg: "cfg upd cfg0 (ks_cpu st1) = m" using cfg_dwords [OF m(14)] hw(2) by simp
  obtain vs c2 nic where d: "boot_devices pf st1 = Some (Inr (st1\<lparr>ks_vectors := vs, ks_idtr := Some (load (pf_idt pf)), ks_nic := nic, ks_cpu := c2\<rparr>))"
    "lines_ready (st1\<lparr>ks_vectors := vs, ks_idtr := Some (load (pf_idt pf)), ks_nic := nic, ks_cpu := c2\<rparr>)" "\<not> is_int_enabled c2"
    "nic_result m (fst (pf_dma pf)) (snd (pf_dma pf)) nic"
    using boot_devices_ok [OF hw(1) cfg m(2,4,5,3)] by blast
  define st2 where "st2 = st1\<lparr>ks_vectors := vs, ks_idtr := Some (load (pf_idt pf)), ks_nic := nic, ks_cpu := c2\<rparr>"
  define st where "st = st2\<lparr>ks_cpu := enable_int (ks_cpu st2)\<rparr>"
  obtain s where s: "demo_menu idle menu_thread = Started idle s" "\<not> is_locked s" "elems (ss_ready (inner s)) = [menu_thread]"
    "ss_initialized (inner s)" using demo_menu_starts by blast
  have run: "main pf idle menu_thread (kernel_image c v tables) = Some (Inr (Started idle s, st))"
    using m(1) d(1) s(1) by (simp add: main_def st_def st2_def)
  have "enabled (enable_int c2) = enabled c2" by (simp add: fun_eq_iff enabled_def enable_int_def)
  then have "lines_ready st" using d(2) by (simp add: lines_ready_def st_def st2_def wired_def)
  then show ?thesis
    using m(1-13) d(1,3,4) run s(2-4)
    by (intro exI [of _ st1] exI [of _ st] exI [of _ s] exI [of _ t] exI [of _ a]) (simp add: st_def st2_def)
qed

text \<open>A machine that boots: a small screen, an empty ramdisk, one network card.\<close>

definition demo_tags :: "(u32 \<times> u8 list) list" where
  "demo_tags = [(8, [0, 0, 0, 0xfd, 0, 0, 0, 0, 64, 0, 0, 0, 16, 0, 0, 0, 32, 0, 0, 0, 32, 1]),
     (18, []), (20, [0, 0x10, 0, 0, 0, 0, 0, 0]), (12, [0, 0x20, 0, 0, 0, 0, 0, 0]), (3, [0, 0, 0x40, 0, 4, 0, 0x40, 0, 0])]"

lemma demo_tags_found:
  "\<exists>off. find_tag (encode_info demo_tags) 0x10000 FramebufferInfo = Inr (Some off) \<and> tag_at (encode_info demo_tags) off (demo_tags ! 0)"
  "\<exists>off. find_tag (encode_info demo_tags) 0x10000 EfiBootServicesNotTerminated = Inr (Some off) \<and> tag_at (encode_info demo_tags) off (demo_tags ! 1)"
  "\<exists>off. find_tag (encode_info demo_tags) 0x10000 Efi64BitImageHandlePointer = Inr (Some off) \<and> tag_at (encode_info demo_tags) off (demo_tags ! 2)"
  "\<exists>off. find_tag (encode_info demo_tags) 0x10000 Efi64BitSystemTablePointer = Inr (Some off) \<and> tag_at (encode_info demo_tags) off (demo_tags ! 3)"
  "\<exists>off. find_tag (encode_info demo_tags) 0x10000 Module = Inr (Some off) \<and> tag_at (encode_info demo_tags) off (demo_tags ! 4)"
proof -
  have l: "length (encode_info demo_tags) < 2 ^ 32" "0x10000 + length (encode_info demo_tags) < 2 ^ 64"
    by (simp_all add: encode_info_def demo_tags_def encode_tag_def tag_padding_def)
  note f = find_tag_encoded [OF l]
  show "\<exists>off. find_tag (encode_info demo_tags) 0x10000 FramebufferInfo = Inr (Some off) \<and> tag_at (encode_info demo_tags) off (demo_tags ! 0)"
  "\<exists>off. find_tag (encode_info demo_tags) 0x10000 EfiBootServicesNotTerminated = Inr (Some off) \<and> tag_at (encode_info demo_tags) off (demo_tags ! 1)"
  "\<exists>off. find_tag (encode_info demo_tags) 0x10000 Efi64BitImageHandlePointer = Inr (Some off) \<and> tag_at (encode_info demo_tags) off (demo_tags ! 2)"
  "\<exists>off. find_tag (encode_info demo_tags) 0x10000 Efi64BitSystemTablePointer = Inr (Some off) \<and> tag_at (encode_info demo_tags) off (demo_tags ! 3)"
  "\<exists>off. find_tag (encode_info demo_tags) 0x10000 Module = Inr (Some off) \<and> tag_at (encode_info demo_tags) off (demo_tags ! 4)"
    using f [of FramebufferInfo] f [of EfiBootServicesNotTerminated] f [of Efi64BitImageHandlePointer]
      f [of Efi64BitSystemTablePointer] f [of Module]
    by (simp_all add: demo_tags_def)
qed

lemma demo_fields:
  "boot_framebuffer MULTIBOOT2_MAGIC (encode_info demo_tags) 0x10000
     = Inr \<lparr>fb_width = 16, fb_height = 32, fb_pitch = 64, fb_address = 0xfd000000\<rparr>"
proof -
  obtain off where o: "find_tag (encode_info demo_tags) 0x10000 FramebufferInfo = Inr (Some off)"
    "tag_at (encode_info demo_tags) off (8, [0, 0, 0, 0xfd, 0, 0, 0, 0, 64, 0, 0, 0, 16, 0, 0, 0, 32, 0, 0, 0, 32, 1])"
    using demo_tags_found(1) by (auto simp: demo_tags_def)
  note n = tag_nth [OF o(2)] and l4 = tag_le32 [OF o(2)] and l8 = tag_le64 [OF o(2)]
  have v: "le64 [0, 0, 0, 0xfd, 0, 0, 0, 0, 64, 0, 0, 0, 16, 0, 0, 0, 32, 0, 0, 0, 32, 1] 0 = 0xfd000000"
    "le32 [0, 0, 0, 0xfd, 0, 0, 0, 0, 64, 0, 0, 0, 16, 0, 0, 0, 32, 0, 0, 0, 32, 1] 8 = 64"
    "le32 [0, 0, 0, 0xfd, 0, 0, 0, 0, 64, 0, 0, 0, 16, 0, 0, 0, 32, 0, 0, 0, 32, 1] 12 = 16"
    "le32 [0, 0, 0, 0xfd, 0, 0, 0, 0, 64, 0, 0, 0, 16, 0, 0, 0, 32, 0, 0, 0, 32, 1] 16 = 32"
    by (simp_all add: le64_def le32_def)
  have "off + 30 \<le> length (encode_info demo_tags)" using o(2) by (simp add: tag_at_def)
  moreover have "encode_info demo_tags ! (off + 28) = 32" "encode_info demo_tags ! (off + 29) = 1"
    using n [of 20] n [of 21] by (simp_all add: add.commute)
  moreover have "le64 (encode_info demo_tags) (off + 8) = 0xfd000000" "le32 (encode_info demo_tags) (off + 16) = 64"
    "le32 (encode_info demo_tags) (off + 20) = 16" "le32 (encode_info demo_tags) (off + 24) = 32"
    using l8 [of 0] l4 [of 8] l4 [of 12] l4 [of 16] v by (simp_all add: add.commute)
  ultimately show ?thesis using o(1)
    by (simp add: boot_framebuffer_def read_framebuffer_info_def framebuffer_type_of_def from_multiboot_def)
qed
lemma tag_pointer:
  assumes "tag_at info off (kind, p)" "length p = 8"
  shows "efi_tag_pointer info off = Inr (le64 p 0)"
  using tag_le64 [OF assms(1), of 0] assms by (simp add: efi_tag_pointer_def tag_at_def)

lemma demo_pointers:
  "\<exists>off. find_tag (encode_info demo_tags) 0x10000 Efi64BitImageHandlePointer = Inr (Some off)
     \<and> efi_tag_pointer (encode_info demo_tags) off = Inr 0x1000"
  "\<exists>off. find_tag (encode_info demo_tags) 0x10000 Efi64BitSystemTablePointer = Inr (Some off)
     \<and> efi_tag_pointer (encode_info demo_tags) off = Inr 0x2000"
proof -
  have t: "demo_tags ! 2 = (20, [0, 0x10, 0, 0, 0, 0, 0, 0])" "demo_tags ! 3 = (12, [0, 0x20, 0, 0, 0, 0, 0, 0])"
    by (simp_all add: demo_tags_def)
  have v: "le64 [0, 0x10, 0, 0, 0, 0, 0, 0] 0 = 0x1000" "le64 [0, 0x20, 0, 0, 0, 0, 0, 0] 0 = 0x2000"
    by (simp_all add: le64_def le32_def)
  show "\<exists>off. find_tag (encode_info demo_tags) 0x10000 Efi64BitImageHandlePointer = Inr (Some off)
     \<and> efi_tag_pointer (encode_info demo_tags) off = Inr 0x1000"
    using demo_tags_found(3) tag_pointer v(1) unfolding t by fastforce
  show "\<exists>off. find_tag (encode_info demo_tags) 0x10000 Efi64BitSystemTablePointer = Inr (Some off)
     \<and> efi_tag_pointer (encode_info demo_tags) off = Inr 0x2000"
    using demo_tags_found(4) tag_pointer v(2) unfolding t by fastforce
qed

text \<open>The card is device 3 on bus 0, with its registers at \<open>0xc000\<close> and interrupt line 11.\<close>

definition boot_card :: "u32 \<Rightarrow> u32" where
  "boot_card a = (if a = calc_config_address 0 3 0 0 then 0x813910ec
     else if a = calc_config_address 0 3 0 0x0b then 0x02000000
     else if a = calc_config_address 0 3 0 0x0e \<or> a = calc_config_address 0 0 0 0x0e then 0
     else if a = calc_config_address 0 3 0 0x10 then 0xc001
     else if a = calc_config_address 0 3 0 0x3c then 11 else 0xffffffff)"

definition card_device :: pci_device where
  "card_device = \<lparr>pd_bus = 0, pd_device = 3, pd_function = 0\<rparr>"

definition demo_hw :: hw where
  "demo_hw tr p = (if p = 0x3fd then 0x20 else if p = CONFIG_DATA_PORT then cfg_mem command_status boot_card tr (latched tr)
     else if p = 0xc037 then 0 else mask_hw tr p)"

definition demo_platform :: platform where
  "demo_platform = \<lparr>pf_hw = demo_hw, pf_fmt_time = (\<lambda>_. [48]), pf_file = ''src/boot.rs'', pf_list_file = ''src/allocator/list.rs'', pf_set_logger = True,
     pf_magic = MULTIBOOT2_MAGIC, pf_info = encode_info demo_tags, pf_base = 0x10000, pf_handle_from_ptr = (\<lambda>p. p \<noteq> 0),
     pf_cr3 = 0x1000, pf_kernel_end = 0x1901234, pf_ram = (\<lambda>_. 0), pf_untar = (\<lambda>_. Some []), pf_idt = 0x300000, pf_dma = (0x100000, 0x110000)\<rparr>"

lemma demo_live: "com_live demo_hw (com_port_new Com1)"
  unfolding com_live_def by (intro allI exI [of _ 0]) (simp add: demo_hw_def com_port_new_def inb_def Let_def READY_TO_WRITE_def)

lemma demo_masks: "masks_readable demo_hw"
  using mask_hw_readable by (simp add: masks_readable_def demo_hw_def Data1_def Data2_def CONFIG_DATA_PORT_def)

lemma card_values: "boot_card a \<in> {0x813910ec, 0x02000000, 0, 0xc001, 11, 0xffffffff}"
  by (simp add: boot_card_def)

lemma card_no_bridge: "\<not> is_bridge boot_card b d f"
proof -
  have "shift8 R_Class = 24" by (simp add: shift8_def R_Class_def)
  moreover have "ucast (drop_bit 24 x AND 0xff) \<noteq> Class_Bridge"
    if "x \<in> {0x813910ec, 0x02000000, 0, 0xc001, 11, 0xffffffff :: u32}" for x
    using that by (auto simp: Class_Bridge_def)
  ultimately show ?thesis using card_values by (simp add: is_bridge_def reg8_def)
qed

lemma card_only:
  assumes "device_on boot_card b dev" "is_nic boot_card dev"
  shows "dev = card_device"
proof -
  obtain d f where df: "d < 32" "f \<in> set (present_functions boot_card b (of_nat d))"
    "dev = \<lparr>pd_bus = b, pd_device = of_nat d, pd_function = of_nat f\<rparr>" using assms(1) by (auto simp: device_on_def)
  have "f < 8" using df(2) by (auto simp: present_functions_def split: if_splits)
  then have lim: "pd_device dev < 32" "pd_function dev < 8" using df(1,3) by (simp_all add: word_less_nat_alt unat_of_nat)
  let ?a = "calc_config_address (pd_bus dev) (pd_device dev) (pd_function dev) R_VendorId"
  have "shift16 R_VendorId = 0" by (simp add: shift16_def R_VendorId_def)
  then have v: "(ucast (boot_card ?a AND 0xffff) :: u16) = 0x10ec" using assms(2) by (simp add: is_nic_def reg16_def)
  have "x = 0x813910ec" if "x \<in> {0x813910ec, 0x02000000, 0, 0xc001, 11, 0xffffffff :: u32}" "(ucast (x AND 0xffff) :: u16) = 0x10ec" for x
    using that by auto
  from this [OF card_values v] have "?a = calc_config_address 0 3 0 0" by (simp add: boot_card_def split: if_splits)
  then show ?thesis using address_inj [OF lim, of 3 0 "pd_bus dev" R_VendorId 0 0] by (simp add: card_device_def)
qed

lemma card_registers: "nic_bar boot_card card_device = 0xc001" "nic_line boot_card card_device = 11"
  "is_nic boot_card card_device" "reg8 boot_card 0 0 0 R_HeaderType AND 0x80 = 0"
  "reg16 boot_card 0 3 0 R_VendorId \<noteq> INVALID_VENDOR_ID"
  by (simp_all add: nic_bar_def nic_line_def is_nic_def reg16_def reg8_def boot_card_def card_device_def shift16_def shift8_def
      calc_config_address_def R_VendorId_def R_DeviceId_def R_BaseAddress0_def R_InterruptLine_def R_HeaderType_def INVALID_VENDOR_ID_def)

lemma card_reachable: "reachable_nic boot_card card_device"
proof -
  have "device_on boot_card 0 card_device"
    unfolding device_on_def using card_no_bridge card_registers(5)
    by (intro exI [of _ "3 :: nat"] exI [of _ "0 :: nat"]) (simp add: present_functions_def card_device_def)
  then show ?thesis using reaches.here [of boot_card 0] card_registers(3) by (auto simp: reachable_nic_def)
qed

lemma demo_machine: "machine_ok demo_hw command_status boot_card boot_card"
proof -
  have io: "nic_ports boot_card card_device = 0xc000" by (simp add: nic_ports_def card_registers)
  have "reset_ends demo_hw 0xc000"
    unfolding reset_ends_def
    by (intro allI exI [of _ 0]) (simp add: demo_hw_def inb_def Let_def REG_CMD_def CONFIG_DATA_PORT_def)
  then have "nic_supported demo_hw boot_card card_device" by (simp add: nic_supported_def io card_registers)
  then have "nics_supported demo_hw boot_card" using card_only by (auto simp: nics_supported_def)
  moreover have "bridges_ascend boot_card" by (simp add: bridges_ascend_def card_no_bridge)
  moreover have "responds demo_hw command_status boot_card" by (simp add: responds_def demo_hw_def CONFIG_DATA_PORT_def)
  ultimately show ?thesis using demo_live demo_masks by (simp add: machine_ok_def)
qed

lemma demo_bootable:
  "bootable demo_platform small_vram \<lparr>bi_fb = small_fb, bi_handle = 0x1000, bi_table = 0x2000, bi_archive = []\<rparr>"
proof -
  obtain off where o: "find_tag (encode_info demo_tags) 0x10000 Module = Inr (Some off)"
    "tag_at (encode_info demo_tags) off (3, [0, 0, 0x40, 0, 4, 0, 0x40, 0, 0])"
    using demo_tags_found(5) by (auto simp: demo_tags_def)
  have "le32 [0, 0, 0x40, 0, 4, 0, 0x40, 0, 0] 0 = 0x400000" "le32 [0, 0, 0x40, 0, 4, 0, 0x40, 0, 0] 4 = 0x400004"
    by (simp_all add: le32_def)
  then have "le32 (encode_info demo_tags) (off + 8) = 0x400000" "le32 (encode_info demo_tags) (off + 12) = 0x400004"
    using tag_le32 [OF o(2), of 0] tag_le32 [OF o(2), of 4] by (simp_all add: add.commute)
  then have "module_as_slice (encode_info demo_tags) off = Inr (0x400000, 4)"
    by (simp add: module_as_slice_def module_size_def module_start_def usub_def)
  then have "boot_initrd demo_platform = Inr []"
    using o(1) by (simp add: boot_initrd_def demo_platform_def)
  then show ?thesis
    using demo_fields demo_pointers demo_tags_found(2)
    by (auto simp: bootable_def demo_platform_def small_fb_def small_vram_def fb_ok_def CHAR_WIDTH_def CHAR_HEIGHT_def)
qed

theorem kernel_boots_witness:
  "\<exists>s st. main demo_platform (demo_thread 0) (demo_thread 1) (kernel_image quiet_cpu small_vram demo_tables) = Some (Inr (Started (demo_thread 0) s, st))
    \<and> is_int_enabled (ks_cpu st) \<and> lines_ready st \<and> elems (ss_ready (inner s)) = [demo_thread 1]
    \<and> ks_nic st = Some (rtl8139_new 0x100000 0x110000 0xc000)"
proof -
  have hw: "machine_ok (pf_hw demo_platform) command_status boot_card boot_card" using demo_machine by (simp add: demo_platform_def)
  have cfg: "cfg command_status boot_card quiet_cpu = boot_card" by (simp add: quiet_cpu_def)
  have only: "dev = card_device" if "reachable_nic boot_card dev" for dev
    using that card_only by (auto simp: reachable_nic_def)
  have io: "nic_ports boot_card card_device = 0xc000" by (simp add: nic_ports_def card_registers)
  have nic: "nic = Some (rtl8139_new 0x100000 0x110000 0xc000)" if r: "nic_result boot_card 0x100000 0x110000 nic" for nic
  proof -
    have "nic \<noteq> None" using r card_reachable card_registers(4) unfolding nic_result_def by blast
    then obtain d where d: "nic = Some d" by blast
    then obtain dev where "reachable_nic boot_card dev" "d = rtl8139_new 0x100000 0x110000 (nic_ports boot_card dev)"
      using r card_registers(4) by (auto simp: nic_result_def)
    then show ?thesis using d only [of dev] io by simp
  qed
  have dma: "fst (pf_dma demo_platform) = 0x100000" "snd (pf_dma demo_platform) = 0x110000" by (simp_all add: demo_platform_def)
  show ?thesis
    using kernel_boots [OF demo_bootable hw cfg, of demo_tables "demo_thread 0" "demo_thread 1"] nic unfolding dma by blast
qed

end
