(* ===== verification/Key_Queue.thy ===== *)
theory Key_Queue
  imports Key
begin

text \<open>
  The key event queue of \<^verbatim>\<open>kernel/src/device/key.rs\<close>, which carries key events from the keyboard
  interrupt to the threads, and \<^verbatim>\<open>kernel/src/library/input.rs\<close> on top of it. The queue wraps the
  bounded lock-free queue of the crate \<open>nolock\<close>: its operations are the argument \<open>ops\<close>, and
  \<open>scq_contract\<close> states what the crate documents of them.
\<close>

subsection \<open>The queue\<close>

record 'q scq_ops =
  scq_is_closed :: "'q \<Rightarrow> bool"
  scq_try_enqueue :: "key_event \<Rightarrow> 'q \<Rightarrow> bool \<times> 'q"
  scq_try_dequeue :: "'q \<Rightarrow> key_event option \<times> 'q"

definition KEY_QUEUE_SIZE :: nat where
  "KEY_QUEUE_SIZE = 128"

definition key_event_queue_new :: "(nat \<Rightarrow> 'q) \<Rightarrow> 'q" where
  "key_event_queue_new queue = queue KEY_QUEUE_SIZE"

definition push_key_event :: "'q scq_ops \<Rightarrow> key_event \<Rightarrow> 'q \<Rightarrow> 'q res" where
  "push_key_event ops key q =
     (if scq_is_closed ops q then Inl (PanicMsg ''KeyQueue is closed!'')
      else Inr (snd (scq_try_enqueue ops key q)))"

definition pop_key_event :: "'q scq_ops \<Rightarrow> 'q \<Rightarrow> (key_event option \<times> 'q) res" where
  "pop_key_event ops q =
     (if scq_is_closed ops q then Inl (PanicMsg ''KeyQueue is closed!'')
      else Inr (scq_try_dequeue ops q))"

text \<open>
  A queue of the crate holds a list of at most \<open>cap\<close> events: enqueueing appends or, on a full queue, fails
  and changes nothing; dequeueing takes the oldest. It stays open as long as both ends exist.
\<close>

definition scq_contract :: "'q scq_ops \<Rightarrow> ('q \<Rightarrow> key_event list) \<Rightarrow> nat \<Rightarrow> bool" where
  "scq_contract ops held cap \<longleftrightarrow>
     (\<forall>q. \<not> scq_is_closed ops q)
   \<and> (\<forall>q k. length (held q) < cap \<longrightarrow> held (snd (scq_try_enqueue ops k q)) = held q @ [k])
   \<and> (\<forall>q k. cap \<le> length (held q) \<longrightarrow> held (snd (scq_try_enqueue ops k q)) = held q)
   \<and> (\<forall>q. held q = [] \<longrightarrow> fst (scq_try_dequeue ops q) = None \<and> held (snd (scq_try_dequeue ops q)) = [])
   \<and> (\<forall>q k ks. held q = k # ks \<longrightarrow> fst (scq_try_dequeue ops q) = Some k \<and> held (snd (scq_try_dequeue ops q)) = ks)"

subsection \<open>Text input\<close>

definition read_char :: "(nat \<Rightarrow> key_event option) \<Rightarrow> nat \<Rightarrow> (u32 \<times> nat) option" where
  "read_char evs n = poll_char evs n"

partial_function (option) wait_for_return :: "(nat \<Rightarrow> key_event option) \<Rightarrow> nat \<Rightarrow> nat option" where
  "wait_for_return evs n =
     (case read_char evs n of
        None \<Rightarrow> None
      | Some (c, n') \<Rightarrow> if c \<noteq> 13 then wait_for_return evs n' else Some n')"

subsection \<open>The contract in use\<close>

lemma scq_contractD:
  assumes "scq_contract ops held cap"
  shows "\<not> scq_is_closed ops q"
    and "held (snd (scq_try_enqueue ops k q)) = (if length (held q) < cap then held q @ [k] else held q)"
    and "held q = [] \<Longrightarrow> scq_try_dequeue ops q = (r, q1) \<Longrightarrow> r = None \<and> held q1 = []"
    and "held q = k # ks \<Longrightarrow> scq_try_dequeue ops q = (r, q1) \<Longrightarrow> r = Some k \<and> held q1 = ks"
  using assms unfolding scq_contract_def by (simp, simp, (metis fst_conv snd_conv)+)

text \<open>An instance of the contract: the list itself.\<close>

definition list_scq :: "key_event list scq_ops" where
  "list_scq = \<lparr>scq_is_closed = (\<lambda>_. False),
     scq_try_enqueue = (\<lambda>k q. if length q < 128 then (True, q @ [k]) else (False, q)),
     scq_try_dequeue = (\<lambda>q. case q of [] \<Rightarrow> (None, []) | k # ks \<Rightarrow> (Some k, ks))\<rparr>"

lemma list_scq_contract: "scq_contract list_scq (\<lambda>q. q) KEY_QUEUE_SIZE"
  by (simp add: scq_contract_def list_scq_def KEY_QUEUE_SIZE_def)

subsection \<open>Waiting for the return key\<close>

text \<open>
  Once the return key is pressed, \<open>wait_for_return\<close> returns, and it has consumed the events up to the
  first press of that key and none after it.
\<close>

theorem wait_for_return_first:
  assumes "n \<le> i" "types_char evs i 13" "\<And>j. n \<le> j \<Longrightarrow> j < i \<Longrightarrow> \<not> types_char evs j 13"
  shows "wait_for_return evs n = Some (Suc i)"
  using assms
proof (induction "i - n" arbitrary: n rule: less_induct)
  case less
  obtain i' c' where p: "n \<le> i'" "i' \<le> i" "types_char evs i' c'" "poll_char evs n = Some (c', Suc i')"
    using poll_char_next [OF less.prems(1,2)] by blast
  show ?case
  proof (cases "c' = 13")
    case True
    then have "i' = i" using p less.prems(3) [of i'] by (cases "i' < i") auto
    then show ?thesis using p(4) True by (subst wait_for_return.simps) (simp add: read_char_def)
  next
    case False
    then have "i' \<noteq> i" using p(3) less.prems(2) by (auto simp: types_char_def split: option.splits)
    then have "wait_for_return evs (Suc i') = Some (Suc i)" using p(1,2) less.prems by (intro less.hyps) auto
    then show ?thesis using p(4) False by (subst wait_for_return.simps) (simp add: read_char_def)
  qed
qed

end
