(* ===== verification/Peanut_Gb.thy ===== *)
theory Peanut_Gb
  imports Logger Terminal Pit Key_Queue Tarfs
begin

text \<open>
  \<^verbatim>\<open>kernel/src/demo/lesson6/peanut_gb.rs\<close>: the front end of the Peanut-GB emulator. It loads a ROM from the file
  system, scales the lines of the Game Boy screen onto the framebuffer, maps keys to the joypad and keeps the frame
  rate. The emulator itself, \<^verbatim>\<open>peanut-gb.c\<close> and \<^verbatim>\<open>peanut-gb.h\<close> beside it, is third-party C code and is not translated:
  it is the record \<open>emulator\<close> of functions over a state \<open>'g\<close>. A frame is
  given by the calls it makes to the front end, in order, and by the new state; it may depend on the
  ROM and the save RAM through the functions it is given, and ends with the panic of a ROM read that fails. The readings of the clock and the answers of
  \<open>pop_key_event\<close> are numbered, as in Pit and Key.
\<close>

subsection \<open>Buttons and error codes\<close>

datatype joypad_button = Joy_A | Joy_B | Joy_Select | Joy_Start | Joy_Right | Joy_Left | Joy_Up | Joy_Down

fun joypad_mask :: "joypad_button \<Rightarrow> u8" where
  "joypad_mask Joy_A = 0x01" | "joypad_mask Joy_B = 0x02" | "joypad_mask Joy_Select = 0x04" | "joypad_mask Joy_Start = 0x08"
| "joypad_mask Joy_Right = 0x10" | "joypad_mask Joy_Left = 0x20" | "joypad_mask Joy_Up = 0x40" | "joypad_mask Joy_Down = 0x80"

datatype gb_error_kind = Gb_UnknownError | Gb_InvalidOpcode | Gb_InvalidRead | Gb_InvalidWrite

definition gb_error_try_from :: "u32 \<Rightarrow> gb_error_kind option" where
  "gb_error_try_from v = (if v = 0 then Some Gb_UnknownError else if v = 1 then Some Gb_InvalidOpcode
     else if v = 2 then Some Gb_InvalidRead else if v = 3 then Some Gb_InvalidWrite else None)"

fun gb_error_debug :: "gb_error_kind \<Rightarrow> string" where
  "gb_error_debug Gb_UnknownError = ''UnknownError''" | "gb_error_debug Gb_InvalidOpcode = ''InvalidOpcode''"
| "gb_error_debug Gb_InvalidRead = ''InvalidRead''" | "gb_error_debug Gb_InvalidWrite = ''InvalidWrite''"

datatype gb_init_error = Init_NoError | Init_CartridgeUnsupported | Init_InvalidChecksum | Init_UnknownError

fun gb_init_error_number :: "gb_init_error \<Rightarrow> u32" where
  "gb_init_error_number Init_NoError = 0" | "gb_init_error_number Init_CartridgeUnsupported = 1"
| "gb_init_error_number Init_InvalidChecksum = 2" | "gb_init_error_number Init_UnknownError = 0xff"

definition gb_init_error_try_from :: "u32 \<Rightarrow> gb_init_error option" where
  "gb_init_error_try_from v = (if v = 0 then Some Init_NoError else if v = 1 then Some Init_CartridgeUnsupported
     else if v = 2 then Some Init_InvalidChecksum else if v = 3 then Some Init_UnknownError else None)"

definition TARGET_FRAME_RATE :: usize where "TARGET_FRAME_RATE = 60"
definition MS_PER_FRAME :: usize where "MS_PER_FRAME = 1000 div TARGET_FRAME_RATE"
definition GB_SCREEN_RES :: "nat \<times> nat" where "GB_SCREEN_RES = (160, 144)"
definition X_OFFSET :: nat where "X_OFFSET = 192"
definition Y_OFFSET :: nat where "Y_OFFSET = 96"
definition SCALE :: nat where "SCALE = 3"
definition PALETTE :: "u32 list" where "PALETTE = [0xe0f8d0, 0x88c070, 0x346856, 0x081820]"

subsection \<open>The emulator and the world of the front end\<close>

datatype gb_call = Lcd_Line "u8 list" u8 | Gb_Error u32 u16 | Cart_Ram_Write u32 u8

record 'g emulator =
  em_init :: "(u32 \<Rightarrow> u8 res) \<Rightarrow> (u32 \<Rightarrow> u8) \<Rightarrow> (u32 \<times> gb_call list \<times> 'g) res"
  em_init_lcd :: "'g \<Rightarrow> 'g"
  em_run_frame :: "(u32 \<Rightarrow> u8 res) \<Rightarrow> (u32 \<Rightarrow> u8) \<Rightarrow> 'g \<Rightarrow> (gb_call list \<times> 'g) res"
  em_joypad :: "'g \<Rightarrow> u8"
  em_set_joypad :: "u8 \<Rightarrow> 'g \<Rightarrow> 'g"

record gb_env =
  ge_hw :: hw
  ge_fmt_time :: "usize \<Rightarrow> u8 list"
  ge_file :: string
  ge_clock :: "nat \<Rightarrow> usize"
  ge_glyph :: "u32 \<Rightarrow> u8 list option"

record gb_world =
  gw_terminal :: "terminal spinlock once"
  gw_vram :: vram
  gw_com1 :: "com_port spinlock"
  gw_cpu :: cpu
  gw_reads :: nat

subsection \<open>Callbacks\<close>

definition gb_rom_read :: "u8 list once \<Rightarrow> u32 \<Rightarrow> u8 res" where
  "gb_rom_read rom addr = and_then (once_get rom) (\<lambda>r. and_then (unwrap r) (\<lambda>bytes. get_index bytes (unat addr)))"

definition gb_cart_ram_read :: "u32 \<Rightarrow> u8" where
  "gb_cart_ram_read addr = 0"

definition gb_cart_ram_write :: "u32 \<Rightarrow> u8 \<Rightarrow> gb_world \<Rightarrow> gb_world" where
  "gb_cart_ram_write addr val w = w"

text \<open>The three loops of \<open>lcd_draw_line\<close>, from the inside out.\<close>

fun lcd_column :: "framebuffer \<Rightarrow> nat \<Rightarrow> u8 \<Rightarrow> u32 \<Rightarrow> nat list \<Rightarrow> vram \<Rightarrow> vram res" where
  "lcd_column fb x line colour [] m = Inr m"
| "lcd_column fb x line colour (y_pos # ys) m =
     and_then (nmul (unat line) SCALE) (\<lambda>a.
     and_then (nadd a y_pos) (\<lambda>b.
     and_then (nadd b Y_OFFSET) (\<lambda>y.
     and_then (draw_pixel_unchecked fb x y colour m) (lcd_column fb x line colour ys))))"

fun lcd_block :: "framebuffer \<Rightarrow> nat \<Rightarrow> u8 \<Rightarrow> u32 \<Rightarrow> nat list \<Rightarrow> vram \<Rightarrow> vram res" where
  "lcd_block fb i line colour [] m = Inr m"
| "lcd_block fb i line colour (x_pos # xs) m =
     and_then (nmul i SCALE) (\<lambda>a.
     and_then (nadd a x_pos) (\<lambda>b.
     and_then (nadd b X_OFFSET) (\<lambda>x.
     and_then (lcd_column fb x line colour [0..<SCALE] m) (lcd_block fb i line colour xs))))"

fun lcd_pixels :: "framebuffer \<Rightarrow> u8 \<Rightarrow> nat \<Rightarrow> u8 list \<Rightarrow> vram \<Rightarrow> vram res" where
  "lcd_pixels fb line i [] m = Inr m"
| "lcd_pixels fb line i (p # ps) m =
     and_then (get_index PALETTE (unat (p AND 0x3))) (\<lambda>colour.
     and_then (lcd_block fb i line colour [0..<SCALE] m) (lcd_pixels fb line (Suc i) ps))"

text \<open>The lock of the framebuffer is free again afterwards.\<close>

definition lcd_draw_line :: "u8 list \<Rightarrow> u8 \<Rightarrow> gb_world \<Rightarrow> gb_world res option" where
  "lcd_draw_line pixels line w =
     (case framebuffer_global (gw_terminal w) of
        Inl e \<Rightarrow> Some (Inl e)
      | Inr fb \<Rightarrow>
          (case lock fb of
             None \<Rightarrow> None
           | Some g \<Rightarrow> Some (
               if length pixels < fst GB_SCREEN_RES then Inl MemoryFault
               else and_then (lcd_pixels (guard_deref g) line 0 (take (fst GB_SCREEN_RES) pixels) (gw_vram w)) (\<lambda>m.
                 Inr (w\<lparr>gw_vram := m\<rparr>)))))"

text \<open>The address is printed with at least four hexadecimal digits.\<close>

definition gb_error_text :: "u32 \<Rightarrow> u16 \<Rightarrow> string" where
  "gb_error_text error addr =
     (let kind = (case gb_error_try_from error of Some k \<Rightarrow> k | None \<Rightarrow> Gb_UnknownError); h = hex_digits (unat addr)
      in ''PeanutGB error ['' @ gb_error_debug kind @ ''] at address [0x'' @ replicate (4 - length h) (CHR ''0'') @ h @ '']!'')"

definition gb_error :: "gb_env \<Rightarrow> u32 \<Rightarrow> u16 \<Rightarrow> gb_world \<Rightarrow> gb_world res option" where
  "gb_error ge error addr w =
     run_then (logger_log (ge_hw ge) (ge_fmt_time ge) (ge_clock ge (gw_reads w))
         \<lparr>lr_level = Level_Error, lr_file = Some (ge_file ge), lr_line = Some 205\<rparr> (ascii (gb_error_text error addr))
         (gw_com1 w) (gw_cpu w))
       (\<lambda>(com, c). Some (Inr (w\<lparr>gw_com1 := com, gw_cpu := c, gw_reads := Suc (gw_reads w)\<rparr>)))"

fun gb_call_run :: "gb_env \<Rightarrow> gb_call \<Rightarrow> gb_world \<Rightarrow> gb_world res option" where
  "gb_call_run ge (Lcd_Line pixels line) w = lcd_draw_line pixels line w"
| "gb_call_run ge (Gb_Error error addr) w = gb_error ge error addr w"
| "gb_call_run ge (Cart_Ram_Write addr val) w = Some (Inr (gb_cart_ram_write addr val w))"

fun gb_calls :: "gb_env \<Rightarrow> gb_call list \<Rightarrow> gb_world \<Rightarrow> gb_world res option" where
  "gb_calls ge [] w = Some (Inr w)"
| "gb_calls ge (c # cs) w = run_then (gb_call_run ge c w) (gb_calls ge cs)"

subsection \<open>The joypad\<close>

definition mapped_button :: "scancode \<Rightarrow> joypad_button option" where
  "mapped_button code =
     (if code = Sc_W then Some Joy_Up else if code = Sc_A then Some Joy_Left else if code = Sc_S then Some Joy_Down
      else if code = Sc_D then Some Joy_Right else if code = Sc_Q then Some Joy_Select else if code = Sc_E then Some Joy_Start
      else if code = Sc_Enter then Some Joy_A else if code = Sc_Space then Some Joy_B else None)"

definition update_joypad :: "'g emulator \<Rightarrow> joypad_button \<Rightarrow> bool \<Rightarrow> 'g \<Rightarrow> 'g" where
  "update_joypad em b pressed g =
     em_set_joypad em (if pressed then em_joypad em g AND NOT (joypad_mask b) else em_joypad em g OR joypad_mask b) g"

text \<open>The key events of one frame; the boolean tells that Escape ends the game.\<close>

fun joypad_events :: "'g emulator \<Rightarrow> (nat \<Rightarrow> key_event option) \<Rightarrow> nat \<Rightarrow> nat \<Rightarrow> 'g \<Rightarrow> bool \<times> nat \<times> 'g" where
  "joypad_events em evs 0 n g = (False, n, g)"
| "joypad_events em evs (Suc k) n g =
     (case evs n of
        None \<Rightarrow> (False, Suc n, g)
      | Some key_event \<Rightarrow>
          (case ke_scancode key_event of
             None \<Rightarrow> joypad_events em evs k (Suc n) g
           | Some code \<Rightarrow>
               if code = Sc_Escape then (True, Suc n, g)
               else
                 (case mapped_button code of
                    None \<Rightarrow> joypad_events em evs k (Suc n) g
                  | Some b \<Rightarrow> joypad_events em evs k (Suc n) (update_joypad em b (ke_pressed key_event) g))))"

subsection \<open>Playing\<close>

definition saturating_sub :: "'l::len word \<Rightarrow> 'l word \<Rightarrow> 'l word" where
  "saturating_sub a b = (if b \<le> a then a - b else 0)"

text \<open>One frame of the game loop, up to the key events.\<close>

definition play_frame :: "gb_env \<Rightarrow> 'g emulator \<Rightarrow> u8 list once \<Rightarrow> 'g \<times> gb_world \<Rightarrow> ('g \<times> gb_world) res option" where
  "play_frame ge em rom = (\<lambda>(g, w).
     let time = ge_clock ge (gw_reads w) in
     run_then (Some (em_run_frame em (gb_rom_read rom) gb_cart_ram_read g)) (\<lambda>(calls, g1).
     run_then (gb_calls ge calls (w\<lparr>gw_reads := Suc (gw_reads w)\<rparr>)) (\<lambda>w1.
     run_then (Some (usub (ge_clock ge (gw_reads w1)) time)) (\<lambda>time_taken.
     let n = Suc (gw_reads w1) in
     run_then (wait (\<lambda>i. ge_clock ge (n + i)) (saturating_sub MS_PER_FRAME time_taken)) (\<lambda>k.
       Some (Inr (g1, w1\<lparr>gw_reads := Suc (n + k)\<rparr>)))))))"

partial_function (option) play_loop ::
  "gb_env \<Rightarrow> 'g emulator \<Rightarrow> u8 list once \<Rightarrow> (nat \<Rightarrow> key_event option) \<Rightarrow> nat \<Rightarrow> 'g \<times> gb_world \<Rightarrow> ('g \<times> gb_world \<times> nat) res option" where
  "play_loop ge em rom evs n s =
     (case play_frame ge em rom s of
        None \<Rightarrow> None
      | Some (Inl e) \<Rightarrow> Some (Inl e)
      | Some (Inr (g, w)) \<Rightarrow>
          (case joypad_events em evs 3 n g of
             (quit, n', g') \<Rightarrow> if quit then Some (Inr (g', w, n')) else play_loop ge em rom evs n' (g', w)))"

text \<open>The closure that loads the ROM. The handle stays open.\<close>

definition expect_ok :: "string \<Rightarrow> ('e + 'a) \<times> 's \<Rightarrow> ('a \<times> 's) res" where
  "expect_ok msg = (\<lambda>(r, s). case r of Inl e \<Rightarrow> Inl (ExpectFailed msg) | Inr x \<Rightarrow> Inr (x, s))"

definition load_rom :: "string \<Rightarrow> tarfs \<Rightarrow> (u8 list \<times> tarfs) res option" where
  "load_rom path fs =
     run_then (open_path path fs) (\<lambda>r1.
     run_then (Some (expect_ok ''Failed to open ROM file'' r1)) (\<lambda>(file, fs1).
     run_then (size_of_handle file fs1) (\<lambda>r2.
     run_then (Some (expect_ok ''Failed to get ROM file size'' r2)) (\<lambda>(n, fs2).
     run_then (read_handle file (replicate n 0) fs2) (\<lambda>r3.
     run_then (Some (expect_ok ''Failed to read ROM file'' r3)) (\<lambda>((_, rom), fs3).
       Some (Inr (rom, fs3))))))))"

definition init_rom :: "string \<Rightarrow> u8 list once \<times> tarfs \<Rightarrow> (u8 list once \<times> tarfs) res option" where
  "init_rom path = (\<lambda>(rom, fs).
     if on_initialized rom then Some (Inr (rom, fs))
     else run_then (load_rom path fs) (\<lambda>(bytes, fs'). Some (Inr (snd (once_init bytes rom), fs'))))"

definition controls_text :: "u32 list" where
  "controls_text = map of_char (''Controls:'' @ [CHR 0x0A] @ ''W=Up, A=Left, S=Down, D=Right'' @ [CHR 0x0A]
     @ ''Q=Select, E=Start, Space=B, Enter=A'' @ [CHR 0x0A])"

definition show_controls :: "gb_env \<Rightarrow> gb_world \<Rightarrow> gb_world res option" where
  "show_controls ge w =
     run_then (Some (terminal_global (gw_terminal w))) (\<lambda>t.
     case lock t of
       None \<Rightarrow> None
     | Some l \<Rightarrow>
         run_then (Some (set_pos 0 2 (guard_deref l))) (\<lambda>t1.
         run_then (terminal_write_str (ge_glyph ge) controls_text (t1, gw_vram w)) (\<lambda>(t2, m).
           Some (Inr (w\<lparr>gw_terminal := (gw_terminal w)\<lparr>on_value := Some (guard_drop (guard_deref_mut (\<lambda>_. t2) l))\<rparr>,
             gw_vram := m\<rparr>)))))"

definition play ::
  "gb_env \<Rightarrow> 'g emulator \<Rightarrow> string \<Rightarrow> (nat \<Rightarrow> key_event option) \<Rightarrow> nat \<Rightarrow> u8 list once \<times> tarfs once \<times> gb_world
     \<Rightarrow> (u8 list once \<times> tarfs once \<times> 'g \<times> gb_world \<times> nat) res option" where
  "play ge em rom_path evs n = (\<lambda>(rom, fs_cell, w).
     run_then (Some (filesystem fs_cell)) (\<lambda>fs.
     run_then (init_rom rom_path (rom, fs)) (\<lambda>(rom', fs').
     run_then (Some (em_init em (gb_rom_read rom') gb_cart_ram_read)) (\<lambda>(_, calls, g).
     run_then (gb_calls ge calls w) (\<lambda>w1.
     run_then (show_controls ge w1) (\<lambda>w2.
     run_then (play_loop ge em rom' evs n (em_init_lcd em g, w2)) (\<lambda>(g', w3, n').
       Some (Inr (rom', fs_cell\<lparr>on_value := Some fs'\<rparr>, g', w3, n')))))))))"

subsection \<open>Drawing a line\<close>

abbreviation lcd_rows :: "u8 \<Rightarrow> nat \<Rightarrow> bool" where
  "lcd_rows line y \<equiv> 96 + 3 * unat line \<le> y \<and> y < 99 + 3 * unat line"

lemma unat_u8: "unat (a :: u8) < 256"
  by (rule order_less_le_trans [OF unsigned_less]) simp

lemma scaled_range: "(\<exists>k \<in> set [0..<3]. y = 3 * l + k + off) \<longleftrightarrow> off + 3 * l \<le> y \<and> y < off + 3 + 3 * (l :: nat)"
proof
  assume "off + 3 * l \<le> y \<and> y < off + 3 + 3 * l"
  then show "\<exists>k \<in> set [0..<3]. y = 3 * l + k + off" by (intro bexI [of _ "y - (off + 3 * l)"]) auto
qed auto

lemma paints_column:
  assumes "fb_ok fb m" "x < fb_width fb" "\<forall>k \<in> set ys. 3 * unat line + k + 96 < fb_height fb"
  shows "paints fb (lcd_column fb x line colour ys m) m
    (\<lambda>x' y'. if x' = x \<and> (\<exists>k \<in> set ys. y' = 3 * unat line + k + 96) then colour else pixel fb m x' y')"
  using assms
proof (induction ys arbitrary: m)
  case Nil
  then show ?case by (simp add: paints_nothing)
next
  case (Cons k ys)
  let ?y = "3 * unat line + k + 96"
  have h: "?y < 2 ^ 32" using Cons.prems by (simp add: fb_ok_def)
  have ops: "nmul (unat line) SCALE = Inr (3 * unat line)" "nadd (3 * unat line) k = Inr (3 * unat line + k)"
    "nadd (3 * unat line + k) Y_OFFSET = Inr ?y"
    using h unat_u8 [of line] nmul_ok [of "unat line" 3] nadd_ok [of "3 * unat line" k] nadd_ok [of "3 * unat line + k" 96]
    unfolding SCALE_def Y_OFFSET_def by (simp_all add: mult.commute)
  have "paints fb (and_then (draw_pixel_unchecked fb x ?y colour m) (lcd_column fb x line colour ys)) m
    (\<lambda>x' y'. if x' = x \<and> (\<exists>k \<in> set ys. y' = 3 * unat line + k + 96) then colour
       else if (x', y') = (x, ?y) then colour else pixel fb m x' y')"
    using Cons by (intro paints_then paints_pixel) auto
  then show ?case by (simp add: ops) (rule paints_cong, assumption, auto)
qed

lemma paints_block:
  assumes "fb_ok fb m" "\<forall>k \<in> set xs. 3 * i + k + 192 < fb_width fb" "99 + 3 * unat line \<le> fb_height fb"
  shows "paints fb (lcd_block fb i line colour xs m) m
    (\<lambda>x' y'. if (\<exists>k \<in> set xs. x' = 3 * i + k + 192) \<and> lcd_rows line y' then colour else pixel fb m x' y')"
  using assms
proof (induction xs arbitrary: m)
  case Nil
  then show ?case by (simp add: paints_nothing)
next
  case (Cons k xs)
  let ?x = "3 * i + k + 192"
  have h: "?x < 2 ^ 32" using Cons.prems by (simp add: fb_ok_def)
  have ops: "nmul i SCALE = Inr (3 * i)" "nadd (3 * i) k = Inr (3 * i + k)" "nadd (3 * i + k) X_OFFSET = Inr ?x"
    using h by (simp_all add: nmul_def nadd_def SCALE_def X_OFFSET_def)
  have rows: "(\<exists>k \<in> set [0..<SCALE]. y' = 3 * unat line + k + 96) \<longleftrightarrow> lcd_rows line y'" for y'
    unfolding SCALE_def using scaled_range [of y' "unat line" 96] by simp
  have "paints fb (lcd_column fb ?x line colour [0..<SCALE] m) m
    (\<lambda>x' y'. if x' = ?x \<and> lcd_rows line y' then colour else pixel fb m x' y')"
    using paints_column [of fb m ?x "[0..<SCALE]" line colour] Cons.prems unfolding rows by (simp add: SCALE_def)
  then have "paints fb (and_then (lcd_column fb ?x line colour [0..<SCALE] m) (lcd_block fb i line colour xs)) m
    (\<lambda>x' y'. if (\<exists>k \<in> set xs. x' = 3 * i + k + 192) \<and> lcd_rows line y' then colour
       else if x' = ?x \<and> lcd_rows line y' then colour else pixel fb m x' y')"
    using Cons by (intro paints_then) auto
  then show ?case by (simp add: ops) (rule paints_cong, assumption, auto)
qed

definition lcd_colour :: "u8 list \<Rightarrow> nat \<Rightarrow> u32" where
  "lcd_colour ps j = PALETTE ! unat (ps ! j AND 3)"

lemma palette_index: "get_index PALETTE (unat (p AND 0x3 :: u8)) = Inr (PALETTE ! unat (p AND 3))"
proof -
  have "p AND 3 \<le> 3" by (rule word_and_le1)
  then have "unat (p AND 3) \<le> 3" by (simp add: word_le_nat_alt)
  then show ?thesis by (simp add: PALETTE_def)
qed

lemma paints_lcd_pixels:
  assumes "fb_ok fb m" "192 + 3 * (i + length ps) \<le> fb_width fb" "99 + 3 * unat line \<le> fb_height fb"
  shows "paints fb (lcd_pixels fb line i ps m) m
    (\<lambda>x' y'. if 192 + 3 * i \<le> x' \<and> x' < 192 + 3 * (i + length ps) \<and> lcd_rows line y'
       then lcd_colour ps ((x' - 192) div 3 - i) else pixel fb m x' y')"
  using assms
proof (induction ps arbitrary: i m)
  case Nil
  then show ?case by (intro paintsI [where m' = m]) auto
next
  case (Cons p ps)
  let ?c = "PALETTE ! unat (p AND 3)"
  have cols: "(\<exists>k \<in> set [0..<SCALE]. x' = 3 * i + k + 192) \<longleftrightarrow> 192 + 3 * i \<le> x' \<and> x' < 195 + 3 * i" for x'
    unfolding SCALE_def using scaled_range [of x' i 192] by simp
  have "paints fb (lcd_block fb i line ?c [0..<SCALE] m) m
    (\<lambda>x' y'. if (192 + 3 * i \<le> x' \<and> x' < 195 + 3 * i) \<and> lcd_rows line y' then ?c else pixel fb m x' y')"
    using paints_block [of fb m "[0..<SCALE]" i line ?c] Cons.prems unfolding cols by (simp add: SCALE_def)
  then have "paints fb (and_then (lcd_block fb i line ?c [0..<SCALE] m) (lcd_pixels fb line (Suc i) ps)) m
    (\<lambda>x' y'. if 192 + 3 * Suc i \<le> x' \<and> x' < 192 + 3 * (Suc i + length ps) \<and> lcd_rows line y'
       then lcd_colour ps ((x' - 192) div 3 - Suc i)
       else if (192 + 3 * i \<le> x' \<and> x' < 195 + 3 * i) \<and> lcd_rows line y' then ?c else pixel fb m x' y')"
    using Cons.prems by (intro paints_then Cons.IH) auto
  moreover have "(x' - 192) div 3 - i = Suc ((x' - 192) div 3 - Suc i)" if "192 + 3 * Suc i \<le> x'" for x'
  proof -
    have "Suc i \<le> (x' - 192) div 3" using that by (simp add: less_eq_div_iff_mult_less_eq)
    then show ?thesis by simp
  qed
  moreover have "(x' - 192) div 3 = i" if "192 + 3 * i \<le> x'" "x' < 195 + 3 * i" for x'
    using that by (intro div_nat_eqI) auto
  ultimately show ?case
    by (simp only: lcd_pixels.simps palette_index and_then_simps) (erule paints_cong, auto simp: lcd_colour_def)
qed

text \<open>The framebuffer is free and has room for the scaled screen.\<close>

definition lcd_ready :: "framebuffer \<Rightarrow> gb_world \<Rightarrow> bool" where
  "lcd_ready fb w \<longleftrightarrow> framebuffer_global (gw_terminal w) = Inr (spinlock_new fb) \<and> fb_ok fb (gw_vram w)
     \<and> 672 \<le> fb_width fb \<and> 528 \<le> fb_height fb"

lemma lcd_ready_simps [simp]:
  "lcd_ready fb (w\<lparr>gw_reads := n\<rparr>) = lcd_ready fb w"
  "lcd_ready fb (w\<lparr>gw_vram := m\<rparr>) \<longleftrightarrow> framebuffer_global (gw_terminal w) = Inr (spinlock_new fb) \<and> fb_ok fb m
     \<and> 672 \<le> fb_width fb \<and> 528 \<le> fb_height fb"
  by (simp_all add: lcd_ready_def)

text \<open>Where a scaled pixel comes from.\<close>

abbreviation lcd_col :: "nat \<Rightarrow> nat" where "lcd_col x \<equiv> (x - 192) div 3"
abbreviation lcd_row :: "nat \<Rightarrow> nat" where "lcd_row y \<equiv> (y - 96) div 3"

lemma lcd_draw_line_ok:
  assumes "lcd_ready fb w" "length ps = 160" "unat line < 144"
  shows "\<exists>m. lcd_draw_line ps line w = Some (Inr (w\<lparr>gw_vram := m\<rparr>)) \<and> fb_ok fb m
    \<and> (\<forall>x y. x < fb_width fb \<longrightarrow> y < fb_height fb \<longrightarrow> pixel fb m x y =
         (if 192 \<le> x \<and> x < 672 \<and> lcd_rows line y then lcd_colour ps (lcd_col x) else pixel fb (gw_vram w) x y))"
proof -
  have "paints fb (lcd_pixels fb line 0 ps (gw_vram w)) (gw_vram w)
    (\<lambda>x y. if 192 + 3 * 0 \<le> x \<and> x < 192 + 3 * (0 + length ps) \<and> lcd_rows line y
       then lcd_colour ps (lcd_col x - 0) else pixel fb (gw_vram w) x y)"
    using assms by (intro paints_lcd_pixels) (auto simp: lcd_ready_def)
  then obtain m where "lcd_pixels fb line 0 ps (gw_vram w) = Inr m" "fb_ok fb m"
    "\<And>x y. x < fb_width fb \<Longrightarrow> y < fb_height fb \<Longrightarrow> pixel fb m x y =
       (if 192 + 3 * 0 \<le> x \<and> x < 192 + 3 * (0 + length ps) \<and> lcd_rows line y
        then lcd_colour ps (lcd_col x - 0) else pixel fb (gw_vram w) x y)"
    using paintsE by blast
  then show ?thesis using assms(1,2)
    by (intro exI [of _ m]) (simp add: lcd_draw_line_def lcd_ready_def lock_eq spinlock_defs GB_SCREEN_RES_def)
qed

lemma lcd_rows_row: "lcd_rows line y \<longleftrightarrow> 96 \<le> y \<and> lcd_row y = unat line"
proof
  assume "lcd_rows line y"
  then show "96 \<le> y \<and> lcd_row y = unat line" by (auto intro!: div_nat_eqI)
next
  assume a: "96 \<le> y \<and> lcd_row y = unat line"
  have "3 * lcd_row y \<le> y - 96" "y - 96 < 3 * lcd_row y + 3" by (simp, metis dividend_less_times_div zero_less_numeral mult.commute add.commute)
  then show "lcd_rows line y" using a by auto
qed

lemma lcd_rows_below: "lcd_rows line y \<Longrightarrow> unat line < 144 \<Longrightarrow> 96 \<le> y \<and> y < 528"
  by simp

lemma gb_lines_ok:
  assumes "lcd_ready fb w" "\<And>l. length (img l) = 160" "\<forall>l \<in> set ls. unat l < 144"
  shows "\<exists>m. gb_calls ge (map (\<lambda>l. Lcd_Line (img (unat l)) l) ls) w = Some (Inr (w\<lparr>gw_vram := m\<rparr>)) \<and> fb_ok fb m
    \<and> (\<forall>x y. x < fb_width fb \<longrightarrow> y < fb_height fb \<longrightarrow> pixel fb m x y =
         (if 192 \<le> x \<and> x < 672 \<and> 96 \<le> y \<and> lcd_row y \<in> unat ` set ls then lcd_colour (img (lcd_row y)) (lcd_col x)
          else pixel fb (gw_vram w) x y))"
  using assms(1,3)
proof (induction ls arbitrary: w)
  case Nil
  then show ?case by (intro exI [of _ "gw_vram w"]) (simp add: lcd_ready_def)
next
  case (Cons l ls)
  obtain m1 where m1: "lcd_draw_line (img (unat l)) l w = Some (Inr (w\<lparr>gw_vram := m1\<rparr>))" "fb_ok fb m1"
    "\<And>x y. x < fb_width fb \<Longrightarrow> y < fb_height fb \<Longrightarrow> pixel fb m1 x y =
         (if 192 \<le> x \<and> x < 672 \<and> lcd_rows l y then lcd_colour (img (unat l)) (lcd_col x) else pixel fb (gw_vram w) x y)"
    using lcd_draw_line_ok [OF Cons.prems(1) assms(2), of l "unat l"] Cons.prems(2) by auto
  have r: "lcd_ready fb (w\<lparr>gw_vram := m1\<rparr>)" using m1(2) Cons.prems(1) by (simp add: lcd_ready_def)
  obtain m2 where m2: "gb_calls ge (map (\<lambda>l. Lcd_Line (img (unat l)) l) ls) (w\<lparr>gw_vram := m1\<rparr>) = Some (Inr (w\<lparr>gw_vram := m2\<rparr>))"
    "fb_ok fb m2" "\<And>x y. x < fb_width fb \<Longrightarrow> y < fb_height fb \<Longrightarrow> pixel fb m2 x y =
         (if 192 \<le> x \<and> x < 672 \<and> 96 \<le> y \<and> lcd_row y \<in> unat ` set ls then lcd_colour (img (lcd_row y)) (lcd_col x)
          else pixel fb m1 x y)"
    using Cons.IH [OF r] Cons.prems(2) by auto
  show ?case using m1(1,3) m2 by (intro exI [of _ m2]) (auto simp: lcd_rows_row)
qed

subsection \<open>Held buttons\<close>

fun joypad_bit :: "joypad_button \<Rightarrow> nat" where
  "joypad_bit Joy_A = 0" | "joypad_bit Joy_B = 1" | "joypad_bit Joy_Select = 2" | "joypad_bit Joy_Start = 3"
| "joypad_bit Joy_Right = 4" | "joypad_bit Joy_Left = 5" | "joypad_bit Joy_Up = 6" | "joypad_bit Joy_Down = 7"

lemma joypad_mask_bit: "joypad_mask b = 2 ^ joypad_bit b"
  by (cases b) simp_all

lemma joypad_bit_inj: "joypad_bit b = joypad_bit c \<longleftrightarrow> b = c"
  by (cases b; cases c) simp_all

lemma joypad_bit_less: "joypad_bit b < 8"
  by (cases b) simp_all

text \<open>A button is held when its bit is clear.\<close>

definition is_held :: "u8 \<Rightarrow> joypad_button \<Rightarrow> bool" where
  "is_held j b \<longleftrightarrow> j AND joypad_mask b = 0"

lemma is_held_bit: "is_held j b \<longleftrightarrow> \<not> bit j (joypad_bit b)"
  by (simp add: is_held_def joypad_mask_bit and_exp_eq_0_iff_not_bit)

lemma held_after_press: "is_held (j AND NOT (joypad_mask b)) c \<longleftrightarrow> c = b \<or> is_held j c"
  unfolding is_held_bit unfolding joypad_mask_bit using joypad_bit_less [of c]
  by (auto simp: bit_simps joypad_bit_inj)

lemma held_after_release: "is_held (j OR joypad_mask b) c \<longleftrightarrow> c \<noteq> b \<and> is_held j c"
  unfolding is_held_bit unfolding joypad_mask_bit using joypad_bit_less [of c]
  by (auto simp: bit_simps joypad_bit_inj)

text \<open>
  The keys of the buttons, as the controls on the screen list them, and whether a button is held
  after a key event: the last event of its key decides.
\<close>

fun button_key :: "joypad_button \<Rightarrow> scancode" where
  "button_key Joy_Up = Sc_W" | "button_key Joy_Left = Sc_A" | "button_key Joy_Down = Sc_S" | "button_key Joy_Right = Sc_D"
| "button_key Joy_Select = Sc_Q" | "button_key Joy_Start = Sc_E" | "button_key Joy_A = Sc_Enter" | "button_key Joy_B = Sc_Space"

lemma mapped_button_key: "mapped_button code = Some b \<longleftrightarrow> code = button_key b"
  by (cases b) (auto simp: mapped_button_def)

definition track :: "joypad_button \<Rightarrow> key_event option \<Rightarrow> bool \<Rightarrow> bool" where
  "track b ev h = (case ev of
     Some k \<Rightarrow> if ke_scancode k = Some (button_key b) then ke_pressed k else h
   | None \<Rightarrow> h)"

definition is_escape :: "key_event option \<Rightarrow> bool" where
  "is_escape ev \<longleftrightarrow> (\<exists>k. ev = Some k \<and> ke_scancode k = Some Sc_Escape)"

lemma escape_unmapped: "button_key b \<noteq> Sc_Escape"
  by (cases b) simp_all

definition joypad_lens :: "'g emulator \<Rightarrow> bool" where
  "joypad_lens em \<longleftrightarrow> (\<forall>j g. em_joypad em (em_set_joypad em j g) = j)"

lemma update_joypad_held:
  assumes "joypad_lens em"
  shows "is_held (em_joypad em (update_joypad em b p g)) c \<longleftrightarrow> (if c = b then p else is_held (em_joypad em g) c)"
  using assms by (simp add: joypad_lens_def update_joypad_def held_after_press held_after_release)

definition tracked :: "'g emulator \<Rightarrow> 'g \<Rightarrow> key_event option list \<Rightarrow> 'g \<Rightarrow> bool" where
  "tracked em g es g' \<longleftrightarrow> (\<forall>b. is_held (em_joypad em g') b \<longleftrightarrow> fold (track b) es (is_held (em_joypad em g) b))"

lemma joypad_events_track:
  assumes "joypad_lens em" "joypad_events em evs k n g = (q, n', g')"
  shows "n \<le> n' \<and> (0 < k \<longrightarrow> n < n') \<and> tracked em g (map evs [n..<n']) g'
    \<and> (if q then n < n' \<and> is_escape (evs (n' - 1)) \<and> (\<forall>i. n \<le> i \<longrightarrow> i < n' - 1 \<longrightarrow> \<not> is_escape (evs i))
       else (\<forall>i. n \<le> i \<longrightarrow> i < n' \<longrightarrow> \<not> is_escape (evs i)))"
  using assms(2)
proof (induction k arbitrary: n g)
  case 0
  then show ?case by (simp add: tracked_def)
next
  case (Suc k)
  have step: ?case if h: "joypad_events em evs k (Suc n) g1 = (q, n', g')" and e: "\<not> is_escape (evs n)"
    and t: "\<And>b. is_held (em_joypad em g1) b \<longleftrightarrow> track b (evs n) (is_held (em_joypad em g) b)" for g1
  proof -
    note ih = Suc.IH [OF h]
    have u: "[n..<n'] = n # [Suc n..<n']" using ih by (simp add: upt_conv_Cons)
    have ne: "\<forall>i. n \<le> i \<longrightarrow> i < m \<longrightarrow> \<not> is_escape (evs i)"
      if "\<forall>i. Suc n \<le> i \<longrightarrow> i < m \<longrightarrow> \<not> is_escape (evs i)" for m
      using that e by (metis Suc_leI le_neq_implies_less)
    have "tracked em g (map evs [n..<n']) g'" using ih t by (simp add: u tracked_def)
    moreover have "n < n'" using ih by simp
    moreover have "is_escape (evs (n' - 1)) \<and> (\<forall>i. n \<le> i \<longrightarrow> i < n' - 1 \<longrightarrow> \<not> is_escape (evs i))" if q
      using ih that by (intro conjI ne) simp_all
    moreover have "\<forall>i. n \<le> i \<longrightarrow> i < n' \<longrightarrow> \<not> is_escape (evs i)" if "\<not> q"
      using ih that by (intro ne) simp_all
    ultimately show ?thesis by (meson less_imp_le)
  qed
  show ?case
  proof (cases "evs n")
    case None
    then show ?thesis using Suc.prems by (auto simp: tracked_def track_def is_escape_def le_less_Suc_eq)
  next
    case (Some ev)
    show ?thesis
    proof (cases "ke_scancode ev")
      case None
      then show ?thesis using Suc.prems Some by (intro step [of g]) (auto simp: track_def is_escape_def)
    next
      case (Some code)
      show ?thesis
      proof (cases "code = Sc_Escape")
        case True
        then show ?thesis using Suc.prems Some \<open>evs n = Some ev\<close>
          by (auto simp: tracked_def track_def is_escape_def escape_unmapped escape_unmapped [symmetric])
      next
        case False
        show ?thesis
        proof (cases "mapped_button code")
          case None
          then have "code \<noteq> button_key b" for b using mapped_button_key [of code b] by simp
          then show ?thesis using Suc.prems Some False \<open>evs n = Some ev\<close>
            using None by (intro step [of g]) (auto simp: track_def is_escape_def)
        next
          case (Some b)
          then have "c = b \<longleftrightarrow> code = button_key c" for c using mapped_button_key [of code c] by auto
          then show ?thesis using Suc.prems False \<open>ke_scancode ev = Some code\<close> \<open>evs n = Some ev\<close> update_joypad_held [OF assms(1)]
            using Some by (intro step [of "update_joypad em b (ke_pressed ev) g"]) (auto simp: track_def is_escape_def)
        qed
      qed
    qed
  qed
qed

lemma ms_per_frame: "MS_PER_FRAME = 16"
  by (simp add: MS_PER_FRAME_def TARGET_FRAME_RATE_def)

lemma saturating_sub_le: "unat (saturating_sub a b) \<le> unat a"
  by (auto simp: saturating_sub_def unat_sub_le)

subsection \<open>The game loop\<close>

text \<open>
  Lines of the Game Boy screen. The emulator does not expect its error callback to return
  (\<open>PGB_UNREACHABLE\<close> follows the call), so nothing is known of a frame that reports an error.
\<close>

fun good_line :: "gb_call \<Rightarrow> bool" where
  "good_line (Lcd_Line ps l) \<longleftrightarrow> length ps = 160 \<and> unat l < 144"
| "good_line (Gb_Error e a) \<longleftrightarrow> True"
| "good_line (Cart_Ram_Write a v) \<longleftrightarrow> True"

fun is_error :: "gb_call \<Rightarrow> bool" where
  "is_error (Gb_Error e a) \<longleftrightarrow> True"
| "is_error (Lcd_Line ps l) \<longleftrightarrow> False"
| "is_error (Cart_Ram_Write a v) \<longleftrightarrow> False"

text \<open>Nothing changes outside the rectangle of the scaled screen.\<close>

definition lcd_only :: "framebuffer \<Rightarrow> vram \<Rightarrow> vram \<Rightarrow> bool" where
  "lcd_only fb m m' \<longleftrightarrow> (\<forall>x y. x < fb_width fb \<longrightarrow> y < fb_height fb \<longrightarrow> \<not> (192 \<le> x \<and> x < 672 \<and> 96 \<le> y \<and> y < 528)
     \<longrightarrow> pixel fb m' x y = pixel fb m x y)"

lemma lcd_only_trans: "lcd_only fb m1 m2 \<Longrightarrow> lcd_only fb m2 m3 \<Longrightarrow> lcd_only fb m1 m3"
  by (simp add: lcd_only_def)

lemma gb_call_ok:
  assumes "lcd_ready fb w" "good_line c" "\<not> is_error c"
  shows "\<exists>m. gb_call_run ge c w = Some (Inr (w\<lparr>gw_vram := m\<rparr>)) \<and> fb_ok fb m \<and> lcd_only fb (gw_vram w) m"
proof (cases c)
  case (Lcd_Line ps l)
  then show ?thesis
    using lcd_draw_line_ok [OF assms(1), of ps l] assms(2) unfolding lcd_only_def
    by (metis (no_types, lifting) gb_call_run.simps(1) good_line.simps(1) lcd_rows_below)
next
  case (Cart_Ram_Write a v)
  then show ?thesis using assms(1)
    by (intro exI [of _ "gw_vram w"]) (simp add: gb_cart_ram_write_def lcd_ready_def lcd_only_def)
qed (use assms in simp)

lemma gb_calls_ok:
  assumes "lcd_ready fb w" "\<forall>c \<in> set cs. good_line c \<and> \<not> is_error c"
  shows "\<exists>m. gb_calls ge cs w = Some (Inr (w\<lparr>gw_vram := m\<rparr>)) \<and> fb_ok fb m \<and> lcd_only fb (gw_vram w) m"
  using assms
proof (induction cs arbitrary: w)
  case Nil
  then show ?case by (intro exI [of _ "gw_vram w"]) (simp add: lcd_ready_def lcd_only_def)
next
  case (Cons c cs)
  obtain m1 where m1: "gb_call_run ge c w = Some (Inr (w\<lparr>gw_vram := m1\<rparr>))" "fb_ok fb m1" "lcd_only fb (gw_vram w) m1"
    using gb_call_ok [OF Cons.prems(1), of c ge] Cons.prems(2) by auto
  have "lcd_ready fb (w\<lparr>gw_vram := m1\<rparr>)" using m1(2) Cons.prems(1) by (simp add: lcd_ready_def)
  then obtain m2 where "gb_calls ge cs (w\<lparr>gw_vram := m1\<rparr>) = Some (Inr (w\<lparr>gw_vram := m2\<rparr>))" "fb_ok fb m2" "lcd_only fb m1 m2"
    using Cons.IH [of "w\<lparr>gw_vram := m1\<rparr>"] Cons.prems(2) by auto
  then show ?case using m1(1,3) lcd_only_trans by (intro exI [of _ m2]) auto
qed

text \<open>
  The states that a game goes through: frames, and changes of the joypad byte between them. In these
  states the emulator is relied upon not to touch the joypad byte during a frame and to draw
  lines of 160 pixels below line 144.
\<close>

definition gb_frame :: "'g emulator \<Rightarrow> u8 list once \<Rightarrow> 'g \<Rightarrow> (gb_call list \<times> 'g) res" where
  "gb_frame em rom g = em_run_frame em (gb_rom_read rom) gb_cart_ram_read g"

inductive gb_reach :: "'g emulator \<Rightarrow> u8 list once \<Rightarrow> 'g \<Rightarrow> 'g \<Rightarrow> bool" for em rom g0 where
  gb_begin: "gb_reach em rom g0 g0"
| gb_after_frame: "gb_reach em rom g0 g \<Longrightarrow> gb_frame em rom g = Inr (calls, g') \<Longrightarrow> gb_reach em rom g0 g'"
| gb_joypad: "gb_reach em rom g0 g \<Longrightarrow> gb_reach em rom g0 (em_set_joypad em j g)"

definition gb_contract :: "'g emulator \<Rightarrow> u8 list once \<Rightarrow> 'g \<Rightarrow> bool" where
  "gb_contract em rom g0 \<longleftrightarrow> joypad_lens em
     \<and> (\<forall>g calls g'. gb_reach em rom g0 g \<longrightarrow> gb_frame em rom g = Inr (calls, g') \<longrightarrow>
          em_joypad em g' = em_joypad em g \<and> (\<forall>c \<in> set calls. good_line c))"

lemma joypad_events_reach:
  "gb_reach em rom g0 g \<Longrightarrow> gb_reach em rom g0 (snd (snd (joypad_events em evs k n g)))"
proof (induction k arbitrary: n g)
  case (Suc k)
  have "gb_reach em rom g0 (update_joypad em b p g)" for b p
    unfolding update_joypad_def by (rule gb_joypad [OF Suc.prems])
  then show ?case using Suc by (auto split: option.splits)
qed simp

lemma play_frame_panics: "gb_frame em rom g = Inl e \<Longrightarrow> play_frame ge em rom (g, w) = Some (Inl e)"
  by (simp add: play_frame_def gb_frame_def)

lemma play_frame_ok:
  assumes fr: "gb_frame em rom g = Inr (calls, g')" "\<forall>c \<in> set calls. good_line c \<and> \<not> is_error c"
    and "lcd_ready fb w" and t: "ticks f d (ge_clock ge)"
    and lt: "f (gw_reads w) + (4 * d + 16) < 2 ^ 64"
  shows "\<exists>m r. play_frame ge em rom (g, w) = Some (Inr (g', w\<lparr>gw_vram := m, gw_reads := r\<rparr>))
    \<and> fb_ok fb m \<and> lcd_only fb (gw_vram w) m \<and> f r \<le> f (gw_reads w) + (4 * d + 16)"
proof -
  let ?n = "gw_reads w" and ?c = "ge_clock ge"
  obtain m where m: "gb_calls ge calls (w\<lparr>gw_reads := Suc ?n\<rparr>) = Some (Inr (w\<lparr>gw_reads := Suc ?n, gw_vram := m\<rparr>))"
    "fb_ok fb m" "lcd_only fb (gw_vram w) m"
    using gb_calls_ok [of fb "w\<lparr>gw_reads := Suc ?n\<rparr>" calls ge] assms(3) fr(2) by auto
  have st: "f (Suc n) \<le> f n + d" "f n \<le> f (Suc n)" for n using t unfolding ticks_def by blast+
  have b: "f (Suc ?n) \<le> f ?n + d" "f (Suc (Suc ?n)) \<le> f ?n + 2 * d" using st(1) [of ?n] st(1) [of "Suc ?n"] by linarith+
  have "unat (?c ?n) = f ?n" "unat (?c (Suc ?n)) = f (Suc ?n)" using lt b by (auto intro!: ticks_unat [OF t])
  then have "?c ?n \<le> ?c (Suc ?n)" using st(2) [of ?n] by (simp add: word_le_nat_alt)
  then have taken: "usub (?c (Suc ?n)) (?c ?n) = Inr (?c (Suc ?n) - ?c ?n)" by (simp add: usub_def)
  let ?ms = "saturating_sub MS_PER_FRAME (?c (Suc ?n) - ?c ?n)"
  have ms: "unat ?ms \<le> 16" using saturating_sub_le [of MS_PER_FRAME "?c (Suc ?n) - ?c ?n"] by (simp add: ms_per_frame)
  have "f (Suc (Suc ?n)) + unat ?ms + d < 2 ^ 64" using b ms lt by linarith
  then obtain k where k: "wait (\<lambda>i. ?c (Suc (Suc ?n) + i)) ?ms = Some (Inr k)" "f (Suc (Suc ?n) + k) \<le> f (Suc (Suc ?n)) + unat ?ms + d"
    using wait_in_time [OF t] by blast
  have "f (Suc (Suc (Suc ?n) + k)) \<le> f ?n + (4 * d + 16)" using st(1) [of "Suc (Suc ?n) + k"] k(2) b(2) ms by linarith
  moreover have "play_frame ge em rom (g, w) = Some (Inr (g', w\<lparr>gw_vram := m, gw_reads := Suc (Suc (Suc ?n) + k)\<rparr>))"
    using fr(1) m(1) taken k(1) by (simp add: play_frame_def gb_frame_def)
  ultimately show ?thesis using m(2,3) by blast
qed

text \<open>The frame after which the game cannot go on: a ROM read fails, or the emulator reports an error.\<close>

definition gb_panics :: "'g emulator \<Rightarrow> u8 list once \<Rightarrow> 'g \<Rightarrow> panic \<Rightarrow> bool" where
  "gb_panics em rom g0 e \<longleftrightarrow> (\<exists>g. gb_reach em rom g0 g \<and> gb_frame em rom g = Inl e)"

definition gb_reports_error :: "'g emulator \<Rightarrow> u8 list once \<Rightarrow> 'g \<Rightarrow> bool" where
  "gb_reports_error em rom g0 \<longleftrightarrow>
     (\<exists>g calls g'. gb_reach em rom g0 g \<and> gb_frame em rom g = Inr (calls, g') \<and> (\<exists>c \<in> set calls. is_error c))"

lemma play_loop_ends:
  assumes con: "gb_contract em rom g0" and t: "ticks f d (ge_clock ge)" and esc: "is_escape (evs j)"
    and noerr: "\<not> gb_reports_error em rom g0"
  shows "gb_reach em rom g0 g \<Longrightarrow> lcd_ready fb w \<Longrightarrow> n \<le> j \<Longrightarrow> \<forall>i. n \<le> i \<longrightarrow> i < j \<longrightarrow> \<not> is_escape (evs i) \<Longrightarrow>
    f (gw_reads w) + Suc (j - n) * (4 * d + 16) < 2 ^ 64 \<Longrightarrow>
    (\<exists>g' m r. play_loop ge em rom evs n (g, w) = Some (Inr (g', w\<lparr>gw_vram := m, gw_reads := r\<rparr>, Suc j))
      \<and> tracked em g (map evs [n..<Suc j]) g' \<and> fb_ok fb m \<and> lcd_only fb (gw_vram w) m)
    \<or> (\<exists>e. gb_panics em rom g0 e \<and> play_loop ge em rom evs n (g, w) = Some (Inl e))"
proof (induction "j - n" arbitrary: n g w rule: less_induct)
  case less
  have lens: "joypad_lens em" using con by (simp add: gb_contract_def)
  show ?case
  proof (cases "gb_frame em rom g")
    case (Inl e)
    then have "play_loop ge em rom evs n (g, w) = Some (Inl e)"
      using play_frame_panics [of em rom g e ge w] by (subst play_loop.simps) simp
    then show ?thesis using Inl less.prems(1) unfolding gb_panics_def by blast
  next
    case (Inr r)
    then obtain calls g1 where fr: "gb_frame em rom g = Inr (calls, g1)" by (cases r) simp
    have j1: "em_joypad em g1 = em_joypad em g" and good: "\<forall>c \<in> set calls. good_line c \<and> \<not> is_error c"
      using con noerr less.prems(1) fr unfolding gb_contract_def gb_reports_error_def by blast+
    have "f (gw_reads w) + (4 * d + 16) < 2 ^ 64" using less.prems(5) by simp
    then obtain m1 r1 where f1: "play_frame ge em rom (g, w) = Some (Inr (g1, w\<lparr>gw_vram := m1, gw_reads := r1\<rparr>))"
      "fb_ok fb m1" "lcd_only fb (gw_vram w) m1" "f r1 \<le> f (gw_reads w) + (4 * d + 16)"
      using play_frame_ok [OF fr good less.prems(2) t] by blast
    let ?w1 = "w\<lparr>gw_vram := m1, gw_reads := r1\<rparr>"
    obtain q n' g2 where e: "joypad_events em evs 3 n g1 = (q, n', g2)" by (metis prod_cases3)
    note k = joypad_events_track [OF lens e]
    have tr: "tracked em g (map evs [n..<n']) g2" and lt: "n < n'" using k j1 by (simp_all add: tracked_def)
    have reach: "gb_reach em rom g0 g2"
      using joypad_events_reach [OF gb_after_frame [OF less.prems(1) fr], of evs 3 n] e by simp
    show ?thesis
    proof (cases q)
      case True
      then have "n' - 1 = j" using k esc less.prems(3,4) lt by (metis One_nat_def Suc_pred le_less_trans less_Suc_eq_le linorder_neqE_nat zero_le)
      then have "n' = Suc j" using lt by simp
      then show ?thesis using tr True f1 e
        by (intro disjI1, subst play_loop.simps) (auto simp del: upt_Suc)
    next
      case False
      then have le: "n' \<le> j" using k esc less.prems(3) by (metis not_le_imp_less)
      let ?s = "4 * d + 16"
      have closer: "j - n' < j - n" using lt le by linarith
      have "Suc (Suc (j - n')) \<le> Suc (j - n)" using lt le by linarith
      then have "Suc (Suc (j - n')) * ?s \<le> Suc (j - n) * ?s" by (rule mult_le_mono1)
      then have "f r1 + Suc (j - n') * ?s < 2 ^ 64" using f1(4) less.prems(5) by simp
      then have ih: "(\<exists>g3 m3 r3. play_loop ge em rom evs n' (g2, ?w1) = Some (Inr (g3, w\<lparr>gw_vram := m3, gw_reads := r3\<rparr>, Suc j))
          \<and> tracked em g2 (map evs [n'..<Suc j]) g3 \<and> fb_ok fb m3 \<and> lcd_only fb m1 m3)
        \<or> (\<exists>e. gb_panics em rom g0 e \<and> play_loop ge em rom evs n' (g2, ?w1) = Some (Inl e))"
        using less.hyps [OF closer reach, of ?w1] lt le less.prems f1(2) by (auto simp: lcd_ready_def)
      have s: "[n..<Suc j] = [n..<n'] @ [n'..<Suc j]" using upt_add_eq_append [of n n' "Suc j - n'"] lt le by (simp del: upt_Suc)
      have eq: "play_loop ge em rom evs n (g, w) = play_loop ge em rom evs n' (g2, ?w1)"
        using f1(1) e False by (subst play_loop.simps) simp
      have "tracked em g (map evs [n..<Suc j]) g3" if "tracked em g2 (map evs [n'..<Suc j]) g3" for g3
        using tr that unfolding s by (simp add: tracked_def del: upt_Suc)
      then show ?thesis unfolding eq using ih lcd_only_trans [OF f1(3)] by blast
    qed
  qed
qed

text \<open>
  C30. The Game Boy screen is scaled onto the framebuffer faithfully: when the emulator draws the lines of a frame, in
  any order, every pixel of the 480 by 432 rectangle at (192, 96) gets the palette colour of the Game Boy pixel
  it belongs to (3 by 3 pixels for each), and no other pixel of the screen changes. No pixel is drawn outside
  the framebuffer, nothing overflows, and the lock of the framebuffer is free again.
\<close>

theorem lcd_frame_shows_picture:
  assumes "lcd_ready fb w" "\<forall>l. length (img l) = 160" "\<forall>l. l \<in> set ls \<longleftrightarrow> unat l < 144"
  shows "\<exists>m. gb_calls ge (map (\<lambda>l. Lcd_Line (img (unat l)) l) ls) w = Some (Inr (w\<lparr>gw_vram := m\<rparr>)) \<and> fb_ok fb m
    \<and> (\<forall>x y. x < fb_width fb \<longrightarrow> y < fb_height fb \<longrightarrow> pixel fb m x y =
         (if 192 \<le> x \<and> x < 192 + 3 * 160 \<and> 96 \<le> y \<and> y < 96 + 3 * 144
          then PALETTE ! unat (img ((y - 96) div 3) ! ((x - 192) div 3) AND 3) else pixel fb (gw_vram w) x y))"
proof -
  have r: "96 \<le> y \<Longrightarrow> lcd_row y \<in> unat ` set ls \<longleftrightarrow> y < 528" for y
  proof -
    assume y: "96 \<le> y"
    have "lcd_row y \<in> unat ` set ls \<longleftrightarrow> lcd_row y < 144"
    proof
      assume l: "lcd_row y < 144"
      then have "unat (of_nat (lcd_row y) :: u8) = lcd_row y" by (simp only: unat_of_nat) simp
      then show "lcd_row y \<in> unat ` set ls" using assms(3) l by (metis image_eqI)
    qed (use assms(3) in auto)
    also have "\<dots> \<longleftrightarrow> y < 528" using y by (simp add: div_less_iff_less_mult) arith
    finally show "lcd_row y \<in> unat ` set ls \<longleftrightarrow> y < 528" .
  qed
  show ?thesis
    using gb_lines_ok [OF assms(1), of img ls ge] assms(2,3) r by (auto simp: lcd_colour_def)
qed

text \<open>The ROM file is loaded once; what the emulator reads is the file.\<close>

definition loaded :: "'a \<Rightarrow> 'a once" where
  "loaded v = \<lparr>on_initialized = True, on_value = Some v\<rparr>"

definition has_file :: "tarfs \<Rightarrow> string \<Rightarrow> entry \<Rightarrow> bool" where
  "has_file fs path e \<longleftrightarrow> fs_ok fs \<and> (\<forall>e \<in> set (fs_archive fs). en_filename e \<noteq> None) \<and> fs_next_handle fs + 1 \<noteq> 0
     \<and> List.find (\<lambda>e. en_filename e = Some (strip_slash path)) (fs_archive fs) = Some e \<and> en_data e \<noteq> []"

lemma init_rom_ok:
  assumes "has_file fs path e"
  shows "\<exists>fs'. init_rom path (once_new, fs) = Some (Inr (loaded (en_data e), fs')) \<and> fs_ok fs'"
proof -
  obtain fs1 fs2 where "open_path path fs = Some (Inr (Inr (fs_next_handle fs), fs1))"
    "size_of_handle (fs_next_handle fs) fs1 = Some (Inr (Inr (length (en_data e)), fs1))"
    "read_handle (fs_next_handle fs) (replicate (length (en_data e)) 0) fs1 = Some (Inr (Inr (length (en_data e), en_data e), fs2))"
    "fs_ok fs2"
    using whole_file [of fs path e] assms unfolding has_file_def by blast
  then show ?thesis by (simp add: init_rom_def load_rom_def expect_ok_def once_new_def once_init_def loaded_def Let_def)
qed

lemma gb_rom_read_loaded:
  "gb_rom_read (loaded bytes) addr = (if unat addr < length bytes then Inr (bytes ! unat addr) else Inl IndexOutOfBounds)"
  by (simp add: gb_rom_read_def loaded_def once_get_def assume_init_ref_def get_index_def)

text \<open>A second game keeps the ROM of the first, whatever its path.\<close>

theorem first_rom_stays: "init_rom path (loaded bytes, fs) = Some (Inr (loaded bytes, fs))"
  by (simp add: init_rom_def loaded_def)

text \<open>Where the bytes of the game come from: the file of the first game, and that of the first game ever after.\<close>

definition rom_source :: "u8 list once \<Rightarrow> tarfs \<Rightarrow> string \<Rightarrow> u8 list \<Rightarrow> bool" where
  "rom_source rom fs path bytes \<longleftrightarrow>
     rom = once_new \<and> (\<exists>e. has_file fs path e \<and> bytes = en_data e) \<or> rom = loaded bytes \<and> fs_ok fs"

lemma rom_source_init:
  "rom_source rom fs path bytes \<Longrightarrow> \<exists>fs'. init_rom path (rom, fs) = Some (Inr (loaded bytes, fs')) \<and> fs_ok fs'"
  unfolding rom_source_def using init_rom_ok [of fs path] by (auto simp: init_rom_def loaded_def)

lemma show_controls_ok:
  assumes "gw_terminal w = loaded (spinlock_new t)" and scr: "shows_screen t (gw_vram w) s" and gl: "glyphs_ok (ge_glyph ge)"
    and fb: "inner (t_framebuffer t) = fb" "672 \<le> fb_width fb" "528 \<le> fb_height fb"
  shows "\<exists>t' m. show_controls ge w = Some (Inr (w\<lparr>gw_terminal := loaded (spinlock_new t'), gw_vram := m\<rparr>))
    \<and> lcd_ready fb (w\<lparr>gw_terminal := loaded (spinlock_new t'), gw_vram := m\<rparr>)
    \<and> shows_screen t' m (typed (cols_of fb) (rows_of fb) (ge_glyph ge) controls_text (s\<lparr>sc_cursor := (0, 2)\<rparr>))"
proof -
  have rows: "t_rows t = rows_of fb" "2 < rows_of fb" using scr fb by (auto simp: shows_screen_def Let_def CHAR_HEIGHT_def)
  obtain t1 where t1: "set_pos 0 2 t = Inr t1"
    "shows_screen t1 (gw_vram w) (s\<lparr>sc_cursor := (min 0 (t_cols t - 1), min 2 (t_rows t - 1))\<rparr>)"
    using set_pos_moves_cursor [OF scr] by blast
  have c: "(min 0 (t_cols t - 1), min 2 (t_rows t - 1)) = (0, 2 :: nat)" using rows by simp
  have "t_framebuffer t1 = t_framebuffer t" using t1(1) by (auto simp: set_pos_def and_then_eq_Inr)
  then have "inner (t_framebuffer t1) = fb" using fb(1) by simp
  then obtain t2 m where t2: "terminal_write_str (ge_glyph ge) controls_text (t1, gw_vram w) = Some (Inr (t2, m))"
    "shows_screen t2 m (typed (cols_of fb) (rows_of fb) (ge_glyph ge) controls_text (s\<lparr>sc_cursor := (0, 2)\<rparr>))"
    "inner (t_framebuffer t2) = fb"
    using write_str_refines [OF t1(2) gl] unfolding c by blast
  have "t_framebuffer t2 = spinlock_new fb" "fb_ok fb m"
    using t2(2,3) unlocked_new [of "t_framebuffer t2"] by (simp_all add: shows_screen_def Let_def)
  moreover have "show_controls ge w = Some (Inr (w\<lparr>gw_terminal := loaded (spinlock_new t2), gw_vram := m\<rparr>))"
    using assms(1) t1(1) t2(1)
    by (simp add: show_controls_def terminal_global_def loaded_def once_get_def assume_init_ref_def lock_eq spinlock_defs)
  ultimately show ?thesis using t2(2) fb(2,3)
    by (intro exI [of _ t2] exI [of _ m])
      (simp add: lcd_ready_def framebuffer_global_def terminal_global_def loaded_def once_get_def assume_init_ref_def spinlock_defs)
qed

text \<open>
  C26. Playing a game: the front end loads the ROM file when no game was played before (a later game keeps
  the bytes of the first), whose bytes are then what the emulator reads, writes the controls to
  the terminal and plays until Escape. If the events that the queue delivers contain an Escape and the
  emulator reports no error on the way, \<open>play\<close> returns right after the first Escape, unless a frame before it
  reads beyond the end of the ROM, which is then the panic that ends it. When it returns, each of the eight
  buttons is held exactly when the last event of its key (W, A, S, D for the directions, Q for Select, E for
  Start, Enter for A, Space for B) was a press (or, without one, when it was held before), and outside the
  Game Boy screen the framebuffer shows the terminal with the controls. The clock may advance by up to \<open>d\<close>
  milliseconds between two readings, as long as it does not wrap around before; no time subtraction underflows.
\<close>

theorem play_until_escape:
  assumes rom: "rom_source rom fs path bytes"
    and emu: "em_init em (gb_rom_read (loaded bytes)) gb_cart_ram_read = Inr (code, [], g)"
      "gb_contract em (loaded bytes) (em_init_lcd em g)" "\<not> gb_reports_error em (loaded bytes) (em_init_lcd em g)"
    and scr: "gw_terminal w = loaded (spinlock_new t)" "shows_screen t (gw_vram w) s" "glyphs_ok (ge_glyph ge)"
      "inner (t_framebuffer t) = fb" "672 \<le> fb_width fb" "528 \<le> fb_height fb"
    and time: "ticks f d (ge_clock ge)" "f (gw_reads w) + Suc (j - n) * (4 * d + 16) < 2 ^ 64"
    and esc: "is_escape (evs j)" "n \<le> j" "\<forall>i. n \<le> i \<longrightarrow> i < j \<longrightarrow> \<not> is_escape (evs i)"
  shows "(\<exists>fs' g' w' t' m. play ge em path evs n (rom, loaded fs, w) = Some (Inr (loaded bytes, loaded fs', g', w', Suc j))
      \<and> (\<forall>a. gb_rom_read (loaded bytes) a = (if unat a < length bytes then Inr (bytes ! unat a) else Inl IndexOutOfBounds))
      \<and> (\<forall>b. is_held (em_joypad em g') b \<longleftrightarrow> fold (track b) (map evs [n..<Suc j]) (is_held (em_joypad em (em_init_lcd em g)) b))
      \<and> shows_screen t' m (typed (cols_of fb) (rows_of fb) (ge_glyph ge) controls_text (s\<lparr>sc_cursor := (0, 2)\<rparr>))
      \<and> gw_terminal w' = loaded (spinlock_new t') \<and> lcd_only fb m (gw_vram w') \<and> fs_ok fs')
    \<or> (\<exists>p. gb_panics em (loaded bytes) (em_init_lcd em g) p \<and> play ge em path evs n (rom, loaded fs, w) = Some (Inl p))"
proof -
  obtain fs' where fs': "init_rom path (rom, fs) = Some (Inr (loaded bytes, fs'))" "fs_ok fs'"
    using rom_source_init [OF rom] by blast
  obtain t' m where t': "show_controls ge w = Some (Inr (w\<lparr>gw_terminal := loaded (spinlock_new t'), gw_vram := m\<rparr>))"
    "lcd_ready fb (w\<lparr>gw_terminal := loaded (spinlock_new t'), gw_vram := m\<rparr>)"
    "shows_screen t' m (typed (cols_of fb) (rows_of fb) (ge_glyph ge) controls_text (s\<lparr>sc_cursor := (0, 2)\<rparr>))"
    using show_controls_ok [OF scr] by blast
  let ?w = "w\<lparr>gw_terminal := loaded (spinlock_new t'), gw_vram := m\<rparr>"
  let ?loop = "play_loop ge em (loaded bytes) evs n (em_init_lcd em g, ?w)"
  have rd: "gw_reads ?w = gw_reads w" by simp
  have "filesystem (loaded fs) = Inr fs" by (simp add: filesystem_def loaded_def once_get_def assume_init_ref_def)
  then have pl: "play ge em path evs n (rom, loaded fs, w)
      = run_then ?loop (\<lambda>(g', w3, n'). Some (Inr (loaded bytes, loaded fs', g', w3, n')))"
    using fs'(1) emu(1) t'(1) by (simp add: play_def loaded_def)
  consider (ended) g' m' r where "?loop = Some (Inr (g', ?w\<lparr>gw_vram := m', gw_reads := r\<rparr>, Suc j))"
      "tracked em (em_init_lcd em g) (map evs [n..<Suc j]) g'" "lcd_only fb (gw_vram ?w) m'"
    | (panic) p where "gb_panics em (loaded bytes) (em_init_lcd em g) p" "?loop = Some (Inl p)"
    using play_loop_ends [OF emu(2) time(1) esc(1) emu(3) gb_begin t'(2) esc(2,3)] time(2) unfolding rd by blast
  then show ?thesis
  proof cases
    case ended
    then show ?thesis using t'(3) fs'(2) unfolding pl
      by (intro disjI1 exI [of _ fs'] exI [of _ g'] exI [of _ "?w\<lparr>gw_vram := m', gw_reads := r\<rparr>"] exI [of _ t'] exI [of _ m])
        (simp add: tracked_def gb_rom_read_loaded)
  next
    case panic
    then show ?thesis unfolding pl by auto
  qed
qed

text \<open>Instances: a framebuffer of 800 by 600 pixels, and an emulator that draws one line per frame.\<close>

definition svga :: framebuffer where
  "svga = \<lparr>fb_width = 800, fb_height = 600, fb_pitch = 3200, fb_address = 0xfd000000\<rparr>"

definition gb_demo_world :: gb_world where
  "gb_demo_world = \<lparr>gw_terminal = \<lparr>on_initialized = True,
       on_value = Some (spinlock_new \<lparr>t_cols = 100, t_rows = 37, t_pos = (0, 0), t_framebuffer = spinlock_new svga\<rparr>)\<rparr>,
     gw_vram = \<lparr>vm_size = 1920000, vm_byte = (\<lambda>_. 0)\<rparr>, gw_com1 = spinlock_new (com_port_new com_base_address.Com1), gw_cpu = \<lparr>cpu_rflags = 2, cpu_cr0 = 0, cpu_trace = []\<rparr>, gw_reads = 0\<rparr>"

definition gb_demo_env :: gb_env where
  "gb_demo_env = \<lparr>ge_hw = (\<lambda>_ _. 0), ge_fmt_time = (\<lambda>_. []), ge_file = [], ge_clock = of_nat, ge_glyph = (\<lambda>_. None)\<rparr>"

definition line_emulator :: "u8 emulator" where
  "line_emulator = \<lparr>em_init = (\<lambda>_ _. Inr (0, [], 0xff)), em_init_lcd = (\<lambda>g. g),
     em_run_frame = (\<lambda>_ _ g. Inr ([Lcd_Line (replicate 160 1) 7], g)), em_joypad = (\<lambda>g. g), em_set_joypad = (\<lambda>j _. j)\<rparr>"

lemma svga_size: "fb_width svga = 800" "fb_height svga = 600"
  by (simp_all add: svga_def)

lemma gb_demo_ready: "lcd_ready svga gb_demo_world"
  by (simp add: lcd_ready_def gb_demo_world_def svga_def fb_ok_def framebuffer_global_def terminal_global_def once_get_def
      assume_init_ref_def spinlock_defs)

lemma gb_demo_reads: "gw_reads gb_demo_world = 0"
  by (simp add: gb_demo_world_def)

lemma line_emulator_runs:
  "gb_contract line_emulator rom g0" "\<not> gb_reports_error line_emulator rom g0" "\<not> gb_panics line_emulator rom g0 p"
  by (simp_all add: gb_contract_def gb_reports_error_def gb_panics_def gb_frame_def line_emulator_def joypad_lens_def)

lemma gb_demo_ticks: "ticks (\<lambda>n. n) 1 (ge_clock gb_demo_env)"
  by (auto simp: ticks_def gb_demo_env_def)

theorem lcd_frame_shows_picture_witness:
  "\<exists>m. gb_calls gb_demo_env (map (\<lambda>l. Lcd_Line (replicate 160 1) l) (map of_nat [0..<144])) gb_demo_world
      = Some (Inr (gb_demo_world\<lparr>gw_vram := m\<rparr>)) \<and> pixel svga m 192 527 = 0x88c070 \<and> pixel svga m 191 527 = 0"
proof -
  have "(l :: u8) \<in> set (map of_nat [0..<144]) \<longleftrightarrow> unat l < 144" for l
  proof -
    have "unat (of_nat k :: u8) = k" if "k < 144" for k using that by (simp only: unat_of_nat) simp
    then show ?thesis by (auto intro!: image_eqI [of _ _ "unat l"])
  qed
  then obtain m where m: "gb_calls gb_demo_env (map (\<lambda>l. Lcd_Line (replicate 160 1) l) (map of_nat [0..<144])) gb_demo_world
      = Some (Inr (gb_demo_world\<lparr>gw_vram := m\<rparr>))"
    "\<And>x y. x < fb_width svga \<Longrightarrow> y < fb_height svga \<Longrightarrow> pixel svga m x y =
         (if 192 \<le> x \<and> x < 192 + 3 * 160 \<and> 96 \<le> y \<and> y < 96 + 3 * 144
          then PALETTE ! unat (replicate 160 1 ! ((x - 192) div 3) AND (3 :: u8)) else pixel svga (gw_vram gb_demo_world) x y)"
    using lcd_frame_shows_picture [OF gb_demo_ready, of "\<lambda>_. replicate 160 1" "map of_nat [0..<144]" gb_demo_env] by auto
  have "pixel svga (gw_vram gb_demo_world) 191 527 = 0" by (simp add: gb_demo_world_def pixel_def)
  then show ?thesis using m(1) m(2) [of 192 527] m(2) [of 191 527]
    by (intro exI [of _ m]) (simp add: svga_def [symmetric] PALETTE_def svga_size)
qed

abbreviation gb_demo_terminal :: terminal where
  "gb_demo_terminal \<equiv> \<lparr>t_cols = 100, t_rows = 37, t_pos = (0, 0), t_framebuffer = spinlock_new svga\<rparr>"

lemma gb_demo_screen:
  "gw_terminal gb_demo_world = loaded (spinlock_new gb_demo_terminal)" "shows_screen gb_demo_terminal (gw_vram gb_demo_world) blank_screen"
  "glyphs_ok (ge_glyph gb_demo_env)" "inner (t_framebuffer gb_demo_terminal) = svga" "672 \<le> fb_width svga" "528 \<le> fb_height svga"
  by (simp_all add: gb_demo_world_def loaded_def shows_screen_def blank_screen_def picture_def cell_pixel_def pixel_def svga_def fb_ok_def
      CHAR_WIDTH_def CHAR_HEIGHT_def glyphs_ok_def gb_demo_env_def)

abbreviation demo_file :: entry where
  "demo_file \<equiv> \<lparr>en_filename = Some ''a.txt'', en_data = [10, 20, 30, 40, 50], en_size = 5\<rparr>"

lemma demo_has_file: "has_file (tarfs_new demo_archive) ''/a.txt'' demo_file"
  using demo_fs_ok by (simp add: has_file_def tarfs_new_def demo_archive_def strip_slash_def)

definition demo_keys :: "nat \<Rightarrow> key_event option" where
  "demo_keys = (\<lambda>_. None)(1 := Some \<lparr>ke_ascii = None, ke_scancode = Some Sc_W, ke_modifiers = 0, ke_pressed = True\<rparr>,
     2 := Some \<lparr>ke_ascii = None, ke_scancode = Some Sc_Escape, ke_modifiers = 0, ke_pressed = True\<rparr>)"

lemma demo_keys_escape: "is_escape (demo_keys 2)" "\<forall>i. 0 \<le> i \<longrightarrow> i < (2 :: nat) \<longrightarrow> \<not> is_escape (demo_keys i)"
  by (auto simp: is_escape_def demo_keys_def)

lemma demo_keys_list: "map demo_keys [0..<Suc 2] = [demo_keys 0, demo_keys 1, demo_keys 2]"
  by (simp add: upt_rec numeral_2_eq_2)

theorem play_until_escape_witness:
  "\<exists>fs' g' w'. play gb_demo_env line_emulator ''/a.txt'' demo_keys 0 (once_new, loaded (tarfs_new demo_archive), gb_demo_world)
      = Some (Inr (loaded [10, 20, 30, 40, 50], loaded fs', g', w', 3))
    \<and> is_held (em_joypad line_emulator g') Joy_Up \<and> \<not> is_held (em_joypad line_emulator g') Joy_A"
proof -
  let ?play = "play gb_demo_env line_emulator ''/a.txt'' demo_keys 0 (once_new, loaded (tarfs_new demo_archive), gb_demo_world)"
  have src: "rom_source once_new (tarfs_new demo_archive) ''/a.txt'' [10, 20, 30, 40, 50]"
    unfolding rom_source_def using demo_has_file by force
  have init: "em_init line_emulator (gb_rom_read (loaded [10, 20, 30, 40, 50])) gb_cart_ram_read = Inr (0, [], 0xff)"
    by (simp add: line_emulator_def)
  have time: "gw_reads gb_demo_world + Suc (2 - 0) * (4 * 1 + 16) < 2 ^ 64" by (simp add: gb_demo_reads)
  obtain fs' g' w' where p: "?play = Some (Inr (loaded [10, 20, 30, 40, 50], loaded fs', g', w', Suc 2))"
    "\<And>b. is_held (em_joypad line_emulator g') b \<longleftrightarrow> fold (track b) (map demo_keys [0..<Suc 2]) (is_held (em_joypad line_emulator (em_init_lcd line_emulator 0xff)) b)"
    using play_until_escape [OF src init line_emulator_runs(1,2) gb_demo_screen gb_demo_ticks time demo_keys_escape(1) _ demo_keys_escape(2)]
      line_emulator_runs(3) by blast
  have "is_held (em_joypad line_emulator g') Joy_Up" "\<not> is_held (em_joypad line_emulator g') Joy_A"
    unfolding p(2) demo_keys_list by (simp_all add: demo_keys_def track_def is_held_def line_emulator_def)
  then show ?thesis using p(1) by (intro exI [of _ fs'] exI [of _ g'] exI [of _ w']) simp
qed

end
