(* ===== verification/Typing.thy ===== *)
theory Typing
  imports Keyboard Key_Queue
begin

text \<open>
  From the key strokes to the characters: the keyboard interrupts of
  \<^verbatim>\<open>kernel/src/device/keyboard.rs\<close> fill the key event queue of \<^verbatim>\<open>kernel/src/device/key.rs\<close>, and
  \<open>read_char\<close> of \<^verbatim>\<open>kernel/src/library/input.rs\<close> takes the characters out again. This theory composes
  the three components; its definitions describe the typist and the reader, not code.
\<close>

subsection \<open>The keyboard controller\<close>

text \<open>One interrupt after the other.\<close>

fun keyboard_interrupts ::
  "hw \<Rightarrow> (key_event \<Rightarrow> 'q \<Rightarrow> 'q res) \<Rightarrow> nat \<Rightarrow> keyboard spinlock \<times> 'q \<Rightarrow> cpu \<Rightarrow> ((keyboard spinlock \<times> 'q) res \<times> cpu) option" where
  "keyboard_interrupts hw push 0 s c = Some (Inr s, c)"
| "keyboard_interrupts hw push (Suc n) s c =
     (case keyboard_trigger hw push s c of
        None \<Rightarrow> None
      | Some (Inl e, c') \<Rightarrow> Some (Inl e, c')
      | Some (Inr s', c') \<Rightarrow> keyboard_interrupts hw push n s' c')"

text \<open>In each of the next interrupts the controller has a byte of the keyboard: the next one of the list.\<close>

fun delivers :: "hw \<Rightarrow> u8 list \<Rightarrow> cpu \<Rightarrow> bool" where
  "delivers hw [] c = True"
| "delivers hw (b # bs) c =
     (case inb hw control_port c of (ctrl, c1) \<Rightarrow>
      case inb hw data_port c1 of (code, c2) \<Rightarrow>
        ctrl AND OUTPUT_BUFFER_FULL \<noteq> 0 \<and> ctrl AND AUXILIARY_DEVICE = 0 \<and> code = b \<and> delivers hw bs c2)"

text \<open>Bytes whose decoding needs no answer from the controller: the events they complete and the state after them.\<close>

inductive decodes :: "hw \<Rightarrow> keyboard \<Rightarrow> u8 list \<Rightarrow> key_event list \<Rightarrow> keyboard \<Rightarrow> bool" for hw where
  nothing: "decodes hw k [] [] k"
| part: "\<lbrakk>\<forall>c. decode_byte hw b k c = Some (Inr (False, k1), c); decodes hw k1 bs es k2\<rbrakk> \<Longrightarrow> decodes hw k (b # bs) es k2"
| key: "\<lbrakk>\<forall>c. decode_byte hw b k c = Some (Inr (True, k1), c); decodes hw k1 bs es k2\<rbrakk>
    \<Longrightarrow> decodes hw k (b # bs) (kb_gather k1 # es) k2"

lemma decodes_append:
  "decodes hw k bs es k1 \<Longrightarrow> decodes hw k1 bs' es' k2 \<Longrightarrow> decodes hw k (bs @ bs') (es @ es') k2"
  by (induction rule: decodes.induct) (auto intro: decodes.intros)

lemma trigger_decodes:
  assumes "delivers hw (b # bs) c" "\<forall>c. decode_byte hw b k c = Some (Inr (complete, k1), c)"
  shows "\<exists>c1. delivers hw bs c1 \<and> keyboard_trigger hw push (spinlock_new k, q) c =
    Some (if complete then and_then (push (kb_gather k1) q) (\<lambda>q'. Inr (spinlock_new k1, q')) else Inr (spinlock_new k1, q), c1)"
  using assms by (auto simp: keyboard_trigger_def try_read_next_byte_def lock_eq spinlock_defs split: prod.splits)

lemma interrupts_push:
  assumes "decodes hw k bs es k'" and contract: "scq_contract ops held cap"
  shows "delivers hw bs c \<Longrightarrow> length (held q) + length es \<le> cap \<Longrightarrow>
    \<exists>q' c'. keyboard_interrupts hw (push_key_event ops) (length bs) (spinlock_new k, q) c = Some (Inr (spinlock_new k', q'), c') \<and> held q' = held q @ es"
  using assms(1)
proof (induction arbitrary: q c rule: decodes.induct)
  case (nothing k)
  show ?case by (intro exI [of _ q] exI [of _ c]) simp
next
  case (part b k k1 bs es k2)
  obtain c1 where "delivers hw bs c1" "keyboard_trigger hw (push_key_event ops) (spinlock_new k, q) c = Some (Inr (spinlock_new k1, q), c1)"
    using trigger_decodes [OF part.prems(1) part.hyps(1), of "push_key_event ops" q] by auto
  then show ?case using part.IH [of c1 q] part.prems(2) by simp
next
  case (key b k k1 bs es k2)
  let ?q1 = "snd (scq_try_enqueue ops (kb_gather k1) q)"
  have "push_key_event ops (kb_gather k1) q = Inr ?q1" using scq_contractD(1) [OF contract] by (simp add: push_key_event_def)
  then obtain c1 where "delivers hw bs c1" "keyboard_trigger hw (push_key_event ops) (spinlock_new k, q) c = Some (Inr (spinlock_new k1, ?q1), c1)"
    using trigger_decodes [OF key.prems(1) key.hyps(1), of "push_key_event ops" q] by auto
  moreover have "held ?q1 = held q @ [kb_gather k1]" using scq_contractD(2) [OF contract, of "kb_gather k1" q] key.prems(2) by simp
  ultimately show ?case using key.IH [of c1 ?q1] key.prems(2) by simp
qed

subsection \<open>Reading\<close>

text \<open>The answers of successive pops, and several calls of \<open>read_char\<close>.\<close>

fun pops :: "'q scq_ops \<Rightarrow> 'q \<Rightarrow> nat \<Rightarrow> key_event option" where
  "pops ops q n = (case pop_key_event ops q of
     Inl e \<Rightarrow> None
   | Inr (r, q1) \<Rightarrow> (case n of 0 \<Rightarrow> r | Suc n' \<Rightarrow> pops ops q1 n'))"

declare pops.simps [simp del]

fun read_chars :: "(nat \<Rightarrow> key_event option) \<Rightarrow> nat \<Rightarrow> nat \<Rightarrow> (u32 list \<times> nat) option" where
  "read_chars evs 0 n = Some ([], n)"
| "read_chars evs (Suc m) n =
     (case read_char evs n of
        None \<Rightarrow> None
      | Some (c, n1) \<Rightarrow> (case read_chars evs m n1 of None \<Rightarrow> None | Some (cs, n2) \<Rightarrow> Some (c # cs, n2)))"

lemma pops_held:
  assumes "scq_contract ops held cap"
  shows "i < length (held q) \<Longrightarrow> pops ops q i = Some (held q ! i)"
proof (induction i arbitrary: q)
  case (0 q)
  then obtain k ks where h: "held q = k # ks" by (cases "held q") auto
  obtain r q1 where d: "scq_try_dequeue ops q = (r, q1)" by force
  then have "r = Some k" using scq_contractD(4) [OF assms h d] by simp
  then show ?case using h d scq_contractD(1) [OF assms] by (subst pops.simps) (simp add: pop_key_event_def)
next
  case (Suc i q)
  then obtain k ks where h: "held q = k # ks" by (cases "held q") auto
  obtain r q1 where d: "scq_try_dequeue ops q = (r, q1)" by force
  then have "held q1 = ks" using scq_contractD(4) [OF assms h d] by simp
  then show ?case using Suc h d scq_contractD(1) [OF assms] by (subst pops.simps) (simp add: pop_key_event_def)
qed

definition typed_chars :: "key_event list \<Rightarrow> u32 list" where
  "typed_chars es = concat (map (\<lambda>e. if ke_pressed e then (case ke_ascii e of Some c \<Rightarrow> [c] | None \<Rightarrow> []) else []) es)"

lemma poll_char_typed:
  assumes "evs n = Some e" "ke_pressed e" "ke_ascii e = Some c"
  shows "poll_char evs n = Some (c, Suc n)"
proof -
  have "poll_key_event evs n = Some (e, Suc n)" using assms(1) by (subst poll_key_event.simps) simp
  then have "poll_key_press evs n = Some (e, Suc n)" using assms(2) by (subst poll_key_press.simps) simp
  then show ?thesis using assms(3) by (subst poll_char.simps) simp
qed

lemma poll_char_skips:
  assumes "evs n = Some e" "\<not> ke_pressed e \<or> ke_ascii e = None"
  shows "poll_char evs n = poll_char evs (Suc n)"
proof -
  have ev: "poll_key_event evs n = Some (e, Suc n)" using assms(1) by (subst poll_key_event.simps) simp
  show ?thesis
  proof (cases "ke_pressed e")
    case True
    have "poll_key_press evs n = Some (e, Suc n)" using ev True by (subst poll_key_press.simps) simp
    then show ?thesis using assms(2) True by (subst poll_char.simps) simp
  next
    case False
    have "poll_key_press evs n = poll_key_press evs (Suc n)" using ev False by (subst poll_key_press.simps) simp
    then show ?thesis by (subst (1 2) poll_char.simps) simp
  qed
qed

lemma read_chars_typed:
  "(\<And>i. i < length es \<Longrightarrow> evs (n + i) = Some (es ! i)) \<Longrightarrow>
     \<exists>n'. read_chars evs (length (typed_chars es)) n = Some (typed_chars es, n')"
proof (induction es arbitrary: n)
  case Nil
  then show ?case by (simp add: typed_chars_def)
next
  case (Cons e es)
  have e: "evs n = Some e" using Cons.prems [of 0] by simp
  have "evs (Suc n + i) = Some (es ! i)" if "i < length es" for i using Cons.prems [of "Suc i"] that by simp
  then obtain n' where ih: "read_chars evs (length (typed_chars es)) (Suc n) = Some (typed_chars es, n')"
    using Cons.IH [of "Suc n"] by blast
  show ?case
  proof (cases "\<exists>c. ke_pressed e \<and> ke_ascii e = Some c")
    case True
    then show ?thesis using ih e poll_char_typed [of evs n e] by (auto simp: typed_chars_def read_char_def)
  next
    case False
    then have "typed_chars (e # es) = typed_chars es" by (auto simp: typed_chars_def split: option.splits)
    moreover have "read_char evs n = read_char evs (Suc n)"
      unfolding read_char_def using poll_char_skips [of evs n e] e False by (cases "ke_ascii e") auto
    then have "read_chars evs m n = read_chars evs m (Suc n)" if "0 < m" for m using that by (cases m) simp_all
    ultimately show ?thesis using ih by (cases "typed_chars es") (auto simp del: read_chars.simps(2))
  qed
qed

subsection \<open>Key strokes\<close>

text \<open>A stroke presses and releases one key, alone or while the left Shift key is down.\<close>

type_synonym stroke = "u8 \<times> bool"

definition stroke_bytes :: "stroke \<Rightarrow> u8 list" where
  "stroke_bytes = (\<lambda>(code, shift). if shift then [42, code, code OR 0x80, 170] else [code, code OR 0x80])"

abbreviation stroke_table :: "bool \<Rightarrow> u8 list" where
  "stroke_table shift \<equiv> (if shift then SHIFT_TAB else NORMAL_TAB)"

definition stroke_char :: "stroke \<Rightarrow> u32" where
  "stroke_char = (\<lambda>(code, shift). ucast (stroke_table shift ! unat code))"

text \<open>The key has a character on this level.\<close>

definition typable :: "stroke \<Rightarrow> bool" where
  "typable = (\<lambda>(code, shift). unat code < 92 \<and> stroke_table shift ! unat code \<noteq> 0)"

definition resting :: "keyboard \<Rightarrow> bool" where
  "resting k \<longleftrightarrow> kb_prefix k = 0 \<and> ke_modifiers (kb_gather k) = 0"

definition modifier_code :: "u8 \<Rightarrow> bool" where
  "modifier_code code \<longleftrightarrow> code = 42 \<or> code = 54 \<or> code = 56 \<or> code = 29 \<or> code = 58 \<or> code = 70 \<or> code = 69"

lemma typable_code: "typable (code, shift) \<Longrightarrow> \<not> modifier_code code"
  by (cases shift) (auto simp: typable_def modifier_code_def NORMAL_TAB_def SHIFT_TAB_def)

lemma code_bits:
  assumes "unat (code :: u8) < 92"
  shows "code AND BREAK_BIT = 0" "(code OR BREAK_BIT) AND NOT BREAK_BIT = code" "(code OR BREAK_BIT) AND BREAK_BIT \<noteq> 0"
    "code \<noteq> PREFIX1" "code \<noteq> PREFIX2" "code OR BREAK_BIT \<noteq> PREFIX1" "code OR BREAK_BIT \<noteq> PREFIX2"
proof -
  have lt: "code < 92" using assms by (simp add: word_less_nat_alt)
  have "\<not> bit (unat code) 7" using assms by (simp add: bit_iff_odd)
  then have b7: "\<not> bit code 7" by (simp add: bit_unsigned_iff)
  have B: "BREAK_BIT = flag 7" by (simp add: BREAK_BIT_def flag_def)
  show 1: "code AND BREAK_BIT = 0" unfolding B by (rule bit_word_eqI) (use b7 in \<open>auto simp: flag_ops\<close>)
  show 2: "(code OR BREAK_BIT) AND NOT BREAK_BIT = code" unfolding B by (rule bit_word_eqI) (use b7 in \<open>auto simp: flag_ops\<close>)
  have "bit ((code OR BREAK_BIT) AND BREAK_BIT) 7" unfolding B by (simp add: flag_ops)
  then show "(code OR BREAK_BIT) AND BREAK_BIT \<noteq> 0" by auto
  show "code \<noteq> PREFIX1" "code \<noteq> PREFIX2" using lt by (auto simp: kb_consts)
  show "code OR BREAK_BIT \<noteq> PREFIX1" "code OR BREAK_BIT \<noteq> PREFIX2" using 2 lt by (auto simp: kb_consts)
qed

text \<open>The event that the press or the release of a key completes.\<close>

definition stroke_event :: "stroke \<Rightarrow> bool \<Rightarrow> key_event" where
  "stroke_event s p = \<lparr>ke_ascii = Some (stroke_char s), ke_scancode = scancode_try_from (fst s),
     ke_modifiers = (if snd s then SHIFT else 0), ke_pressed = p\<rparr>"

definition shifted :: "bool \<Rightarrow> keyboard \<Rightarrow> bool" where
  "shifted shift k \<longleftrightarrow> kb_prefix k = 0 \<and> ke_modifiers (kb_gather k) = (if shift then SHIFT else 0)"

lemma resting_shifted: "resting k \<longleftrightarrow> shifted False k"
  by (simp add: resting_def shifted_def)

lemma complete_stroke:
  assumes "shifted shift k" "typable (code, shift)"
  shows "complete_key code 0 p (k\<lparr>kb_prefix := 0\<rparr>) = Inr (True, k\<lparr>kb_gather := stroke_event (code, shift) p\<rparr>)"
proof -
  have len: "length NORMAL_TAB = 92" "length SHIFT_TAB = 92" using table_lengths by simp_all
  have k: "kb_prefix k = 0" "k\<lparr>kb_prefix := 0\<rparr> = k" using assms(1) by (simp_all add: shifted_def)
  have "flags_contain (ke_modifiers (kb_gather k)) NUM_LOCK = False" "flags_contain (ke_modifiers (kb_gather k)) ALT_RIGHT = False"
    "flags_contain (ke_modifiers (kb_gather k)) CAPS_LOCK = False" "flags_contain (ke_modifiers (kb_gather k)) SHIFT = shift"
    using assms(1) by (auto simp: shifted_def flags_contain_def modifier_defs)
  then have "parse_ascii_code code 0 (kb_gather k) = key_from_table (stroke_table shift) code (kb_gather k)"
    by (simp add: parse_ascii_code_def)
  then show ?thesis using assms len
    by (cases "kb_gather k")
      (auto simp: complete_key_def k key_from_table_def typable_def set_ascii_def set_scancode_def set_pressed_def stroke_event_def stroke_char_def shifted_def)
qed

lemma decode_stroke:
  assumes "shifted shift k" "typable (code, shift)"
  shows "decode_byte hw code k c = Some (Inr (True, k\<lparr>kb_gather := stroke_event (code, shift) True\<rparr>), c)"
    "decode_byte hw (code OR BREAK_BIT) k c = Some (Inr (True, k\<lparr>kb_gather := stroke_event (code, shift) False\<rparr>), c)"
proof -
  have lt: "unat code < 92" using assms(2) by (simp add: typable_def)
  note cb = code_bits [OF lt] and m = typable_code [OF assms(2)]
  have p: "kb_prefix k = 0" using assms(1) by (simp add: shifted_def)
  show "decode_byte hw code k c = Some (Inr (True, k\<lparr>kb_gather := stroke_event (code, shift) True\<rparr>), c)"
    using cb m p complete_stroke [OF assms] by (simp add: decode_byte_def decode_press_def modifier_code_def)
  show "decode_byte hw (code OR BREAK_BIT) k c = Some (Inr (True, k\<lparr>kb_gather := stroke_event (code, shift) False\<rparr>), c)"
    using cb m p complete_stroke [OF assms] by (simp add: decode_byte_def decode_release_def modifier_code_def)
qed

lemma decode_shift:
  "resting k \<Longrightarrow> decode_byte hw 42 k c = Some (Inr (False, k\<lparr>kb_gather := insert_modifiers SHIFT (kb_gather k)\<rparr>), c)"
  "shifted True k \<Longrightarrow> decode_byte hw 170 k c = Some (Inr (False, k\<lparr>kb_gather := remove_modifiers SHIFT (kb_gather k)\<rparr>), c)"
  by (simp_all add: decode_byte_def decode_press_def decode_release_def kb_consts resting_def shifted_def Let_def)

lemma stroke_decodes:
  assumes "resting k" "typable s"
  shows "\<exists>k'. resting k' \<and> decodes hw k (stroke_bytes s) [stroke_event s True, stroke_event s False] k'"
proof -
  obtain code shift where s: "s = (code, shift)" by force
  have st: "shifted sh (k1\<lparr>kb_gather := stroke_event (code, sh) p\<rparr>)" if "shifted sh k1" for sh k1 p
    using that by (simp add: shifted_def stroke_event_def)
  have two: "decodes hw k1 [code, code OR BREAK_BIT] [stroke_event s True, stroke_event s False] (k1\<lparr>kb_gather := stroke_event s False\<rparr>)"
    if k1: "shifted shift k1" for k1
  proof -
    have t: "typable (code, shift)" using assms(2) s by simp
    have "decodes hw (k1\<lparr>kb_gather := stroke_event s True\<rparr>) [code OR BREAK_BIT] [stroke_event s False] (k1\<lparr>kb_gather := stroke_event s False\<rparr>)"
      using decodes.key [OF allI [OF decode_stroke(2) [OF st [OF k1, of True] t]] decodes.nothing] by (simp add: s)
    then show ?thesis using decodes.key [OF allI [OF decode_stroke(1) [OF k1 t]]] by (simp add: s)
  qed
  show ?thesis
  proof (cases shift)
    case False
    then show ?thesis using two [of k] assms(1) st [of False k False] s
      by (intro exI [of _ "k\<lparr>kb_gather := stroke_event s False\<rparr>"]) (simp add: stroke_bytes_def resting_shifted BREAK_BIT_def)
  next
    case True
    let ?k1 = "k\<lparr>kb_gather := insert_modifiers SHIFT (kb_gather k)\<rparr>"
    let ?k2 = "?k1\<lparr>kb_gather := stroke_event s False\<rparr>"
    let ?k3 = "?k2\<lparr>kb_gather := remove_modifiers SHIFT (kb_gather ?k2)\<rparr>"
    have k1: "shifted True ?k1" using assms(1) by (simp add: shifted_def resting_def insert_modifiers_def)
    have k2: "shifted True ?k2" using st [OF k1] s True by simp
    have "resting ?k3" using k2 by (simp add: resting_def shifted_def remove_modifiers_def)
    moreover have "decodes hw ?k1 ([code, code OR BREAK_BIT] @ [170]) ([stroke_event s True, stroke_event s False] @ []) ?k3"
      using two [of ?k1] k1 True decodes.part [OF allI [OF decode_shift(2) [OF k2]] decodes.nothing] by (intro decodes_append) auto
    then have "decodes hw k (42 # ([code, code OR BREAK_BIT] @ [170])) [stroke_event s True, stroke_event s False] ?k3"
      using decodes.part [OF allI [OF decode_shift(1) [OF assms(1)]]] by simp
    ultimately show ?thesis using s True by (intro exI [of _ ?k3]) (simp add: stroke_bytes_def BREAK_BIT_def)
  qed
qed

lemma strokes_decode:
  "resting k \<Longrightarrow> \<forall>s \<in> set ss. typable s \<Longrightarrow>
     \<exists>k'. resting k' \<and> decodes hw k (concat (map stroke_bytes ss)) (concat (map (\<lambda>s. [stroke_event s True, stroke_event s False]) ss)) k'"
proof (induction ss arbitrary: k)
  case Nil
  then show ?case using decodes.nothing by auto
next
  case (Cons s ss)
  obtain k1 where k1: "resting k1" "decodes hw k (stroke_bytes s) [stroke_event s True, stroke_event s False] k1"
    using stroke_decodes [of k s hw] Cons.prems by auto
  obtain k2 where "resting k2"
    "decodes hw k1 (concat (map stroke_bytes ss)) (concat (map (\<lambda>s. [stroke_event s True, stroke_event s False]) ss)) k2"
    using Cons.IH [OF k1(1)] Cons.prems(2) by auto
  then show ?case using decodes_append [OF k1(2)] by auto
qed

text \<open>
  C12. What is typed is what is read. Whoever types a text of up to 64 strokes, with or without Shift, at a keyboard
  at rest: after the keyboard interrupts for all bytes the keyboard is at rest again, and the next calls of \<open>read_char\<close> on
  the key queue return exactly the characters of the strokes, in order. No interrupt panics or blocks, and no
  event is lost.
\<close>

theorem typed_is_read:
  assumes contract: "scq_contract ops held KEY_QUEUE_SIZE" and q: "held q = []"
    and rest: "resting k" and strokes: "\<forall>s \<in> set ss. typable s" "length ss \<le> 64"
    and hw: "delivers hw (concat (map stroke_bytes ss)) c"
  shows "\<exists>k' q' c' n. keyboard_interrupts hw (push_key_event ops) (length (concat (map stroke_bytes ss))) (spinlock_new k, q) c
      = Some (Inr (spinlock_new k', q'), c') \<and> resting k'
    \<and> read_chars (pops ops q') (length ss) 0 = Some (map stroke_char ss, n)"
proof -
  let ?es = "concat (map (\<lambda>s. [stroke_event s True, stroke_event s False]) ss)"
  obtain k' where k': "resting k'" "decodes hw k (concat (map stroke_bytes ss)) ?es k'" using strokes_decode [OF rest strokes(1)] by blast
  have len: "length ?es = 2 * length ss" by (induction ss) simp_all
  obtain q' c' where i: "keyboard_interrupts hw (push_key_event ops) (length (concat (map stroke_bytes ss))) (spinlock_new k, q) c
      = Some (Inr (spinlock_new k', q'), c')" "held q' = ?es"
    using interrupts_push [OF k'(2) contract hw, of q] q strokes(2) unfolding len by (auto simp: KEY_QUEUE_SIZE_def)
  have chars: "typed_chars ?es = map stroke_char ss" by (induction ss) (simp_all add: typed_chars_def stroke_event_def)
  then obtain n where "read_chars (pops ops q') (length (map stroke_char ss)) 0 = Some (map stroke_char ss, n)"
    using read_chars_typed [of ?es "pops ops q'" 0] pops_held [OF contract, of _ q'] i(2) by auto
  then show ?thesis using i(1) k'(1) by auto
qed

text \<open>A controller that hands out the bytes of a list, one with each reading of the data port.\<close>

definition typing_hw :: "u8 list \<Rightarrow> hw" where
  "typing_hw bs tr p = (if p = control_port then 1
     else if p = data_port then ucast (bs ! length (filter (\<lambda>e. case e of In8 q _ \<Rightarrow> q = data_port | _ \<Rightarrow> False) tr)) else 0)"

definition demo_strokes :: "stroke list" where
  "demo_strokes = [(30, False), (48, True), (28, False)]"

theorem typed_is_read_witness:
  "\<exists>k' q' c' n. keyboard_interrupts (typing_hw [30, 158, 42, 48, 176, 170, 28, 156]) (push_key_event list_scq) 8 (spinlock_new keyboard_new, []) idle_cpu
      = Some (Inr (spinlock_new k', q'), c') \<and> read_chars (pops list_scq q') 3 0 = Some ([97, 66, 13], n)"
proof -
  have b: "concat (map stroke_bytes demo_strokes) = [30, 158, 42, 48, 176, 170, 28, 156]"
    by (simp add: demo_strokes_def stroke_bytes_def)
  have d: "delivers (typing_hw [30, 158, 42, 48, 176, 170, 28, 156]) (concat (map stroke_bytes demo_strokes)) idle_cpu"
    unfolding b by (simp add: typing_hw_def inb_def idle_cpu_def kb_consts Let_def)
  have r: "resting keyboard_new" by (simp add: resting_def keyboard_new_def key_event_new_def)
  have t: "\<forall>s \<in> set demo_strokes. typable s" "length demo_strokes \<le> 64"
    by (simp_all add: demo_strokes_def typable_def NORMAL_TAB_def SHIFT_TAB_def)
  have ch: "map stroke_char demo_strokes = [97, 66, 13]"
    by (simp add: demo_strokes_def stroke_char_def NORMAL_TAB_def SHIFT_TAB_def)
  have l: "length demo_strokes = 3" "length [30, 158, 42, 48, 176, 170, 28, 156 :: u8] = 8" by (simp_all add: demo_strokes_def)
  show ?thesis using typed_is_read [OF list_scq_contract _ r t d, of "[]"] unfolding b ch l by blast
qed

end
