(* ===== verification/Console.thy ===== *)
theory Console
  imports Terminal
begin

text \<open>
  The global terminal as its clients use it, through the macros of \<^verbatim>\<open>kernel/src/device/terminal.rs\<close>: \<open>print!\<close>
  and \<open>println!\<close> take the lock for one text, \<open>print_terminal!\<close> writes several things under a lock that the
  caller holds. A console is the global terminal with its video memory; \<open>console\<close> relates it to the screen it
  shows while its lock is free.
\<close>

type_synonym console_state = "terminal spinlock once \<times> vram"

definition chars :: "string \<Rightarrow> u32 list" where
  "chars = map of_char"

text \<open>\<open>terminal().lock()\<close>, the work \<open>f\<close> under the guard, and the drop of the guard.\<close>

definition with_terminal :: "(terminal \<times> vram \<Rightarrow> (terminal \<times> vram) res option) \<Rightarrow> console_state \<Rightarrow> console_state res option" where
  "with_terminal f = (\<lambda>(g, m).
     run_then (Some (terminal_global g)) (\<lambda>t.
     case lock t of
       None \<Rightarrow> None
     | Some l \<Rightarrow> run_then (f (guard_deref l, m)) (\<lambda>(t', m').
         Some (Inr (g\<lparr>on_value := Some (guard_drop (guard_deref_mut (\<lambda>_. t') l))\<rparr>, m')))))"

text \<open>\<open>print_terminal!\<close> hands the formatted text to \<open>write_str\<close>, which never reports an error.\<close>

definition print_terminal :: "(u32 \<Rightarrow> u8 list option) \<Rightarrow> u32 list \<Rightarrow> terminal \<times> vram \<Rightarrow> (terminal \<times> vram) res option" where
  "print_terminal glyph text tm = terminal_write_str glyph text tm"

definition println :: "(u32 \<Rightarrow> u8 list option) \<Rightarrow> u32 list \<Rightarrow> console_state \<Rightarrow> console_state res option" where
  "println glyph text = (\<lambda>(g, m). print glyph (text @ [10]) g m)"

text \<open>\<open>set_pos\<close> followed by \<open>print_terminal!\<close>.\<close>

definition print_at :: "(u32 \<Rightarrow> u8 list option) \<Rightarrow> nat \<Rightarrow> nat \<Rightarrow> u32 list \<Rightarrow> terminal \<times> vram \<Rightarrow> (terminal \<times> vram) res option" where
  "print_at glyph col row text = (\<lambda>(t, m). run_then (Some (set_pos col row t)) (\<lambda>t1. print_terminal glyph text (t1, m)))"

definition prints :: "(u32 \<Rightarrow> u8 list option) \<Rightarrow> u32 list list \<Rightarrow> console_state \<Rightarrow> console_state res option" where
  "prints glyph = write_all (\<lambda>text (g, m). print glyph text g m)"

subsection \<open>What the console shows\<close>

definition console :: "framebuffer \<Rightarrow> (u32 \<Rightarrow> u8 list option) \<Rightarrow> console_state \<Rightarrow> screen \<Rightarrow> bool" where
  "console fb glyph gm s \<longleftrightarrow> (case gm of (g, m) \<Rightarrow> glyphs_ok glyph
     \<and> (\<exists>t. once_get g = Inr (Some t) \<and> \<not> is_locked t \<and> shows_screen (inner t) m s \<and> inner (t_framebuffer (inner t)) = fb))"

lemma once_get_Some: "once_get g = Inr (Some t) \<longleftrightarrow> on_initialized g \<and> on_value g = Some t"
  by (auto simp: once_get_def assume_init_ref_def and_then_def split: if_splits sum.splits option.splits)

lemma with_terminal_shows:
  assumes "console fb glyph gm s"
    and "\<And>t m. shows_screen t m s \<Longrightarrow> inner (t_framebuffer t) = fb \<Longrightarrow>
      \<exists>t' m'. f (t, m) = Some (Inr (t', m')) \<and> shows_screen t' m' s' \<and> inner (t_framebuffer t') = fb"
  shows "\<exists>gm'. with_terminal f gm = Some (Inr gm') \<and> console fb glyph gm' s'"
proof -
  obtain g m where gm: "gm = (g, m)" by force
  then obtain t where t: "once_get g = Inr (Some t)" "\<not> is_locked t" "shows_screen (inner t) m s"
    "inner (t_framebuffer (inner t)) = fb" "glyphs_ok glyph"
    using assms(1) by (auto simp: console_def)
  obtain t' m' where f: "f (inner t, m) = Some (Inr (t', m'))" "shows_screen t' m' s'" "inner (t_framebuffer t') = fb"
    using assms(2) [OF t(3,4)] by blast
  let ?g = "g\<lparr>on_value := Some (spinlock_new t')\<rparr>"
  have "once_get ?g = Inr (Some (spinlock_new t'))" using t(1) by (simp add: once_get_Some)
  then have "console fb glyph (?g, m') s'" using f t(5) by (simp add: console_def)
  moreover have "with_terminal f gm = Some (Inr (?g, m'))"
    using t(1,2) f(1) by (simp add: with_terminal_def gm terminal_global_def lock_eq spinlock_defs)
  ultimately show ?thesis by blast
qed

lemma print_with_terminal: "print glyph text g m = with_terminal (terminal_write_str glyph text) (g, m)"
  by (auto simp: print_def with_terminal_def run_then_def split: option.splits sum.splits)

lemma write_shows:
  assumes "console fb glyph gm s"
  shows "\<exists>gm'. with_terminal (terminal_write_str glyph cs) gm = Some (Inr gm') \<and> console fb glyph gm' (typed (cols_of fb) (rows_of fb) glyph cs s)"
proof (rule with_terminal_shows [OF assms])
  fix t m
  assume "shows_screen t m s" "inner (t_framebuffer t) = fb"
  moreover have "glyphs_ok glyph" using assms by (auto simp: console_def)
  ultimately show "\<exists>t' m'. terminal_write_str glyph cs (t, m) = Some (Inr (t', m'))
      \<and> shows_screen t' m' (typed (cols_of fb) (rows_of fb) glyph cs s) \<and> inner (t_framebuffer t') = fb"
    using write_str_refines by blast
qed

lemma print_shows:
  assumes "once_get g = Inr (Some t)" "\<not> is_locked t" "shows_screen (inner t) v s" "glyphs_ok glyph"
    and fb: "fb = inner (t_framebuffer (inner t))"
  shows "\<exists>g' t' v'. print glyph cs g v = Some (Inr (g', v')) \<and> once_get g' = Inr (Some t') \<and> \<not> is_locked t'
    \<and> shows_screen (inner t') v' (typed (cols_of fb) (rows_of fb) glyph cs s) \<and> inner (t_framebuffer (inner t')) = fb"
proof -
  have "console fb glyph (g, v) s" using assms by (auto simp: console_def)
  from write_shows [OF this, of cs] show ?thesis unfolding print_with_terminal by (auto simp: console_def)
qed

interpretation console: text_sink "\<lambda>text (g, m). print glyph text g m" "console fb glyph" "typed (cols_of fb) (rows_of fb) glyph"
  for glyph fb
proof
  fix gm :: console_state and cs :: "u32 list" and s :: screen
  obtain g m where gm: "gm = (g, m)" by force
  assume "console fb glyph gm s"
  from write_shows [OF this, of cs]
  show "\<exists>gm'. (case gm of (g, m) \<Rightarrow> print glyph cs g m) = Some (Inr gm') \<and> console fb glyph gm' (typed (cols_of fb) (rows_of fb) glyph cs s)"
    by (simp add: gm print_with_terminal)
qed

lemma typed_append: "typed cols rows glyph (a @ b) s = typed cols rows glyph b (typed cols rows glyph a s)"
  by (simp add: typed_def)

lemma typed_concat: "fold (typed cols rows glyph) texts s = typed cols rows glyph (concat texts) s"
  by (induction texts arbitrary: s) (simp_all add: typed_append, simp add: typed_def)

text \<open>Several texts in a row show like one.\<close>

lemma prints_show:
  assumes "console fb glyph gm s"
  shows "\<exists>gm'. prints glyph texts gm = Some (Inr gm') \<and> console fb glyph gm' (typed (cols_of fb) (rows_of fb) glyph (concat texts) s)"
  using console.write_all_simulates [OF assms] by (simp add: prints_def typed_concat)

lemma println_shows:
  assumes "console fb glyph gm s"
  shows "\<exists>gm'. println glyph cs gm = Some (Inr gm') \<and> console fb glyph gm' (typed (cols_of fb) (rows_of fb) glyph (cs @ [10]) s)"
  using console.put_simulates [OF assms, of "cs @ [10]"] by (simp add: println_def)

lemma clear_shows:
  assumes "console fb glyph gm s"
  shows "\<exists>gm'. with_terminal (\<lambda>(t, m). terminal_clear t m) gm = Some (Inr gm') \<and> console fb glyph gm' blank_screen"
proof (rule with_terminal_shows [OF assms])
  fix t m
  assume t: "shows_screen t m s" "inner (t_framebuffer t) = fb"
  obtain t' m' where c: "terminal_clear t m = Some (Inr (t', m'))" "shows_screen t' m' blank_screen"
    using clear_shows_blank [OF t(1)] by blast
  moreover have "inner (t_framebuffer t') = fb"
    using c(1) t(2) by (auto simp: terminal_clear_def lock_eq spinlock_defs and_then_eq_Inr split: if_splits)
  ultimately show "\<exists>t' m'. (\<lambda>(t, m). terminal_clear t m) (t, m) = Some (Inr (t', m')) \<and> shows_screen t' m' blank_screen
      \<and> inner (t_framebuffer t') = fb" by auto
qed

definition cursor_to :: "framebuffer \<Rightarrow> nat \<Rightarrow> nat \<Rightarrow> screen \<Rightarrow> screen" where
  "cursor_to fb col row s = s\<lparr>sc_cursor := (min col (cols_of fb - 1), min row (rows_of fb - 1))\<rparr>"

lemma set_pos_shows:
  assumes "shows_screen t m s" "inner (t_framebuffer t) = fb"
  shows "\<exists>t'. set_pos col row t = Inr t' \<and> shows_screen t' m (cursor_to fb col row s) \<and> inner (t_framebuffer t') = fb"
proof -
  obtain t' where t': "set_pos col row t = Inr t'" "shows_screen t' m (s\<lparr>sc_cursor := (min col (t_cols t - 1), min row (t_rows t - 1))\<rparr>)"
    using set_pos_moves_cursor [OF assms(1)] by blast
  moreover have "t_framebuffer t' = t_framebuffer t" using t'(1) by (auto simp: set_pos_def and_then_eq_Inr)
  ultimately show ?thesis using shows_screen_size [OF assms(1)] assms(2) by (simp add: cursor_to_def)
qed

lemma print_at_shows:
  assumes "console fb glyph gm s"
  shows "\<exists>gm'. with_terminal (print_at glyph col row text) gm = Some (Inr gm')
    \<and> console fb glyph gm' (typed (cols_of fb) (rows_of fb) glyph text (cursor_to fb col row s))"
proof (rule with_terminal_shows [OF assms])
  fix t m
  assume "shows_screen t m s" "inner (t_framebuffer t) = fb"
  then obtain t1 where t1: "set_pos col row t = Inr t1" "shows_screen t1 m (cursor_to fb col row s)" "inner (t_framebuffer t1) = fb"
    using set_pos_shows by blast
  have "glyphs_ok glyph" using assms by (auto simp: console_def)
  then show "\<exists>t' m'. print_at glyph col row text (t, m) = Some (Inr (t', m'))
      \<and> shows_screen t' m' (typed (cols_of fb) (rows_of fb) glyph text (cursor_to fb col row s)) \<and> inner (t_framebuffer t') = fb"
    using write_str_refines [OF t1(2) _ t1(3)] t1(1) by (auto simp: print_at_def print_terminal_def)
qed

text \<open>While somebody holds the lock of the terminal, a print never returns.\<close>

lemma print_blocked:
  assumes "once_get g = Inr (Some t)" "is_locked t"
  shows "print glyph text g m = None"
  using assms by (simp add: print_with_terminal with_terminal_def terminal_global_def lock_eq spinlock_defs)

end
