(* ===== verification/Demo_Threads.thy ===== *)
theory Demo_Threads
  imports Console Pit
begin

text \<open>
  The thread demonstrations of \<^verbatim>\<open>kernel/src/demo/lesson4.rs\<close>, \<^verbatim>\<open>lesson5.rs\<close> and \<^verbatim>\<open>lesson8.rs\<close>: threads that print to the
  terminal while the scheduler switches between them. A round is one pass of a thread through its loop, up
  to the point where it has released the terminal; threads are interleaved round by round, as the
  lock of the terminal makes them. \<open>tid\<close> is the number that \<open>get_active_tid\<close> answers to the thread whenever it runs.
\<close>

subsection \<open>Lesson 5: three threads that end\<close>

definition thread_text :: "usize \<Rightarrow> nat \<Rightarrow> u32 list" where
  "thread_text tid counter = chars (''Thread ['' @ dec_digits (unat tid) @ '']: '' @ dec_digits counter)"

definition thread5_ends :: "usize \<Rightarrow> nat \<Rightarrow> bool" where
  "thread5_ends tid counter \<longleftrightarrow> tid mod 3 = 0 \<and> counter = 501 \<or> tid mod 3 = 1 \<and> counter = 1001 \<or> tid mod 3 = 2 \<and> counter = 1501"

text \<open>The answer is \<^term>\<open>None\<close> when the thread returns, else whether it yields and its next counter.\<close>

definition thread5_round ::
  "(u32 \<Rightarrow> u8 list option) \<Rightarrow> usize \<Rightarrow> nat \<Rightarrow> console_state \<Rightarrow> ((bool \<times> nat) option \<times> console_state) res option" where
  "thread5_round glyph tid counter gm =
     (if thread5_ends tid counter
      then run_then (with_terminal (\<lambda>tm. Some (Inr tm)) gm) (\<lambda>gm'. Some (Inr (None, gm')))
      else run_then (with_terminal (print_at glyph 8 (8 + unat (tid mod 3) * 2) (thread_text tid counter)) gm) (\<lambda>gm'.
        Some (Inr (Some (counter mod 10 = 0, Suc counter), gm'))))"

definition thread5_demo :: "thread \<Rightarrow> thread \<Rightarrow> thread \<Rightarrow> scheduler \<Rightarrow> unit outcome" where
  "thread5_demo a b c s =
     (case ready a s of
        Done _ s1 \<Rightarrow> (case ready b s1 of Done _ s2 \<Rightarrow> ready c s2 | r \<Rightarrow> r)
      | r \<Rightarrow> r)"

subsection \<open>Lesson 4: a thread that kills the others\<close>

datatype round4 = Continues nat scheduler console_state | Exits "unit outcome" console_state

text \<open>The calls of the scheduler that return.\<close>

definition returned :: "'a outcome \<Rightarrow> ('a \<times> scheduler) res option" where
  "returned r = (case r of Done x s \<Rightarrow> Some (Inr (x, s)) | Panicked e \<Rightarrow> Some (Inl e) | _ \<Rightarrow> None)"

text \<open>
  The guard of the terminal lives until it is dropped after the print; \<open>exit\<close> never returns, so at the
  end of thread 0 it is still held. \<open>l\<close> is the lock of the terminal, taken.
\<close>

definition thread4_round ::
  "(u32 \<Rightarrow> u8 list option) \<Rightarrow> usize \<Rightarrow> nat \<Rightarrow> scheduler \<Rightarrow> console_state \<Rightarrow> round4 res option" where
  "thread4_round glyph sp counter s = (\<lambda>(g, m).
     run_then (Some (terminal_global g)) (\<lambda>t.
     case lock t of
       None \<Rightarrow> None
     | Some l \<Rightarrow>
         run_then (returned (get_active_tid s)) (\<lambda>(tid, s1).
         run_then (if tid = 0 \<and> counter = 1501 then returned (kill 2 s1) else Some (Inr ((), s1))) (\<lambda>(_, s2).
         run_then (if tid = 0 \<and> counter = 3001 then returned (kill 1 s2) else Some (Inr ((), s2))) (\<lambda>(_, s3).
         if tid = 0 \<and> counter = 5001
         then
           run_then (print_at glyph 8 5
               (chars (''Thread ['' @ dec_digits (unat tid) @ ''] killed the other threads and exits itself.'')) (guard_deref l, m)) (\<lambda>(t', m').
             Some (Inr (Exits (exit sp s3) (g\<lparr>on_value := Some (guard_deref_mut (\<lambda>_. t') l)\<rparr>, m'))))
         else
           run_then (Some (umul tid 2)) (\<lambda>a. run_then (Some (uadd 8 a)) (\<lambda>row.
           run_then (print_at glyph 8 (unat row) (thread_text tid counter) (guard_deref l, m)) (\<lambda>(t', m').
             Some (Inr (Continues (Suc counter) s3 (g\<lparr>on_value := Some (guard_drop (guard_deref_mut (\<lambda>_. t') l))\<rparr>, m')))))))))))"

subsection \<open>Lesson 8: a thread that fills a line\<close>

definition put_at :: "(u32 \<Rightarrow> u8 list option) \<Rightarrow> nat \<Rightarrow> nat \<Rightarrow> u32 \<Rightarrow> terminal \<times> vram \<Rightarrow> (terminal \<times> vram) res option" where
  "put_at glyph col row c = (\<lambda>(t, m). run_then (Some (set_pos col row t)) (\<lambda>t1. put_char glyph c t1 m))"

text \<open>The loop over the columns; the readings of the clock are numbered. The user thread waits in a loop of its own, with the same readings.\<close>

fun line_loop ::
  "(u32 \<Rightarrow> u8 list option) \<Rightarrow> (nat \<Rightarrow> usize) \<Rightarrow> u32 \<Rightarrow> usize \<Rightarrow> nat list \<Rightarrow> console_state \<times> nat \<Rightarrow> (console_state \<times> nat) res option" where
  "line_loop glyph clock c tid [] s = Some (Inr s)"
| "line_loop glyph clock c tid (i # is) (gm, n) =
     run_then (with_terminal (put_at glyph i (unat tid) c) gm) (\<lambda>gm'.
     run_then (wait (\<lambda>k. clock (n + k)) 1000) (\<lambda>k. line_loop glyph clock c tid is (gm', Suc (n + k))))"

definition line_thread ::
  "(u32 \<Rightarrow> u8 list option) \<Rightarrow> (nat \<Rightarrow> usize) \<Rightarrow> u32 \<Rightarrow> usize \<Rightarrow> console_state \<times> nat \<Rightarrow> (console_state \<times> nat) res option" where
  "line_thread glyph clock c tid = (\<lambda>((g, m), n).
     run_then (Some (terminal_global g)) (\<lambda>t.
     case lock t of
       None \<Rightarrow> None
     | Some l \<Rightarrow>
         run_then (Some (nsub (fst (terminal_size (guard_deref l))) 1)) (\<lambda>last.
           line_loop glyph clock c tid [0..<last] ((g, m), n))))"

definition kernel_thread ::
  "(u32 \<Rightarrow> u8 list option) \<Rightarrow> (nat \<Rightarrow> usize) \<Rightarrow> usize \<Rightarrow> console_state \<times> nat \<Rightarrow> (console_state \<times> nat) res option" where
  "kernel_thread glyph clock = line_thread glyph clock (of_char (CHR ''K''))"

definition user_thread ::
  "(u32 \<Rightarrow> u8 list option) \<Rightarrow> (nat \<Rightarrow> usize) \<Rightarrow> usize \<Rightarrow> console_state \<times> nat \<Rightarrow> (console_state \<times> nat) res option" where
  "user_thread glyph clock = line_thread glyph clock (of_char (CHR ''U''))"

definition user_thread_demo :: "thread \<Rightarrow> thread \<Rightarrow> scheduler \<Rightarrow> unit outcome" where
  "user_thread_demo k1 u1 s = (case ready k1 s of Done _ s1 \<Rightarrow> ready u1 s1 | r \<Rightarrow> r)"

subsection \<open>Text on one line\<close>

definition shows_at :: "(u32 \<Rightarrow> u8 list option) \<Rightarrow> nat \<Rightarrow> nat \<Rightarrow> u32 list \<Rightarrow> screen \<Rightarrow> bool" where
  "shows_at glyph col row cs s \<longleftrightarrow>
     (\<forall>i < length cs. sc_grid s (col + i) row = Glyph (the (glyph (cs ! i))) DEFAULT_FG_COLOR DEFAULT_BG_COLOR)"

definition displayable :: "(u32 \<Rightarrow> u8 list option) \<Rightarrow> u32 list \<Rightarrow> bool" where
  "displayable glyph cs \<longleftrightarrow> (\<forall>c \<in> set cs. c \<noteq> 10 \<and> glyph c \<noteq> None)"

lemma typed_line:
  assumes "displayable glyph cs" "sc_cursor s = (col, row)" "col + length cs < cols"
  shows "sc_cursor (typed cols rows glyph cs s) = (col + length cs, row)
    \<and> shows_at glyph col row cs (typed cols rows glyph cs s)
    \<and> (\<forall>x y. y \<noteq> row \<or> x < col \<or> col + length cs \<le> x \<longrightarrow> sc_grid (typed cols rows glyph cs s) x y = sc_grid s x y)"
  using assms
proof (induction cs arbitrary: s col)
  case Nil
  then show ?case by (simp add: typed_def shows_at_def)
next
  case (Cons c cs)
  obtain g where g: "glyph c = Some g" "c \<noteq> 10" using Cons.prems(1) by (auto simp: displayable_def)
  define s1 where "s1 = s\<lparr>sc_cursor := (Suc col, row), sc_grid := set_cell col row (Glyph g DEFAULT_FG_COLOR DEFAULT_BG_COLOR) (sc_grid s)\<rparr>"
  have s1: "typed cols rows glyph (c # cs) s = typed cols rows glyph cs s1"
    using g Cons.prems(2,3) by (simp add: typed_def put_def s1_def)
  have cell: "sc_grid s1 x y = (if (x, y) = (col, row) then Glyph g DEFAULT_FG_COLOR DEFAULT_BG_COLOR else sc_grid s x y)" for x y
    by (simp add: s1_def set_cell_def)
  have p: "displayable glyph cs" "sc_cursor s1 = (Suc col, row)" "Suc col + length cs < cols"
    using Cons.prems by (simp_all add: displayable_def s1_def)
  note ih = Cons.IH [OF p]
  have "sc_grid (typed cols rows glyph cs s1) (col + i) row = Glyph (the (glyph ((c # cs) ! i))) DEFAULT_FG_COLOR DEFAULT_BG_COLOR"
    if "i < length (c # cs)" for i
    using that ih g(1) cell [of col row] by (cases i) (auto simp: shows_at_def)
  then show ?case using ih cell unfolding s1 by (auto simp: shows_at_def)
qed

text \<open>The font has the printable ASCII characters.\<close>

definition has_ascii :: "(u32 \<Rightarrow> u8 list option) \<Rightarrow> bool" where
  "has_ascii glyph \<longleftrightarrow> (\<forall>n :: nat. 32 \<le> n \<and> n < 127 \<longrightarrow> glyph (of_nat n) \<noteq> None)"

definition printable :: "string \<Rightarrow> bool" where
  "printable str \<longleftrightarrow> list_all (\<lambda>ch. 32 \<le> (of_char ch :: nat) \<and> (of_char ch :: nat) < 127) str"

lemma of_char_u32: "(of_char ch :: u32) = of_nat (of_char ch)"
  by (cases ch) (simp add: of_char_def horner_sum_simps)

lemma displayable_chars:
  assumes "has_ascii glyph" "printable str"
  shows "displayable glyph (chars str)"
proof -
  have "glyph (of_char ch) \<noteq> None \<and> (of_char ch :: u32) \<noteq> 10" if "ch \<in> set str" for ch
  proof -
    have n: "32 \<le> (of_char ch :: nat)" "(of_char ch :: nat) < 127" using assms(2) that by (auto simp: printable_def list_all_iff)
    then have "unat (of_char ch :: u32) = of_char ch" unfolding of_char_u32 by (simp only: unat_of_nat) simp
    then have "(of_char ch :: u32) \<noteq> 10" using n(1) by auto
    then show ?thesis using assms(1) n by (simp add: has_ascii_def of_char_u32)
  qed
  then show ?thesis by (auto simp: displayable_def chars_def)
qed

lemma printable_digits: "printable (dec_digits n)"
proof (induction n rule: dec_digits.induct)
  case (1 n)
  have d: "printable [char_of (48 + k)]" if "k < 10" for k :: nat using that by (simp add: printable_def of_char_of)
  show ?case using 1 d [of n] d [of "n mod 10"] by (subst dec_digits.simps) (auto simp: printable_def)
qed

lemma length_digits: "n < 10 ^ Suc k \<Longrightarrow> length (dec_digits n) \<le> Suc k"
proof (induction k arbitrary: n)
  case 0
  then show ?case by (subst dec_digits.simps) simp
next
  case (Suc k)
  have "n div 10 < 10 ^ Suc k" using Suc.prems by (simp add: less_mult_imp_div_less)
  then show ?case using Suc.IH [of "n div 10"] by (subst dec_digits.simps) simp
qed

lemma thread_text_fits:
  assumes "unat tid < 1000" "n < 10000"
  shows "length (thread_text tid n) \<le> 18" "has_ascii glyph \<Longrightarrow> displayable glyph (thread_text tid n)"
proof -
  have "length (dec_digits (unat tid)) \<le> 3" "length (dec_digits n) \<le> 4"
    using length_digits [of "unat tid" 2] length_digits [of n 3] assms by simp_all
  then show "length (thread_text tid n) \<le> 18" by (simp add: thread_text_def chars_def)
  have "printable (''Thread ['' @ dec_digits (unat tid) @ '']: '' @ dec_digits n)"
    using printable_digits [of "unat tid"] printable_digits [of n] by (simp add: printable_def)
  then show "displayable glyph (thread_text tid n)" if "has_ascii glyph"
    unfolding thread_text_def by (rule displayable_chars [OF that])
qed

subsection \<open>Interleaving\<close>

datatype thread5 = Running nat | Ended

type_synonym demo5 = "(usize \<rightharpoonup> thread5) \<times> console_state"

inductive demo5_step :: "(u32 \<Rightarrow> u8 list option) \<Rightarrow> demo5 \<Rightarrow> demo5 \<Rightarrow> bool" for glyph where
  ends: "\<lbrakk>ts tid = Some (Running c); thread5_round glyph tid c gm = Some (Inr (None, gm'))\<rbrakk>
    \<Longrightarrow> demo5_step glyph (ts, gm) (ts(tid \<mapsto> Ended), gm')"
| goes: "\<lbrakk>ts tid = Some (Running c); thread5_round glyph tid c gm = Some (Inr (Some (y, c'), gm'))\<rbrakk>
    \<Longrightarrow> demo5_step glyph (ts, gm) (ts(tid \<mapsto> Running c'), gm')"

inductive_cases demo5_stepE: "demo5_step glyph d d'"

definition limit5 :: "usize \<Rightarrow> nat" where
  "limit5 tid = 501 + 500 * unat (tid mod 3)"

lemma mod3: "unat (tid mod 3 :: usize) < 3"
  by (simp add: unat_mod)

lemma thread5_ends_limit: "thread5_ends tid c \<longleftrightarrow> c = limit5 tid"
proof -
  have e: "tid mod 3 = of_nat (unat (tid mod 3))" by simp
  consider "unat (tid mod 3) = 0" | "unat (tid mod 3) = 1" | "unat (tid mod 3) = 2" using mod3 [of tid] by linarith
  then show ?thesis
  proof cases
    case 1
    then have "tid mod 3 = 0" using e by simp
    then show ?thesis by (simp add: thread5_ends_def limit5_def)
  next
    case 2
    then have "tid mod 3 = 1" using e by simp
    then show ?thesis by (simp add: thread5_ends_def limit5_def)
  next
    case 3
    then have "tid mod 3 = 2" using e by simp
    then show ?thesis by (simp add: thread5_ends_def limit5_def)
  qed
qed

text \<open>How many lines a thread has printed.\<close>

fun printed5 :: "usize \<Rightarrow> thread5 \<Rightarrow> nat" where
  "printed5 tid (Running c) = c - 1"
| "printed5 tid Ended = limit5 tid - 1"

abbreviation row5 :: "usize \<Rightarrow> nat" where
  "row5 tid \<equiv> 8 + unat (tid mod 3) * 2"

definition demo5_inv :: "framebuffer \<Rightarrow> (u32 \<Rightarrow> u8 list option) \<Rightarrow> demo5 \<Rightarrow> bool" where
  "demo5_inv fb glyph = (\<lambda>(ts, gm).
     (\<forall>t1 \<in> dom ts. unat t1 < 1000 \<and> (\<forall>t2 \<in> dom ts. t1 \<noteq> t2 \<longrightarrow> t1 mod 3 \<noteq> t2 mod 3))
   \<and> (\<forall>tid c. ts tid = Some (Running c) \<longrightarrow> 1 \<le> c \<and> c \<le> limit5 tid)
   \<and> (\<exists>s. console fb glyph gm s
      \<and> (\<forall>tid x. ts tid = Some x \<longrightarrow> 0 < printed5 tid x \<longrightarrow> shows_at glyph 8 (row5 tid) (thread_text tid (printed5 tid x)) s)))"

lemma thread5_round_ok:
  assumes "console fb glyph gm s" "27 \<le> cols_of fb" "13 \<le> rows_of fb" "has_ascii glyph" "unat tid < 1000" "c \<le> limit5 tid"
  shows "c = limit5 tid \<Longrightarrow> \<exists>gm'. thread5_round glyph tid c gm = Some (Inr (None, gm')) \<and> console fb glyph gm' s"
    and "c \<noteq> limit5 tid \<Longrightarrow> \<exists>gm' s'. thread5_round glyph tid c gm = Some (Inr (Some (c mod 10 = 0, Suc c), gm')) \<and> console fb glyph gm' s'
      \<and> shows_at glyph 8 (row5 tid) (thread_text tid c) s' \<and> (\<forall>x y. y \<noteq> row5 tid \<longrightarrow> sc_grid s' x y = sc_grid s x y)"
proof -
  have "\<exists>gm'. with_terminal (\<lambda>tm. Some (Inr tm)) gm = Some (Inr gm') \<and> console fb glyph gm' s"
    by (rule with_terminal_shows [OF assms(1)]) auto
  then show "c = limit5 tid \<Longrightarrow> \<exists>gm'. thread5_round glyph tid c gm = Some (Inr (None, gm')) \<and> console fb glyph gm' s"
    by (auto simp: thread5_round_def thread5_ends_limit)
  let ?s' = "typed (cols_of fb) (rows_of fb) glyph (thread_text tid c) (cursor_to fb 8 (row5 tid) s)"
  have c: "c < 10000" using assms(6) mod3 [of tid] by (simp add: limit5_def)
  have "sc_cursor (cursor_to fb 8 (row5 tid) s) = (8, row5 tid)" using assms(2,3) mod3 [of tid] by (simp add: cursor_to_def)
  then have l: "shows_at glyph 8 (row5 tid) (thread_text tid c) ?s'" "\<forall>x y. y \<noteq> row5 tid \<longrightarrow> sc_grid ?s' x y = sc_grid s x y"
    using typed_line [OF thread_text_fits(2) [OF assms(5) c assms(4)]] thread_text_fits(1) [OF assms(5) c] assms(2)
    by (simp_all add: cursor_to_def)
  show "\<exists>gm' s'. thread5_round glyph tid c gm = Some (Inr (Some (c mod 10 = 0, Suc c), gm')) \<and> console fb glyph gm' s'
      \<and> shows_at glyph 8 (row5 tid) (thread_text tid c) s' \<and> (\<forall>x y. y \<noteq> row5 tid \<longrightarrow> sc_grid s' x y = sc_grid s x y)"
    if "c \<noteq> limit5 tid"
    using print_at_shows [OF assms(1), of 8 "row5 tid" "thread_text tid c"] that l by (auto simp: thread5_round_def thread5_ends_limit)
qed

lemma row5_apart: "t1 mod 3 \<noteq> t2 mod 3 \<Longrightarrow> row5 t1 \<noteq> row5 t2"
  by (simp add: word_unat_eq_iff)

lemma demo5_step_inv:
  assumes "demo5_step glyph d d'" "demo5_inv fb glyph d" "27 \<le> cols_of fb" "13 \<le> rows_of fb" "has_ascii glyph"
  shows "demo5_inv fb glyph d'"
  using assms(1)
proof cases
  case (ends ts tid c gm gm')
  obtain s where s: "console fb glyph gm s"
    "\<And>t x. ts t = Some x \<Longrightarrow> 0 < printed5 t x \<Longrightarrow> shows_at glyph 8 (row5 t) (thread_text t (printed5 t x)) s"
    using assms(2) ends(1) by (auto simp: demo5_inv_def)
  have t: "unat tid < 1000" "1 \<le> c" "c \<le> limit5 tid" using assms(2) ends(1,3) by (auto simp: demo5_inv_def)
  have c: "c = limit5 tid" using thread5_round_ok(2) [OF s(1) assms(3-5) t(1,3)] ends(4) by force
  then have "console fb glyph gm' s" using thread5_round_ok(1) [OF s(1) assms(3-5) t(1,3)] ends(4) by force
  moreover have "printed5 tid (Running c) = printed5 tid Ended" using c by simp
  then have "shows_at glyph 8 (row5 tid) (thread_text tid (printed5 tid Ended)) s" if "0 < printed5 tid Ended"
    using s(2) [OF ends(3)] that by simp
  ultimately show ?thesis using assms(2) ends(1,2,3) s(2)
    by (auto simp: demo5_inv_def dom_def simp del: printed5.simps intro!: exI [of _ s])
next
  case (goes ts tid c gm y c' gm')
  obtain s where s: "console fb glyph gm s"
    "\<And>t x. ts t = Some x \<Longrightarrow> 0 < printed5 t x \<Longrightarrow> shows_at glyph 8 (row5 t) (thread_text t (printed5 t x)) s"
    using assms(2) goes(1) by (auto simp: demo5_inv_def)
  have t: "unat tid < 1000" "1 \<le> c" "c \<le> limit5 tid" using assms(2) goes(1,3) by (auto simp: demo5_inv_def)
  have c: "c \<noteq> limit5 tid" using thread5_round_ok(1) [OF s(1) assms(3-5) t(1,3)] goes(4) by force
  then obtain s' where s': "c' = Suc c" "console fb glyph gm' s'" "shows_at glyph 8 (row5 tid) (thread_text tid c) s'"
    "\<And>x y. y \<noteq> row5 tid \<Longrightarrow> sc_grid s' x y = sc_grid s x y"
    using thread5_round_ok(2) [OF s(1) assms(3-5) t(1,3)] goes(4) by force
  have "shows_at glyph 8 (row5 u) (thread_text u (printed5 u x)) s'" if "(ts(tid \<mapsto> Running c')) u = Some x" "0 < printed5 u x" for u x
  proof (cases "u = tid")
    case True
    then show ?thesis using that s'(1,3) by auto
  next
    case False
    then have "ts u = Some x" using that(1) by simp
    moreover have "row5 u \<noteq> row5 tid" using False calculation assms(2) goes(1,3) by (intro row5_apart) (auto simp: demo5_inv_def dom_def)
    ultimately show ?thesis using s(2) that(2) s'(4) by (auto simp: shows_at_def)
  qed
  moreover have "Suc c \<le> limit5 tid" using c t(3) by simp
  ultimately show ?thesis using assms(2) goes(1,2,3) s'(1,2)
    by (auto simp: demo5_inv_def dom_def simp del: printed5.simps intro!: exI [of _ s'])
qed

text \<open>How many rounds the threads still have to go.\<close>

fun work5 :: "usize \<Rightarrow> thread5 \<Rightarrow> nat" where
  "work5 tid (Running c) = Suc (limit5 tid) - c"
| "work5 tid Ended = 0"

definition total5 :: "demo5 \<Rightarrow> nat" where
  "total5 d = (\<Sum>tid \<in> dom (fst d). work5 tid (the (fst d tid)))"

lemma total5_update:
  assumes "finite (dom ts)" "ts tid = Some x" "work5 tid x = Suc (work5 tid y)"
  shows "total5 (ts, gm) = Suc (total5 (ts(tid \<mapsto> y), gm'))"
proof -
  have d: "tid \<in> dom ts" "dom (ts(tid \<mapsto> y)) = dom ts" using assms(2) by auto
  have "(\<Sum>u \<in> dom ts - {tid}. work5 u (the ((ts(tid \<mapsto> y)) u))) = (\<Sum>u \<in> dom ts - {tid}. work5 u (the (ts u)))"
    by (rule sum.cong) auto
  then show ?thesis using assms d by (simp add: total5_def sum.remove [OF assms(1) d(1)])
qed

lemma demo5_step_work:
  assumes "demo5_step glyph d d'" "demo5_inv fb glyph d" "27 \<le> cols_of fb" "13 \<le> rows_of fb" "has_ascii glyph" "finite (dom (fst d))"
  shows "total5 d = Suc (total5 d') \<and> dom (fst d') = dom (fst d)"
  using assms(1)
proof cases
  case (ends ts tid c gm gm')
  have t: "unat tid < 1000" "c \<le> limit5 tid" "\<exists>s. console fb glyph gm s" using assms(2) ends(1,3) by (auto simp: demo5_inv_def)
  then obtain s where s: "console fb glyph gm s" by blast
  have "c = limit5 tid" using thread5_round_ok(2) [OF s assms(3-5) t(1,2)] ends(4) by force
  then show ?thesis using total5_update [of ts tid "Running c" Ended] assms(6) ends(1-3) by auto
next
  case (goes ts tid c gm y c' gm')
  have t: "unat tid < 1000" "c \<le> limit5 tid" "\<exists>s. console fb glyph gm s" using assms(2) goes(1,3) by (auto simp: demo5_inv_def)
  then obtain s where s: "console fb glyph gm s" by blast
  then have n: "c \<noteq> limit5 tid" using thread5_round_ok(1) [OF s assms(3-5) t(1,2)] goes(4) by force
  then have "c' = Suc c" using thread5_round_ok(2) [OF s assms(3-5) t(1,2)] goes(4) by force
  then show ?thesis using total5_update [of ts tid "Running c" "Running c'"] assms(6) goes(1-3) n t(2) by auto
qed

lemma demo5_run:
  assumes "demo5_inv fb glyph d" "27 \<le> cols_of fb" "13 \<le> rows_of fb" "has_ascii glyph" "finite (dom (fst d))" "(demo5_step glyph ^^ n) d d'"
  shows "demo5_inv fb glyph d' \<and> total5 d = n + total5 d' \<and> dom (fst d') = dom (fst d)"
  using assms(6)
proof (induction n arbitrary: d')
  case 0
  then show ?case using assms(1) by simp
next
  case (Suc n)
  obtain d1 where d1: "(demo5_step glyph ^^ n) d d1" "demo5_step glyph d1 d'" using Suc.prems by auto
  note ih = Suc.IH [OF d1(1)]
  then show ?case using demo5_step_inv [OF d1(2) _ assms(2-4)] demo5_step_work [OF d1(2) _ assms(2-4)] assms(5) by simp
qed

definition three_threads :: "usize \<Rightarrow> usize \<rightharpoonup> thread5" where
  "three_threads t = [t \<mapsto> Running 1, t + 1 \<mapsto> Running 1, t + 2 \<mapsto> Running 1]"

lemma residues:
  fixes n :: nat
  shows "n mod 3 \<noteq> (n + 1) mod 3" "n mod 3 \<noteq> (n + 2) mod 3" "(n + 1) mod 3 \<noteq> (n + 2) mod 3" "n mod 3 + (n + 1) mod 3 + (n + 2) mod 3 = 3"
proof -
  have "n mod 3 < 3" by simp
  then consider "n mod 3 = 0" | "n mod 3 = 1" | "n mod 3 = 2" by linarith
  then show "n mod 3 \<noteq> (n + 1) mod 3" "n mod 3 \<noteq> (n + 2) mod 3" "(n + 1) mod 3 \<noteq> (n + 2) mod 3" "n mod 3 + (n + 1) mod 3 + (n + 2) mod 3 = 3"
    by (cases, simp_all add: mod_Suc)+
qed

lemma three_ids:
  assumes "unat (t :: usize) + 2 < 1000"
  shows "unat (t + 1) = unat t + 1" "unat (t + 2) = unat t + 2"
  using unat_add_noov [of t 1] unat_add_noov [of t 2] assms by simp_all

lemma three_apart:
  assumes "unat (t :: usize) + 2 < 1000"
  shows "t mod 3 \<noteq> (t + 1) mod 3" "t mod 3 \<noteq> (t + 2) mod 3" "(t + 1) mod 3 \<noteq> (t + 2) mod 3" "limit5 t + limit5 (t + 1) + limit5 (t + 2) = 3003"
proof -
  have m: "unat (t mod 3) = unat t mod 3" "unat ((t + 1) mod 3) = (unat t + 1) mod 3" "unat ((t + 2) mod 3) = (unat t + 2) mod 3"
    using three_ids [OF assms] by (simp_all add: unat_mod)
  show "t mod 3 \<noteq> (t + 1) mod 3" "t mod 3 \<noteq> (t + 2) mod 3" "(t + 1) mod 3 \<noteq> (t + 2) mod 3"
    unfolding word_unat_eq_iff m using residues [of "unat t"] by simp_all
  have "unat t mod 3 + (unat t + 1) mod 3 + (unat t + 2) mod 3 = 3" using residues [of "unat t"] by simp
  then show "limit5 t + limit5 (t + 1) + limit5 (t + 2) = 3003" unfolding limit5_def m by linarith
qed

lemma three_threads_start:
  assumes "unat t + 2 < 1000" "console fb glyph gm s"
  shows "demo5_inv fb glyph (three_threads t, gm)" "finite (dom (three_threads t))" "total5 (three_threads t, gm) = 3003"
proof -
  note a = three_apart [OF assms(1)]
  have ne: "t \<noteq> t + 1" "t \<noteq> t + 2" "t + 1 \<noteq> t + 2" using a by metis+
  have d: "dom (three_threads t) = {t, t + 1, t + 2}" by (auto simp: three_threads_def)
  have l: "1 \<le> limit5 u" for u by (simp add: limit5_def)
  show "finite (dom (three_threads t))" unfolding d by simp
  have v: "three_threads t u = Some x \<Longrightarrow> x = Running 1" for u x by (auto simp: three_threads_def split: if_splits)
  have "\<forall>t1 \<in> dom (three_threads t). unat t1 < 1000 \<and> (\<forall>t2 \<in> dom (three_threads t). t1 \<noteq> t2 \<longrightarrow> t1 mod 3 \<noteq> t2 mod 3)"
    unfolding d using a(1-3) three_ids [OF assms(1)] assms(1) by auto
  moreover have "\<forall>u c. three_threads t u = Some (Running c) \<longrightarrow> 1 \<le> c \<and> c \<le> limit5 u" using v l by fastforce
  moreover have "\<forall>u x. three_threads t u = Some x \<longrightarrow> printed5 u x = 0" using v by fastforce
  ultimately show "demo5_inv fb glyph (three_threads t, gm)" using assms(2) unfolding demo5_inv_def by auto
  show "total5 (three_threads t, gm) = 3003"
    using a(4) ne unfolding total5_def d by (simp add: d three_threads_def)
qed

text \<open>
  C27. The thread demonstration of lesson 5, with its three threads (consecutive numbers below 1000) interleaved in any
  way on a terminal of at least 27 columns and 13 lines: no thread panics or blocks; every thread that has not ended can
  go on; each line of the screen shows the latest count of its thread, never overwritten by another; and
  after exactly 3003 rounds all threads have ended, having shown 500, 1000 and 1500.
\<close>

theorem thread_demo_interleaved:
  assumes "console fb glyph gm s" "27 \<le> cols_of fb" "13 \<le> rows_of fb" "has_ascii glyph" "unat t + 2 < 1000"
    and run: "(demo5_step glyph ^^ n) (three_threads t, gm) (ts, gm')"
  shows "(\<exists>s'. console fb glyph gm' s' \<and> (\<forall>tid x. ts tid = Some x \<longrightarrow> 0 < printed5 tid x \<longrightarrow>
        shows_at glyph 8 (8 + unat (tid mod 3) * 2) (thread_text tid (printed5 tid x)) s'))
    \<and> (\<forall>tid c. ts tid = Some (Running c) \<longrightarrow> (\<exists>x gm''. demo5_step glyph (ts, gm') (ts(tid \<mapsto> x), gm'')))
    \<and> dom ts = {t, t + 1, t + 2} \<and> n \<le> 3003 \<and> (n = 3003 \<longleftrightarrow> (\<forall>tid \<in> dom ts. ts tid = Some Ended))"
proof -
  note st = three_threads_start [OF assms(5,1)]
  have d0: "dom (three_threads t) = {t, t + 1, t + 2}" by (auto simp: three_threads_def)
  have r: "demo5_inv fb glyph (ts, gm')" "3003 = n + total5 (ts, gm')" "dom ts = {t, t + 1, t + 2}"
    using demo5_run [OF st(1) assms(2-4) _ run] st(2,3) d0 by simp_all
  obtain s' where s': "console fb glyph gm' s'"
    "\<forall>tid x. ts tid = Some x \<longrightarrow> 0 < printed5 tid x \<longrightarrow> shows_at glyph 8 (row5 tid) (thread_text tid (printed5 tid x)) s'"
    using r(1) by (auto simp: demo5_inv_def)
  have run: "\<exists>x gm''. demo5_step glyph (ts, gm') (ts(tid \<mapsto> x), gm'')" if "ts tid = Some (Running c)" for tid c
  proof -
    have c: "unat tid < 1000" "c \<le> limit5 tid" using r(1) that by (auto simp: demo5_inv_def)
    show ?thesis using thread5_round_ok [OF s'(1) assms(2-4) c] demo5_step.intros [of ts tid c] that by (cases "c = limit5 tid") blast+
  qed
  have fin: "finite (dom ts)" unfolding r(3) by simp
  have w: "work5 tid x = 0 \<longleftrightarrow> x = Ended" if "ts tid = Some x" for tid x
  proof (cases x)
    case (Running c)
    then have "c \<le> limit5 tid" using r(1) that by (auto simp: demo5_inv_def)
    then show ?thesis using Running by simp
  qed simp
  have "n = 3003 \<longleftrightarrow> total5 (ts, gm') = 0" using r(2) by linarith
  also have "\<dots> \<longleftrightarrow> (\<forall>tid \<in> dom ts. work5 tid (the (ts tid)) = 0)" using fin by (simp add: total5_def)
  also have "\<dots> \<longleftrightarrow> (\<forall>tid \<in> dom ts. ts tid = Some Ended)" using w by (metis domD option.sel)
  finally show ?thesis using s' run r(2,3) by auto
qed

text \<open>An instance: a terminal of 32 columns and 16 lines, with a font of black boxes.\<close>

definition demo_console_fb :: framebuffer where
  "demo_console_fb = \<lparr>fb_width = 256, fb_height = 256, fb_pitch = 1024, fb_address = 0xfd000000\<rparr>"

definition demo_console :: console_state where
  "demo_console = (\<lparr>on_initialized = True, on_value = Some (spinlock_new
       \<lparr>t_cols = 32, t_rows = 16, t_pos = (0, 0), t_framebuffer = spinlock_new demo_console_fb\<rparr>)\<rparr>,
     \<lparr>vm_size = 262144, vm_byte = (\<lambda>_. 0)\<rparr>)"

definition box_font :: "u32 \<Rightarrow> u8 list option" where
  "box_font c = Some (replicate 16 0xff)"

lemma demo_console_blank: "console demo_console_fb box_font demo_console blank_screen"
  by (simp add: console_def demo_console_def demo_console_fb_def once_get_Some shows_screen_def blank_screen_def picture_def cell_pixel_def
      pixel_def fb_ok_def CHAR_WIDTH_def CHAR_HEIGHT_def glyphs_ok_def box_font_def)

lemma demo_console_size: "cols_of demo_console_fb = 32" "rows_of demo_console_fb = 16" "has_ascii box_font"
  by (simp_all add: demo_console_fb_def CHAR_WIDTH_def CHAR_HEIGHT_def has_ascii_def box_font_def)

theorem thread_demo_interleaved_witness:
  "\<exists>gm' s'. demo5_step box_font (three_threads 3, demo_console) ((three_threads 3)(4 \<mapsto> Running 2), gm') \<and> console demo_console_fb box_font gm' s'
     \<and> shows_at box_font 8 10 (thread_text 4 1) s'"
proof -
  have t: "three_threads 3 4 = Some (Running 1)" by (simp add: three_threads_def)
  have l: "(1 :: nat) \<noteq> limit5 4" "1 \<le> limit5 4" by (simp_all add: limit5_def)
  obtain gm' where "thread5_round box_font 4 1 demo_console = Some (Inr (Some (1 mod 10 = (0 :: nat), Suc 1), gm'))"
    using thread5_round_ok(2) [OF demo_console_blank _ _ demo_console_size(3) _ l(2,1)] demo_console_size(1,2) by auto
  then have st: "demo5_step box_font (three_threads 3, demo_console) ((three_threads 3)(4 \<mapsto> Running (Suc 1)), gm')" using demo5_step.goes [of "three_threads 3" 4 1] t by blast
  then have "(demo5_step box_font ^^ 1) (three_threads 3, demo_console) ((three_threads 3)(4 \<mapsto> Running (Suc 1)), gm')" by (auto simp: OO_def)
  from thread_demo_interleaved [OF demo_console_blank _ _ demo_console_size(3) _ this]
  obtain s' where s': "console demo_console_fb box_font gm' s'" "\<forall>tid x. ((three_threads 3)(4 \<mapsto> Running (Suc 1))) tid = Some x \<longrightarrow> 0 < printed5 tid x \<longrightarrow>
      shows_at box_font 8 (8 + unat (tid mod 3) * 2) (thread_text tid (printed5 tid x)) s'"
    using demo_console_size(1,2) by auto
  have "shows_at box_font 8 10 (thread_text 4 1) s'" using s'(2) [rule_format, of 4 "Running (Suc 1)"] by simp
  then show ?thesis using st s'(1) by (intro exI [of _ gm'] exI [of _ s']) (simp add: numeral_2_eq_2)
qed

subsection \<open>The terminal stays locked in lesson 4\<close>

text \<open>
  When thread 0 of lesson 4 ends the demonstration it calls \<open>exit\<close> with the guard of the terminal still alive:
  the next thread runs, but whoever prints from then on never returns.
\<close>

theorem thread4_exit_keeps_terminal_locked:
  assumes "console fb glyph (g, m) sc" and s: "\<not> is_locked s" "ss_active (inner s) = Some cur" "th_id cur = 0"
    "dequeue (ss_ready (inner s)) = (Some nxt, q)"
  shows "\<exists>g' m' s'. thread4_round glyph sp 5001 s (g, m) = Some (Inr (Exits (Switched (cur\<lparr>th_stack_ptr := sp\<rparr>) nxt s') (g', m')))
    \<and> (\<forall>cs v. print glyph cs g' v = None)"
proof -
  obtain t where t: "once_get g = Inr (Some t)" "\<not> is_locked t" "shows_screen (inner t) m sc" "glyphs_ok glyph"
    using assms(1) by (auto simp: console_def)
  obtain t1 where t1: "set_pos 8 5 (inner t) = Inr t1" "shows_screen t1 m (cursor_to (inner (t_framebuffer (inner t))) 8 5 sc)"
    using set_pos_shows [OF t(3) refl] by blast
  let ?cs = "chars (''Thread ['' @ dec_digits 0 @ ''] killed the other threads and exits itself.'')"
  obtain t2 m2 where t2: "terminal_write_str glyph ?cs (t1, m) = Some (Inr (t2, m2))"
    using write_str_refines [OF t1(2) t(4) refl, of ?cs] by blast
  let ?l = "\<lparr>sl_lock = True, sl_data = t2\<rparr>"
  have "print glyph cs (g\<lparr>on_value := Some ?l\<rparr>) v = None" for cs v
    using t(1) by (intro print_blocked [of _ ?l]) (simp_all add: once_get_Some spinlock_defs)
  moreover have "\<exists>s'. thread4_round glyph sp 5001 s (g, m)
      = Some (Inr (Exits (Switched (cur\<lparr>th_stack_ptr := sp\<rparr>) nxt s') (g\<lparr>on_value := Some ?l\<rparr>, m2)))"
    using t(1,2) t1(1) t2 s
    by (simp add: thread4_round_def terminal_global_def lock_eq spinlock_defs print_at_def print_terminal_def returned_def get_active_tid_def exit_def
        thread_id_def unlock_scheduler_def Let_def)
  ultimately show ?thesis by blast
qed

subsection \<open>The line of lesson 8\<close>

lemma put_at_shows:
  assumes "console fb glyph gm s" "col < cols_of fb - 1" "row < rows_of fb" "displayable glyph [c]"
  shows "\<exists>gm' s'. with_terminal (put_at glyph col row c) gm = Some (Inr gm') \<and> console fb glyph gm' s'
    \<and> sc_grid s' = set_cell col row (Glyph (the (glyph c)) DEFAULT_FG_COLOR DEFAULT_BG_COLOR) (sc_grid s)"
proof -
  let ?s' = "typed (cols_of fb) (rows_of fb) glyph [c] (cursor_to fb col row s)"
  have "\<exists>gm'. with_terminal (put_at glyph col row c) gm = Some (Inr gm') \<and> console fb glyph gm' ?s'"
  proof -
    have "put_at glyph col row c = print_at glyph col row [c]"
      by (rule ext) (auto simp: put_at_def print_at_def print_terminal_def terminal_write_str_def run_then_def split: option.splits sum.splits)
    then show ?thesis using print_at_shows [OF assms(1), of col row "[c]"] by simp
  qed
  moreover have "sc_grid ?s' = set_cell col row (Glyph (the (glyph c)) DEFAULT_FG_COLOR DEFAULT_BG_COLOR) (sc_grid s)"
    using assms(2-4) by (auto simp: typed_def put_def cursor_to_def displayable_def new_line_def Let_def)
  ultimately show ?thesis by blast
qed

lemma line_loop_shows:
  assumes t: "ticks f d clock" and c: "displayable glyph [c]" "unat tid < rows_of fb"
  shows "console fb glyph gm s \<Longrightarrow> set is \<subseteq> {..<cols_of fb - 1} \<Longrightarrow> f n + length is * (1000 + 2 * d) < 2 ^ 64 \<Longrightarrow>
    \<exists>gm' n' s'. line_loop glyph clock c tid is (gm, n) = Some (Inr (gm', n')) \<and> console fb glyph gm' s'
      \<and> (\<forall>x y. sc_grid s' x y = (if y = unat tid \<and> x \<in> set is then Glyph (the (glyph c)) DEFAULT_FG_COLOR DEFAULT_BG_COLOR else sc_grid s x y))"
proof (induction "is" arbitrary: gm s n)
  case Nil
  then show ?case by auto
next
  case (Cons i "is")
  obtain gm1 s1 where 1: "with_terminal (put_at glyph i (unat tid) c) gm = Some (Inr gm1)" "console fb glyph gm1 s1"
    "sc_grid s1 = set_cell i (unat tid) (Glyph (the (glyph c)) DEFAULT_FG_COLOR DEFAULT_BG_COLOR) (sc_grid s)"
    using put_at_shows [OF Cons.prems(1) _ c(2,1), of i] Cons.prems(2) by auto
  have "f n + unat (1000 :: usize) + d < 2 ^ 64" using Cons.prems(3) by simp
  then obtain k where k: "wait (\<lambda>i. clock (n + i)) 1000 = Some (Inr k)" "f (n + k) \<le> f n + 1000 + d"
    using wait_in_time [OF t, of n 1000] by auto
  have "f (Suc (n + k)) \<le> f (n + k) + d" using t unfolding ticks_def by blast
  then have "f (Suc (n + k)) + length is * (1000 + 2 * d) < 2 ^ 64" using k(2) Cons.prems(3) by simp
  then obtain gm2 n2 s2 where 2: "line_loop glyph clock c tid is (gm1, Suc (n + k)) = Some (Inr (gm2, n2))" "console fb glyph gm2 s2"
    "\<forall>x y. sc_grid s2 x y = (if y = unat tid \<and> x \<in> set is then Glyph (the (glyph c)) DEFAULT_FG_COLOR DEFAULT_BG_COLOR else sc_grid s1 x y)"
    using Cons.IH [OF 1(2), of "Suc (n + k)"] Cons.prems(2) by auto
  then show ?case using 1(1,3) k(1) by (intro exI [of _ gm2] exI [of _ n2] exI [of _ s2]) (auto simp: set_cell_def)
qed

text \<open>
  The threads of lesson 8 fill their line: after its loop the line with the number of the thread shows its letter in all
  columns but the last, and nothing else on the screen has changed. The clock may advance by up to \<open>d\<close>
  milliseconds between two readings.
\<close>

theorem line_thread_fills_line:
  assumes "console fb glyph gm s" "unat tid < rows_of fb" "displayable glyph [c]" "ticks f d clock"
    and "f n + cols_of fb * (1000 + 2 * d) < 2 ^ 64"
  shows "\<exists>gm' n' s'. line_thread glyph clock c tid (gm, n) = Some (Inr (gm', n')) \<and> console fb glyph gm' s'
    \<and> (\<forall>x y. sc_grid s' x y = (if y = unat tid \<and> x < cols_of fb - 1 then Glyph (the (glyph c)) DEFAULT_FG_COLOR DEFAULT_BG_COLOR else sc_grid s x y))"
proof -
  obtain g m where gm: "gm = (g, m)" by force
  then obtain t where t: "once_get g = Inr (Some t)" "\<not> is_locked t" "shows_screen (inner t) m s" "inner (t_framebuffer (inner t)) = fb"
    using assms(1) by (auto simp: console_def)
  have cols: "t_cols (inner t) = cols_of fb" "0 < cols_of fb" using t(3,4) by (auto simp: shows_screen_def Let_def)
  have "(cols_of fb - 1) * (1000 + 2 * d) \<le> cols_of fb * (1000 + 2 * d)" by (intro mult_le_mono1) simp
  from le_less_trans [OF add_left_mono [OF this, of "f n"] assms(5)]
  have "f n + length [0..<cols_of fb - 1] * (1000 + 2 * d) < 2 ^ 64" unfolding length_upt diff_zero .
  moreover have "line_thread glyph clock c tid (gm, n) = line_loop glyph clock c tid [0..<cols_of fb - 1] (gm, n)"
    using t(1,2) cols by (simp add: line_thread_def gm terminal_global_def lock_eq spinlock_defs terminal_size_def nsub_def)
  moreover have "set [0..<cols_of fb - 1] = {..<cols_of fb - 1}" by auto
  ultimately show ?thesis using line_loop_shows [OF assms(4,3,2,1), of "[0..<cols_of fb - 1]" n] by simp
qed

end
