(* ===== verification/Demo_Text.thy ===== *)
theory Demo_Text
  imports Demo_Threads Key_Queue Logger
begin

text \<open>
  The text and keyboard demonstrations: \<^verbatim>\<open>kernel/src/demo/lesson1.rs\<close>, the song menu of \<^verbatim>\<open>lesson2.rs\<close>, \<^verbatim>\<open>lesson3.rs\<close>
  and the user program of \<^verbatim>\<open>lesson9.rs\<close>. They read the key queue and print to the terminal. What successive
  polls of the queue answer is the argument \<open>evs\<close>, as in the theory \<open>Key\<close>; \<open>n\<close> numbers the polls. The
  interface \<open>input_source\<close> states what every blocking read promises.
\<close>

subsection \<open>Formatted values\<close>

fun bin_digits :: "nat \<Rightarrow> string" where
  "bin_digits n = (if n < 2 then [char_of (48 + n)] else bin_digits (n div 2) @ [char_of (48 + n mod 2)])"

declare bin_digits.simps [simp del]

text \<open>A width in a format pads numbers with spaces on the left.\<close>

definition pad_left :: "nat \<Rightarrow> string \<Rightarrow> string" where
  "pad_left w str = replicate (w - length str) CHR '' '' @ str"

text \<open>
  The derived \<open>Debug\<close> of a key event. Which characters beyond ASCII are printable is a table of Unicode,
  the argument \<open>uni\<close>; how a set of flags prints is up to the crate \<open>bitflags\<close>, the argument \<open>fmt_mods\<close>.
\<close>

definition debug_char :: "(u32 \<Rightarrow> bool) \<Rightarrow> u32 \<Rightarrow> u32 list" where
  "debug_char uni c = chars [CHR 0x27] @
     (if c = 0 then chars [CHR 0x5C, CHR ''0'']
      else if c = 9 then chars [CHR 0x5C, CHR ''t'']
      else if c = 10 then chars [CHR 0x5C, CHR ''n'']
      else if c = 13 then chars [CHR 0x5C, CHR ''r'']
      else if c = 0x27 \<or> c = 0x5C then chars [CHR 0x5C] @ [c]
      else if 32 \<le> c \<and> c < 127 \<or> 127 < c \<and> uni c then [c]
      else chars ([CHR 0x5C] @ ''u{'' @ hex_digits (unat c) @ ''}'')) @ chars [CHR 0x27]"

definition debug_option :: "('a \<Rightarrow> u32 list) \<Rightarrow> 'a option \<Rightarrow> u32 list" where
  "debug_option f x = (case x of None \<Rightarrow> chars ''None'' | Some y \<Rightarrow> chars ''Some('' @ f y @ chars '')'')"

fun scancode_name :: "scancode \<Rightarrow> string" where
  "scancode_name Sc_Escape = ''Escape''"
| "scancode_name Sc_One = ''One''"
| "scancode_name Sc_Two = ''Two''"
| "scancode_name Sc_Three = ''Three''"
| "scancode_name Sc_Four = ''Four''"
| "scancode_name Sc_Five = ''Five''"
| "scancode_name Sc_Six = ''Six''"
| "scancode_name Sc_Seven = ''Seven''"
| "scancode_name Sc_Eight = ''Eight''"
| "scancode_name Sc_Nine = ''Nine''"
| "scancode_name Sc_Zero = ''Zero''"
| "scancode_name Sc_Q = ''Q''"
| "scancode_name Sc_W = ''W''"
| "scancode_name Sc_E = ''E''"
| "scancode_name Sc_R = ''R''"
| "scancode_name Sc_T = ''T''"
| "scancode_name Sc_Z = ''Z''"
| "scancode_name Sc_U = ''U''"
| "scancode_name Sc_I = ''I''"
| "scancode_name Sc_O = ''O''"
| "scancode_name Sc_P = ''P''"
| "scancode_name Sc_A = ''A''"
| "scancode_name Sc_S = ''S''"
| "scancode_name Sc_D = ''D''"
| "scancode_name Sc_F = ''F''"
| "scancode_name Sc_G = ''G''"
| "scancode_name Sc_H = ''H''"
| "scancode_name Sc_J = ''J''"
| "scancode_name Sc_K = ''K''"
| "scancode_name Sc_L = ''L''"
| "scancode_name Sc_Y = ''Y''"
| "scancode_name Sc_X = ''X''"
| "scancode_name Sc_C = ''C''"
| "scancode_name Sc_V = ''V''"
| "scancode_name Sc_B = ''B''"
| "scancode_name Sc_N = ''N''"
| "scancode_name Sc_M = ''M''"
| "scancode_name Sc_Plus = ''Plus''"
| "scancode_name Sc_Minus = ''Minus''"
| "scancode_name Sc_Enter = ''Enter''"
| "scancode_name Sc_Space = ''Space''"
| "scancode_name Sc_Up = ''Up''"
| "scancode_name Sc_Down = ''Down''"
| "scancode_name Sc_Left = ''Left''"
| "scancode_name Sc_Right = ''Right''"
| "scancode_name Sc_Home = ''Home''"
| "scancode_name Sc_End = ''End''"
| "scancode_name Sc_PageUp = ''PageUp''"
| "scancode_name Sc_PageDown = ''PageDown''"
| "scancode_name Sc_Insert = ''Insert''"
| "scancode_name Sc_Del = ''Del''"
| "scancode_name Sc_Tab = ''Tab''"
| "scancode_name Sc_Backspace = ''Backspace''"
| "scancode_name Sc_F1 = ''F1''"
| "scancode_name Sc_F2 = ''F2''"
| "scancode_name Sc_F3 = ''F3''"
| "scancode_name Sc_F4 = ''F4''"
| "scancode_name Sc_F5 = ''F5''"
| "scancode_name Sc_F6 = ''F6''"
| "scancode_name Sc_F7 = ''F7''"
| "scancode_name Sc_F8 = ''F8''"
| "scancode_name Sc_F9 = ''F9''"
| "scancode_name Sc_F10 = ''F10''"
| "scancode_name Sc_F11 = ''F11''"
| "scancode_name Sc_F12 = ''F12''"
| "scancode_name Sc_Meta = ''Meta''"

definition debug_event :: "(u32 \<Rightarrow> bool) \<Rightarrow> (u8 \<Rightarrow> string) \<Rightarrow> key_event \<Rightarrow> u32 list" where
  "debug_event uni fmt_mods e =
     chars ''KeyEvent { ascii: '' @ debug_option (debug_char uni) (ke_ascii e)
   @ chars '', scancode: '' @ debug_option (\<lambda>sc. chars (scancode_name sc)) (ke_scancode e)
   @ chars '', modifiers: '' @ chars (fmt_mods (ke_modifiers e))
   @ chars '', pressed: '' @ chars (if ke_pressed e then ''true'' else ''false'') @ chars '' }''"

subsection \<open>Lesson 1\<close>

definition table_row :: "nat \<Rightarrow> string" where
  "table_row i = ''  | '' @ pad_left 3 (dec_digits i) @ '' | '' @ pad_left 3 (hex_digits i) @ '' | '' @ pad_left 5 (bin_digits i) @ '' |''"

definition text_demo_lines :: "string list" where
  "text_demo_lines = [''Text Demo:'', ''  | dec | hex | bin   |'', ''  |-----|-----|-------|''] @ map table_row [0..<17]"

text \<open>A sequence of \<open>println!\<close>.\<close>

definition println_all :: "(u32 \<Rightarrow> u8 list option) \<Rightarrow> string list \<Rightarrow> console_state \<Rightarrow> console_state res option" where
  "println_all glyph ls = prints glyph (map (\<lambda>l. chars l @ [10]) ls)"

definition text_demo :: "(u32 \<Rightarrow> u8 list option) \<Rightarrow> console_state \<Rightarrow> console_state res option" where
  "text_demo glyph = println_all glyph text_demo_lines"

text \<open>The loop of both keyboard demonstrations: read the next input, show it, until one ends the loop.\<close>

partial_function (option) echo_loop ::
  "(u32 \<Rightarrow> u8 list option) \<Rightarrow> (nat \<Rightarrow> ('a \<times> nat) option) \<Rightarrow> ('a \<Rightarrow> u32 list) \<Rightarrow> ('a \<Rightarrow> bool) \<Rightarrow> nat \<Rightarrow> console_state
     \<Rightarrow> (console_state \<times> nat) res option" where
  "echo_loop glyph next fmt stop n gm =
     (case next n of
        None \<Rightarrow> None
      | Some (x, n') \<Rightarrow>
          (case println glyph (fmt x) gm of
             None \<Rightarrow> None
           | Some r \<Rightarrow>
               (case r of
                  Inl e \<Rightarrow> Some (Inl e)
                | Inr gm' \<Rightarrow> if stop x then Some (Inr (gm', n')) else echo_loop glyph next fmt stop n' gm')))"

definition echo_demo ::
  "(u32 \<Rightarrow> u8 list option) \<Rightarrow> string \<Rightarrow> (nat \<Rightarrow> ('a \<times> nat) option) \<Rightarrow> ('a \<Rightarrow> u32 list) \<Rightarrow> ('a \<Rightarrow> bool) \<Rightarrow> nat \<Rightarrow> console_state
     \<Rightarrow> (console_state \<times> nat) res option" where
  "echo_demo glyph hint next fmt stop n gm =
     run_then (println_all glyph [''Keyboard Demo:'', hint] gm) (\<lambda>gm1.
     run_then (echo_loop glyph next fmt stop n gm1) (\<lambda>(gm2, n').
     run_then (println_all glyph [''Exiting keyboard demo.''] gm2) (\<lambda>gm3. Some (Inr (gm3, n')))))"

definition press_hint_esc :: string where
  "press_hint_esc = ''Press keys on your keyboard. Press '' @ [CHR 0x27] @ ''Esc'' @ [CHR 0x27] @ '' to exit the demo.''"

definition keyboard_demo ::
  "(u32 \<Rightarrow> u8 list option) \<Rightarrow> (u32 \<Rightarrow> bool) \<Rightarrow> (u8 \<Rightarrow> string) \<Rightarrow> (nat \<Rightarrow> key_event option) \<Rightarrow> nat \<Rightarrow> console_state
     \<Rightarrow> (console_state \<times> nat) res option" where
  "keyboard_demo glyph uni fmt_mods evs =
     echo_demo glyph press_hint_esc
       (poll_key_press evs) (debug_event uni fmt_mods) (\<lambda>e. ke_scancode e = Some Sc_Escape)"

subsection \<open>Lesson 3\<close>

definition press_hint_q :: string where
  "press_hint_q = ''Press keys on your keyboard. Press '' @ [CHR 0x27] @ ''q'' @ [CHR 0x27] @ '' to exit the demo.''"

definition keyboard_demo3 ::
  "(u32 \<Rightarrow> u8 list option) \<Rightarrow> (u32 \<Rightarrow> bool) \<Rightarrow> (nat \<Rightarrow> key_event option) \<Rightarrow> nat \<Rightarrow> console_state
     \<Rightarrow> (console_state \<times> nat) res option" where
  "keyboard_demo3 glyph uni evs =
     echo_demo glyph press_hint_q
       (read_char evs) (debug_char uni) (\<lambda>c. c = of_char (CHR ''q''))"

subsection \<open>Lesson 2: choosing a song\<close>

datatype song = Tetris | Aerodynamic

partial_function (option) select_song :: "(nat \<Rightarrow> key_event option) \<Rightarrow> nat \<Rightarrow> (song \<times> nat) option" where
  "select_song evs n =
     (case read_char evs n of
        None \<Rightarrow> None
      | Some (c, n') \<Rightarrow>
          if c = of_char (CHR ''1'') then Some (Tetris, n')
          else if c = of_char (CHR ''2'') then Some (Aerodynamic, n')
          else select_song evs n')"

text \<open>
  \<open>locked\<close> is the state of the speaker's lock; \<open>new_thread\<close> makes the kernel thread that plays the song. The demonstration
  ends without a thread while another song plays.
\<close>

definition speaker_demo ::
  "(u32 \<Rightarrow> u8 list option) \<Rightarrow> bool \<Rightarrow> (song \<Rightarrow> thread) \<Rightarrow> (nat \<Rightarrow> key_event option) \<Rightarrow> nat \<Rightarrow> scheduler \<Rightarrow> console_state
     \<Rightarrow> (scheduler \<times> console_state \<times> nat) res option" where
  "speaker_demo glyph locked new_thread evs n s gm =
     run_then (prints glyph [chars ''Speaker Demo: Choose a song'' @ [10, 10]] gm) (\<lambda>gm1.
     if locked then run_then (println_all glyph [''A song is currently playing!''] gm1) (\<lambda>gm2. Some (Inr (s, gm2, n)))
     else
       run_then (prints glyph [chars ''1. Tetris Theme'' @ [10], chars ''2. Aerodynamic'' @ [10, 10],
           chars (''Enter '' @ [CHR 0x27] @ ''1'' @ [CHR 0x27] @ '' or '' @ [CHR 0x27] @ ''2'' @ [CHR 0x27] @ '' on the keyboard.'') @ [10]] gm1) (\<lambda>gm2.
       case select_song evs n of
         None \<Rightarrow> None
       | Some (song, n') \<Rightarrow> run_then (returned (ready (new_thread song) s)) (\<lambda>(_, s'). Some (Inr (s', gm2, n')))))"

subsection \<open>Lesson 9: a user program\<close>

text \<open>
  The program reaches the kernel through its system calls: \<open>evs\<close> are the answers of \<open>usr_get_key_event\<close>, \<open>clock\<close> those of
  \<open>usr_get_system_time\<close>, and a text given to \<open>usr_print\<close> is printed on the console. Waiting only lets time pass.
\<close>

partial_function (option) usr_read_char :: "(nat \<Rightarrow> key_event option) \<Rightarrow> nat \<Rightarrow> (u32 \<times> nat) option" where
  "usr_read_char evs n =
     (case evs n of
        None \<Rightarrow> usr_read_char evs (Suc n)
      | Some key \<Rightarrow>
          if ke_pressed key then (case ke_ascii key of Some c \<Rightarrow> Some (c, Suc n) | None \<Rightarrow> usr_read_char evs (Suc n))
          else usr_read_char evs (Suc n))"

partial_function (option) read_line :: "(nat \<Rightarrow> (u32 \<times> nat) option) \<Rightarrow> u32 list \<Rightarrow> nat \<Rightarrow> (u32 list \<times> nat) option" where
  "read_line next input n =
     (case next n of
        None \<Rightarrow> None
      | Some (c, n') \<Rightarrow> if c = 13 then Some (input, n') else read_line next (input @ [c]) n')"

definition you_typed :: "u32 list \<Rightarrow> u32 list" where
  "you_typed input = chars (''You typed: '' @ [CHR 0x27]) @ input @ chars [CHR 0x27] @ [10]"

definition system_time_text :: "usize \<Rightarrow> u32 list" where
  "system_time_text t = chars (''System time: '' @ dec_digits (unat (t div 1000)) @ ''s'') @ [10, 10]"

partial_function (option) command_loop ::
  "(u32 \<Rightarrow> u8 list option) \<Rightarrow> (nat \<Rightarrow> usize) \<Rightarrow> (nat \<Rightarrow> key_event option) \<Rightarrow> nat \<Rightarrow> nat \<Rightarrow> console_state \<Rightarrow> (console_state \<times> nat) res option" where
  "command_loop glyph clock evs k n gm =
     (case read_line (usr_read_char evs) [] n of
        None \<Rightarrow> None
      | Some (input, n') \<Rightarrow>
          if input = chars ''exit'' then Some (Inr (gm, n'))
          else
            (case prints glyph [you_typed input, system_time_text (clock k)] gm of
               None \<Rightarrow> None
             | Some r \<Rightarrow> (case r of Inl e \<Rightarrow> Some (Inl e) | Inr gm' \<Rightarrow> command_loop glyph clock evs (Suc k) n' gm')))"

definition syscall_greeting :: "usize \<Rightarrow> u32 list list" where
  "syscall_greeting tid =
     [chars ''System Call Demo: Type something and press enter to see the output.'' @ [10]
        @ chars (''Type '' @ [CHR 0x27] @ ''exit'' @ [CHR 0x27] @ '' to exit the thread.'') @ [10, 10],
      chars (''Thread ID: '' @ dec_digits (unat tid)) @ [10, 10]]"

text \<open>The result carries the value that \<open>DEMO_RUNNING\<close> has at the end; \<open>usr_hello_world\<close> writes to the log only.\<close>

definition syscall_test_thread ::
  "(u32 \<Rightarrow> u8 list option) \<Rightarrow> usize \<Rightarrow> (nat \<Rightarrow> usize) \<Rightarrow> (nat \<Rightarrow> key_event option) \<Rightarrow> nat \<Rightarrow> console_state
     \<Rightarrow> (bool \<times> console_state \<times> nat) res option" where
  "syscall_test_thread glyph tid clock evs n gm =
     run_then (prints glyph (syscall_greeting tid) gm) (\<lambda>gm1.
     run_then (command_loop glyph clock evs 0 n gm1) (\<lambda>(gm2, n'). Some (Inr (False, gm2, n'))))"

subsection \<open>Blocking reads\<close>

text \<open>The inputs that a reader finds among the answers number \<open>n\<close> to \<open>m - 1\<close> of the queue, in order.\<close>

definition accepted :: "(key_event option \<Rightarrow> 'a option) \<Rightarrow> (nat \<Rightarrow> key_event option) \<Rightarrow> nat \<Rightarrow> nat \<Rightarrow> 'a list" where
  "accepted f evs n m = List.map_filter (\<lambda>i. f (evs i)) [n..<m]"

text \<open>Successive reads from poll \<open>n\<close> on return a list, and have then made \<open>n'\<close> polls.\<close>

inductive reads :: "(nat \<Rightarrow> ('a \<times> nat) option) \<Rightarrow> nat \<Rightarrow> 'a list \<Rightarrow> nat \<Rightarrow> bool" for nx where
  done_reading: "reads nx n [] n"
| one_more: "\<lbrakk>nx n = Some (x, n1); reads nx n1 xs n'\<rbrakk> \<Longrightarrow> reads nx n (x # xs) n'"

inductive_simps reads_Nil: "reads nx n [] n'"
inductive_simps reads_Cons: "reads nx n (x # xs) n'"

lemma reads_append: "reads nx n (xs @ ys) n' \<longleftrightarrow> (\<exists>n1. reads nx n xs n1 \<and> reads nx n1 ys n')"
  by (induction xs arbitrary: n) (auto simp: reads_Nil reads_Cons)

locale input_source =
  fixes next_in :: "(nat \<Rightarrow> key_event option) \<Rightarrow> nat \<Rightarrow> ('a \<times> nat) option"
    and accepts :: "key_event option \<Rightarrow> 'a option"
  assumes next_first: "n \<le> i \<Longrightarrow> accepts (evs i) = Some x \<Longrightarrow> (\<forall>j. n \<le> j \<longrightarrow> j < i \<longrightarrow> accepts (evs j) = None)
    \<Longrightarrow> next_in evs n = Some (x, Suc i)"
begin

lemma next_skips:
  assumes "accepts (evs n) = None" "n \<le> i" "accepts (evs i) = Some x"
  shows "next_in evs n = next_in evs (Suc n)"
proof -
  define P where "P j \<longleftrightarrow> n \<le> j \<and> accepts (evs j) \<noteq> None" for j
  define j where "j = (LEAST j. P j)"
  have "P i" using assms by (simp add: P_def)
  then have j: "P j" "\<And>i. i < j \<Longrightarrow> \<not> P i" unfolding j_def by (auto intro: LeastI dest: not_less_Least)
  then obtain y where y: "accepts (evs j) = Some y" "n \<le> j" by (auto simp: P_def)
  moreover have "\<forall>i. n \<le> i \<longrightarrow> i < j \<longrightarrow> accepts (evs i) = None" using j(2) by (auto simp: P_def)
  moreover have "Suc n \<le> j" using y assms(1) by (cases "j = n") auto
  ultimately show ?thesis using next_first [of n j evs y] next_first [of "Suc n" j evs y] by simp
qed

lemma reads_accepted:
  assumes "n \<le> i" "accepts (evs i) = Some x"
  shows "reads (next_in evs) n (accepted accepts evs n (Suc i)) (Suc i)"
  using assms(1)
proof (induction "i - n" arbitrary: n)
  case 0
  then have "next_in evs n = Some (x, Suc n)" using next_first [of n n evs x] assms(2) by simp
  then show ?case using 0 assms(2) by (simp add: accepted_def reads_Cons reads_Nil List.map_filter_def)
next
  case (Suc d)
  then have "n < i" by simp
  then have ih: "reads (next_in evs) (Suc n) (accepted accepts evs (Suc n) (Suc i)) (Suc i)" using Suc by simp
  have "[n..<Suc i] = n # [Suc n..<Suc i]" using \<open>n < i\<close> by (simp add: upt_conv_Cons)
  then have acc: "accepted accepts evs n (Suc i) = (case accepts (evs n) of Some y \<Rightarrow> [y] | None \<Rightarrow> []) @ accepted accepts evs (Suc n) (Suc i)"
    by (simp add: accepted_def List.map_filter_def split: option.splits)
  show ?case
  proof (cases "accepts (evs n)")
    case None
    then have "next_in evs n = next_in evs (Suc n)" using next_skips [of evs n i x] assms(2) \<open>n < i\<close> by simp
    then have "reads (next_in evs) n xs m" if "reads (next_in evs) (Suc n) xs m" "xs \<noteq> []" for xs m
      using that by (cases xs) (auto simp: reads_Cons)
    moreover have "accepted accepts evs (Suc n) (Suc i) \<noteq> []"
      using \<open>n < i\<close> assms(2) by (auto simp: accepted_def List.map_filter_def)
    ultimately show ?thesis using ih acc None by simp
  next
    case (Some y)
    then have "next_in evs n = Some (y, Suc n)" using next_first [of n n evs y] by simp
    then show ?thesis using ih acc Some by (simp add: reads_Cons)
  qed
qed

end

definition pressed_key :: "key_event option \<Rightarrow> key_event option" where
  "pressed_key r = (case r of Some k \<Rightarrow> if ke_pressed k then Some k else None | None \<Rightarrow> None)"

definition pressed_char :: "key_event option \<Rightarrow> u32 option" where
  "pressed_char r = (case r of Some k \<Rightarrow> if ke_pressed k then ke_ascii k else None | None \<Rightarrow> None)"

lemma pressed_key_Some: "pressed_key r = Some k \<longleftrightarrow> r = Some k \<and> ke_pressed k"
  by (auto simp: pressed_key_def split: option.splits if_splits)

lemma pressed_char_types: "pressed_char (evs i) = Some c \<longleftrightarrow> types_char evs i c"
  by (auto simp: pressed_char_def types_char_def split: option.splits if_splits)

interpretation press: input_source poll_key_press pressed_key
proof
  fix n i :: nat and evs :: "nat \<Rightarrow> key_event option" and k
  assume a: "n \<le> i" "pressed_key (evs i) = Some k" "\<forall>j. n \<le> j \<longrightarrow> j < i \<longrightarrow> pressed_key (evs j) = None"
  then obtain i' k' where p: "n \<le> i'" "i' \<le> i" "evs i' = Some k'" "ke_pressed k'" "poll_key_press evs n = Some (k', Suc i')"
    using poll_key_press_next [of n i evs k] by (auto simp: pressed_key_Some)
  then have "i' = i" using a(3) pressed_key_Some [of "evs i'" k'] by (cases "i' < i") auto
  then show "poll_key_press evs n = Some (k, Suc i)" using p a(2) by (simp add: pressed_key_Some)
qed

interpretation typed_in: input_source read_char pressed_char
proof
  fix n i :: nat and evs :: "nat \<Rightarrow> key_event option" and c
  assume a: "n \<le> i" "pressed_char (evs i) = Some c" "\<forall>j. n \<le> j \<longrightarrow> j < i \<longrightarrow> pressed_char (evs j) = None"
  then obtain i' c' where p: "n \<le> i'" "i' \<le> i" "types_char evs i' c'" "poll_char evs n = Some (c', Suc i')"
    using poll_char_next [of n i evs c] by (auto simp: pressed_char_types)
  then have "i' = i" using a(3) pressed_char_types [of evs i' c'] by (cases "i' < i") auto
  then show "read_char evs n = Some (c, Suc i)" using p a(2) by (simp add: read_char_def pressed_char_types [symmetric])
qed

lemma usr_read_char_step:
  "usr_read_char evs n = (case pressed_char (evs n) of Some c \<Rightarrow> Some (c, Suc n) | None \<Rightarrow> usr_read_char evs (Suc n))"
  by (subst usr_read_char.simps) (simp add: pressed_char_def split: option.splits)

interpretation user_in: input_source usr_read_char pressed_char
proof
  fix n i :: nat and evs :: "nat \<Rightarrow> key_event option" and c
  assume "n \<le> i" "pressed_char (evs i) = Some c" "\<forall>j. n \<le> j \<longrightarrow> j < i \<longrightarrow> pressed_char (evs j) = None"
  then show "usr_read_char evs n = Some (c, Suc i)"
    by (induction "i - n" arbitrary: n) (simp_all add: usr_read_char_step)
qed

subsection \<open>Loops that show what they read\<close>

abbreviation types_on :: "framebuffer \<Rightarrow> (u32 \<Rightarrow> u8 list option) \<Rightarrow> u32 list \<Rightarrow> screen \<Rightarrow> screen" where
  "types_on fb \<equiv> typed (cols_of fb) (rows_of fb)"

lemma echo_loop_shows:
  assumes "reads nx n (xs @ [x]) n'" "\<forall>y \<in> set xs. \<not> stop y" "stop x" "console fb glyph gm s"
  shows "\<exists>gm'. echo_loop glyph nx fmt stop n gm = Some (Inr (gm', n'))
    \<and> console fb glyph gm' (types_on fb glyph (concat (map (\<lambda>y. fmt y @ [10]) (xs @ [x]))) s)"
  using assms
proof (induction xs arbitrary: n gm s)
  case Nil
  obtain gm' where "println glyph (fmt x) gm = Some (Inr gm')" "console fb glyph gm' (types_on fb glyph (fmt x @ [10]) s)"
    using println_shows [OF Nil(4)] by blast
  then show ?case using Nil(1,3) by (subst echo_loop.simps) (simp add: reads_Cons reads_Nil)
next
  case (Cons y xs)
  obtain n1 where n1: "nx n = Some (y, n1)" "reads nx n1 (xs @ [x]) n'" using Cons.prems(1) by (auto simp: reads_Cons)
  obtain gm1 where g1: "println glyph (fmt y) gm = Some (Inr gm1)" "console fb glyph gm1 (types_on fb glyph (fmt y @ [10]) s)"
    using println_shows [OF Cons.prems(4)] by blast
  obtain gm' where "echo_loop glyph nx fmt stop n1 gm1 = Some (Inr (gm', n'))"
    "console fb glyph gm' (types_on fb glyph (concat (map (\<lambda>y. fmt y @ [10]) (xs @ [x]))) (types_on fb glyph (fmt y @ [10]) s))"
    using Cons.IH [OF n1(2) _ Cons.prems(3) g1(2)] Cons.prems(2) by auto
  then show ?case using n1(1) g1(1) Cons.prems(2) by (subst echo_loop.simps) (simp flip: typed_append)
qed

lemma println_all_shows:
  assumes "console fb glyph gm s"
  shows "\<exists>gm'. println_all glyph ls gm = Some (Inr gm') \<and> console fb glyph gm' (types_on fb glyph (concat (map (\<lambda>l. chars l @ [10]) ls)) s)"
  using prints_show [OF assms] by (simp add: println_all_def)

text \<open>The whole text of a keyboard demonstration in which the inputs \<open>xs\<close> are read.\<close>

definition echo_text :: "string \<Rightarrow> ('a \<Rightarrow> u32 list) \<Rightarrow> 'a list \<Rightarrow> u32 list" where
  "echo_text hint fmt xs = concat (map (\<lambda>l. l @ [10]) ([chars ''Keyboard Demo:'', chars hint] @ map fmt xs @ [chars ''Exiting keyboard demo.'']))"

lemma echo_demo_shows:
  assumes "reads nx n (xs @ [x]) n'" "\<forall>y \<in> set xs. \<not> stop y" "stop x" "console fb glyph gm s"
  shows "\<exists>gm'. echo_demo glyph hint nx fmt stop n gm = Some (Inr (gm', n'))
    \<and> console fb glyph gm' (types_on fb glyph (echo_text hint fmt (xs @ [x])) s)"
proof -
  obtain gm1 where 1: "println_all glyph [''Keyboard Demo:'', hint] gm = Some (Inr gm1)"
    "console fb glyph gm1 (types_on fb glyph (chars ''Keyboard Demo:'' @ [10] @ chars hint @ [10]) s)"
    using println_all_shows [OF assms(4), of "[''Keyboard Demo:'', hint]"] by auto
  obtain gm2 where 2: "echo_loop glyph nx fmt stop n gm1 = Some (Inr (gm2, n'))"
    "console fb glyph gm2 (types_on fb glyph (concat (map (\<lambda>y. fmt y @ [10]) (xs @ [x])))
       (types_on fb glyph (chars ''Keyboard Demo:'' @ [10] @ chars hint @ [10]) s))"
    using echo_loop_shows [OF assms(1-3) 1(2)] by blast
  obtain gm3 where "println_all glyph [''Exiting keyboard demo.''] gm2 = Some (Inr gm3)"
    "console fb glyph gm3 (types_on fb glyph (echo_text hint fmt (xs @ [x])) s)"
    using println_all_shows [OF 2(2), of "[''Exiting keyboard demo.'']"] by (auto simp: echo_text_def comp_def simp flip: typed_append)
  then show ?thesis using 1(1) 2(1) by (simp add: echo_demo_def)
qed

lemma accepted_snoc: "n \<le> i \<Longrightarrow> f (evs i) = Some x \<Longrightarrow> accepted f evs n (Suc i) = accepted f evs n i @ [x]"
  by (simp add: accepted_def List.map_filter_def)

lemma accepted_set: "y \<in> set (accepted f evs n i) \<longleftrightarrow> (\<exists>j. n \<le> j \<and> j < i \<and> f (evs j) = Some y)"
  by (force simp: accepted_def List.map_filter_def)

text \<open>
  The keyboard demonstration prints every key press up to the first press of Escape, in order and
  nothing else, and then ends; the events after it are left in the queue.
\<close>

theorem keyboard_demo_shows_presses:
  assumes "console fb glyph gm s" "n \<le> i" "pressed_key (evs i) = Some e" "ke_scancode e = Some Sc_Escape"
    and "\<And>j k. n \<le> j \<Longrightarrow> j < i \<Longrightarrow> pressed_key (evs j) = Some k \<Longrightarrow> ke_scancode k \<noteq> Some Sc_Escape"
  shows "\<exists>gm'. keyboard_demo glyph uni fmt_mods evs n gm = Some (Inr (gm', Suc i))
    \<and> console fb glyph gm' (types_on fb glyph (echo_text press_hint_esc (debug_event uni fmt_mods) (accepted pressed_key evs n (Suc i))) s)"
proof -
  have "reads (poll_key_press evs) n (accepted pressed_key evs n i @ [e]) (Suc i)"
    using press.reads_accepted [of n i evs e] by (simp add: accepted_snoc assms)
  from echo_demo_shows [OF this, where stop = "\<lambda>e. ke_scancode e = Some Sc_Escape", OF _ _ assms(1)] show ?thesis
    using assms(4,5) unfolding keyboard_demo_def accepted_snoc [of n i pressed_key evs e, OF assms(2,3)] by (force simp: accepted_set)
qed

theorem keyboard_demo3_shows_chars:
  assumes "console fb glyph gm s" "n \<le> i" "types_char evs i (of_char CHR ''q'')"
    and "\<And>j. n \<le> j \<Longrightarrow> j < i \<Longrightarrow> \<not> types_char evs j (of_char CHR ''q'')"
  shows "\<exists>gm'. keyboard_demo3 glyph uni evs n gm = Some (Inr (gm', Suc i))
    \<and> console fb glyph gm' (types_on fb glyph (echo_text press_hint_q (debug_char uni) (accepted pressed_char evs n (Suc i))) s)"
proof -
  have i: "pressed_char (evs i) = Some (of_char CHR ''q'')" using assms(3) by (simp add: pressed_char_types)
  have "reads (read_char evs) n (accepted pressed_char evs n i @ [of_char CHR ''q'']) (Suc i)"
    using typed_in.reads_accepted [of n i evs "of_char CHR ''q''"] by (simp add: accepted_snoc assms i)
  from echo_demo_shows [OF this, where stop = "\<lambda>c. c = of_char (CHR ''q'')", OF _ _ assms(1)] show ?thesis
    using assms(4) unfolding keyboard_demo3_def accepted_snoc [of n i pressed_char evs "of_char CHR ''q''", OF assms(2) i]
    by (force simp: accepted_set pressed_char_types)
qed

subsection \<open>The user program\<close>

lemma read_line_reads:
  "reads nx n (cs @ [13]) n' \<Longrightarrow> 13 \<notin> set cs \<Longrightarrow> read_line nx input n = Some (input @ cs, n')"
  by (induction cs arbitrary: n input) (subst read_line.simps, auto simp: reads_Cons reads_Nil)+

fun answer_text :: "(nat \<Rightarrow> usize) \<Rightarrow> nat \<Rightarrow> u32 list list \<Rightarrow> u32 list" where
  "answer_text clock k [] = []"
| "answer_text clock k (l # ls) = you_typed l @ system_time_text (clock k) @ answer_text clock (Suc k) ls"

lemma command_loop_answers:
  assumes "reads (usr_read_char evs) n (concat (map (\<lambda>l. l @ [13]) ls) @ chars ''exit'' @ [13]) n'"
    and "\<forall>l \<in> set ls. 13 \<notin> set l \<and> l \<noteq> chars ''exit''" "console fb glyph gm s"
  shows "\<exists>gm'. command_loop glyph clock evs k n gm = Some (Inr (gm', n'))
    \<and> console fb glyph gm' (types_on fb glyph (answer_text clock k ls) s)"
  using assms
proof (induction ls arbitrary: n gm s k)
  case Nil
  have "read_line (usr_read_char evs) [] n = Some (chars ''exit'', n')"
    using read_line_reads [of _ n "chars ''exit''" n' "[]"] Nil(1) by (simp add: chars_def)
  then show ?case using Nil(3) by (subst command_loop.simps) (simp add: typed_def)
next
  case (Cons l ls)
  obtain n1 where n1: "reads (usr_read_char evs) n (l @ [13]) n1"
    "reads (usr_read_char evs) n1 (concat (map (\<lambda>l. l @ [13]) ls) @ chars ''exit'' @ [13]) n'"
    using Cons.prems(1) reads_append [of "usr_read_char evs" n "l @ [13]" _ n'] by auto
  have rl: "read_line (usr_read_char evs) [] n = Some (l, n1)" using read_line_reads [OF n1(1), of "[]"] Cons.prems(2) by simp
  obtain gm1 where g1: "prints glyph [you_typed l, system_time_text (clock k)] gm = Some (Inr gm1)"
    "console fb glyph gm1 (types_on fb glyph (you_typed l @ system_time_text (clock k)) s)"
    using prints_show [OF Cons.prems(3), of "[you_typed l, system_time_text (clock k)]"] by auto
  obtain gm' where "command_loop glyph clock evs (Suc k) n1 gm1 = Some (Inr (gm', n'))"
    "console fb glyph gm' (types_on fb glyph (answer_text clock (Suc k) ls) (types_on fb glyph (you_typed l @ system_time_text (clock k)) s))"
    using Cons.IH [OF n1(2) _ g1(2), of "Suc k"] Cons.prems(2) by auto
  then show ?case using rl g1(1) Cons.prems(2)
    by (subst command_loop.simps) (simp flip: typed_append)
qed

subsection \<open>The user program reads like the kernel\<close>

lemma poll_key_event_found:
  assumes "poll_key_event evs n = Some (k, n')"
  shows "\<exists>i. n \<le> i \<and> n' = Suc i \<and> evs i = Some k"
proof -
  have "\<exists>i. n \<le> i \<and> snd r = Suc i \<and> evs i = Some (fst r)" if "poll_key_event evs n = Some r" for r
  proof (rule poll_key_event.raw_induct [where P = "\<lambda>evs n r. \<exists>i. n \<le> i \<and> snd r = Suc i \<and> evs i = Some (fst r)", OF _ that])
    fix poll evs n and r :: "key_event \<times> nat"
    assume ih: "\<And>evs n r. poll evs n = Some r \<Longrightarrow> \<exists>i. n \<le> i \<and> snd r = Suc i \<and> evs i = Some (fst r)"
      and step: "(case evs n of Some k \<Rightarrow> Some (k, Suc n) | None \<Rightarrow> poll evs (Suc n)) = Some r"
    show "\<exists>i. n \<le> i \<and> snd r = Suc i \<and> evs i = Some (fst r)"
      using step ih [of evs "Suc n" r] by (cases "evs n") (auto dest: Suc_leD)
  qed
  from this [OF assms] show ?thesis by simp
qed

lemma poll_key_press_found:
  assumes "poll_key_press evs n = Some (k, n')"
  shows "\<exists>i. n \<le> i \<and> n' = Suc i \<and> evs i = Some k \<and> ke_pressed k"
proof -
  define P where "P evs n r \<longleftrightarrow> (\<exists>i. n \<le> i \<and> snd r = Suc i \<and> evs i = Some (fst r) \<and> ke_pressed (fst r))"
    for evs :: "nat \<Rightarrow> key_event option" and n :: nat and r :: "key_event \<times> nat"
  have "P evs n r" if "poll_key_press evs n = Some r" for r
  proof (rule poll_key_press.raw_induct [where P = P, OF _ that])
    fix poll evs n and r :: "key_event \<times> nat"
    assume ih: "\<And>evs n r. poll evs n = Some r \<Longrightarrow> P evs n r"
      and step: "(case poll_key_event evs n of None \<Rightarrow> None | Some (k, n') \<Rightarrow> if ke_pressed k then Some (k, n') else poll evs n') = Some r"
    then obtain k1 n1 where k1: "poll_key_event evs n = Some (k1, n1)" by (auto split: option.splits)
    then show "P evs n r" using step ih [of evs n1 r] poll_key_event_found [OF k1]
      by (cases "ke_pressed k1") (auto simp: P_def)
  qed
  from this [OF assms] show ?thesis by (simp add: P_def)
qed

lemma poll_char_found:
  assumes "poll_char evs n = Some r"
  shows "\<exists>i. n \<le> i \<and> pressed_char (evs i) = Some (fst r)"
proof -
  define P where "P evs n r \<longleftrightarrow> (\<exists>i. n \<le> i \<and> pressed_char (evs i) = Some (fst r))"
    for evs :: "nat \<Rightarrow> key_event option" and n :: nat and r :: "u32 \<times> nat"
  have "P evs n r"
  proof (rule poll_char.raw_induct [where P = P, OF _ assms])
    fix poll evs n and r :: "u32 \<times> nat"
    assume ih: "\<And>evs n r. poll evs n = Some r \<Longrightarrow> P evs n r"
      and step: "(case poll_key_press evs n of None \<Rightarrow> None
        | Some (k, n') \<Rightarrow> (case ke_ascii k of Some c \<Rightarrow> Some (c, n') | None \<Rightarrow> poll evs n')) = Some r"
    then obtain k1 n1 where k1: "poll_key_press evs n = Some (k1, n1)" by (auto split: option.splits)
    then obtain i where i: "n \<le> i" "n1 = Suc i" "evs i = Some k1" "ke_pressed k1" using poll_key_press_found by blast
    show "P evs n r"
    proof (cases "ke_ascii k1")
      case None
      then have "P evs (Suc i) r" using step k1 ih i(2) by simp
      then show ?thesis using i(1) unfolding P_def by (metis Suc_leD le_trans)
    next
      case (Some c)
      then have "pressed_char (evs i) = Some (fst r)" using step k1 i(3,4) by (auto simp: pressed_char_def)
      then show ?thesis using i(1) unfolding P_def by blast
    qed
  qed
  then show ?thesis by (simp add: P_def)
qed

lemma usr_read_char_found:
  assumes "usr_read_char evs n = Some r"
  shows "\<exists>i. n \<le> i \<and> pressed_char (evs i) = Some (fst r)"
proof -
  define P where "P evs n r \<longleftrightarrow> (\<exists>i. n \<le> i \<and> pressed_char (evs i) = Some (fst r))"
    for evs :: "nat \<Rightarrow> key_event option" and n :: nat and r :: "u32 \<times> nat"
  have "P evs n r"
  proof (rule usr_read_char.raw_induct [where P = P, OF _ assms])
    fix rd evs n and r :: "u32 \<times> nat"
    assume ih: "\<And>evs n r. rd evs n = Some r \<Longrightarrow> P evs n r"
      and step: "(case evs n of None \<Rightarrow> rd evs (Suc n)
        | Some key \<Rightarrow> if ke_pressed key then (case ke_ascii key of Some c \<Rightarrow> Some (c, Suc n) | None \<Rightarrow> rd evs (Suc n)) else rd evs (Suc n)) = Some r"
    have later: "rd evs (Suc n) = Some r \<Longrightarrow> P evs n r" using ih [of evs "Suc n" r] unfolding P_def by (blast dest: Suc_leD)
    show "P evs n r"
    proof (cases "pressed_char (evs n)")
      case None
      then have "rd evs (Suc n) = Some r" using step by (cases "evs n") (auto simp: pressed_char_def split: if_splits)
      then show ?thesis by (rule later)
    next
      case (Some c)
      then have "r = (c, Suc n)" using step by (cases "evs n") (auto simp: pressed_char_def split: if_splits)
      then show ?thesis using Some by (auto simp: P_def)
    qed
  qed
  then show ?thesis by (simp add: P_def)
qed

text \<open>
  The read loop of the user program, with its system calls and waits, returns exactly what the kernel's own
  \<open>read_char\<close> would return on the same queue, and one returns if and only if the other does.
\<close>

theorem usr_read_char_is_read_char: "usr_read_char evs n = read_char evs n"
proof (cases "\<exists>i. n \<le> i \<and> pressed_char (evs i) \<noteq> None")
  case True
  define i where "i = (LEAST i. n \<le> i \<and> pressed_char (evs i) \<noteq> None)"
  have i: "n \<le> i \<and> pressed_char (evs i) \<noteq> None" unfolding i_def using True by (rule LeastI_ex)
  have least: "\<forall>j. n \<le> j \<longrightarrow> j < i \<longrightarrow> pressed_char (evs j) = None" unfolding i_def using not_less_Least by blast
  from i obtain c where "pressed_char (evs i) = Some c" by auto
  then show ?thesis using typed_in.next_first [of n i evs c] user_in.next_first [of n i evs c] i least by simp
next
  case False
  then have "usr_read_char evs n = None" "poll_char evs n = None"
    using usr_read_char_found poll_char_found by (metis not_None_eq)+
  then show ?thesis by (simp add: read_char_def)
qed

text \<open>
  C28. The user program of lesson 9: whoever types lines and then \<open>exit\<close>, each ended by Enter, sees the greeting
  with the thread's number and, for every line in order, the line itself and the system time in seconds;
  at \<open>exit\<close> the program returns, having cleared \<open>DEMO_RUNNING\<close>, and leaves later key events in the queue. Key releases
  and keys without a character change nothing.
\<close>

theorem syscall_demo_answers:
  assumes "console fb glyph gm s"
    and "accepted pressed_char evs n (Suc i) = concat (map (\<lambda>l. l @ [13]) (ls @ [chars ''exit'']))" "n \<le> i" "types_char evs i 13"
    and "\<forall>l \<in> set ls. 13 \<notin> set l \<and> l \<noteq> chars ''exit''"
  shows "\<exists>gm'. syscall_test_thread glyph tid clock evs n gm = Some (Inr (False, gm', Suc i))
    \<and> console fb glyph gm' (types_on fb glyph (concat (syscall_greeting tid) @ answer_text clock 0 ls) s)"
proof -
  have "pressed_char (evs i) = Some 13" using assms(4) by (simp add: pressed_char_types)
  then have rd: "reads (usr_read_char evs) n (concat (map (\<lambda>l. l @ [13]) ls) @ chars ''exit'' @ [13]) (Suc i)"
    using user_in.reads_accepted [of n i evs 13] assms(2,3) by simp
  obtain gm1 where g1: "prints glyph (syscall_greeting tid) gm = Some (Inr gm1)"
    "console fb glyph gm1 (types_on fb glyph (concat (syscall_greeting tid)) s)"
    using prints_show [OF assms(1)] by blast
  obtain gm' where "command_loop glyph clock evs 0 n gm1 = Some (Inr (gm', Suc i))"
    "console fb glyph gm' (types_on fb glyph (answer_text clock 0 ls) (types_on fb glyph (concat (syscall_greeting tid)) s))"
    using command_loop_answers [OF rd assms(5) g1(2)] by blast
  then show ?thesis using g1(1) by (simp add: syscall_test_thread_def typed_append)
qed

definition demo_typing :: "nat \<Rightarrow> key_event option" where
  "demo_typing i = (if i < 8 then Some (key_event_new\<lparr>ke_ascii := Some ([104, 105, 13, 101, 120, 105, 116, 13] ! i), ke_pressed := True\<rparr>) else None)"

theorem syscall_demo_answers_witness:
  "\<exists>gm'. syscall_test_thread box_font 5 (\<lambda>_. 4200) demo_typing 0 demo_console = Some (Inr (False, gm', 8))
    \<and> console demo_console_fb box_font gm' (types_on demo_console_fb box_font
        (concat (syscall_greeting 5) @ you_typed [104, 105] @ system_time_text 4200) blank_screen)"
proof -
  have u: "[0..<Suc 7] = [0, 1, 2, 3, 4, 5, 6, 7]" by (simp add: upt_rec)
  have a: "accepted pressed_char demo_typing 0 (Suc 7) = concat (map (\<lambda>l. l @ [13]) ([[104, 105]] @ [chars ''exit'']))"
    unfolding accepted_def u by (simp add: List.map_filter_def pressed_char_def demo_typing_def chars_def)
  have t: "types_char demo_typing 7 13" by (simp add: types_char_def demo_typing_def)
  show ?thesis using syscall_demo_answers [OF demo_console_blank a _ t, of 5 "\<lambda>_. 4200"] by (simp add: chars_def)
qed

lemma select_song_reads:
  assumes "c = of_char (CHR ''1'') \<or> c = of_char (CHR ''2'')"
  shows "reads (read_char evs) n (cs @ [c]) n' \<Longrightarrow> \<forall>d \<in> set cs. d \<noteq> of_char (CHR ''1'') \<and> d \<noteq> of_char (CHR ''2'') \<Longrightarrow>
    select_song evs n = Some (if c = of_char (CHR ''1'') then Tetris else Aerodynamic, n')"
proof (induction cs arbitrary: n)
  case Nil
  then show ?case using assms by (subst select_song.simps) (auto simp: reads_Cons reads_Nil)
next
  case (Cons d cs)
  then obtain n1 where "read_char evs n = Some (d, n1)" "reads (read_char evs) n1 (cs @ [c]) n'" by (auto simp: reads_Cons)
  then show ?case using Cons.IH [of n1] Cons.prems(2) by (subst select_song.simps) simp
qed

text \<open>The song menu takes the first \<open>1\<close> or \<open>2\<close> and ignores everything before it.\<close>

theorem select_song_first:
  assumes "n \<le> i" "types_char evs i c" "c = of_char (CHR ''1'') \<or> c = of_char (CHR ''2'')"
    and "\<And>j d. n \<le> j \<Longrightarrow> j < i \<Longrightarrow> types_char evs j d \<Longrightarrow> d \<noteq> of_char (CHR ''1'') \<and> d \<noteq> of_char (CHR ''2'')"
  shows "select_song evs n = Some (if c = of_char (CHR ''1'') then Tetris else Aerodynamic, Suc i)"
proof -
  have i: "pressed_char (evs i) = Some c" using assms(2) by (simp add: pressed_char_types)
  have "reads (read_char evs) n (accepted pressed_char evs n i @ [c]) (Suc i)"
    using typed_in.reads_accepted [of n i evs c] assms(1) i by (simp add: accepted_snoc)
  moreover have "d \<noteq> of_char (CHR ''1'') \<and> d \<noteq> of_char (CHR ''2'')" if "d \<in> set (accepted pressed_char evs n i)" for d
    using that assms(4) [of _ d] unfolding accepted_set pressed_char_types by blast
  ultimately show ?thesis using select_song_reads [OF assms(3)] by blast
qed

subsection \<open>The table of numbers\<close>

text \<open>The number that digits stand for in a base.\<close>

definition digit_value :: "char \<Rightarrow> nat" where
  "digit_value ch = (if (of_char ch :: nat) < 58 then of_char ch - 48 else of_char ch - 87)"

definition numeral_value :: "nat \<Rightarrow> string \<Rightarrow> nat" where
  "numeral_value b str = foldl (\<lambda>v ch. b * v + digit_value ch) 0 str"

lemma numeral_value_snoc: "numeral_value b (str @ [ch]) = b * numeral_value b str + digit_value ch"
  by (simp add: numeral_value_def)

lemma numeral_value_one: "numeral_value b [ch] = digit_value ch"
  by (simp add: numeral_value_def)

lemma digit_value_char: "k < 16 \<Longrightarrow> digit_value (char_of (if k < 10 then 48 + k else 87 + k :: nat)) = k"
  by (simp add: digit_value_def of_char_of)

lemma digits_denote:
  "numeral_value 10 (dec_digits n) = n" "numeral_value 16 (hex_digits n) = n" "numeral_value 2 (bin_digits n) = n"
proof -
  show "numeral_value 10 (dec_digits n) = n"
  proof (induction n rule: dec_digits.induct)
    case (1 n)
    then show ?case using digit_value_char [of n] digit_value_char [of "n mod 10"]
      by (subst dec_digits.simps) (auto simp: numeral_value_snoc numeral_value_one)
  qed
  show "numeral_value 16 (hex_digits n) = n"
  proof (induction n rule: hex_digits.induct)
    case (1 n)
    then show ?case using digit_value_char [of n] digit_value_char [of "n mod 16"]
      by (subst hex_digits.simps) (auto simp: numeral_value_snoc numeral_value_one)
  qed
  show "numeral_value 2 (bin_digits n) = n"
  proof (induction n rule: bin_digits.induct)
    case (1 n)
    have "n mod 2 < 10" by (rule less_trans [of _ 2]) simp_all
    then have "digit_value (char_of (48 + n mod 2)) = n mod 2" using digit_value_char [of "n mod 2"] by simp
    then show ?case using 1 digit_value_char [of n]
      by (subst bin_digits.simps) (auto simp: numeral_value_snoc numeral_value_one)
  qed
qed

text \<open>Lines that fit on the screen stand below each other.\<close>

lemma lines_shown:
  assumes "\<forall>l \<in> set ls. displayable glyph l \<and> length l < cols" "sc_cursor s = (0, row)" "row + length ls < rows"
  shows "sc_cursor (typed cols rows glyph (concat (map (\<lambda>l. l @ [10]) ls)) s) = (0, row + length ls)
    \<and> (\<forall>k < length ls. shows_at glyph 0 (row + k) (ls ! k) (typed cols rows glyph (concat (map (\<lambda>l. l @ [10]) ls)) s))
    \<and> (\<forall>x y. y < row \<longrightarrow> sc_grid (typed cols rows glyph (concat (map (\<lambda>l. l @ [10]) ls)) s) x y = sc_grid s x y)"
  using assms
proof (induction ls arbitrary: s row)
  case Nil
  then show ?case by (simp add: typed_def)
next
  case (Cons l ls)
  define s1 where "s1 = typed cols rows glyph l s"
  have l: "sc_cursor s1 = (length l, row)" "shows_at glyph 0 row l s1" "\<forall>x y. y \<noteq> row \<longrightarrow> sc_grid s1 x y = sc_grid s x y"
    using typed_line [of glyph l s 0 row cols rows] Cons.prems by (auto simp: s1_def)
  define s2 where "s2 = typed cols rows glyph (l @ [10]) s"
  have s2: "s2 = s1\<lparr>sc_cursor := (0, Suc row)\<rparr>"
    using l(1) Cons.prems(3) unfolding s2_def typed_append s1_def [symmetric] by (simp add: typed_def put_def new_line_def Let_def)
  note ih = Cons.IH [of s2 "Suc row"]
  have e: "typed cols rows glyph (concat (map (\<lambda>l. l @ [10]) (l # ls))) s = typed cols rows glyph (concat (map (\<lambda>l. l @ [10]) ls)) s2"
    by (simp add: s2_def flip: typed_append)
  have "shows_at glyph 0 (row + k) ((l # ls) ! k) (typed cols rows glyph (concat (map (\<lambda>l. l @ [10]) ls)) s2)" if "k < length (l # ls)" for k
    using that ih l(2) Cons.prems by (cases k) (auto simp: s2 shows_at_def)
  then show ?case using ih l(3) Cons.prems unfolding e by (auto simp: s2)
qed

lemma table_fits: "list_all (\<lambda>l. printable l \<and> length l \<le> 23) text_demo_lines"
  unfolding text_demo_lines_def table_row_def pad_left_def printable_def by code_simp

text \<open>
  On a cleared screen of at least 24 columns and 21 rows the text demonstration shows its table, one row
  below the other; a row holds the number in base 10, 16 and 2.
\<close>

theorem text_demo_shows_table:
  assumes "console fb glyph gm blank_screen" "has_ascii glyph" "24 \<le> cols_of fb" "21 \<le> rows_of fb"
  shows "\<exists>gm' s'. text_demo glyph gm = Some (Inr gm') \<and> console fb glyph gm' s' \<and> sc_cursor s' = (0, 20)
    \<and> (\<forall>k < 20. shows_at glyph 0 k (chars (text_demo_lines ! k)) s')"
proof -
  let ?ls = "map chars text_demo_lines"
  have n: "length ?ls = 20" by (simp add: text_demo_lines_def)
  have fit: "\<forall>l \<in> set ?ls. displayable glyph l \<and> length l < cols_of fb"
    using table_fits displayable_chars [OF assms(2)] assms(3) by (fastforce simp: list_all_iff chars_def)
  obtain gm' where gm': "text_demo glyph gm = Some (Inr gm')"
    "console fb glyph gm' (types_on fb glyph (concat (map (\<lambda>l. l @ [10]) ?ls)) blank_screen)"
    using println_all_shows [OF assms(1), of text_demo_lines] by (auto simp: text_demo_def comp_def)
  show ?thesis
    using gm' lines_shown [OF fit, of blank_screen 0 "rows_of fb"] n assms(4) by (auto simp: blank_screen_def)
qed

end
