(* ===== verification/Demo_Net.thy ===== *)
theory Demo_Net
  imports Demo_Text Rtl8139 Pci
begin

text \<open>
  \<^verbatim>\<open>kernel/src/demo/lesson7.rs\<close>: the list of the PCI devices and the demonstration of the network card, one
  thread that shows received packets and one that sends a test packet every second. Interrupts change
  the driver between two rounds of the receiving thread: \<open>arrive k\<close> is what they did before round \<open>k\<close>. The value of
  \<open>DEMO_RUNNING\<close> that round \<open>k\<close> reads is \<open>on k\<close>; readings of the clock are numbered.
\<close>

subsection \<open>Hexadecimal formats\<close>

definition pad_zero :: "nat \<Rightarrow> string \<Rightarrow> string" where
  "pad_zero w str = replicate (w - length str) CHR ''0'' @ str"

definition upper_hex :: "char \<Rightarrow> char" where
  "upper_hex ch = (if (of_char ch :: nat) < 97 then ch else char_of (of_char ch - 32 :: nat))"

definition fmt_x :: "nat \<Rightarrow> nat \<Rightarrow> string" where
  "fmt_x w n = pad_zero w (hex_digits n)"

definition fmt_X :: "nat \<Rightarrow> nat \<Rightarrow> string" where
  "fmt_X w n = pad_zero w (map upper_hex (hex_digits n))"

subsection \<open>The PCI devices\<close>

definition device_text :: "u16 \<Rightarrow> u16 \<Rightarrow> string" where
  "device_text vendor device = ''Found PCI device '' @ fmt_x 4 (unat vendor) @ '':'' @ fmt_x 4 (unat device)"

fun print_devices ::
  "hw \<Rightarrow> (u32 \<Rightarrow> u8 list option) \<Rightarrow> pci_bus \<Rightarrow> pci_device list \<Rightarrow> cpu \<Rightarrow> console_state \<Rightarrow> (cpu \<times> console_state) res option" where
  "print_devices hw glyph pb [] c gm = Some (Inr (c, gm))"
| "print_devices hw glyph pb (dev # devs) c gm =
     (case read_vendor_id hw pb dev c of
        None \<Rightarrow> None
      | Some (vendor, c1) \<Rightarrow>
          (case read_device_id hw pb dev c1 of
             None \<Rightarrow> None
           | Some (device, c2) \<Rightarrow>
               run_then (println_all glyph [device_text vendor device] gm) (print_devices hw glyph pb devs c2)))"

definition print_pci_devices ::
  "hw \<Rightarrow> (u32 \<Rightarrow> u8 list option) \<Rightarrow> pci_bus \<Rightarrow> cpu \<Rightarrow> console_state \<Rightarrow> (cpu \<times> console_state) res option" where
  "print_pci_devices hw glyph pb c gm =
     run_then (with_terminal (\<lambda>(t, m). terminal_clear t m) gm) (\<lambda>gm1.
     run_then (prints glyph [chars ''PCI Demo:'' @ [10, 10]] gm1) (print_devices hw glyph pb (pb_devices pb) c))"

subsection \<open>The network card\<close>

definition rtl8139_demo ::
  "(u32 \<Rightarrow> u8 list option) \<Rightarrow> thread \<Rightarrow> thread \<Rightarrow> scheduler \<Rightarrow> console_state \<Rightarrow> (bool \<times> scheduler \<times> console_state) res option" where
  "rtl8139_demo glyph receive_loop send_loop s gm =
     run_then (with_terminal (\<lambda>(t, m). terminal_clear t m) gm) (\<lambda>gm1.
     run_then (prints glyph [chars ''RTL8139 Demo:'' @ [10, 10]] gm1) (\<lambda>gm2.
     run_then (returned (ready receive_loop s)) (\<lambda>(_, s1).
     run_then (returned (ready send_loop s1)) (\<lambda>(_, s2). Some (Inr (True, s2, gm2))))))"

text \<open>\<open>data\<close> is an array of 2048 bytes, so the slices and indices are in bounds.\<close>

definition mac_text :: "u8 list \<Rightarrow> string" where
  "mac_text bs = fmt_X 2 (unat (bs ! 0)) @ '':'' @ fmt_X 2 (unat (bs ! 1)) @ '':'' @ fmt_X 2 (unat (bs ! 2)) @ '':''
     @ fmt_X 2 (unat (bs ! 3)) @ '':'' @ fmt_X 2 (unat (bs ! 4)) @ '':'' @ fmt_X 2 (unat (bs ! 5))"

definition received_text :: "ethernet_frame \<Rightarrow> string" where
  "received_text frame =
     (let dest = take 6 (ef_data frame);
          src = take 6 (drop 6 (ef_data frame));
          ethertype = push_bit 8 (ucast (ef_data frame ! 12)) OR (ucast (ef_data frame ! 13) :: u16)
      in ''Received Packet ['' @ dec_digits (ef_length frame) @ '' bytes] | Dest: '' @ mac_text dest @ '' | Src: '' @ mac_text src
         @ '' | Type: 0x'' @ fmt_X 4 (unat ethertype))"

definition receive_round ::
  "(u32 \<Rightarrow> u8 list option) \<Rightarrow> rtl8139 option \<Rightarrow> console_state \<Rightarrow> (rtl8139 \<times> console_state) res option" where
  "receive_round glyph nic gm =
     run_then (receive_packet nic) (\<lambda>(r, d).
       case r of
         None \<Rightarrow> Some (Inr (d, gm))
       | Some frame \<Rightarrow> run_then (println_all glyph [received_text frame] gm) (\<lambda>gm'. Some (Inr (d, gm'))))"

partial_function (option) receive_loop ::
  "(u32 \<Rightarrow> u8 list option) \<Rightarrow> (nat \<Rightarrow> usize) \<Rightarrow> (nat \<Rightarrow> bool) \<Rightarrow> (nat \<Rightarrow> rtl8139 option \<Rightarrow> rtl8139 option) \<Rightarrow> nat \<Rightarrow> nat
     \<Rightarrow> rtl8139 option \<Rightarrow> console_state \<Rightarrow> (rtl8139 option \<times> console_state) res option" where
  "receive_loop glyph clock on arrive k n nic gm =
     (if \<not> on k then Some (Inr (nic, gm))
      else
        (case receive_round glyph (arrive k nic) gm of
           None \<Rightarrow> None
         | Some r \<Rightarrow>
             (case r of
                Inl e \<Rightarrow> Some (Inl e)
              | Inr (d, gm') \<Rightarrow>
                  (case wait (\<lambda>i. clock (n + i)) 100 of
                     None \<Rightarrow> None
                   | Some w \<Rightarrow>
                       (case w of
                          Inl e \<Rightarrow> Some (Inl e)
                        | Inr i \<Rightarrow> receive_loop glyph clock on arrive (Suc k) (Suc (n + i)) (Some d) gm')))))"

definition test_receive_loop ::
  "(u32 \<Rightarrow> u8 list option) \<Rightarrow> (nat \<Rightarrow> usize) \<Rightarrow> (nat \<Rightarrow> bool) \<Rightarrow> (nat \<Rightarrow> rtl8139 option \<Rightarrow> rtl8139 option)
     \<Rightarrow> rtl8139 option \<Rightarrow> console_state \<Rightarrow> (rtl8139 option \<times> console_state) res option" where
  "test_receive_loop glyph clock on arrive nic gm =
     run_then (println_all glyph [''Waiting for packets...''] gm) (receive_loop glyph clock on arrive 0 0 nic)"

text \<open>\<open>frame[i..].copy_from_slice(bytes)\<close> inside the array.\<close>

definition copy_at :: "nat \<Rightarrow> u8 list \<Rightarrow> u8 list \<Rightarrow> u8 list" where
  "copy_at i bs frame = take i frame @ bs @ drop (i + length bs) frame"

definition test_packet :: "u8 list" where
  "test_packet =
     copy_at 14 (ascii ''Hello from HeineOS!'')
       (((copy_at 6 [0x52, 0x54, 0x00, 0x12, 0x34, 0x56]
           (copy_at 0 [0xFF, 0xFF, 0xFF, 0xFF, 0xFF, 0xFF] (replicate 64 0)))[12 := 0x88])[13 := 0xB5])"

definition send_test_packet ::
  "hw \<Rightarrow> (u32 \<Rightarrow> u8 list option) \<Rightarrow> rtl8139 option \<Rightarrow> cpu \<Rightarrow> console_state \<Rightarrow> (rtl8139 \<times> cpu \<times> console_state) res option" where
  "send_test_packet hw glyph nic c gm =
     run_then (println_all glyph [''Sending test packet...''] gm) (\<lambda>gm'.
     run_then (send_packet hw test_packet nic c) (\<lambda>(d, c'). Some (Inr (d, c', gm'))))"

partial_function (option) test_send_loop ::
  "hw \<Rightarrow> (u32 \<Rightarrow> u8 list option) \<Rightarrow> (nat \<Rightarrow> usize) \<Rightarrow> (nat \<Rightarrow> bool) \<Rightarrow> (nat \<Rightarrow> rtl8139 option \<Rightarrow> rtl8139 option) \<Rightarrow> nat \<Rightarrow> nat
     \<Rightarrow> rtl8139 option \<Rightarrow> cpu \<Rightarrow> console_state \<Rightarrow> (rtl8139 option \<times> cpu \<times> console_state) res option" where
  "test_send_loop hw glyph clock on arrive k n nic c gm =
     (if \<not> on k then Some (Inr (nic, c, gm))
      else
        (case send_test_packet hw glyph (arrive k nic) c gm of
           None \<Rightarrow> None
         | Some r \<Rightarrow>
             (case r of
                Inl e \<Rightarrow> Some (Inl e)
              | Inr (d, c', gm') \<Rightarrow>
                  (case wait (\<lambda>i. clock (n + i)) 1000 of
                     None \<Rightarrow> None
                   | Some w \<Rightarrow>
                       (case w of
                          Inl e \<Rightarrow> Some (Inl e)
                        | Inr i \<Rightarrow> test_send_loop hw glyph clock on arrive (Suc k) (Suc (n + i)) (Some d) c' gm')))))"

subsection \<open>What the threads show\<close>

text \<open>The line for a packet, from its own bytes.\<close>

definition packet_text :: "u8 list \<Rightarrow> string" where
  "packet_text p = ''Received Packet ['' @ dec_digits (length p) @ '' bytes] | Dest: '' @ mac_text p @ '' | Src: '' @ mac_text (drop 6 p)
     @ '' | Type: 0x'' @ fmt_X 4 (256 * unat (p ! 12) + unat (p ! 13))"

lemma ethertype_value: "unat (push_bit 8 (ucast a) OR (ucast b :: u16)) = 256 * unat a + unat (b :: u8)" for a :: u8
proof -
  have "push_bit 8 (ucast a) AND (ucast b :: u16) = 0"
    by (rule bit_word_eqI) (auto simp: bit_simps dest: bit_imp_le_length)
  then have "push_bit 8 (ucast a) OR (ucast b :: u16) = push_bit 8 (ucast a) + ucast b"
    by (simp add: disjunctive_add_eq_or)
  moreover have a: "unat (push_bit 8 (ucast a :: u16)) = 256 * unat a"
    using unsigned_less [of a, where 'a = nat] by (simp add: push_bit_eq_mult unat_word_ariths unsigned_ucast_eq take_bit_nat_eq_self_iff)
  moreover have "unat (ucast b :: u16) = unat b" by simp
  ultimately show ?thesis using unsigned_less [of a, where 'a = nat] unsigned_less [of b, where 'a = nat]
    by (simp add: unat_word_ariths)
qed

lemma received_text_payload:
  assumes "frame_ok fr" "14 \<le> length (payload fr)"
  shows "received_text fr = packet_text (payload fr)"
proof -
  define p where "p = payload fr"
  have l: "length p = ef_length fr" "14 \<le> ef_length fr" using assms by (auto simp: p_def payload_def frame_ok_def)
  have n: "p ! i = ef_data fr ! i" if "i < 14" for i using that l by (simp add: p_def payload_def)
  have "mac_text (take 6 (ef_data fr)) = mac_text p" "mac_text (take 6 (drop 6 (ef_data fr))) = mac_text (drop 6 p)"
    using assms(1) l n by (simp_all add: mac_text_def frame_ok_def)
  then show ?thesis
    using l n unfolding p_def [symmetric] by (simp add: received_text_def packet_text_def Let_def ethertype_value)
qed

text \<open>The packets that wait in the receive queue of an idle driver.\<close>

definition receives :: "rtl8139 \<Rightarrow> u8 list list \<Rightarrow> bool" where
  "receives d ps \<longleftrightarrow> \<not> is_locked (nic_rx d) \<and> pq_ok (rx_queue (inner (nic_rx d))) \<and> packets (rx_queue (inner (nic_rx d))) = ps"

lemma receive_packet_pops:
  assumes "receives d ps"
  shows "ps = [] \<Longrightarrow> \<exists>d'. receive_packet (Some d) = Some (Inr (None, d')) \<and> receives d' []"
    and "ps = p # qs \<Longrightarrow> \<exists>fr d'. receive_packet (Some d) = Some (Inr (Some fr, d')) \<and> frame_ok fr \<and> payload fr = p \<and> receives d' qs"
proof -
  have l: "nic_rx d = \<lparr>sl_lock = False, sl_data = inner (nic_rx d)\<rparr>" using assms by (simp add: receives_def spinlock_defs)
  define q where "q = rx_queue (inner (nic_rx d))"
  have q: "pq_ok q" "packets q = ps" using assms by (simp_all add: receives_def q_def)
  have eq: "receive_packet (Some d) = Some (and_then (pq_pop q) (\<lambda>(fr, q'). Inr (fr, d\<lparr>nic_rx := spinlock_new ((inner (nic_rx d))\<lparr>rx_queue := q'\<rparr>)\<rparr>)))"
    using l unfolding receive_packet_def q_def by (cases "nic_rx d") (simp add: lock_eq spinlock_defs)
  show "\<exists>d'. receive_packet (Some d) = Some (Inr (None, d')) \<and> receives d' []" if "ps = []"
    using pq.pop_empty [OF q(1)] q that unfolding eq by (simp add: receives_def)
  show "\<exists>fr d'. receive_packet (Some d) = Some (Inr (Some fr, d')) \<and> frame_ok fr \<and> payload fr = p \<and> receives d' qs" if ps: "ps = p # qs"
  proof -
    obtain fr q' where "pq_pop q = Inr (Some fr, q')" "payload fr = p" "frame_ok fr" "pq_ok q'" "packets q' = qs"
      using pq_pop_spec [OF q(1), of p qs] q(2) ps by auto
    then show ?thesis unfolding eq by (simp add: receives_def)
  qed
qed

text \<open>One round of the receiving thread shows the oldest packet, if there is one.\<close>

lemma receive_round_shows:
  assumes "receives d ps" "\<forall>p \<in> set ps. 14 \<le> length p" "console fb glyph gm s"
  shows "\<exists>d' gm'. receive_round glyph (Some d) gm = Some (Inr (d', gm')) \<and> receives d' (drop 1 ps)
    \<and> console fb glyph gm' (types_on fb glyph (concat (map (\<lambda>p. chars (packet_text p) @ [10]) (take 1 ps))) s)"
proof (cases ps)
  case Nil
  then show ?thesis using receive_packet_pops(1) [OF assms(1)] assms(3) by (cases gm) (auto simp: receive_round_def typed_def)
next
  case (Cons p qs)
  then obtain fr d' where r: "receive_packet (Some d) = Some (Inr (Some fr, d'))" "frame_ok fr" "payload fr = p" "receives d' qs"
    using receive_packet_pops(2) [OF assms(1)] by blast
  have "received_text fr = packet_text p" using received_text_payload [OF r(2)] r(3) assms(2) Cons by simp
  then show ?thesis using println_all_shows [OF assms(3), of "[packet_text p]"] r(1,4) Cons by (auto simp: receive_round_def)
qed

lemma receive_loop_shows:
  assumes t: "ticks f d clock" and stop: "\<not> on m" "\<And>j. j < m \<Longrightarrow> on j"
  shows "\<lbrakk>k \<le> m; receives nic ps; \<forall>p \<in> set ps. 14 \<le> length p; console fb glyph gm s; f n + (m - k) * (100 + 2 * d) < 2 ^ 64\<rbrakk> \<Longrightarrow>
    \<exists>nic' gm'. receive_loop glyph clock on (\<lambda>_ x. x) k n (Some nic) gm = Some (Inr (Some nic', gm')) \<and> receives nic' (drop (m - k) ps)
      \<and> console fb glyph gm' (types_on fb glyph (concat (map (\<lambda>p. chars (packet_text p) @ [10]) (take (m - k) ps))) s)"
proof (induction "m - k" arbitrary: k n nic ps gm s)
  case 0
  then show ?case using stop(1) by (subst receive_loop.simps) (simp add: typed_def)
next
  case (Suc j)
  then have k: "k < m" "m - Suc k = j" "m - k = Suc j" by simp_all
  have time: "f n + Suc j * (100 + 2 * d) < 2 ^ 64" using Suc.prems(5) unfolding k(3) .
  obtain nic1 gm1 where r: "receive_round glyph (Some nic) gm = Some (Inr (nic1, gm1))" "receives nic1 (drop 1 ps)"
    "console fb glyph gm1 (types_on fb glyph (concat (map (\<lambda>p. chars (packet_text p) @ [10]) (take 1 ps))) s)"
    using receive_round_shows [OF Suc.prems(2-4)] by blast
  have "f n + unat (100 :: usize) + d < 2 ^ 64" using time by simp
  then obtain i where i: "wait (\<lambda>i. clock (n + i)) 100 = Some (Inr i)" "f (n + i) \<le> f n + 100 + d"
    using wait_in_time [OF t, of n 100] by auto
  have "f (Suc (n + i)) \<le> f (n + i) + d" using t unfolding ticks_def by blast
  then have b: "f (Suc (n + i)) + (m - Suc k) * (100 + 2 * d) < 2 ^ 64" using i(2) time unfolding k(2) by simp
  have "\<forall>p \<in> set (drop 1 ps). 14 \<le> length p" using Suc.prems(3) by (auto dest: in_set_dropD)
  then obtain nic' gm' where l: "receive_loop glyph clock on (\<lambda>_ x. x) (Suc k) (Suc (n + i)) (Some nic1) gm1 = Some (Inr (Some nic', gm'))"
    "receives nic' (drop (m - Suc k) (drop 1 ps))"
    "console fb glyph gm' (types_on fb glyph (concat (map (\<lambda>p. chars (packet_text p) @ [10]) (take (m - Suc k) (drop 1 ps))))
       (types_on fb glyph (concat (map (\<lambda>p. chars (packet_text p) @ [10]) (take 1 ps))) s))"
    using Suc.hyps(1) [of "Suc k", OF _ _ r(2) _ r(3) b] k(1,2) by auto
  have "take 1 ps @ take (m - Suc k) (drop 1 ps) = take (m - k) ps" using take_add [of 1 j ps] unfolding k(2,3) by simp
  then have "concat (map (\<lambda>p. chars (packet_text p) @ [10]) (take 1 ps)) @ concat (map (\<lambda>p. chars (packet_text p) @ [10]) (take (m - Suc k) (drop 1 ps)))
      = concat (map (\<lambda>p. chars (packet_text p) @ [10]) (take (m - k) ps))"
    by (metis concat_append map_append)
  moreover have "drop (m - Suc k) (drop 1 ps) = drop (m - k) ps" unfolding k(2,3) by simp
  ultimately show ?case using l r(1) i(1) stop(2) [OF k(1)] by (subst receive_loop.simps) (simp flip: typed_append)
qed

text \<open>
  The network demonstration shows what arrives: a receiving thread that makes \<open>m\<close> rounds before the demonstration ends
  prints the oldest \<open>m\<close> waiting packets, in order, each as one line with its length, destination, source
  and type taken from its own first 14 bytes; the others stay queued. The clock may advance by up to \<open>d\<close>
  milliseconds between two readings.
\<close>

theorem receive_loop_shows_packets:
  assumes "console fb glyph gm s" "receives nic ps" "\<forall>p \<in> set ps. 14 \<le> length p"
    and "\<not> on m" "\<forall>j < m. on j" "ticks f d clock" "f 0 + m * (100 + 2 * d) < 2 ^ 64"
  shows "\<exists>nic' gm'. test_receive_loop glyph clock on (\<lambda>_ x. x) (Some nic) gm = Some (Inr (Some nic', gm')) \<and> receives nic' (drop m ps)
    \<and> console fb glyph gm' (types_on fb glyph
        (concat (map (\<lambda>l. chars l @ [10]) (''Waiting for packets...'' # map packet_text (take m ps)))) s)"
proof -
  obtain gm1 where 1: "println_all glyph [''Waiting for packets...''] gm = Some (Inr gm1)"
    "console fb glyph gm1 (types_on fb glyph (chars ''Waiting for packets...'' @ [10]) s)"
    using println_all_shows [OF assms(1), of "[''Waiting for packets...'']"] by auto
  obtain nic' gm' where "receive_loop glyph clock on (\<lambda>_ x. x) 0 0 (Some nic) gm1 = Some (Inr (Some nic', gm'))" "receives nic' (drop m ps)"
    "console fb glyph gm' (types_on fb glyph (concat (map (\<lambda>p. chars (packet_text p) @ [10]) (take m ps)))
       (types_on fb glyph (chars ''Waiting for packets...'' @ [10]) s))"
    using receive_loop_shows [where k = 0 and n = 0 and on = on and m = m, OF assms(6,4) _ _ assms(2,3) 1(2)] assms(5,7) by auto
  then show ?thesis using 1(1) by (simp add: test_receive_loop_def comp_def flip: typed_append)
qed

text \<open>The test packet that the other thread sends shows as intended on a kernel that receives it.\<close>

lemma test_packet_bytes:
  "test_packet = [0xFF, 0xFF, 0xFF, 0xFF, 0xFF, 0xFF, 0x52, 0x54, 0x00, 0x12, 0x34, 0x56, 0x88, 0xB5]
     @ ascii ''Hello from HeineOS!'' @ replicate 31 0"
proof -
  have c: "copy_at i bs (a @ z @ r) = a @ bs @ r" if "length z = length bs" "length a = i" for i a bs z r
    using that by (simp add: copy_at_def)
  have "replicate 64 (0 :: u8) = [] @ replicate 6 0 @ replicate 6 0 @ [0, 0] @ replicate 19 0 @ replicate 31 0"
    by (simp add: numeral_eq_Suc)
  then have 1: "copy_at 0 [0xFF, 0xFF, 0xFF, 0xFF, 0xFF, 0xFF] (replicate 64 0)
      = [0xFF, 0xFF, 0xFF, 0xFF, 0xFF, 0xFF] @ replicate 6 0 @ [0, 0] @ replicate 19 0 @ replicate 31 0"
    using c [of "replicate 6 0" "[0xFF, 0xFF, 0xFF, 0xFF, 0xFF, 0xFF]" "[]" 0] by simp
  have 2: "copy_at 6 [0x52, 0x54, 0x00, 0x12, 0x34, 0x56] ([0xFF, 0xFF, 0xFF, 0xFF, 0xFF, 0xFF] @ replicate 6 0 @ r)
      = [0xFF, 0xFF, 0xFF, 0xFF, 0xFF, 0xFF, 0x52, 0x54, 0x00, 0x12, 0x34, 0x56] @ r" for r
    using c [of "replicate 6 0" "[0x52, 0x54, 0x00, 0x12, 0x34, 0x56]" "[0xFF, 0xFF, 0xFF, 0xFF, 0xFF, 0xFF]" 6] by simp
  have 3: "copy_at 14 (ascii ''Hello from HeineOS!'')
      ([0xFF, 0xFF, 0xFF, 0xFF, 0xFF, 0xFF, 0x52, 0x54, 0x00, 0x12, 0x34, 0x56, 0x88, 0xB5] @ replicate 19 0 @ replicate 31 0)
    = [0xFF, 0xFF, 0xFF, 0xFF, 0xFF, 0xFF, 0x52, 0x54, 0x00, 0x12, 0x34, 0x56, 0x88, 0xB5] @ ascii ''Hello from HeineOS!'' @ replicate 31 0"
    using c [of "replicate 19 0" "ascii ''Hello from HeineOS!''" "[0xFF, 0xFF, 0xFF, 0xFF, 0xFF, 0xFF, 0x52, 0x54, 0x00, 0x12, 0x34, 0x56, 0x88, 0xB5]" 14]
    by (simp add: ascii_def)
  have "((([0xFF, 0xFF, 0xFF, 0xFF, 0xFF, 0xFF, 0x52, 0x54, 0x00, 0x12, 0x34, 0x56] @ [0, 0] @ r)[12 := 0x88])[13 := 0xB5])
    = [0xFF, 0xFF, 0xFF, 0xFF, 0xFF, 0xFF, 0x52, 0x54, 0x00, 0x12, 0x34, 0x56, 0x88, 0xB5 :: u8] @ r" for r by simp
  then show ?thesis unfolding test_packet_def 1 2 by (simp only: 3)
qed

lemma hex_examples:
  "fmt_X 2 255 = ''FF''" "fmt_X 2 82 = ''52''" "fmt_X 2 84 = ''54''" "fmt_X 2 0 = ''00''" "fmt_X 2 18 = ''12''" "fmt_X 2 52 = ''34''"
  "fmt_X 2 86 = ''56''" "fmt_X 4 34997 = ''88B5''" "dec_digits 64 = ''64''"
  by (simp_all add: fmt_X_def pad_zero_def upper_hex_def hex_digits.simps dec_digits.simps of_char_of char_of_def bit_0)

lemma test_packet_header:
  "length test_packet = 64"
  "packet_text test_packet = ''Received Packet [64 bytes] | Dest: FF:FF:FF:FF:FF:FF | Src: 52:54:00:12:34:56 | Type: 0x88B5''"
proof -
  show l: "length test_packet = 64" by (simp add: test_packet_bytes ascii_def)
  show "packet_text test_packet = ''Received Packet [64 bytes] | Dest: FF:FF:FF:FF:FF:FF | Src: 52:54:00:12:34:56 | Type: 0x88B5''"
    unfolding packet_text_def l mac_text_def by (simp add: test_packet_bytes hex_examples)
qed

theorem receive_loop_shows_packets_witness:
  "\<exists>nic ps nic' gm'. receives nic ps
    \<and> test_receive_loop box_font (\<lambda>i. of_nat (10 * i)) (\<lambda>k. k < 1) (\<lambda>_ x. x) (Some nic) demo_console = Some (Inr (Some nic', gm'))
    \<and> receives nic' [] \<and> console demo_console_fb box_font gm' (types_on demo_console_fb box_font
        (concat (map (\<lambda>l. chars l @ [10]) [''Waiting for packets...'',
          ''Received Packet [64 bytes] | Dest: FF:FF:FF:FF:FF:FF | Src: 52:54:00:12:34:56 | Type: 0x88B5''])) blank_screen)"
proof -
  define rx where "rx = inner (nic_rx demo_nic)"
  have n: "pq_ok (rx_queue rx)" "packets (rx_queue rx) = []" "pq_size (rx_queue rx) < QUEUE_CAPACITY"
    by (simp_all add: rx_def demo_nic_def rtl8139_new_def rx_state_new_def pq_new) (simp add: packet_queue_new_def QUEUE_CAPACITY_def)
  obtain q where q: "pq_push test_packet (rx_queue rx) = Inr q" "pq_ok q" "packets q = [test_packet]"
    using pq_push_room [OF n(1,3), of test_packet] n(2) test_packet_header(1) by auto
  define nic where "nic = demo_nic\<lparr>nic_rx := spinlock_new (rx\<lparr>rx_queue := q\<rparr>)\<rparr>"
  have r: "receives nic [test_packet]" using q by (simp add: receives_def nic_def)
  have "\<exists>n. t \<le> 10 * n" for t :: nat by presburger
  then have t: "ticks (\<lambda>i. 10 * i) 10 (\<lambda>i. of_nat (10 * i))" by (simp add: ticks_def)
  show ?thesis
    using receive_loop_shows_packets [OF demo_console_blank r, of "\<lambda>k. k < 1" 1, OF _ _ _ t] r test_packet_header by auto
qed

subsection \<open>The list of devices\<close>

text \<open>
  The PCI demonstration lists the devices that the scan found, one line each with the vendor and device number
  that the configuration space holds for it.
\<close>

definition device_line :: "(u32 \<Rightarrow> u32) \<Rightarrow> pci_device \<Rightarrow> string" where
  "device_line m dev = device_text (reg16 m (pd_bus dev) (pd_device dev) (pd_function dev) R_VendorId)
     (reg16 m (pd_bus dev) (pd_device dev) (pd_function dev) R_DeviceId)"

lemma print_devices_shows:
  assumes "responds hw upd init" "\<not> is_locked (pb_registers pb)" "console fb glyph gm s"
  shows "\<exists>c' gm'. print_devices hw glyph pb devs c gm = Some (Inr (c', gm')) \<and> cfg upd init c' = cfg upd init c
    \<and> console fb glyph gm' (types_on fb glyph (concat (map (\<lambda>dev. chars (device_line (cfg upd init c) dev) @ [10]) devs)) s)"
  using assms(3)
proof (induction devs arbitrary: c gm s)
  case Nil
  then show ?case by (cases gm) (auto simp: typed_def)
next
  case (Cons dev devs)
  obtain c1 where 1: "read_vendor_id hw pb dev c = Some (reg16 (cfg upd init c) (pd_bus dev) (pd_device dev) (pd_function dev) R_VendorId, c1)"
    "cfg upd init c1 = cfg upd init c"
    using config_reads(2) [OF assms(1,2)] unfolding read_vendor_id_def dev_read16_def by blast
  obtain c2 where 2: "read_device_id hw pb dev c1 = Some (reg16 (cfg upd init c) (pd_bus dev) (pd_device dev) (pd_function dev) R_DeviceId, c2)"
    "cfg upd init c2 = cfg upd init c"
    using config_reads(2) [OF assms(1,2), of _ _ _ _ c1] unfolding 1(2) read_device_id_def dev_read16_def by blast
  obtain gm1 where 3: "println_all glyph [device_line (cfg upd init c) dev] gm = Some (Inr gm1)"
    "console fb glyph gm1 (types_on fb glyph (chars (device_line (cfg upd init c) dev) @ [10]) s)"
    using println_all_shows [OF Cons.prems, of "[device_line (cfg upd init c) dev]"] by auto
  show ?case using Cons.IH [OF 3(2), of c2] 1(1) 2 3(1) by (auto simp: device_line_def simp flip: typed_append)
qed

theorem print_pci_devices_lists_bus:
  assumes "responds hw upd init" "\<not> is_locked (pb_registers pb)" "console fb glyph gm s"
  shows "\<exists>c' gm'. print_pci_devices hw glyph pb c gm = Some (Inr (c', gm'))
    \<and> console fb glyph gm' (types_on fb glyph (chars ''PCI Demo:'' @ [10, 10]
        @ concat (map (\<lambda>dev. chars (device_line (cfg upd init c) dev) @ [10]) (pb_devices pb))) blank_screen)"
proof -
  obtain gm1 where 1: "with_terminal (\<lambda>(t, m). terminal_clear t m) gm = Some (Inr gm1)" "console fb glyph gm1 blank_screen"
    using clear_shows [OF assms(3)] by blast
  obtain gm2 where 2: "prints glyph [chars ''PCI Demo:'' @ [10, 10]] gm1 = Some (Inr gm2)"
    "console fb glyph gm2 (types_on fb glyph (chars ''PCI Demo:'' @ [10, 10]) blank_screen)"
    using prints_show [OF 1(2), of "[chars ''PCI Demo:'' @ [10, 10]]"] by auto
  show ?thesis using print_devices_shows [OF assms(1,2) 2(2), of "pb_devices pb" c] 1(1) 2(1)
    by (auto simp: print_pci_devices_def simp flip: typed_append)
qed

end
