(* ===== verification/Demo_Heap.thy ===== *)
theory Demo_Heap
  imports Demo_Text Heap
begin

text \<open>
  The heap demonstration of \<^verbatim>\<open>kernel/src/demo/lesson2.rs\<close>, a client of the global allocator, and the dump of the free
  list in \<^verbatim>\<open>kernel/src/allocator/list.rs\<close> and \<^verbatim>\<open>global.rs\<close> that it prints. Vectors allocate as those of the standard library:
  nothing while empty, then room for four elements, doubling when full. A null pointer ends the program in the handler for allocation errors.
\<close>

subsection \<open>Dumping the free list\<close>

definition hex_alt :: "nat \<Rightarrow> string" where
  "hex_alt n = ''0x'' @ hex_digits n"

definition free_block_text :: "list_node \<Rightarrow> usize \<Rightarrow> string" where
  "free_block_text b e = ''  '' @ hex_alt (unat (start_addr b)) @ '' - '' @ hex_alt (unat e)"

fun dump_blocks :: "(u32 \<Rightarrow> u8 list option) \<Rightarrow> list_node list \<Rightarrow> console_state \<Rightarrow> console_state res option" where
  "dump_blocks glyph [] gm = Some (Inr gm)"
| "dump_blocks glyph (b # bs) gm =
     run_then (Some (end_addr b)) (\<lambda>e.
     run_then (println_all glyph [free_block_text b e] gm) (dump_blocks glyph bs))"

definition list_dump_free_list :: "(u32 \<Rightarrow> u8 list option) \<Rightarrow> list_allocator \<Rightarrow> console_state \<Rightarrow> console_state res option" where
  "list_dump_free_list glyph a gm = run_then (println_all glyph [''Free memory blocks:''] gm) (dump_blocks glyph (la_free a))"

text \<open>The global function holds the lock of the allocator while it prints, and changes nothing behind it.\<close>

definition dump_free_list :: "(u32 \<Rightarrow> u8 list option) \<Rightarrow> list_allocator spinlock \<Rightarrow> console_state \<Rightarrow> console_state res option" where
  "dump_free_list glyph s gm = (case lock s of None \<Rightarrow> None | Some g \<Rightarrow> list_dump_free_list glyph (guard_deref g) gm)"

subsection \<open>Vectors and boxes\<close>

definition heap_alloc :: "layout \<Rightarrow> list_allocator spinlock \<Rightarrow> (usize \<times> list_allocator spinlock) res option" where
  "heap_alloc l s = run_then (global_alloc l s) (\<lambda>(p, s').
     if p = 0 then Some (Inl (PanicMsg ''memory allocation failed'')) else Some (Inr (p, s')))"

text \<open>A vector of \<open>i32\<close>.\<close>

record vec =
  vec_ptr :: usize
  vec_cap :: nat
  vec_items :: "nat list"

definition array_layout :: "nat \<Rightarrow> layout" where
  "array_layout n = \<lparr>lay_size = of_nat (4 * n), lay_align = 4\<rparr>"

definition vec_new :: vec where
  "vec_new = \<lparr>vec_ptr = 4, vec_cap = 0, vec_items = []\<rparr>"

definition vec_of :: "nat list \<Rightarrow> list_allocator spinlock \<Rightarrow> (vec \<times> list_allocator spinlock) res option" where
  "vec_of xs s = run_then (heap_alloc (array_layout (length xs)) s) (\<lambda>(p, s').
     Some (Inr (\<lparr>vec_ptr = p, vec_cap = length xs, vec_items = xs\<rparr>, s')))"

text \<open>The allocator has no \<open>realloc\<close> of its own: the default one allocates, copies and releases.\<close>

definition vec_grow :: "vec \<Rightarrow> list_allocator spinlock \<Rightarrow> (vec \<times> list_allocator spinlock) res option" where
  "vec_grow v s =
     (let cap = max (max (2 * vec_cap v) (Suc (vec_cap v))) 4 in
      run_then (heap_alloc (array_layout cap) s) (\<lambda>(p, s1).
      run_then (if vec_cap v = 0 then Some (Inr s1) else global_dealloc (vec_ptr v) (array_layout (vec_cap v)) s1) (\<lambda>s2.
        Some (Inr (v\<lparr>vec_ptr := p, vec_cap := cap\<rparr>, s2)))))"

definition vec_push :: "nat \<Rightarrow> vec \<Rightarrow> list_allocator spinlock \<Rightarrow> (vec \<times> list_allocator spinlock) res option" where
  "vec_push x v s =
     run_then (if length (vec_items v) = vec_cap v then vec_grow v s else Some (Inr (v, s))) (\<lambda>(v', s').
       Some (Inr (v'\<lparr>vec_items := vec_items v' @ [x]\<rparr>, s')))"

definition vec_drop :: "vec \<Rightarrow> list_allocator spinlock \<Rightarrow> list_allocator spinlock res option" where
  "vec_drop v s = (if vec_cap v = 0 then Some (Inr s) else global_dealloc (vec_ptr v) (array_layout (vec_cap v)) s)"

subsection \<open>The demonstration\<close>

fun square_loop ::
  "(u32 \<Rightarrow> u8 list option) \<Rightarrow> nat list \<Rightarrow> vec \<Rightarrow> list_allocator spinlock \<Rightarrow> console_state
     \<Rightarrow> (vec \<times> list_allocator spinlock \<times> console_state) res option" where
  "square_loop glyph [] squared s gm = Some (Inr (squared, s, gm))"
| "square_loop glyph (i # is) squared s gm =
     run_then (println_all glyph [dec_digits i @ '' ''] gm) (\<lambda>gm1.
     run_then (vec_push (i * i) squared s) (\<lambda>(squared1, s1). square_loop glyph is squared1 s1 gm1))"

text \<open>The fields of \<open>MyStruct\<close>, of 1, 2 and 4 bytes, take 8 bytes with an alignment of 4.\<close>

definition my_struct_layout :: layout where
  "my_struct_layout = \<lparr>lay_size = 8, lay_align = 4\<rparr>"

definition my_struct_lines :: "string list" where
  "my_struct_lines = [''MyStruct:'', ''a: '' @ dec_digits 1, ''b: '' @ dec_digits 2, ''c: '' @ dec_digits 3]"

definition heap_demo ::
  "(u32 \<Rightarrow> u8 list option) \<Rightarrow> list_allocator spinlock \<Rightarrow> console_state \<Rightarrow> (list_allocator spinlock \<times> console_state) res option" where
  "heap_demo glyph s gm =
     run_then (vec_of [1, 2, 3, 4, 5] s) (\<lambda>(numbers, s1).
     run_then (dump_free_list glyph s1 gm) (\<lambda>gm1.
     run_then (println_all glyph [''Numbers:''] gm1) (\<lambda>gm2.
     run_then (square_loop glyph (vec_items numbers) vec_new s1 gm2) (\<lambda>(squared, s2, gm3).
     run_then (dump_free_list glyph s2 gm3) (\<lambda>gm4.
     run_then (println_all glyph (''Squared:'' # map (\<lambda>i. dec_digits i @ '' '') (vec_items squared)) gm4) (\<lambda>gm5.
     run_then (dump_free_list glyph s2 gm5) (\<lambda>gm6.
     run_then (heap_alloc my_struct_layout s2) (\<lambda>(my_struct, s3).
     run_then (dump_free_list glyph s3 gm6) (\<lambda>gm7.
     run_then (println_all glyph my_struct_lines gm7) (\<lambda>gm8.
     run_then (global_dealloc my_struct my_struct_layout s3) (\<lambda>s4.
     run_then (vec_drop squared s4) (\<lambda>s5.
     run_then (vec_drop numbers s5) (\<lambda>s6.
     run_then (dump_free_list glyph s6 gm8) (\<lambda>gm9. Some (Inr (s6, gm9))))))))))))))))"

subsection \<open>Allocation as a change of the free bytes\<close>

text \<open>The heap of \<open>a0\<close>, unlocked, with the free bytes \<open>F\<close>.\<close>

definition heap_at :: "list_allocator \<Rightarrow> list_allocator spinlock \<Rightarrow> nat set \<Rightarrow> bool" where
  "heap_at a0 s F \<longleftrightarrow> \<not> is_locked s \<and> heap_ok (inner s) \<and> same_heap a0 (inner s) \<and> bytes (la_free (inner s)) = F"

definition room :: "nat \<Rightarrow> nat set \<Rightarrow> bool" where
  "room k F \<longleftrightarrow> (\<exists>l. {l..<l + k} \<subseteq> F)"

text \<open>The bytes of an allocation at \<open>p\<close> that the client may give back.\<close>

definition returnable :: "list_allocator \<Rightarrow> usize \<Rightarrow> usize \<Rightarrow> bool" where
  "returnable a0 p n \<longleftrightarrow> block_ok (unat (la_heap_start a0)) (unat (la_heap_end a0)) \<lparr>ln_addr = p, ln_size = n\<rparr>"

abbreviation taken :: "usize \<Rightarrow> usize \<Rightarrow> nat set" where
  "taken p n \<equiv> {unat p..<unat p + unat n}"

lemma interval_in_block:
  assumes "free_ok hs he ns" "{l..<l + k} \<subseteq> bytes ns" "0 < k"
  shows "\<exists>b \<in> set ns. {l..<l + k} \<subseteq> span b"
  using assms(1,2)
proof (induction ns)
  case Nil
  then show ?case using assms(3) by auto
next
  case (Cons n ns)
  have gap: "hi n \<notin> bytes (n # ns)" using Cons.prems(1) by (fastforce simp: bytes_def span_def)
  have later: "hi n < x" if "x \<in> bytes ns" for x using that Cons.prems(1) by (fastforce simp: bytes_def span_def)
  show ?case
  proof (cases "l \<in> span n")
    case True
    have "l + k \<le> hi n"
    proof (rule ccontr)
      assume "\<not> l + k \<le> hi n"
      then have "hi n \<in> {l..<l + k}" using True by (auto simp: span_def)
      then show False using gap Cons.prems(2) by blast
    qed
    then show ?thesis using True by (auto simp: span_def)
  next
    case False
    have "l \<in> {l..<l + k}" using assms(3) by simp
    then have "l \<in> bytes (n # ns)" using Cons.prems(2) by blast
    then have "hi n < l" using False later by auto
    then have "{l..<l + k} \<subseteq> bytes ns" using Cons.prems(2) by (auto simp: span_def)
    then show ?thesis using Cons by auto
  qed
qed

lemma heap_alloc_takes:
  assumes h: "heap_at a0 s F" and sa: "size_align l = Inr (n, 8)" "request_ok n 8" and k: "room k F" "unat n + 16 \<le> k"
  shows "\<exists>p s'. heap_alloc l s = Some (Inr (p, s')) \<and> heap_at a0 s' (F - taken p n) \<and> taken p n \<subseteq> F
    \<and> returnable a0 p n \<and> room (k - unat n) (F - taken p n)"
proof -
  let ?a = "inner s"
  have ok: "heap_ok ?a" "\<not> is_locked s" "same_heap a0 ?a" "bytes (la_free ?a) = F" using h by (simp_all add: heap_at_def)
  have fo: "free_ok (unat (la_heap_start ?a)) (unat (la_heap_end ?a)) (la_free ?a)" using ok(1) by (simp add: heap_ok_def)
  obtain x where x: "{x..<x + k} \<subseteq> bytes (la_free ?a)" using k(1) ok(4) by (auto simp: room_def)
  obtain b where b: "b \<in> set (la_free ?a)" "{x..<x + k} \<subseteq> span b" using interval_in_block [OF fo x] k(2) by auto
  have blk: "block_ok (unat (la_heap_start ?a)) (unat (la_heap_end ?a)) c" if "c \<in> set (la_free ?a)" for c
    using fo that by (simp add: free_ok_def)
  have rl: "round_up (lo c) 8 = lo c" if "c \<in> set (la_free ?a)" for c
    using blk [OF that] round_up_multiple [of 8 "lo c"] by (simp add: block_ok_def)
  have xb: "lo b \<le> x" "x + k \<le> hi b"
  proof -
    have "x \<in> span b" "x + k - 1 \<in> span b" using b(2) k(2) by auto
    then show "lo b \<le> x" "x + k \<le> hi b" by (auto simp: span_def)
  qed
  then have "fits b n 8" using rl [OF b(1)] k(2) by (simp add: fits_def Let_def)
  then obtain p a' c where al: "alloc l ?a = Inr (p, a')" "allocated ?a n 8 p a' c" using alloc_ok [OF ok(1) sa] b(1) by blast
  have c: "c \<in> set (la_free ?a)" "unat p = lo c" "unat p + unat n \<le> hi c" "heap_ok a'" "same_heap ?a a'" "p \<noteq> 0"
    "bytes (la_free a') = bytes (la_free ?a) - taken p n"
    using al(2) rl [of c] by (auto simp: allocated_def)
  have sub: "taken p n \<subseteq> F" using c(1,2,3) ok(4) by (auto simp: bytes_def span_def)
  have "returnable a0 p n" using blk [OF c(1)] c(2,3) sa(2) ok(3)
    by (auto simp: returnable_def block_ok_def lo_def hi_def request_ok_def same_heap_def)
  moreover have "heap_alloc l s = Some (Inr (p, spinlock_new a'))"
    using ok(2) al(1) c(6) by (cases s) (simp add: heap_alloc_def global_alloc_def locked_alloc_def lock_eq spinlock_defs)
  moreover have "heap_at a0 (spinlock_new a') (F - taken p n)" using c ok by (auto simp: heap_at_def same_heap_def)
  moreover have "room (k - unat n) (F - taken p n)"
  proof -
    have "y \<notin> taken p n" if y: "y \<in> {x + unat n..<x + k}" for y
    proof
      assume t: "y \<in> taken p n"
      then have "y \<in> span c" "y \<in> span b" using c(2,3) xb y by (auto simp: span_def)
      then have "c = b" using fo c(1) b(1) by (auto simp: free_ok_def span_def sorted_wrt_iff_nth_less in_set_conv_nth)
        (metis less_asym less_trans nat_neq_iff not_less_iff_gr_or_eq order.strict_trans2)
      then show False using t y c(2) xb(1) by auto
    qed
    then have "{x + unat n..<x + unat n + (k - unat n)} \<subseteq> F - taken p n" using x ok(4) k(2) by fastforce
    then show ?thesis unfolding room_def by blast
  qed
  ultimately show ?thesis using sub by blast
qed

lemma dealloc_returns:
  assumes h: "heap_at a0 s F" and sa: "size_align l = Inr (n, al)" and p: "returnable a0 p n" "taken p n \<inter> F = {}"
  obtains s' where "global_dealloc p l s = Some (Inr s')" "heap_at a0 s' (F \<union> taken p n)"
proof -
  have ok: "heap_ok (inner s)" "\<not> is_locked s" "same_heap a0 (inner s)" "bytes (la_free (inner s)) = F" using h by (simp_all add: heap_at_def)
  have "block_ok (unat (la_heap_start (inner s))) (unat (la_heap_end (inner s))) \<lparr>ln_addr = p, ln_size = n\<rparr>"
    using p(1) ok(3) by (simp add: returnable_def same_heap_def)
  then obtain a' where a': "dealloc p l (inner s) = Inr a'" "heap_ok a'" "same_heap (inner s) a'" "bytes (la_free a') = F \<union> taken p n"
    using dealloc_ok [OF ok(1) sa, of p] p(2) ok(4) by auto
  have "global_dealloc p l s = Some (Inr (spinlock_new a'))"
    using ok(2) a'(1) by (cases s) (simp add: global_dealloc_def locked_dealloc_def lock_eq spinlock_defs)
  then show thesis using that a' ok(3) by (auto simp: heap_at_def same_heap_def)
qed

text \<open>The free bytes determine the allocator.\<close>

lemma heap_at_unique:
  assumes "heap_at a0 s F" "heap_at a0 s' F"
  shows "s' = s"
proof -
  have "la_free (inner s') = la_free (inner s)"
    using assms by (intro free_ok_unique [of "unat (la_heap_start a0)" "unat (la_heap_end a0)"]) (auto simp: heap_at_def heap_ok_def same_heap_def)
  then have "inner s' = inner s" using assms by (auto simp: heap_at_def same_heap_def)
  then show ?thesis using assms by (cases s; cases s') (auto simp: heap_at_def spinlock_defs)
qed

definition dump_lines :: "list_node list \<Rightarrow> string list" where
  "dump_lines ns = ''Free memory blocks:'' # map (\<lambda>b. free_block_text b (ln_addr b + ln_size b)) ns"

lemma dump_shows:
  assumes "heap_at a0 s F" "console fb glyph gm sc"
  shows "\<exists>gm'. dump_free_list glyph s gm = Some (Inr gm')
    \<and> console fb glyph gm' (types_on fb glyph (concat (map (\<lambda>l. chars l @ [10]) (dump_lines (la_free (inner s))))) sc)"
proof -
  have ends: "end_addr b = Inr (ln_addr b + ln_size b)" if "b \<in> set (la_free (inner s))" for b
  proof (rule end_addr_ok)
    have "hi b \<le> unat (la_heap_end (inner s))" "unat (la_heap_end (inner s)) \<le> 2 ^ 63"
      using assms(1) that by (auto simp: heap_at_def heap_ok_def free_ok_def block_ok_def)
    then show "hi b < 2 ^ 64" by simp
  qed
  have blocks: "\<exists>gm'. dump_blocks glyph ns gm = Some (Inr gm')
      \<and> console fb glyph gm' (types_on fb glyph (concat (map (\<lambda>b. chars (free_block_text b (ln_addr b + ln_size b)) @ [10]) ns)) sc)"
    if "console fb glyph gm sc" "\<forall>b \<in> set ns. end_addr b = Inr (ln_addr b + ln_size b)" for ns gm sc
    using that
  proof (induction ns arbitrary: gm sc)
    case Nil
    then show ?case by (cases gm) (auto simp: typed_def)
  next
    case (Cons b ns)
    obtain gm1 where 1: "println_all glyph [free_block_text b (ln_addr b + ln_size b)] gm = Some (Inr gm1)"
      "console fb glyph gm1 (types_on fb glyph (chars (free_block_text b (ln_addr b + ln_size b)) @ [10]) sc)"
      using println_all_shows [OF Cons.prems(1), of "[free_block_text b (ln_addr b + ln_size b)]"] by auto
    show ?case using Cons.IH [OF 1(2)] Cons.prems(2) 1(1) by (auto simp flip: typed_append)
  qed
  obtain gm1 where 1: "println_all glyph [''Free memory blocks:''] gm = Some (Inr gm1)"
    "console fb glyph gm1 (types_on fb glyph (chars ''Free memory blocks:'' @ [10]) sc)"
    using println_all_shows [OF assms(2), of "[''Free memory blocks:'']"] by auto
  have "dump_free_list glyph s gm = list_dump_free_list glyph (inner s) gm"
    using assms(1) by (cases s) (simp add: dump_free_list_def heap_at_def lock_eq spinlock_defs)
  then show ?thesis using 1(1) blocks [OF 1(2)] ends
    by (auto simp: list_dump_free_list_def dump_lines_def comp_def simp flip: typed_append)
qed

lemma demo_layouts:
  "size_align (array_layout 5) = Inr (24, 8)" "size_align (array_layout 4) = Inr (16, 8)" "size_align (array_layout 8) = Inr (32, 8)"
  "size_align my_struct_layout = Inr (16, 8)" "request_ok 24 8" "request_ok 16 8" "request_ok 32 8"
proof -
  show "size_align (array_layout 5) = Inr (24, 8)" "size_align (array_layout 4) = Inr (16, 8)" "size_align (array_layout 8) = Inr (32, 8)"
    "size_align my_struct_layout = Inr (16, 8)"
    by code_simp+
  have "is_power_of_two 8" unfolding is_power_of_two_iff by (intro exI [of _ 3]) simp
  then show "request_ok 24 8" "request_ok 16 8" "request_ok 32 8" by (simp_all add: request_ok_def)
qed

text \<open>The allocations of the loop, without its output.\<close>

fun push_squares :: "nat list \<Rightarrow> vec \<Rightarrow> list_allocator spinlock \<Rightarrow> (vec \<times> list_allocator spinlock) res option" where
  "push_squares [] v s = Some (Inr (v, s))"
| "push_squares (i # is) v s = run_then (vec_push (i * i) v s) (\<lambda>(v1, s1). push_squares is v1 s1)"

lemma square_loop_shows:
  assumes "push_squares is v s = Some (Inr (v', s'))" "console fb glyph gm sc"
  shows "\<exists>gm'. square_loop glyph is v s gm = Some (Inr (v', s', gm'))
    \<and> console fb glyph gm' (types_on fb glyph (concat (map (\<lambda>i. chars (dec_digits i @ '' '') @ [10]) is)) sc)"
  using assms
proof (induction "is" arbitrary: v s gm sc)
  case Nil
  then show ?case by (cases gm) (auto simp: typed_def)
next
  case (Cons i "is")
  obtain v1 s1 where p: "vec_push (i * i) v s = Some (Inr (v1, s1))" "push_squares is v1 s1 = Some (Inr (v', s'))"
    using Cons.prems(1) by (auto simp: run_then_def split: option.splits sum.splits)
  obtain gm1 where g: "println_all glyph [dec_digits i @ '' ''] gm = Some (Inr gm1)"
    "console fb glyph gm1 (types_on fb glyph (chars (dec_digits i @ '' '') @ [10]) sc)"
    using println_all_shows [OF Cons.prems(2), of "[dec_digits i @ '' '']"] by auto
  show ?case using Cons.IH [OF p(2) g(2)] p(1) g(1) by (auto simp flip: typed_append)
qed

lemma push_squares_demo:
  assumes h: "heap_at a0 s F" and k: "room k F" "64 \<le> k"
  shows "\<exists>p s'. push_squares [1, 2, 3, 4, 5] vec_new s = Some (Inr (\<lparr>vec_ptr = p, vec_cap = 8, vec_items = [1, 4, 9, 16, 25]\<rparr>, s'))
    \<and> heap_at a0 s' (F - taken p 32) \<and> taken p 32 \<subseteq> F \<and> returnable a0 p 32 \<and> room (k - 48) (F - taken p 32)"
proof -
  obtain p1 s1 where 1: "heap_alloc (array_layout 4) s = Some (Inr (p1, s1))" "heap_at a0 s1 (F - taken p1 16)" "taken p1 16 \<subseteq> F"
    "returnable a0 p1 16" "room (k - 16) (F - taken p1 16)"
    using heap_alloc_takes [OF h demo_layouts(2,6) k(1)] k(2) by auto
  have k2: "unat (32 :: usize) + 16 \<le> k - 16" using k(2) by simp
  obtain p2 s2 where 2: "heap_alloc (array_layout 8) s1 = Some (Inr (p2, s2))" "heap_at a0 s2 (F - taken p1 16 - taken p2 32)"
    "taken p2 32 \<subseteq> F - taken p1 16" "returnable a0 p2 32" "room (k - 48) (F - taken p1 16 - taken p2 32)"
    using heap_alloc_takes [OF 1(2) demo_layouts(3,7) 1(5) k2] by auto
  obtain s3 where 3: "global_dealloc p1 (array_layout 4) s2 = Some (Inr s3)" "heap_at a0 s3 (F - taken p1 16 - taken p2 32 \<union> taken p1 16)"
    using dealloc_returns [OF 2(2) demo_layouts(2) 1(4)] by blast
  have F: "F - taken p1 16 - taken p2 32 \<union> taken p1 16 = F - taken p2 32" using 1(3) 2(3) by blast
  have "push_squares [1, 2, 3, 4, 5] vec_new s = Some (Inr (\<lparr>vec_ptr = p2, vec_cap = 8, vec_items = [1, 4, 9, 16, 25]\<rparr>, s3))"
    using 1(1) 2(1) 3(1) by (simp add: vec_push_def vec_grow_def vec_new_def Let_def)
  moreover have "room (k - 48) (F - taken p2 32)" using 2(5) unfolding room_def by blast
  ultimately show ?thesis using 2(3,4) 3(2) unfolding F by blast
qed

text \<open>The allocations of the whole demonstration, from the free bytes \<open>F\<close> and back.\<close>

lemma heap_demo_allocs:
  assumes h: "heap_at (inner s) s F" and r: "room 104 F"
  shows "\<exists>p s1 q s2 b s3 s4 s5. heap_alloc (array_layout 5) s = Some (Inr (p, s1))
    \<and> push_squares [1, 2, 3, 4, 5] vec_new s1 = Some (Inr (\<lparr>vec_ptr = q, vec_cap = 8, vec_items = [1, 4, 9, 16, 25]\<rparr>, s2))
    \<and> heap_alloc my_struct_layout s2 = Some (Inr (b, s3)) \<and> global_dealloc b my_struct_layout s3 = Some (Inr s4)
    \<and> global_dealloc q (array_layout 8) s4 = Some (Inr s5) \<and> global_dealloc p (array_layout 5) s5 = Some (Inr s)
    \<and> (\<forall>x \<in> {s1, s2, s3}. \<exists>G. heap_at (inner s) x G)"
proof -
  obtain p s1 where 1: "heap_alloc (array_layout 5) s = Some (Inr (p, s1))" "heap_at (inner s) s1 (F - taken p 24)" "taken p 24 \<subseteq> F"
    "returnable (inner s) p 24" "room 80 (F - taken p 24)"
    using heap_alloc_takes [OF h demo_layouts(1,5) r] by auto
  obtain q s2 where 2: "push_squares [1, 2, 3, 4, 5] vec_new s1 = Some (Inr (\<lparr>vec_ptr = q, vec_cap = 8, vec_items = [1, 4, 9, 16, 25]\<rparr>, s2))"
    "heap_at (inner s) s2 (F - taken p 24 - taken q 32)" "taken q 32 \<subseteq> F - taken p 24" "returnable (inner s) q 32" "room 32 (F - taken p 24 - taken q 32)"
    using push_squares_demo [OF 1(2,5)] by auto
  obtain b s3 where 3: "heap_alloc my_struct_layout s2 = Some (Inr (b, s3))" "heap_at (inner s) s3 (F - taken p 24 - taken q 32 - taken b 16)"
    "taken b 16 \<subseteq> F - taken p 24 - taken q 32" "returnable (inner s) b 16"
    using heap_alloc_takes [OF 2(2) demo_layouts(4,6) 2(5)] by auto
  obtain s4 where 4: "global_dealloc b my_struct_layout s3 = Some (Inr s4)"
    "heap_at (inner s) s4 (F - taken p 24 - taken q 32 - taken b 16 \<union> taken b 16)"
    using dealloc_returns [OF 3(2) demo_layouts(4) 3(4)] by blast
  have b: "F - taken p 24 - taken q 32 - taken b 16 \<union> taken b 16 = F - taken p 24 - taken q 32" using 3(3) by blast
  obtain s5 where 5: "global_dealloc q (array_layout 8) s4 = Some (Inr s5)" "heap_at (inner s) s5 (F - taken p 24 - taken q 32 \<union> taken q 32)"
    using dealloc_returns [OF 4(2) [unfolded b] demo_layouts(3) 2(4)] by blast
  have q: "F - taken p 24 - taken q 32 \<union> taken q 32 = F - taken p 24" using 2(3) by blast
  obtain s6 where 6: "global_dealloc p (array_layout 5) s5 = Some (Inr s6)" "heap_at (inner s) s6 (F - taken p 24 \<union> taken p 24)"
    using dealloc_returns [OF 5(2) [unfolded q] demo_layouts(1) 1(4)] by blast
  have "F - taken p 24 \<union> taken p 24 = F" using 1(3) by blast
  then have s6: "s6 = s" using heap_at_unique [OF h] 6(2) by simp
  show ?thesis using 1(1,2) 2(1,2) 3(1,2) 4(1) 5(1) 6(1) unfolding s6 by auto
qed

lemma prints_more:
  assumes "console fb glyph gm (types_on fb glyph (concat (map (\<lambda>l. chars l @ [10]) ls)) sc)"
  shows "\<exists>gm'. println_all glyph ms gm = Some (Inr gm') \<and> console fb glyph gm' (types_on fb glyph (concat (map (\<lambda>l. chars l @ [10]) (ls @ ms))) sc)"
    and "heap_at a0 s F \<Longrightarrow> \<exists>gm'. dump_free_list glyph s gm = Some (Inr gm')
      \<and> console fb glyph gm' (types_on fb glyph (concat (map (\<lambda>l. chars l @ [10]) (ls @ dump_lines (la_free (inner s))))) sc)"
    and "push_squares is v s = Some (Inr (v', s')) \<Longrightarrow> \<exists>gm'. square_loop glyph is v s gm = Some (Inr (v', s', gm'))
      \<and> console fb glyph gm' (types_on fb glyph (concat (map (\<lambda>l. chars l @ [10]) (ls @ map (\<lambda>i. dec_digits i @ '' '') is))) sc)"
proof -
  have e: "types_on fb glyph (concat (map (\<lambda>l. chars l @ [10]) ms)) (types_on fb glyph (concat (map (\<lambda>l. chars l @ [10]) ls)) sc)
      = types_on fb glyph (concat (map (\<lambda>l. chars l @ [10]) (ls @ ms))) sc" for ms
    by (simp add: typed_append)
  show "\<exists>gm'. println_all glyph ms gm = Some (Inr gm') \<and> console fb glyph gm' (types_on fb glyph (concat (map (\<lambda>l. chars l @ [10]) (ls @ ms))) sc)"
    using println_all_shows [OF assms, of ms] unfolding e .
  show "\<exists>gm'. dump_free_list glyph s gm = Some (Inr gm')
      \<and> console fb glyph gm' (types_on fb glyph (concat (map (\<lambda>l. chars l @ [10]) (ls @ dump_lines (la_free (inner s))))) sc)"
    if "heap_at a0 s F" using dump_shows [OF that assms] unfolding e .
  show "\<exists>gm'. square_loop glyph is v s gm = Some (Inr (v', s', gm'))
      \<and> console fb glyph gm' (types_on fb glyph (concat (map (\<lambda>l. chars l @ [10]) (ls @ map (\<lambda>i. dec_digits i @ '' '') is))) sc)"
    if "push_squares is v s = Some (Inr (v', s'))"
    using square_loop_shows [OF that assms] e [of "map (\<lambda>i. dec_digits i @ '' '') is"] by (simp add: comp_def)
qed

text \<open>
  C29. The heap demonstration gives back what it takes: on any well-formed, unlocked heap with 104 contiguous free bytes
  it allocates and releases its vectors and its box, reallocation included, without a panic, and ends with the
  allocator in exactly the state it found, free list and all; it shows the numbers, their
  squares and the fields, and its last dump lists the free blocks of the beginning.
\<close>

theorem heap_demo_restores_heap:
  assumes "\<not> is_locked s" "heap_ok (inner s)" "{l..<l + 104} \<subseteq> bytes (la_free (inner s))" "console fb glyph gm sc"
  shows "\<exists>gm' d1 d2 d3. heap_demo glyph s gm = Some (Inr (s, gm'))
    \<and> console fb glyph gm' (types_on fb glyph (concat (map (\<lambda>l. chars l @ [10])
        (d1 @ [''Numbers:''] @ map (\<lambda>i. dec_digits i @ '' '') [1, 2, 3, 4, 5]
         @ d2 @ [''Squared:''] @ map (\<lambda>i. dec_digits i @ '' '') [1, 4, 9, 16, 25]
         @ d2 @ d3 @ my_struct_lines @ dump_lines (la_free (inner s))))) sc)"
proof -
  let ?t = "\<lambda>ls. types_on fb glyph (concat (map (\<lambda>l. chars l @ [10]) ls)) sc" and ?d = "\<lambda>x. dump_lines (la_free (inner x))"
    and ?n = "map (\<lambda>i. dec_digits i @ '' '')"
  have h: "heap_at (inner s) s (bytes (la_free (inner s)))" and r: "room 104 (bytes (la_free (inner s)))"
    using assms by (auto simp: heap_at_def same_heap_def room_def)
  obtain p s1 q s2 b s3 s4 s5 G1 G2 G3 where a: "heap_alloc (array_layout 5) s = Some (Inr (p, s1))"
    "push_squares [1, 2, 3, 4, 5] vec_new s1 = Some (Inr (\<lparr>vec_ptr = q, vec_cap = 8, vec_items = [1, 4, 9, 16, 25]\<rparr>, s2))"
    "heap_alloc my_struct_layout s2 = Some (Inr (b, s3))" "global_dealloc b my_struct_layout s3 = Some (Inr s4)"
    "global_dealloc q (array_layout 8) s4 = Some (Inr s5)" "global_dealloc p (array_layout 5) s5 = Some (Inr s)"
    and at: "heap_at (inner s) s1 G1" "heap_at (inner s) s2 G2" "heap_at (inner s) s3 G3"
    using heap_demo_allocs [OF h r] by (elim exE conjE) (simp, elim exE conjE, blast)
  have 0: "console fb glyph gm (?t [])" using assms(4) by (simp add: typed_def)
  obtain gm1 where 1: "dump_free_list glyph s1 gm = Some (Inr gm1)" "console fb glyph gm1 (?t (?d s1))"
    using prints_more(2) [OF 0 at(1)] by auto
  obtain gm2 where 2: "println_all glyph [''Numbers:''] gm1 = Some (Inr gm2)" "console fb glyph gm2 (?t (?d s1 @ [''Numbers:'']))"
    using prints_more(1) [OF 1(2)] by blast
  obtain gm3 where 3: "square_loop glyph [1, 2, 3, 4, 5] vec_new s1 gm2 = Some (Inr (\<lparr>vec_ptr = q, vec_cap = 8, vec_items = [1, 4, 9, 16, 25]\<rparr>, s2, gm3))"
    "console fb glyph gm3 (?t ((?d s1 @ [''Numbers:'']) @ ?n [1, 2, 3, 4, 5]))" using prints_more(3) [OF 2(2) a(2)] by blast
  obtain gm4 where 4: "dump_free_list glyph s2 gm3 = Some (Inr gm4)" "console fb glyph gm4 (?t (((?d s1 @ [''Numbers:'']) @ ?n [1, 2, 3, 4, 5]) @ ?d s2))"
    using prints_more(2) [OF 3(2) at(2)] by blast
  obtain gm5 where 5: "println_all glyph (''Squared:'' # ?n [1, 4, 9, 16, 25]) gm4 = Some (Inr gm5)"
    "console fb glyph gm5 (?t ((((?d s1 @ [''Numbers:'']) @ ?n [1, 2, 3, 4, 5]) @ ?d s2) @ ''Squared:'' # ?n [1, 4, 9, 16, 25]))"
    using prints_more(1) [OF 4(2)] by blast
  obtain gm6 where 6: "dump_free_list glyph s2 gm5 = Some (Inr gm6)"
    "console fb glyph gm6 (?t (((((?d s1 @ [''Numbers:'']) @ ?n [1, 2, 3, 4, 5]) @ ?d s2) @ ''Squared:'' # ?n [1, 4, 9, 16, 25]) @ ?d s2))"
    using prints_more(2) [OF 5(2) at(2)] by blast
  obtain gm7 where 7: "dump_free_list glyph s3 gm6 = Some (Inr gm7)"
    "console fb glyph gm7 (?t ((((((?d s1 @ [''Numbers:'']) @ ?n [1, 2, 3, 4, 5]) @ ?d s2) @ ''Squared:'' # ?n [1, 4, 9, 16, 25]) @ ?d s2) @ ?d s3))"
    using prints_more(2) [OF 6(2) at(3)] by blast
  obtain gm8 where 8: "println_all glyph my_struct_lines gm7 = Some (Inr gm8)"
    "console fb glyph gm8 (?t (((((((?d s1 @ [''Numbers:'']) @ ?n [1, 2, 3, 4, 5]) @ ?d s2) @ ''Squared:'' # ?n [1, 4, 9, 16, 25]) @ ?d s2) @ ?d s3) @ my_struct_lines))"
    using prints_more(1) [OF 7(2)] by blast
  obtain gm9 where 9: "dump_free_list glyph s gm8 = Some (Inr gm9)"
    "console fb glyph gm9 (?t ((((((((?d s1 @ [''Numbers:'']) @ ?n [1, 2, 3, 4, 5]) @ ?d s2) @ ''Squared:'' # ?n [1, 4, 9, 16, 25]) @ ?d s2) @ ?d s3) @ my_struct_lines) @ ?d s))"
    using prints_more(2) [OF 8(2) h] by blast
  have "length [1, 2, 3, 4, 5 :: nat] = 5" by simp
  then have "vec_of [1, 2, 3, 4, 5] s = Some (Inr (\<lparr>vec_ptr = p, vec_cap = 5, vec_items = [1, 2, 3, 4, 5]\<rparr>, s1))"
    using a(1) by (simp only: vec_of_def run_then_simps prod.case)
  then have "heap_demo glyph s gm = Some (Inr (s, gm9))"
    using a(3-6) 1(1) 2(1) 3(1) 4(1) 5(1) 6(1) 7(1) 8(1) 9(1) by (simp add: heap_demo_def vec_drop_def)
  then show ?thesis using 9(2) by (intro exI [of _ gm9] exI [of _ "?d s1"] exI [of _ "?d s2"] exI [of _ "?d s3"]) simp
qed

theorem heap_demo_restores_heap_witness:
  "\<exists>gm'. heap_demo box_font (spinlock_new (demo_heap demo_free0)) demo_console = Some (Inr (spinlock_new (demo_heap demo_free0), gm'))"
proof -
  have "{0x100000..<0x100000 + 104} \<subseteq> bytes demo_free0" by (auto simp: span_def lo_def hi_def)
  then show ?thesis
    using heap_demo_restores_heap [of "spinlock_new (demo_heap demo_free0)" "0x100000", OF _ _ _ demo_console_blank] demo_heap_ok
    by (auto simp: demo_heap_def)
qed

end
