(* ===== verification/Demo_Menu.thy ===== *)
theory Demo_Menu
  imports Demo_Text Bitmap
begin

text \<open>
  The menu of \<^verbatim>\<open>kernel/src/demo/menu.rs\<close> and the file demonstrations of \<^verbatim>\<open>lesson6/print_file.rs\<close>. A round of the menu clears
  the screen, lists the demonstrations, draws a picture next to them, reads a choice, runs it and waits for Enter.
  The text demonstrations are those of the theory \<open>Demo_Text\<close>; what the other choices do to the screen and to
  the key queue is the argument \<open>others\<close>.
\<close>

subsection \<open>Pictures\<close>

text \<open>\<open>framebuffer().lock().draw_bitmap(..)\<close>: the framebuffer has a lock of its own inside the terminal.\<close>

definition draw_on_screen :: "bitmap \<Rightarrow> nat \<Rightarrow> nat \<Rightarrow> console_state \<Rightarrow> console_state res option" where
  "draw_on_screen bmp x y = (\<lambda>(g, m).
     run_then (Some (framebuffer_global g)) (\<lambda>l.
     case lock l of
       None \<Rightarrow> None
     | Some gd \<Rightarrow> run_then (Some (draw_bitmap (guard_deref gd) bmp x y m)) (\<lambda>m'. Some (Inr (g, m')))))"

definition show_file ::
  "(u32 \<Rightarrow> u8 list option) \<Rightarrow> (bitmap \<Rightarrow> console_state \<Rightarrow> console_state res option) \<Rightarrow> tarfs \<Rightarrow> console_state \<Rightarrow> (tarfs \<times> console_state) res option" where
  "show_file glyph draw fs gm =
     run_then (read_from_file ''heine.bmp'' fs) (\<lambda>(r, fs').
     run_then
       (case r of
          Inr (Some bitmap) \<Rightarrow> draw bitmap gm
        | Inr None \<Rightarrow> println_all glyph [''Invalid or unsupported BMP file''] gm
        | Inl _ \<Rightarrow> println_all glyph [''Error reading BMP file''] gm) (\<lambda>gm'. Some (Inr (fs', gm'))))"

definition print_bitmap :: "(u32 \<Rightarrow> u8 list option) \<Rightarrow> tarfs \<Rightarrow> console_state \<Rightarrow> (tarfs \<times> console_state) res option" where
  "print_bitmap glyph =
     show_file glyph (\<lambda>bitmap gm.
       run_then (println_all glyph [''Bitmap width: '' @ dec_digits (unat (bmp_width bitmap)), ''Bitmap height: '' @ dec_digits (unat (bmp_height bitmap))] gm)
         (draw_on_screen bitmap 128 128))"

subsection \<open>The menu\<close>

definition menu_text :: "u32 list list" where
  "menu_text = [chars ''Demo Menu:'' @ [10, 10]] @ map (\<lambda>l. chars l @ [10])
     [''1. Text Demo'', ''2. Keyboard Demo'', ''3. Heap Demo'', ''4. Speaker Demo'', ''5. Coroutine Demo'', ''6. Thread Demo'',
      ''7. Peanut GB Demo'', ''8. Print PCI Devices'', ''9. RTL8139 Demo'', ''a. User & Kernel Thread Demo'', ''b. Sycall Demo'']"

definition menu_prompt :: "u32 list" where
  "menu_prompt = [10] @ chars (''Press '' @ [CHR 0x27] @ ''Enter'' @ [CHR 0x27] @ '' to return to the demo selector.'') @ [10]"

text \<open>The choices \<open>'1'..='9'\<close> and \<open>'a'..='b'\<close>.\<close>

definition is_choice :: "u32 \<Rightarrow> bool" where
  "is_choice c \<longleftrightarrow> of_char (CHR ''1'') \<le> c \<and> c \<le> of_char (CHR ''9'') \<or> of_char (CHR ''a'') \<le> c \<and> c \<le> of_char (CHR ''b'')"

type_synonym demo = "console_state \<times> nat \<Rightarrow> (console_state \<times> nat) res option"

definition run_choice ::
  "(u32 \<Rightarrow> u8 list option) \<Rightarrow> (u32 \<Rightarrow> bool) \<Rightarrow> (u8 \<Rightarrow> string) \<Rightarrow> (u32 \<Rightarrow> demo) \<Rightarrow> (nat \<Rightarrow> key_event option) \<Rightarrow> u32 \<Rightarrow> demo" where
  "run_choice glyph uni fmt_mods others evs c = (\<lambda>(gm, n).
     if c = of_char (CHR ''1'') then run_then (text_demo glyph gm) (\<lambda>gm'. Some (Inr (gm', n)))
     else if c = of_char (CHR ''2'') then keyboard_demo glyph uni fmt_mods evs n gm
     else others c (gm, n))"

record menu_state =
  ms_console :: console_state
  ms_fs :: tarfs
  ms_polls :: nat
  ms_demo_running :: bool

definition demo_round ::
  "(u32 \<Rightarrow> u8 list option) \<Rightarrow> (u32 \<Rightarrow> bool) \<Rightarrow> (u8 \<Rightarrow> string) \<Rightarrow> (u32 \<Rightarrow> demo) \<Rightarrow> (nat \<Rightarrow> key_event option) \<Rightarrow> menu_state \<Rightarrow> menu_state res option" where
  "demo_round glyph uni fmt_mods others evs ms =
     run_then (with_terminal (\<lambda>(t, m). terminal_clear t m) (ms_console ms)) (\<lambda>gm1.
     run_then (prints glyph menu_text gm1) (\<lambda>gm2.
     run_then (show_file glyph (\<lambda>bitmap. draw_on_screen bitmap 280 164) (ms_fs ms) gm2) (\<lambda>(fs, gm3).
     case read_char evs (ms_polls ms) of
       None \<Rightarrow> None
     | Some (c, n) \<Rightarrow>
         if is_choice c
         then
           run_then (with_terminal (\<lambda>(t, m). terminal_clear t m) gm3) (\<lambda>gm4.
           run_then (run_choice glyph uni fmt_mods others evs c (gm4, n)) (\<lambda>(gm5, n1).
           run_then (prints glyph [menu_prompt] gm5) (\<lambda>gm6.
           case wait_for_return evs n1 of
             None \<Rightarrow> None
           | Some n2 \<Rightarrow> Some (Inr \<lparr>ms_console = gm6, ms_fs = fs, ms_polls = n2,
               ms_demo_running = (if c = of_char (CHR ''9'') then False else ms_demo_running ms)\<rparr>))))
         else Some (Inr (ms\<lparr>ms_console := gm3, ms_fs := fs, ms_polls := n\<rparr>)))))"

subsection \<open>Screens with a picture on them\<close>

text \<open>A console that works, whatever its pixels show.\<close>

definition usable :: "framebuffer \<Rightarrow> (u32 \<Rightarrow> u8 list option) \<Rightarrow> console_state \<Rightarrow> bool" where
  "usable fb glyph gm \<longleftrightarrow> (case gm of (g, m) \<Rightarrow> glyphs_ok glyph \<and> fb_ok fb m
     \<and> (\<exists>t. once_get g = Inr (Some t) \<and> \<not> is_locked t \<and> inner (t_framebuffer (inner t)) = fb \<and> \<not> is_locked (t_framebuffer (inner t))
         \<and> t_cols (inner t) = cols_of fb \<and> t_rows (inner t) = rows_of fb \<and> 0 < cols_of fb \<and> 0 < rows_of fb))"

lemma console_usable: "console fb glyph gm s \<Longrightarrow> usable fb glyph gm"
  by (fastforce simp: console_def usable_def shows_screen_def Let_def)

lemma clear_usable:
  assumes "usable fb glyph gm"
  shows "\<exists>gm'. with_terminal (\<lambda>(t, m). terminal_clear t m) gm = Some (Inr gm') \<and> console fb glyph gm' blank_screen"
proof -
  obtain g m where gm: "gm = (g, m)" by force
  obtain t where t: "once_get g = Inr (Some t)" "\<not> is_locked t" "inner (t_framebuffer (inner t)) = fb" "\<not> is_locked (t_framebuffer (inner t))"
    "t_cols (inner t) = cols_of fb" "t_rows (inner t) = rows_of fb" "0 < cols_of fb" "0 < rows_of fb" "glyphs_ok glyph" "fb_ok fb m"
    using assms by (auto simp: usable_def gm)
  obtain m' where m': "clear fb m = Inr m'" "displays fb m' (\<lambda>_ _. Blank)" using displays_clear [OF t(10)] by blast
  let ?t = "(inner t)\<lparr>t_pos := (0, 0)\<rparr>"
  have l: "t_framebuffer (inner t) = \<lparr>sl_lock = False, sl_data = fb\<rparr>" using t(3,4) by (simp add: spinlock_defs)
  have c: "terminal_clear (inner t) m = Some (Inr (?t, m'))"
    using l m'(1) by (cases "inner t") (simp add: terminal_clear_def lock_eq spinlock_defs)
  have "shows_screen ?t m' blank_screen"
    using t m'(2) l unfolding shows_screen_displays by (simp add: blank_screen_def spinlock_defs)
  moreover have "once_get (g\<lparr>on_value := Some (spinlock_new ?t)\<rparr>) = Inr (Some (spinlock_new ?t))" using t(1) by (simp add: once_get_Some)
  ultimately have "console fb glyph (g\<lparr>on_value := Some (spinlock_new ?t)\<rparr>, m') blank_screen" using t(3,9) by (simp add: console_def)
  moreover have "with_terminal (\<lambda>(t, m). terminal_clear t m) gm = Some (Inr (g\<lparr>on_value := Some (spinlock_new ?t)\<rparr>, m'))"
    using t(1,2) c by (simp add: with_terminal_def gm terminal_global_def lock_eq spinlock_defs)
  ultimately show ?thesis by blast
qed

definition picture_ok :: "tarfs \<Rightarrow> bool" where
  "picture_ok fs \<longleftrightarrow> (\<exists>r fs'. read_from_file ''heine.bmp'' fs = Some (Inr (r, fs')) \<and> (\<forall>b. r = Inr (Some b) \<longrightarrow>
     unat (bmp_height b) * unat (bmp_width b) \<le> length (bmp_pixel_data b) \<and> length (bmp_pixel_data b) < 2 ^ 64))"

lemma draw_usable:
  assumes "usable fb glyph gm" "unat (bmp_height b) * unat (bmp_width b) \<le> length (bmp_pixel_data b)" "length (bmp_pixel_data b) < 2 ^ 64"
    "x < 2 ^ 32" "y < 2 ^ 32"
  shows "\<exists>gm'. draw_on_screen b x y gm = Some (Inr gm') \<and> usable fb glyph gm'"
proof -
  obtain g m where gm: "gm = (g, m)" by force
  then obtain t where t: "once_get g = Inr (Some t)" "inner (t_framebuffer (inner t)) = fb" "\<not> is_locked (t_framebuffer (inner t))" "fb_ok fb m"
    using assms(1) by (auto simp: usable_def)
  obtain m' where m': "draw_bitmap fb b x y m = Inr m'" "fb_ok fb m'"
    using paintsE [OF paints_bitmap [OF t(4) assms(4,5,2,3)]] by metis
  have "draw_on_screen b x y gm = Some (Inr (g, m'))"
    using t m'(1) by (simp add: draw_on_screen_def gm framebuffer_global_def terminal_global_def lock_eq spinlock_defs)
  moreover have "usable fb glyph (g, m')" using assms(1) m'(2) by (simp add: usable_def gm)
  ultimately show ?thesis by blast
qed

lemma show_file_usable:
  assumes "console fb glyph gm s" "picture_ok fs"
  shows "\<exists>fs' gm'. show_file glyph (\<lambda>b. draw_on_screen b 280 164) fs gm = Some (Inr (fs', gm')) \<and> usable fb glyph gm'"
proof -
  obtain r fs' where r: "read_from_file ''heine.bmp'' fs = Some (Inr (r, fs'))"
    "\<And>b. r = Inr (Some b) \<Longrightarrow> unat (bmp_height b) * unat (bmp_width b) \<le> length (bmp_pixel_data b) \<and> length (bmp_pixel_data b) < 2 ^ 64"
    using assms(2) by (auto simp: picture_ok_def)
  have p: "\<exists>gm'. println_all glyph ls gm = Some (Inr gm') \<and> usable fb glyph gm'" for ls
    using println_all_shows [OF assms(1), of ls] console_usable by blast
  obtain gm1 gm2 where g: "println_all glyph [''Error reading BMP file''] gm = Some (Inr gm1)" "usable fb glyph gm1"
    "println_all glyph [''Invalid or unsupported BMP file''] gm = Some (Inr gm2)" "usable fb glyph gm2" using p by metis
  show ?thesis
  proof (cases r)
    case (Inl e)
    then show ?thesis using g(1,2) r(1) by (simp add: show_file_def)
  next
    case (Inr x)
    then show ?thesis using g(3,4) r draw_usable [OF console_usable [OF assms(1)], of _ 280 164]
      by (cases x) (fastforce simp: show_file_def)+
  qed
qed

text \<open>
  A round of the menu does what was chosen: on any working console, whatever an earlier demonstration or picture left on it,
  the menu reads the next key that types a character; if it is a choice, the demonstration starts on a blank screen with
  the keys after the choice, its output stays with the prompt below it until Enter is pressed, and choice 9 ends by
  stopping the network threads. Any other key leads back to the menu and runs nothing.
\<close>

theorem menu_runs_choice:
  assumes "usable fb glyph (ms_console ms)" "picture_ok (ms_fs ms)"
    and "ms_polls ms \<le> i" "types_char evs i c" "\<And>j d. ms_polls ms \<le> j \<Longrightarrow> j < i \<Longrightarrow> \<not> types_char evs j d"
    and demo: "\<And>gm. console fb glyph gm blank_screen \<Longrightarrow>
      \<exists>gm'. run_choice glyph uni fmt_mods others evs c (gm, Suc i) = Some (Inr (gm', n1)) \<and> console fb glyph gm' s"
    and enter: "n1 \<le> k" "types_char evs k 13" "\<And>j. n1 \<le> j \<Longrightarrow> j < k \<Longrightarrow> \<not> types_char evs j 13"
  shows "\<exists>ms'. demo_round glyph uni fmt_mods others evs ms = Some (Inr ms')
    \<and> (if is_choice c then console fb glyph (ms_console ms') (types_on fb glyph menu_prompt s) \<and> ms_polls ms' = Suc k
         \<and> ms_demo_running ms' = (c \<noteq> of_char (CHR ''9'') \<and> ms_demo_running ms)
       else usable fb glyph (ms_console ms') \<and> ms_polls ms' = Suc i \<and> ms_demo_running ms' = ms_demo_running ms)"
proof -
  obtain gm1 where 1: "with_terminal (\<lambda>(t, m). terminal_clear t m) (ms_console ms) = Some (Inr gm1)" "console fb glyph gm1 blank_screen"
    using clear_usable [OF assms(1)] by blast
  obtain gm2 s2 where 2: "prints glyph menu_text gm1 = Some (Inr gm2)" "console fb glyph gm2 s2" using prints_show [OF 1(2)] by blast
  obtain fs gm3 where 3: "show_file glyph (\<lambda>b. draw_on_screen b 280 164) (ms_fs ms) gm2 = Some (Inr (fs, gm3))" "usable fb glyph gm3"
    using show_file_usable [OF 2(2) assms(2)] by blast
  have "\<forall>j. ms_polls ms \<le> j \<longrightarrow> j < i \<longrightarrow> pressed_char (evs j) = None"
    using assms(5) pressed_char_types [of evs] by (metis not_None_eq)
  then have rc: "read_char evs (ms_polls ms) = Some (c, Suc i)"
    using typed_in.next_first [of "ms_polls ms" i evs c] assms(3,4) by (simp add: pressed_char_types)
  obtain gm4 where 4: "with_terminal (\<lambda>(t, m). terminal_clear t m) gm3 = Some (Inr gm4)" "console fb glyph gm4 blank_screen"
    using clear_usable [OF 3(2)] by blast
  obtain gm5 where 5: "run_choice glyph uni fmt_mods others evs c (gm4, Suc i) = Some (Inr (gm5, n1))" "console fb glyph gm5 s"
    using demo [OF 4(2)] by blast
  obtain gm6 where 6: "prints glyph [menu_prompt] gm5 = Some (Inr gm6)" "console fb glyph gm6 (types_on fb glyph menu_prompt s)"
    using prints_show [OF 5(2), of "[menu_prompt]"] by auto
  have w: "wait_for_return evs n1 = Some (Suc k)" using wait_for_return_first [of n1 k evs] enter by blast
  show ?thesis
  proof (cases "is_choice c")
    case True
    then show ?thesis using 1(1) 2(1) 3(1) rc 4(1) 5(1) 6 w by (simp add: demo_round_def)
  next
    case False
    then show ?thesis using 1(1) 2(1) 3 rc by (simp add: demo_round_def)
  qed
qed

text \<open>The first choice, typed on a machine without the picture.\<close>

definition menu_keys :: "nat \<Rightarrow> key_event option" where
  "menu_keys i = (if i < 2 then Some (key_event_new\<lparr>ke_ascii := Some ([49, 13] ! i), ke_pressed := True\<rparr>) else None)"

theorem menu_runs_choice_witness:
  "\<exists>ms'. demo_round box_font (\<lambda>_. True) (\<lambda>_. []) (\<lambda>_ _. None) menu_keys
      \<lparr>ms_console = demo_console, ms_fs = tarfs_new [], ms_polls = 0, ms_demo_running = False\<rparr> = Some (Inr ms')
    \<and> console demo_console_fb box_font (ms_console ms') (types_on demo_console_fb box_font menu_prompt
        (types_on demo_console_fb box_font (concat (map (\<lambda>l. chars l @ [10]) text_demo_lines)) blank_screen))"
proof -
  let ?ms = "\<lparr>ms_console = demo_console, ms_fs = tarfs_new [], ms_polls = 0, ms_demo_running = False\<rparr>"
  let ?s = "types_on demo_console_fb box_font (concat (map (\<lambda>l. chars l @ [10]) text_demo_lines)) blank_screen"
  have u: "usable demo_console_fb box_font (ms_console ?ms)" using console_usable [OF demo_console_blank] by simp
  have p: "picture_ok (ms_fs ?ms)" by (simp add: picture_ok_def read_from_file_def open_path_def tarfs_new_def)
  have k: "types_char menu_keys 0 49" "types_char menu_keys 1 13" by (simp_all add: types_char_def menu_keys_def)
  have one: "(of_char (CHR ''1'') :: u32) = 49" by simp
  have d: "\<exists>gm'. run_choice box_font (\<lambda>_. True) (\<lambda>_. []) (\<lambda>_ _. None) menu_keys 49 (gm, Suc 0) = Some (Inr (gm', 1)) \<and> console demo_console_fb box_font gm' ?s"
    if "console demo_console_fb box_font gm blank_screen" for gm
    using println_all_shows [OF that, of text_demo_lines] by (auto simp: run_choice_def text_demo_def)
  have "is_choice 49" by (simp add: is_choice_def)
  then show ?thesis
    using menu_runs_choice [where ms = ?ms and i = 0 and k = 1 and c = 49, OF u p _ k(1) _ d _ k(2)] by auto
qed

end
