(* ===== verification/Demo_Coroutine.thy ===== *)
theory Demo_Coroutine
  imports Demo_Threads Coroutine
begin

text \<open>
  The coroutine demonstration of \<^verbatim>\<open>kernel/src/demo/lesson4.rs\<close>: three coroutines in a ring, each of which prints
  its counter and switches to the next. A round is one pass through the loop; the switch is that of the theory \<open>Coroutine\<close> and here only
  says who runs next. The counter is an \<open>i32\<close>, whose overflow panics.
\<close>

definition coroutine_text :: "usize \<Rightarrow> nat \<Rightarrow> u32 list" where
  "coroutine_text i counter = chars (''Coroutine ['' @ dec_digits (unat i) @ '']: '' @ dec_digits counter)"

definition coroutine_round ::
  "(u32 \<Rightarrow> u8 list option) \<Rightarrow> usize \<Rightarrow> nat \<Rightarrow> console_state \<Rightarrow> (nat \<times> console_state) res option" where
  "coroutine_round glyph i counter gm =
     run_then (with_terminal (\<lambda>tm.
       run_then (Some (umul i 2)) (\<lambda>a.
       run_then (Some (uadd 8 a)) (\<lambda>row. print_at glyph 8 (unat row) (coroutine_text i counter) tm))) gm) (\<lambda>gm'.
     if Suc counter < 2 ^ 31 then Some (Inr (Suc counter, gm')) else Some (Inl ArithOverflow))"

text \<open>The addresses of the coroutines and what lies there after \<open>set_next\<close>.\<close>

definition coroutine_ring :: "usize \<times> coroutine \<Rightarrow> usize \<times> coroutine \<Rightarrow> usize \<times> coroutine \<Rightarrow> co_store" where
  "coroutine_ring a b c =
     [fst a \<mapsto> set_next (fst b) (snd a), fst b \<mapsto> set_next (fst c) (snd b), fst c \<mapsto> set_next (fst a) (snd c)]"

text \<open>The first \<open>n\<close> rounds, from the coroutine at \<open>cur\<close> on; \<open>cnt\<close> holds the counter of each.\<close>

fun coroutine_loop ::
  "(u32 \<Rightarrow> u8 list option) \<Rightarrow> co_store \<Rightarrow> nat \<Rightarrow> usize \<times> (usize \<Rightarrow> nat) \<times> console_state
     \<Rightarrow> (usize \<times> (usize \<Rightarrow> nat) \<times> console_state) res option" where
  "coroutine_loop glyph st 0 x = Some (Inr x)"
| "coroutine_loop glyph st (Suc n) (cur, cnt, gm) =
     (case st cur of
        None \<Rightarrow> Some (Inl MemoryFault)
      | Some c \<Rightarrow> run_then (coroutine_round glyph (coroutine_id c) (cnt cur) gm) (\<lambda>(k, gm').
          coroutine_loop glyph st n (co_next c, cnt(cur := k), gm')))"

definition coroutine_demo ::
  "(u32 \<Rightarrow> u8 list option) \<Rightarrow> usize \<times> coroutine \<Rightarrow> usize \<times> coroutine \<Rightarrow> usize \<times> coroutine \<Rightarrow> nat \<Rightarrow> console_state
     \<Rightarrow> (usize \<times> (usize \<Rightarrow> nat) \<times> console_state) res option" where
  "coroutine_demo glyph a b c n gm =
     run_then (println glyph (chars ''Coroutine Demo:'') gm) (\<lambda>gm1.
       coroutine_loop glyph (coroutine_ring a b c) n (fst a, \<lambda>_. 1, gm1))"

text \<open>The starter of the threads in the same file; lesson 5 has the same.\<close>

definition thread_demo :: "(u32 \<Rightarrow> u8 list option) \<Rightarrow> thread \<Rightarrow> thread \<Rightarrow> thread \<Rightarrow> scheduler \<Rightarrow> console_state \<Rightarrow> (scheduler \<times> console_state) res option" where
  "thread_demo glyph a b c s gm =
     run_then (println glyph (chars ''Thread Demo:'') gm) (\<lambda>gm'.
     run_then (returned (thread5_demo a b c s)) (\<lambda>(_, s'). Some (Inr (s', gm'))))"

subsection \<open>Taking turns\<close>

lemma coroutine_text_fits:
  assumes "unat i < 1000" "k < 10 ^ 10"
  shows "length (coroutine_text i k) \<le> 27" "has_ascii glyph \<Longrightarrow> displayable glyph (coroutine_text i k)"
proof -
  have "length (dec_digits (unat i)) \<le> 3" "length (dec_digits k) \<le> 10"
    using length_digits [of "unat i" 2] length_digits [of k 9] assms by simp_all
  then show "length (coroutine_text i k) \<le> 27" by (simp add: coroutine_text_def chars_def)
  have "printable (''Coroutine ['' @ dec_digits (unat i) @ '']: '' @ dec_digits k)"
    using printable_digits [of "unat i"] printable_digits [of k] by (simp add: printable_def)
  then show "displayable glyph (coroutine_text i k)" if "has_ascii glyph"
    unfolding coroutine_text_def by (rule displayable_chars [OF that])
qed

abbreviation co_row :: "usize \<Rightarrow> nat" where
  "co_row i \<equiv> 8 + 2 * unat i"

lemma coroutine_round_shows:
  assumes "console fb glyph gm s" "36 \<le> cols_of fb" "co_row i < rows_of fb" "unat i < 1000" "has_ascii glyph" "k < 2 ^ 31"
  shows "\<exists>gm' s'. coroutine_round glyph i k gm = (if Suc k < 2 ^ 31 then Some (Inr (Suc k, gm')) else Some (Inl ArithOverflow))
    \<and> console fb glyph gm' s' \<and> shows_at glyph 8 (co_row i) (coroutine_text i k) s' \<and> (\<forall>x y. y \<noteq> co_row i \<longrightarrow> sc_grid s' x y = sc_grid s x y)"
proof -
  have k: "k < 10 ^ 10" using assms(6) by simp
  let ?s' = "typed (cols_of fb) (rows_of fb) glyph (coroutine_text i k) (cursor_to fb 8 (co_row i) s)"
  have "sc_cursor (cursor_to fb 8 (co_row i) s) = (8, co_row i)" using assms(2,3) by (simp add: cursor_to_def)
  then have l: "shows_at glyph 8 (co_row i) (coroutine_text i k) ?s'" "\<forall>x y. y \<noteq> co_row i \<longrightarrow> sc_grid ?s' x y = sc_grid s x y"
    using typed_line [OF coroutine_text_fits(2) [OF assms(4) k assms(5)]] coroutine_text_fits(1) [OF assms(4) k] assms(2)
    by (simp_all add: cursor_to_def)
  obtain a where a: "umul i 2 = Inr a" "unat a = 2 * unat i" using assms(4) by (auto simp: umul_nat unat_word_ariths)
  obtain row where row: "uadd 8 a = Inr row" "unat row = co_row i" using a(2) assms(4) by (auto simp: uadd_nat unat_word_ariths)
  have "(\<lambda>tm. run_then (Some (umul i 2)) (\<lambda>a. run_then (Some (uadd 8 a)) (\<lambda>row. print_at glyph 8 (unat row) (coroutine_text i k) tm)))
      = print_at glyph 8 (co_row i) (coroutine_text i k)" using a(1) row by simp
  moreover obtain gm' where gm': "with_terminal (print_at glyph 8 (co_row i) (coroutine_text i k)) gm = Some (Inr gm')" "console fb glyph gm' ?s'"
    using print_at_shows [OF assms(1)] by blast
  ultimately have "coroutine_round glyph i k gm = (if Suc k < 2 ^ 31 then Some (Inr (Suc k, gm')) else Some (Inl ArithOverflow))"
    unfolding coroutine_round_def by simp
  then show ?thesis using l gm'(2) by blast
qed

text \<open>How many of the first \<open>n\<close> rounds belong to the coroutine in place \<open>j\<close>.\<close>

definition turns :: "nat \<Rightarrow> nat \<Rightarrow> nat" where
  "turns n j = (n + 2 - j) div 3"

lemma turns_div: "j < 3 \<Longrightarrow> turns (3 * q + r) j = q + (r + 2 - j) div 3"
proof -
  assume "j < 3"
  then have "3 * q + r + 2 - j = r + 2 - j + q * 3" by simp
  then show ?thesis unfolding turns_def by (simp only: div_mult_self1 zero_neq_numeral not_False_eq_True)
qed

lemma turns_step:
  assumes "j < 3"
  shows "turns (Suc n) j = (if j = n mod 3 then Suc (turns n j) else turns n j)"
proof -
  obtain q r where n: "n = 3 * q + r" "r < 3" by (metis mod_less_divisor mult_div_mod_eq zero_less_numeral)
  have "r = 0 \<or> r = 1 \<or> r = 2" "j = 0 \<or> j = 1 \<or> j = 2" using n(2) assms by linarith+
  moreover have "turns (Suc n) j = q + (Suc r + 2 - j) div 3" using turns_div [OF assms, of q "Suc r"] n(1) by simp
  moreover have "turns n j = q + (r + 2 - j) div 3" using turns_div [OF assms, of q r] n(1) by simp
  moreover have "n mod 3 = r" using n by simp
  ultimately show ?thesis by (elim disjE) simp_all
qed

definition ring_ok :: "framebuffer \<Rightarrow> (usize \<times> coroutine) list \<Rightarrow> bool" where
  "ring_ok fb cs \<longleftrightarrow> length cs = 3 \<and> distinct (map fst cs) \<and> distinct (map (co_id \<circ> snd) cs)
     \<and> (\<forall>c \<in> set cs. unat (co_id (snd c)) < 1000 \<and> co_row (co_id (snd c)) < rows_of fb)"

definition ring_inv :: "framebuffer \<Rightarrow> (u32 \<Rightarrow> u8 list option) \<Rightarrow> (usize \<times> coroutine) list \<Rightarrow> nat \<Rightarrow> usize \<times> (usize \<Rightarrow> nat) \<times> console_state \<Rightarrow> bool" where
  "ring_inv fb glyph cs n = (\<lambda>(cur, cnt, gm). cur = fst (cs ! (n mod 3)) \<and> (\<forall>j < 3. cnt (fst (cs ! j)) = Suc (turns n j))
     \<and> (\<exists>s. console fb glyph gm s \<and> (\<forall>j < 3. 0 < turns n j \<longrightarrow>
          shows_at glyph 8 (co_row (co_id (snd (cs ! j)))) (coroutine_text (co_id (snd (cs ! j))) (turns n j)) s)))"

lemma ring_next:
  assumes "ring_ok fb [a, b, c]" "k < 3"
  shows "coroutine_ring a b c (fst ([a, b, c] ! k)) = Some (set_next (fst ([a, b, c] ! (Suc k mod 3))) (snd ([a, b, c] ! k)))"
proof -
  have "k = 0 \<or> k = 1 \<or> k = 2" using assms(2) by linarith
  then show ?thesis using assms(1) by (elim disjE) (simp_all add: ring_ok_def coroutine_ring_def)
qed

lemma ring_step:
  assumes ring: "ring_ok fb [a, b, c]" and inv: "ring_inv fb glyph [a, b, c] n (cur, cnt, gm)" and n: "n < 3 * (2 ^ 31 - 2)"
    and scr: "36 \<le> cols_of fb" "has_ascii glyph"
  shows "\<exists>y. coroutine_loop glyph (coroutine_ring a b c) 1 (cur, cnt, gm) = Some (Inr y) \<and> ring_inv fb glyph [a, b, c] (Suc n) y"
proof -
  let ?cs = "[a, b, c]" and ?j = "n mod 3"
  let ?i = "\<lambda>j. co_id (snd (?cs ! j))"
  have j: "?j < 3" "?j < length ?cs" by simp_all
  have t: "turns n ?j = n div 3"
  proof -
    obtain q r where "n = 3 * q + r" "r < 3" by (metis mod_less_divisor mult_div_mod_eq zero_less_numeral)
    then show ?thesis using turns_div [of r q r] by simp
  qed
  have bnd: "Suc (Suc (turns n ?j)) < 2 ^ 31" using n unfolding t by simp
  obtain s where s: "console fb glyph gm s" "\<And>j. j < 3 \<Longrightarrow> 0 < turns n j \<Longrightarrow> shows_at glyph 8 (co_row (?i j)) (coroutine_text (?i j) (turns n j)) s"
    and cur: "cur = fst (?cs ! ?j)" "\<And>j. j < 3 \<Longrightarrow> cnt (fst (?cs ! j)) = Suc (turns n j)"
    using inv by (auto simp: ring_inv_def)
  have "?cs ! ?j \<in> set ?cs" using j(2) by (rule nth_mem)
  then have i: "unat (?i ?j) < 1000" "co_row (?i ?j) < rows_of fb" using ring unfolding ring_ok_def by blast+
  obtain gm' s' where r: "coroutine_round glyph (?i ?j) (Suc (turns n ?j)) gm = Some (Inr (Suc (Suc (turns n ?j)), gm'))"
    "console fb glyph gm' s'" "shows_at glyph 8 (co_row (?i ?j)) (coroutine_text (?i ?j) (Suc (turns n ?j))) s'"
    "\<And>x y. y \<noteq> co_row (?i ?j) \<Longrightarrow> sc_grid s' x y = sc_grid s x y"
    using coroutine_round_shows [OF s(1) scr(1) i(2,1) scr(2), of "Suc (turns n ?j)"] bnd by auto
  define cnt' where "cnt' = cnt(cur := Suc (Suc (turns n ?j)))"
  define y where "y = (fst (?cs ! (Suc n mod 3)), cnt', gm')"
  have "coroutine_loop glyph (coroutine_ring a b c) 1 (cur, cnt, gm) = Some (Inr y)"
    using r(1) cur(2) [OF j(1)] mod_Suc_eq [of n 3] ring_next [OF ring j(1)]
    unfolding One_nat_def y_def cnt'_def by (simp add: cur(1) coroutine_id_def set_next_def)
  moreover have "fst (?cs ! k) \<noteq> cur \<and> co_row (?i k) \<noteq> co_row (?i ?j)" if "k < 3" "k \<noteq> ?j" for k
  proof -
    have "distinct (map fst ?cs)" "distinct (map (co_id \<circ> snd) ?cs)" "length ?cs = 3" using ring unfolding ring_ok_def by blast+
    then have "map fst ?cs ! k \<noteq> map fst ?cs ! ?j" "map (co_id \<circ> snd) ?cs ! k \<noteq> map (co_id \<circ> snd) ?cs ! ?j"
      using that j unfolding distinct_conv_nth by (metis length_map)+
    then show ?thesis using that(1) j cur(1) by (simp add: word_unat_eq_iff nth_map del: list.map)
  qed
  then have other: "\<And>k. k < 3 \<Longrightarrow> k \<noteq> ?j \<Longrightarrow> cnt' (fst (?cs ! k)) = Suc (turns n k)"
      "\<And>k. k < 3 \<Longrightarrow> k \<noteq> ?j \<Longrightarrow> 0 < turns n k \<Longrightarrow> shows_at glyph 8 (co_row (?i k)) (coroutine_text (?i k) (turns n k)) s'"
    using cur(2) s(2) r(4) by (auto simp: cnt'_def shows_at_def)
  have "ring_inv fb glyph ?cs (Suc n) y"
    unfolding ring_inv_def y_def prod.case
  proof (intro conjI allI impI exI [of _ s'])
    show "cnt' (fst (?cs ! k)) = Suc (turns (Suc n) k)" if "k < 3" for k
      using other(1) [OF that] turns_step [OF that, of n] cur(1) by (cases "k = ?j") (simp_all add: cnt'_def)
    show "shows_at glyph 8 (co_row (?i k)) (coroutine_text (?i k) (turns (Suc n) k)) s'" if "k < 3" "0 < turns (Suc n) k" for k
      using other(2) [OF that(1)] turns_step [OF that(1), of n] r(3) that(2) by (cases "k = ?j") simp_all
  qed (use r(2) in simp_all)
  ultimately show ?thesis by blast
qed

lemma coroutine_loop_add: "coroutine_loop glyph st (n + m) x = run_then (coroutine_loop glyph st n x) (coroutine_loop glyph st m)"
proof (induction n arbitrary: x)
  case (Suc n)
  then show ?case by (cases x) (auto simp: run_then_def split: option.splits sum.splits)
qed simp

lemma coroutine_loop_inv:
  assumes "ring_ok fb [a, b, c]" "36 \<le> cols_of fb" "has_ascii glyph" "ring_inv fb glyph [a, b, c] 0 x"
  shows "n \<le> 3 * (2 ^ 31 - 2) \<Longrightarrow> \<exists>y. coroutine_loop glyph (coroutine_ring a b c) n x = Some (Inr y) \<and> ring_inv fb glyph [a, b, c] n y"
proof (induction n)
  case 0
  then show ?case using assms(4) by simp
next
  case (Suc n)
  then obtain cur cnt gm where y: "coroutine_loop glyph (coroutine_ring a b c) n x = Some (Inr (cur, cnt, gm))" "ring_inv fb glyph [a, b, c] n (cur, cnt, gm)"
    by auto
  show ?case using ring_step [OF assms(1) y(2) _ assms(2,3)] Suc.prems y(1) coroutine_loop_add [of glyph "coroutine_ring a b c" n 1 x] by simp
qed

lemma ring_starts:
  assumes "console fb glyph gm s" "ring_ok fb [a, b, c]"
  shows "\<exists>gm1. println glyph (chars ''Coroutine Demo:'') gm = Some (Inr gm1) \<and> ring_inv fb glyph [a, b, c] 0 (fst a, \<lambda>_. 1, gm1)"
proof -
  have "turns 0 j = 0" if "j < 3" for j using turns_div [OF that, of 0 0] by simp
  then show ?thesis using println_shows [OF assms(1), of "chars ''Coroutine Demo:''"] by (auto simp: ring_inv_def)
qed

text \<open>
  The coroutines take turns: after any number of rounds that leaves the counters in range, each has run every third
  round, its line shows its latest count, and the next one in the ring is about to run.
\<close>

theorem coroutines_take_turns:
  assumes "console fb glyph gm s" "ring_ok fb [a, b, c]" "36 \<le> cols_of fb" "has_ascii glyph" "n \<le> 3 * (2 ^ 31 - 2)"
  shows "\<exists>cnt gm' s'. coroutine_demo glyph a b c n gm = Some (Inr (fst ([a, b, c] ! (n mod 3)), cnt, gm')) \<and> console fb glyph gm' s'
    \<and> (\<forall>j < 3. cnt (fst ([a, b, c] ! j)) = Suc (turns n j) \<and> (0 < turns n j \<longrightarrow>
         shows_at glyph 8 (co_row (co_id (snd ([a, b, c] ! j)))) (coroutine_text (co_id (snd ([a, b, c] ! j))) (turns n j)) s'))"
proof -
  obtain gm1 where 1: "println glyph (chars ''Coroutine Demo:'') gm = Some (Inr gm1)" "ring_inv fb glyph [a, b, c] 0 (fst a, \<lambda>_. 1, gm1)"
    using ring_starts [OF assms(1,2)] by blast
  obtain cur cnt gm' where "coroutine_loop glyph (coroutine_ring a b c) n (fst a, \<lambda>_. 1, gm1) = Some (Inr (cur, cnt, gm'))"
    "ring_inv fb glyph [a, b, c] n (cur, cnt, gm')"
    using coroutine_loop_inv [OF assms(2-4) 1(2) assms(5)] by auto
  then show ?thesis using 1(1) unfolding coroutine_demo_def ring_inv_def by auto
qed

text \<open>The loop is meant to be endless, but its counter is not: in round 6442450939 the first coroutine panics.\<close>

theorem coroutine_demo_overflows:
  assumes "console fb glyph gm s" "ring_ok fb [a, b, c]" "36 \<le> cols_of fb" "has_ascii glyph"
  shows "coroutine_demo glyph a b c 6442450939 gm = Some (Inl ArithOverflow)"
proof -
  let ?n = "3 * (2 ^ 31 - 2) :: nat"
  obtain gm1 where 1: "println glyph (chars ''Coroutine Demo:'') gm = Some (Inr gm1)" "ring_inv fb glyph [a, b, c] 0 (fst a, \<lambda>_. 1, gm1)"
    using ring_starts [OF assms(1,2)] by blast
  obtain cur cnt gm2 where 2: "coroutine_loop glyph (coroutine_ring a b c) ?n (fst a, \<lambda>_. 1, gm1) = Some (Inr (cur, cnt, gm2))"
    "ring_inv fb glyph [a, b, c] ?n (cur, cnt, gm2)"
    using coroutine_loop_inv [OF assms(2-4) 1(2), of ?n] by auto
  have t: "turns ?n 0 = 2 ^ 31 - 2" using turns_div [of 0 "2 ^ 31 - 2" 0] by simp
  have "\<forall>j < 3. cnt (fst ([a, b, c] ! j)) = Suc (turns ?n j)" using 2(2) by (simp add: ring_inv_def)
  then have "cnt (fst ([a, b, c] ! 0)) = Suc (turns ?n 0)" by (rule allE [of _ 0]) simp
  then have "cnt (fst a) = 2 ^ 31 - 1" unfolding t by simp
  then obtain s2 where s2: "cur = fst a" "cnt (fst a) = 2 ^ 31 - 1" "console fb glyph gm2 s2" using 2(2) by (auto simp: ring_inv_def)
  have "unat (co_id (snd a)) < 1000" "co_row (co_id (snd a)) < rows_of fb" using assms(2) by (simp_all add: ring_ok_def)
  then have "coroutine_round glyph (co_id (snd a)) (2 ^ 31 - 1) gm2 = Some (Inl ArithOverflow)"
    using coroutine_round_shows [OF s2(3) assms(3) _ _ assms(4), of "co_id (snd a)" "2 ^ 31 - 1"] by simp
  moreover have "coroutine_ring a b c (fst a) = Some (set_next (fst b) (snd a))" using ring_next [OF assms(2), of 0] by simp
  ultimately have "coroutine_loop glyph (coroutine_ring a b c) 1 (cur, cnt, gm2) = Some (Inl ArithOverflow)"
    using s2(1,2) by (simp add: coroutine_id_def set_next_def)
  moreover have "(6442450939 :: nat) = ?n + 1" by simp
  ultimately show ?thesis using 1(1) 2(1) unfolding coroutine_demo_def by (simp only: coroutine_loop_add run_then_simps)
qed

end
