(* ===== verification/Syscall.thy ===== *)
theory Syscall
  imports X86 Interrupt
begin

text \<open>
  \<^verbatim>\<open>kernel/src/syscall/dispatcher.rs\<close> and \<^verbatim>\<open>kernel/src/syscall/user_api.rs\<close>: the path of a
  system call from \<open>int 0x80\<close> in user mode through the gate of the descriptor table, the
  assembly dispatcher and the syscall table, and back with \<open>iretq\<close>. What the compiled handler
  of a system call does with registers, flags and memory is the argument \<open>h\<close>, which the
  calling convention bounds (\<open>rust_call\<close>).
\<close>

subsection \<open>Numbers and table\<close>

datatype syscall_function =
    HelloWorld | ThreadYield | ThreadWait | ThreadExit | ThreadGetId | GetSystemTime | Print | GetKeyEvent
  | NumSyscalls

fun syscall_number :: "syscall_function \<Rightarrow> u64" where
  "syscall_number HelloWorld = 0"
| "syscall_number ThreadYield = 1"
| "syscall_number ThreadWait = 2"
| "syscall_number ThreadExit = 3"
| "syscall_number ThreadGetId = 4"
| "syscall_number GetSystemTime = 5"
| "syscall_number Print = 6"
| "syscall_number GetKeyEvent = 7"
| "syscall_number NumSyscalls = 8"

datatype sys_handler =
    sys_hello_world | sys_thread_yield | sys_thread_wait | sys_thread_exit | sys_thread_get_id
  | sys_get_system_time | sys_print | sys_get_key_event

definition SYSCALL_TABLE :: "sys_handler list" where
  "SYSCALL_TABLE =
     [sys_hello_world, sys_thread_yield, sys_thread_wait, sys_thread_exit, sys_thread_get_id,
      sys_get_system_time, sys_print, sys_get_key_event]"

subsection \<open>The dispatcher\<close>

definition dispatch_save :: "instr list" where
  "dispatch_save =
     [PUSH R8, PUSH R9, PUSH R10, PUSH R11, PUSH R12, PUSH R13, PUSH R14, PUSH R15,
      PUSH RBX, PUSH RCX, PUSH RDX, PUSH RSI, PUSH RDI, PUSH RBP]"

definition dispatch_restore :: "instr list" where
  "dispatch_restore =
     [POP RBP, POP RDI, POP RSI, POP RDX, POP RCX, POP RBX,
      POP R15, POP R14, POP R13, POP R12, POP R11, POP R10, POP R9, POP R8,
      IRETQ]"

definition syscall_abort :: "'a res" where
  "syscall_abort = Inl (PanicMsg ''Invalid syscall number'')"

text \<open>
  \<open>jae\<close> is the unsigned comparison; the table is indexed by \<open>rax\<close>. The entry is what runs up to the
  call of the handler.
\<close>

definition dispatch_entry :: "env \<Rightarrow> machine \<Rightarrow> (sys_handler \<times> machine) res" where
  "dispatch_entry e m =
     and_then (exec e dispatch_save m) (\<lambda>m1.
       if mc_reg m1 RAX \<ge> syscall_number NumSyscalls then syscall_abort
       else and_then (get_index SYSCALL_TABLE (unat (mc_reg m1 RAX))) (\<lambda>f. Inr (f, m1)))"

definition dispatch_syscall :: "env \<Rightarrow> (sys_handler \<Rightarrow> machine \<Rightarrow> callee) \<Rightarrow> machine \<Rightarrow> machine res" where
  "dispatch_syscall e h m =
     and_then (dispatch_entry e m) (\<lambda>(f, m1). exec e dispatch_restore (rust_call (h f m1) m1))"

subsection \<open>Entering the kernel\<close>

text \<open>
  The processor's \<open>int n\<close> through a gate: the descriptor privilege level must admit the current
  privilege level, the stack comes from \<open>rsp0\<close> on a change of privilege and is aligned to 16
  bytes, five values are pushed, and an interrupt gate (not a trap gate) clears IF.
\<close>

definition int_gate :: "gate \<Rightarrow> machine \<Rightarrow> machine res" where
  "int_gate g m =
     (if \<not> gt_present g \<or> mc_cs m AND 3 > gt_dpl g then Inl (PanicMsg ''#GP'')
      else
        let sp = mc_reg m RSP;
            sp0 = (if mc_cs m AND 3 \<noteq> 0 then mc_rsp0 m else mc_reg m RSP) AND NOT 0xf
        in and_then (push_val (mc_ss m) (m\<lparr>mc_reg := (mc_reg m)(RSP := sp0)\<rparr>)) (\<lambda>m1.
           and_then (push_val sp m1) (\<lambda>m2.
           and_then (push_val (flags_image (mc_rflags m)) m2) (\<lambda>m3.
           and_then (push_val (mc_cs m) m3) (\<lambda>m4.
           and_then (push_val (mc_rip m) m4) (\<lambda>m5.
             Inr (m5\<lparr>mc_rip := gt_offset g, mc_cs := gt_selector g, mc_ss := 0,
                     mc_rflags := mc_rflags m AND NOT 0x34100
                       AND (if gt_type g = 0xe then NOT 0x200 else NOT 0)\<rparr>)))))))"

text \<open>\<open>syscall0\<close>, \<open>syscall1\<close> and \<open>syscall2\<close>: load the registers, trap, and read \<open>rax\<close> afterwards.\<close>

definition int_0x80 :: "env \<Rightarrow> idt \<Rightarrow> (sys_handler \<Rightarrow> machine \<Rightarrow> callee) \<Rightarrow> machine \<Rightarrow> machine res" where
  "int_0x80 e t h m = and_then (int_gate (gate_of (t ! 0x80)) m) (dispatch_syscall e h)"

definition syscall0 ::
  "env \<Rightarrow> idt \<Rightarrow> (sys_handler \<Rightarrow> machine \<Rightarrow> callee) \<Rightarrow> syscall_function \<Rightarrow> machine \<Rightarrow> (u64 \<times> machine) res" where
  "syscall0 e t h f m =
     and_then (int_0x80 e t h (m\<lparr>mc_reg := (mc_reg m)(RAX := syscall_number f)\<rparr>)) (\<lambda>m'.
       Inr (mc_reg m' RAX, m'))"

definition syscall1 ::
  "env \<Rightarrow> idt \<Rightarrow> (sys_handler \<Rightarrow> machine \<Rightarrow> callee) \<Rightarrow> syscall_function \<Rightarrow> u64 \<Rightarrow> machine \<Rightarrow> (u64 \<times> machine) res" where
  "syscall1 e t h f arg1 m =
     and_then (int_0x80 e t h (m\<lparr>mc_reg := (mc_reg m)(RAX := syscall_number f, RDI := arg1)\<rparr>)) (\<lambda>m'.
       Inr (mc_reg m' RAX, m'))"

definition syscall2 ::
  "env \<Rightarrow> idt \<Rightarrow> (sys_handler \<Rightarrow> machine \<Rightarrow> callee) \<Rightarrow> syscall_function \<Rightarrow> u64 \<Rightarrow> u64 \<Rightarrow> machine \<Rightarrow> (u64 \<times> machine) res" where
  "syscall2 e t h f arg1 arg2 m =
     and_then (int_0x80 e t h
       (m\<lparr>mc_reg := (mc_reg m)(RAX := syscall_number f, RDI := arg1, RSI := arg2)\<rparr>)) (\<lambda>m'.
       Inr (mc_reg m' RAX, m'))"

subsection \<open>The frames on the kernel stack\<close>

definition sys_regs :: "reg list" where
  "sys_regs = [RBP, RDI, RSI, RDX, RCX, RBX, R15, R14, R13, R12, R11, R10, R9, R8]"

lemma sys_regs_props:
  "distinct sys_regs" "length sys_regs = 14" "RSP \<notin> set sys_regs" "RAX \<notin> set sys_regs"
  "r \<noteq> RAX \<Longrightarrow> r \<noteq> RSP \<Longrightarrow> r \<in> set sys_regs"
  by (cases r; simp add: sys_regs_def)+

lemma dispatch_code:
  "dispatch_save = map PUSH (rev sys_regs)" "dispatch_restore = map POP sys_regs @ [IRETQ]"
  by (simp_all add: dispatch_save_def dispatch_restore_def sys_regs_def)

text \<open>The stack that \<open>int\<close> pushes onto.\<close>

definition kernel_top :: "machine \<Rightarrow> u64" where
  "kernel_top m = (if mc_cs m AND 3 \<noteq> 0 then mc_rsp0 m else mc_reg m RSP) AND NOT 0xf"

lemma kernel_top_aligned: "aligned8 (kernel_top m)"
proof -
  have "(0xf :: u64) = mask 4" by (simp add: mask_eq_exp_minus_1)
  then have "unat (x AND NOT 0xf) = unat x div 2 ^ 4 * 2 ^ 4" for x :: u64
    by (simp only: unat_and_not_mask)
  then have "unat (kernel_top m) mod 8 = 0" by (simp add: kernel_top_def mod_mult_eq)
  moreover have "uint (kernel_top m) mod 8 = int (unat (kernel_top m) mod 8)" by (simp add: of_nat_mod)
  ultimately show ?thesis by (simp only: aligned8_def of_nat_0)
qed

lemma int_gate_pushes:
  assumes "b = kernel_top m - 40"
  shows "\<exists>m1. int_gate (user_trap_gate d) m = Inr m1 \<and> mc_reg m1 = (mc_reg m)(RSP := b)
    \<and> frame_at (mc_mem m1) b [mc_rip m, mc_cs m, flags_image (mc_rflags m), mc_reg m RSP, mc_ss m]
    \<and> (\<forall>a. a \<notin> frame_addrs b 5 \<longrightarrow> mc_mem m1 a = mc_mem m a) \<and> mc_cs m1 = 8 \<and> mc_rip m1 = d"
proof -
  let ?t = "kernel_top m"
  define mem' where "mem' = (mc_mem m)(?t - 8 := mc_ss m, ?t - 16 := mc_reg m RSP,
    ?t - 24 := flags_image (mc_rflags m), ?t - 32 := mc_cs m, ?t - 40 := mc_rip m)"
  have al: "aligned8 (?t - 8)" "aligned8 (?t - 16)" "aligned8 (?t - 24)" "aligned8 (?t - 32)" "aligned8 (?t - 40)"
    using kernel_top_aligned [of m] aligned8_add_mult [of "?t - 8" 1] aligned8_add_mult [of "?t - 16" 2]
      aligned8_add_mult [of "?t - 24" 3] aligned8_add_mult [of "?t - 32" 4] aligned8_add_mult [of "?t - 40" 5] by simp_all
  have dpl: "\<not> (3 :: u64) < mc_cs m AND 3" using word_and_le1 [of "mc_cs m" 3] by (simp add: linorder_not_less and.commute)
  have "frame_addrs b 5 = {?t - 40, ?t - 32, ?t - 24, ?t - 16, ?t - 8}"
    by (auto simp: frame_addrs_def slot_def assms lessThan_Suc numeral_eq_Suc)
  moreover have "frame_at mem' b [mc_rip m, mc_cs m, flags_image (mc_rflags m), mc_reg m RSP, mc_ss m]"
    by (simp add: assms mem'_def)
  moreover have "\<exists>m1. int_gate (user_trap_gate d) m = Inr m1 \<and> mc_reg m1 = (mc_reg m)(RSP := b)
      \<and> mc_mem m1 = mem' \<and> mc_cs m1 = 8 \<and> mc_rip m1 = d"
    using al dpl unfolding int_gate_def Let_def kernel_top_def [symmetric]
    by (simp add: user_trap_gate_def Let_def push_val_def assms mem'_def)
  ultimately show ?thesis by (auto simp: mem'_def)
qed


lemma dispatch_runs:
  assumes "aligned8 b" "mc_reg m RSP = b" "frame_at (mc_mem m) b [rip, cs, fl, sp, ss]"
    and "mc_reg m RAX < 8" "f = SYSCALL_TABLE ! unat (mc_reg m RAX)"
    and "\<And>m2. \<forall>a \<in> frame_addrs (b - 112) 19. ce_mem (h f m2) a = None"
  shows "\<exists>m2 m'. dispatch_entry e m = Inr (f, m2) \<and> dispatch_syscall e h m = Inr m'
    \<and> mc_reg m2 = (mc_reg m)(RSP := b - 112) \<and> mc_cs m2 = mc_cs m \<and> mc_rip m2 = mc_rip m
    \<and> mc_reg m' = (mc_reg m)(RAX := ce_reg (h f m2) RAX, RSP := sp)
    \<and> mc_rip m' = rip \<and> mc_cs m' = cs \<and> mc_rflags m' = fl \<and> mc_ss m' = ss
    \<and> (\<forall>a. a \<notin> frame_addrs (b - 112) 19 \<longrightarrow> mc_mem m2 a = mc_mem m a
          \<and> mc_mem m' a = (case ce_mem (h f m2) a of Some v \<Rightarrow> v | None \<Rightarrow> mc_mem m a))"
proof -
  have b: "slot (b - 112) 14 = b" by (simp add: slot_def)
  obtain mem2 where s: "exec e dispatch_save m = Inr (m\<lparr>mc_reg := (mc_reg m)(RSP := b - 112), mc_mem := mem2\<rparr>)"
    "frame_at mem2 (b - 112) (map (mc_reg m) sys_regs)"
    "\<forall>a. a \<notin> frame_addrs (b - 112) 14 \<longrightarrow> mem2 a = mc_mem m a"
    using exec_pushes [of "rev sys_regs" m e] assms(1,2) sys_regs_props by (auto simp: dispatch_code)
  define m2 where "m2 = m\<lparr>mc_reg := (mc_reg m)(RSP := b - 112), mc_mem := mem2\<rparr>"
  define m3 where "m3 = rust_call (h f m2) m2"
  have out: "slot b k \<notin> frame_addrs (b - 112) 14" if "k < 5" for k
    using slot_outside [of "14 + k" 0 14 "b - 112"] slot_slot [of "b - 112" 14 k] that by (simp add: b)
  have "mem2 a = mc_mem m a" if "a \<in> frame_addrs b 5" for a
    using that s(3) out unfolding frame_addrs_def [of b] by auto
  then have "frame_at mem2 b [rip, cs, fl, sp, ss]"
    by (intro frame_at_cong [OF assms(3)]) (simp add: eval_nat_numeral)
  then have fr2: "frame_at mem2 (b - 112) (map (mc_reg m) sys_regs @ [rip, cs, fl, sp, ss])"
    using s(2) b sys_regs_props(2) by (simp only: frame_at_append length_map)
  have fr: "frame_at (mc_mem m3) (b - 112) (map (mc_reg m) sys_regs @ [rip, cs, fl, sp, ss])"
    using assms(6) [of m2] sys_regs_props(2)
    by (intro frame_at_cong [OF fr2]) (simp add: m3_def rust_call_def m2_def)
  have sp3: "mc_reg m3 RSP = b - 112" by (simp add: m3_def rust_call_def m2_def callee_saved_def)
  have al: "aligned8 (b - 112)" using assms(1) aligned8_slot [of "b - 112" 14] b by simp
  define m4 where "m4 = m3\<lparr>mc_reg := (load_regs sys_regs (map (mc_reg m) sys_regs) (mc_reg m3))(RSP := b)\<rparr>"
  have p: "exec e (map POP sys_regs) m3 = Inr m4"
    using exec_pops [of sys_regs m3 "map (mc_reg m) sys_regs" e] fr al sp3 sys_regs_props b
    by (simp add: frame_at_append m4_def)
  have "frame_at (mc_mem m4) b [rip, cs, fl, sp, ss]" "mc_reg m4 RSP = b"
    using fr b sys_regs_props(2) by (simp_all add: m4_def frame_at_append)
  moreover have "aligned8 (16 + b)" "aligned8 (24 + b)" "aligned8 (32 + b)"
    using aligned8_add_mult [of b 2] aligned8_add_mult [of b 3] aligned8_add_mult [of b 4] assms(1) by (simp_all add: add.commute)
  ultimately have i: "step e IRETQ m4 = Inr (m4\<lparr>mc_rip := rip, mc_cs := cs, mc_rflags := fl, mc_ss := ss,
      mc_reg := (mc_reg m4)(RSP := sp)\<rparr>)" (is "_ = Inr ?m5")
    using assms(1) by (simp add: pop_val_def Let_def add.assoc [symmetric])
  have regs: "mc_reg ?m5 = (mc_reg m)(RAX := ce_reg (h f m2) RAX, RSP := sp)"
  proof
    fix r
    show "mc_reg ?m5 r = ((mc_reg m)(RAX := ce_reg (h f m2) RAX, RSP := sp)) r"
      using load_regs_map [OF sys_regs_props(1) sys_regs_props(5) [of r], of "mc_reg m" "mc_reg m3"]
        load_regs_other [OF sys_regs_props(4)]
      by (cases "r = RSP"; cases "r = RAX") (auto simp: m4_def m3_def rust_call_def callee_saved_def)
  qed
  have "unat (mc_reg m RAX) < length SYSCALL_TABLE" using assms(4) by (simp add: SYSCALL_TABLE_def word_less_nat_alt)
  then have idx: "get_index SYSCALL_TABLE (unat (mc_reg m2 RAX)) = Inr f" "\<not> 8 \<le> mc_reg m2 RAX"
    using assms(4,5) by (simp_all add: m2_def linorder_not_le)
  have "exec e [IRETQ] m4 = Inr ?m5" unfolding exec.simps i by simp
  then have r: "exec e dispatch_restore m3 = Inr ?m5" by (simp only: dispatch_code(2) exec_append p and_then_simps)
  have en: "dispatch_entry e m = Inr (f, m2)"
    unfolding dispatch_entry_def s(1) m2_def [symmetric] and_then_simps using idx by simp
  have d: "dispatch_syscall e h m = Inr ?m5"
    unfolding dispatch_syscall_def en using r by (simp add: m3_def)
  have mem: "mc_mem m2 a = mc_mem m a
      \<and> mc_mem ?m5 a = (case ce_mem (h f m2) a of Some v \<Rightarrow> v | None \<Rightarrow> mc_mem m a)"
    if "a \<notin> frame_addrs (b - 112) 19" for a
  proof -
    have "a \<notin> frame_addrs (b - 112) 14" using that by (auto simp: frame_addrs_def)
    then have "mc_mem m2 a = mc_mem m a" using s(3) by (simp add: m2_def)
    then show ?thesis by (simp add: m4_def m3_def rust_call_def split: option.split)
  qed
  show ?thesis
    by (intro exI [of _ m2] exI [of _ ?m5] conjI allI impI en d regs mem) (simp_all add: m2_def)
qed


subsection \<open>Properties\<close>

text \<open>The handler that each system call is meant to reach.\<close>

fun handler_of :: "syscall_function \<Rightarrow> sys_handler option" where
  "handler_of HelloWorld = Some sys_hello_world"
| "handler_of ThreadYield = Some sys_thread_yield"
| "handler_of ThreadWait = Some sys_thread_wait"
| "handler_of ThreadExit = Some sys_thread_exit"
| "handler_of ThreadGetId = Some sys_thread_get_id"
| "handler_of GetSystemTime = Some sys_get_system_time"
| "handler_of Print = Some sys_print"
| "handler_of GetKeyEvent = Some sys_get_key_event"
| "handler_of NumSyscalls = None"

lemma handler_of_table:
  "handler_of f = Some g \<Longrightarrow> syscall_number f < 8 \<and> SYSCALL_TABLE ! unat (syscall_number f) = g"
  by (cases f) (auto simp: SYSCALL_TABLE_def)

lemma syscall_fewer_args:
  "syscall1 e t h f x m = syscall2 e t h f x (mc_reg m RSI) m"
  "syscall0 e t h f m = syscall2 e t h f (mc_reg m RDI) (mc_reg m RSI) m"
proof -
  have "(mc_reg m)(RAX := n, RDI := x) = (mc_reg m)(RAX := n, RDI := x, RSI := mc_reg m RSI)" for n
    by (auto simp: fun_eq_iff)
  then show "syscall1 e t h f x m = syscall2 e t h f x (mc_reg m RSI) m"
    by (simp only: syscall1_def syscall2_def)
  have "(mc_reg m)(RAX := n) = (mc_reg m)(RAX := n, RDI := mc_reg m RDI, RSI := mc_reg m RSI)" for n
    by (auto simp: fun_eq_iff)
  then show "syscall0 e t h f m = syscall2 e t h f (mc_reg m RDI) (mc_reg m RSI) m"
    unfolding syscall0_def syscall2_def by metis
qed

text \<open>The state in which the handler of a system call starts, and the whole path of the call.\<close>

definition handler_entry ::
  "env \<Rightarrow> idt \<Rightarrow> syscall_function \<Rightarrow> u64 \<Rightarrow> u64 \<Rightarrow> machine \<Rightarrow> (sys_handler \<times> machine) res" where
  "handler_entry e t f x y m =
     and_then (int_gate (gate_of (t ! 0x80))
       (m\<lparr>mc_reg := (mc_reg m)(RAX := syscall_number f, RDI := x, RSI := y)\<rparr>)) (dispatch_entry e)"

lemma syscall2_runs:
  assumes "handler_of f = Some g"
    and "\<And>m1. \<forall>a \<in> frame_addrs (kernel_top m - 152) 19. ce_mem (h g m1) a = None"
  shows "\<exists>m1 m'. handler_entry e (idt_new w d) f x y m = Inr (g, m1)
    \<and> syscall2 e (idt_new w d) h f x y m = Inr (ce_reg (h g m1) RAX, m')
    \<and> mc_cs m1 = 8 \<and> mc_rip m1 = d \<and> mc_reg m1 RDI = x \<and> mc_reg m1 RSI = y \<and> mc_reg m1 RSP = kernel_top m - 152
    \<and> (\<forall>r. r \<notin> {RAX, RDI, RSI} \<longrightarrow> mc_reg m' r = mc_reg m r) \<and> mc_reg m' RDI = x \<and> mc_reg m' RSI = y
    \<and> mc_rip m' = mc_rip m \<and> mc_cs m' = mc_cs m \<and> mc_ss m' = mc_ss m \<and> mc_rflags m' = flags_image (mc_rflags m)
    \<and> (\<forall>a. a \<notin> frame_addrs (kernel_top m - 152) 19 \<longrightarrow> mc_mem m1 a = mc_mem m a
          \<and> mc_mem m' a = (case ce_mem (h g m1) a of Some v \<Rightarrow> v | None \<Rightarrow> mc_mem m a))"
proof -
  define m0 where "m0 = m\<lparr>mc_reg := (mc_reg m)(RAX := syscall_number f, RDI := x, RSI := y)\<rparr>"
  define b where "b = kernel_top m - 40"
  have k: "kernel_top m0 = kernel_top m" "b - 112 = kernel_top m - 152" by (simp_all add: kernel_top_def m0_def b_def)
  have g: "gate_of (idt_new w d ! 0x80) = user_trap_gate d" by (simp add: idt_new_nth IDT_SIZE_def gates)
  obtain m1 where m1: "int_gate (user_trap_gate d) m0 = Inr m1" "mc_reg m1 = (mc_reg m0)(RSP := b)"
    "frame_at (mc_mem m1) b [mc_rip m0, mc_cs m0, flags_image (mc_rflags m0), mc_reg m0 RSP, mc_ss m0]"
    "\<forall>a. a \<notin> frame_addrs b 5 \<longrightarrow> mc_mem m1 a = mc_mem m0 a" "mc_cs m1 = 8" "mc_rip m1 = d"
    using int_gate_pushes [of b m0 d] k by (auto simp: b_def)
  have al: "aligned8 b"
    using kernel_top_aligned [of m] aligned8_add_mult [of b 5] by (simp add: b_def)
  have t: "mc_reg m1 RAX < 8" "g = SYSCALL_TABLE ! unat (mc_reg m1 RAX)"
    using handler_of_table [OF assms(1)] m1(2) by (simp_all add: m0_def)
  obtain m2 m' where en: "dispatch_entry e m1 = Inr (g, m2)" and m': "dispatch_syscall e h m1 = Inr m'"
    "mc_reg m2 = (mc_reg m1)(RSP := b - 112)" "mc_cs m2 = mc_cs m1" "mc_rip m2 = mc_rip m1"
    "mc_reg m' = (mc_reg m1)(RAX := ce_reg (h g m2) RAX, RSP := mc_reg m0 RSP)"
    "mc_rip m' = mc_rip m0" "mc_cs m' = mc_cs m0" "mc_rflags m' = flags_image (mc_rflags m0)" "mc_ss m' = mc_ss m0"
    "\<forall>a. a \<notin> frame_addrs (b - 112) 19 \<longrightarrow> mc_mem m2 a = mc_mem m1 a
       \<and> mc_mem m' a = (case ce_mem (h g m2) a of Some v \<Rightarrow> v | None \<Rightarrow> mc_mem m1 a)"
    using dispatch_runs [OF al _ m1(3) t, of h e] assms(2) m1(2) k by auto
  have "slot (b - 112) 14 = b" by (simp add: slot_def)
  then have "a \<notin> frame_addrs b 5" if "a \<notin> frame_addrs (b - 112) 19" for a
    using frame_addrs_drop [of a "b - 112" 14 5] that by auto
  then have "mc_mem m2 a = mc_mem m a \<and> mc_mem m' a = (case ce_mem (h g m2) a of Some v \<Rightarrow> v | None \<Rightarrow> mc_mem m a)"
    if "a \<notin> frame_addrs (kernel_top m - 152) 19" for a
    using m'(10) m1(4) that by (simp add: k(2) m0_def cong: option.case_cong)
  moreover have "syscall2 e (idt_new w d) h f x y m = Inr (ce_reg (h g m2) RAX, m')"
    using m1(1) m'(1,5) by (simp add: syscall2_def int_0x80_def g m0_def [symmetric])
  moreover have "handler_entry e (idt_new w d) f x y m = Inr (g, m2)"
    using m1(1) en by (simp add: handler_entry_def g m0_def [symmetric])
  ultimately show ?thesis
    using m' m1(2,5,6)
    by (intro exI [of _ m2] exI [of _ m']) (simp add: m0_def k(2))
qed

text \<open>
  C6. A system call reaches the handler of its number and comes back cleanly. From user mode or
  from kernel mode, \<open>int 0x80\<close> enters \<open>dispatch_syscall\<close> in ring 0, the handler sees both
  arguments in \<open>rdi\<close> and \<open>rsi\<close>, its result arrives in \<open>rax\<close>, and the caller continues behind the
  instruction with its own ring, stack pointer, flags and all other registers. Memory
  changes only in the 19 cells of the kernel stack frame and where the handler itself
  writes. The handler must not write into that frame. Calls with fewer arguments behave
  like the two-argument call with the registers' current values.
\<close>

theorem syscall_roundtrip:
  assumes "handler_of f = Some g"
    and "\<And>m1. \<forall>a \<in> frame_addrs (kernel_top m - 152) 19. ce_mem (h g m1) a = None"
  shows "\<exists>m1 m'. handler_entry e (idt_new w d) f x y m = Inr (g, m1)
    \<and> syscall2 e (idt_new w d) h f x y m = Inr (ce_reg (h g m1) RAX, m')
    \<and> mc_cs m1 = 8 \<and> mc_rip m1 = d \<and> mc_reg m1 RDI = x \<and> mc_reg m1 RSI = y \<and> mc_reg m1 RSP = kernel_top m - 152
    \<and> (\<forall>r. r \<notin> {RAX, RDI, RSI} \<longrightarrow> mc_reg m' r = mc_reg m r) \<and> mc_reg m' RDI = x \<and> mc_reg m' RSI = y
    \<and> mc_rip m' = mc_rip m \<and> mc_cs m' = mc_cs m \<and> mc_ss m' = mc_ss m \<and> mc_rflags m' = flags_image (mc_rflags m)
    \<and> (\<forall>a. a \<notin> frame_addrs (kernel_top m - 152) 19 \<longrightarrow> ce_mem (h g m1) a = None \<longrightarrow> mc_mem m' a = mc_mem m a)
    \<and> syscall1 e (idt_new w d) h f x m = syscall2 e (idt_new w d) h f x (mc_reg m RSI) m
    \<and> syscall0 e (idt_new w d) h f m = syscall2 e (idt_new w d) h f (mc_reg m RDI) (mc_reg m RSI) m"
proof -
  obtain m1 m' where r: "handler_entry e (idt_new w d) f x y m = Inr (g, m1)" "syscall2 e (idt_new w d) h f x y m = Inr (ce_reg (h g m1) RAX, m')"
    "mc_cs m1 = 8" "mc_rip m1 = d" "mc_reg m1 RDI = x" "mc_reg m1 RSI = y" "mc_reg m1 RSP = kernel_top m - 152"
    "\<forall>r. r \<notin> {RAX, RDI, RSI} \<longrightarrow> mc_reg m' r = mc_reg m r" "mc_reg m' RDI = x" "mc_reg m' RSI = y"
    "mc_rip m' = mc_rip m" "mc_cs m' = mc_cs m" "mc_ss m' = mc_ss m" "mc_rflags m' = flags_image (mc_rflags m)"
    "\<forall>a. a \<notin> frame_addrs (kernel_top m - 152) 19 \<longrightarrow> mc_mem m1 a = mc_mem m a
       \<and> mc_mem m' a = (case ce_mem (h g m1) a of Some v \<Rightarrow> v | None \<Rightarrow> mc_mem m a)"
    using syscall2_runs [of f g m h e w d x y] assms by blast
  then show ?thesis
    using syscall_fewer_args [of e "idt_new w d" h f]
    by (intro exI [of _ m1] exI [of _ m']) simp
qed

definition user_machine :: machine where
  "user_machine = \<lparr>mc_reg = (\<lambda>r. if r = RSP then 0x7000 else 5), mc_rflags = 0x202, mc_rip = 0x400123,
     mc_cs = 0x1b, mc_ss = 0x23, mc_rsp0 = 0x9000, mc_mem = (\<lambda>_. 0), mc_sched_locked = False\<rparr>"

definition answer :: "sys_handler \<Rightarrow> machine \<Rightarrow> callee" where
  "answer g m = \<lparr>ce_reg = (\<lambda>r. if r = RAX then (if g = sys_thread_get_id then 42 else 0) else 99),
     ce_rflags = 2, ce_mem = (\<lambda>_. None)\<rparr>"

definition no_env :: env where
  "no_env = \<lparr>en_callee = \<lparr>ce_reg = (\<lambda>_. 0), ce_rflags = 0, ce_mem = (\<lambda>_. None)\<rparr>, en_tss = 0, en_ra = 0\<rparr>"

theorem syscall_roundtrip_witness:
  "\<exists>m'. syscall0 no_env (idt_new (\<lambda>_ _. 0) 0x100) answer ThreadGetId user_machine = Inr (42, m')
     \<and> mc_reg m' RBX = 5 \<and> mc_reg m' RSP = 0x7000 \<and> mc_rip m' = 0x400123 \<and> mc_cs m' = 0x1b"
  using syscall_roundtrip [of ThreadGetId sys_thread_get_id user_machine answer no_env "\<lambda>_ _. 0" "0x100"
      "mc_reg user_machine RDI" "mc_reg user_machine RSI"]
  by (auto simp: answer_def user_machine_def)

text \<open>
  Every number from \<open>NumSyscalls\<close> up, including those that a signed comparison would take for
  negative, stops in \<open>syscall_abort\<close> without reading outside the table, and a number below
  always finds a handler: the table has exactly one entry per number.
\<close>

theorem invalid_syscall_aborts:
  assumes "mc_reg m RAX \<ge> syscall_number NumSyscalls"
  shows "int_0x80 e (idt_new w d) h m = Inl (PanicMsg ''Invalid syscall number'')
    \<and> length SYSCALL_TABLE = unat (syscall_number NumSyscalls)"
proof -
  define b where "b = kernel_top m - 40"
  have g: "gate_of (idt_new w d ! 0x80) = user_trap_gate d" by (simp add: idt_new_nth IDT_SIZE_def gates)
  obtain m1 where m1: "int_gate (user_trap_gate d) m = Inr m1" "mc_reg m1 = (mc_reg m)(RSP := b)"
    using int_gate_pushes [of b m d] by (auto simp: b_def)
  have "aligned8 (mc_reg m1 RSP)"
    using kernel_top_aligned [of m] aligned8_add_mult [of b 5] m1(2) by (simp add: b_def)
  then obtain mem2 where "exec e dispatch_save m1 = Inr (m1\<lparr>mc_reg := (mc_reg m1)(RSP := mc_reg m1 RSP - 112), mc_mem := mem2\<rparr>)"
    using exec_pushes [of "rev sys_regs" m1 e] sys_regs_props by (auto simp: dispatch_code)
  then show ?thesis
    using assms m1 by (simp add: int_0x80_def g dispatch_syscall_def dispatch_entry_def syscall_abort_def SYSCALL_TABLE_def)
qed

theorem invalid_syscall_aborts_witness:
  "int_0x80 no_env (idt_new (\<lambda>_ _. 0) 0x100) answer
     (user_machine\<lparr>mc_reg := (\<lambda>r. if r = RSP then 0x7000 else - 1)\<rparr>) = Inl (PanicMsg ''Invalid syscall number'')"
  using invalid_syscall_aborts [of "user_machine\<lparr>mc_reg := (\<lambda>r. if r = RSP then 0x7000 else - 1)\<rparr>"
      no_env "\<lambda>_ _. 0" "0x100" answer]
  by simp

end
