(* ===== verification/Syscall_Functions.thy ===== *)
theory Syscall_Functions
  imports Syscall Utf8 Pit Key_Queue Logger Console
begin

text \<open>
  \<^verbatim>\<open>kernel/src/syscall/functions\<close>: what the kernel does in each system call, and the functions of
  \<^verbatim>\<open>kernel/src/syscall/user_api.rs\<close> that user programs call. The kernel side works on the states of
  the components it calls (scheduler, clock, terminal, key queue, logger), the user side on the
  processor and memory of the theory \<open>X86\<close>. The names of the handlers are the constructors of
  \<^typ>\<open>sys_handler\<close>; the function behind a name has the suffix \<open>_fn\<close>.
\<close>

subsection \<open>Memory as bytes\<close>

text \<open>The cells of the machine hold eight bytes each, the lowest address in the lowest bits.\<close>

definition cell_of :: "u64 \<Rightarrow> u64" where
  "cell_of a = a AND NOT 7"

definition byte_at :: "(u64 \<Rightarrow> u64) \<Rightarrow> u64 \<Rightarrow> u8" where
  "byte_at mem a = ucast (drop_bit (8 * unat (a AND 7)) (mem (cell_of a)))"

text \<open>A slice over a null pointer or of more than \<open>isize::MAX\<close> bytes is undefined behaviour.\<close>

definition from_raw_parts :: "(u64 \<Rightarrow> u64) \<Rightarrow> u64 \<Rightarrow> u64 \<Rightarrow> u8 list res" where
  "from_raw_parts mem data len =
     (if data = 0 \<or> 2 ^ 63 \<le> unat len then Inl MemoryFault
      else Inr (map (\<lambda>i. byte_at mem (data + of_nat i)) [0..<unat len]))"

subsection \<open>The kernel side\<close>

text \<open>\<open>at\<close> and \<open>line\<close> are the file and line that \<open>info!\<close> records.\<close>

definition sys_hello_world_fn ::
  "hw \<Rightarrow> (usize \<Rightarrow> u8 list) \<Rightarrow> usize \<Rightarrow> string \<Rightarrow> u32 \<Rightarrow> scheduler \<Rightarrow> com_port spinlock \<Rightarrow> cpu
     \<Rightarrow> (com_port spinlock \<times> cpu) res option" where
  "sys_hello_world_fn hw fmt_time now at line s com1 c =
     (case get_active_tid s of
        Done tid _ \<Rightarrow> logger_log hw fmt_time now \<lparr>lr_level = Level_Info, lr_file = Some at, lr_line = Some line\<rparr>
          (ascii (''Hello, world (from syscall, TID: '' @ dec_digits (unat tid) @ '')!'')) com1 c
      | Panicked e \<Rightarrow> Some (Inl e)
      | _ \<Rightarrow> None)"

definition sys_thread_yield_fn :: "bool \<Rightarrow> usize \<Rightarrow> scheduler \<Rightarrow> unit outcome" where
  "sys_thread_yield_fn alloc_locked sp s = yield_cpu alloc_locked sp s"

definition sys_thread_wait_fn :: "(nat \<Rightarrow> usize) \<Rightarrow> u64 \<Rightarrow> nat res option" where
  "sys_thread_wait_fn clock ms = wait clock ms"

definition sys_thread_exit_fn :: "usize \<Rightarrow> scheduler \<Rightarrow> unit outcome" where
  "sys_thread_exit_fn sp s = exit sp s"

definition sys_thread_get_id_fn :: "scheduler \<Rightarrow> u64 outcome" where
  "sys_thread_get_id_fn s = get_active_tid s"

definition sys_get_system_time_fn :: "kernel \<Rightarrow> u64" where
  "sys_get_system_time_fn k = k_time k"

definition sys_print_fn ::
  "(u32 \<Rightarrow> u8 list option) \<Rightarrow> (u64 \<Rightarrow> u64) \<Rightarrow> u64 \<Rightarrow> u64 \<Rightarrow> terminal spinlock once \<Rightarrow> vram
     \<Rightarrow> (terminal spinlock once \<times> vram) res option" where
  "sys_print_fn glyph mem buffer len g v =
     (case from_raw_parts mem buffer len of
        Inl e \<Rightarrow> Some (Inl e)
      | Inr bytes \<Rightarrow>
          (case from_utf8 bytes of
             None \<Rightarrow> Some (Inr (g, v))
           | Some msg \<Rightarrow> print glyph msg g v))"

text \<open>The result: the value returned, the event written through the pointer if any, and the queue.\<close>

definition sys_get_key_event_fn :: "'q scq_ops \<Rightarrow> 'q \<Rightarrow> (u64 \<times> key_event option \<times> 'q) res" where
  "sys_get_key_event_fn ops q =
     and_then (pop_key_event ops q) (\<lambda>(evt, q').
       Inr (case evt of None \<Rightarrow> (0, None, q') | Some k \<Rightarrow> (1, Some k, q')))"

subsection \<open>The user side\<close>

type_synonym handlers = "sys_handler \<Rightarrow> machine \<Rightarrow> callee"

definition usr_hello_world :: "env \<Rightarrow> idt \<Rightarrow> handlers \<Rightarrow> machine \<Rightarrow> machine res" where
  "usr_hello_world e t h m = and_then (syscall0 e t h HelloWorld m) (\<lambda>(_, m'). Inr m')"

definition usr_thread_yield :: "env \<Rightarrow> idt \<Rightarrow> handlers \<Rightarrow> machine \<Rightarrow> machine res" where
  "usr_thread_yield e t h m = and_then (syscall0 e t h ThreadYield m) (\<lambda>(_, m'). Inr m')"

definition usr_thread_wait :: "env \<Rightarrow> idt \<Rightarrow> handlers \<Rightarrow> usize \<Rightarrow> machine \<Rightarrow> machine res" where
  "usr_thread_wait e t h ms m = and_then (syscall1 e t h ThreadWait ms m) (\<lambda>(_, m'). Inr m')"

definition usr_thread_exit :: "env \<Rightarrow> idt \<Rightarrow> handlers \<Rightarrow> machine \<Rightarrow> machine res" where
  "usr_thread_exit e t h m = and_then (syscall0 e t h ThreadExit m) (\<lambda>(_, m'). Inr m')"

definition usr_thread_get_id :: "env \<Rightarrow> idt \<Rightarrow> handlers \<Rightarrow> machine \<Rightarrow> (usize \<times> machine) res" where
  "usr_thread_get_id e t h m = syscall0 e t h ThreadGetId m"

definition usr_get_system_time :: "env \<Rightarrow> idt \<Rightarrow> handlers \<Rightarrow> machine \<Rightarrow> (usize \<times> machine) res" where
  "usr_get_system_time e t h m = syscall0 e t h GetSystemTime m"

definition usr_print :: "env \<Rightarrow> idt \<Rightarrow> handlers \<Rightarrow> u64 \<Rightarrow> u64 \<Rightarrow> machine \<Rightarrow> machine res" where
  "usr_print e t h as_ptr len m = and_then (syscall2 e t h Print as_ptr len m) (\<lambda>(_, m'). Inr m')"

text \<open>
  How the compiler lays out a \<open>KeyEvent\<close> is not fixed by the language: \<open>lay_cells p k\<close> gives the cells and
  their contents for the event \<open>k\<close> at address \<open>p\<close>, and \<open>lay_read\<close> reads an event back. \<open>at\<close> is where the
  local variable \<open>key_event\<close> lives.
\<close>

record key_layout =
  lay_cells :: "u64 \<Rightarrow> key_event \<Rightarrow> u64 \<Rightarrow> u64 option"
  lay_read :: "(u64 \<Rightarrow> u64) \<Rightarrow> u64 \<Rightarrow> key_event"

definition lay_write :: "key_layout \<Rightarrow> u64 \<Rightarrow> key_event \<Rightarrow> machine \<Rightarrow> machine" where
  "lay_write l p k m = m\<lparr>mc_mem := (\<lambda>a. case lay_cells l p k a of Some v \<Rightarrow> v | None \<Rightarrow> mc_mem m a)\<rparr>"

definition usr_get_key_event ::
  "env \<Rightarrow> idt \<Rightarrow> handlers \<Rightarrow> key_layout \<Rightarrow> u64 \<Rightarrow> machine \<Rightarrow> (key_event option \<times> machine) res" where
  "usr_get_key_event e t h l at m =
     and_then (syscall1 e t h GetKeyEvent at (lay_write l at key_event_new m)) (\<lambda>(available, m').
       Inr (if available = 0 then None else Some (lay_read l (mc_mem m') at), m'))"

subsection \<open>Slices that survive the entry into the kernel\<close>

lemma from_raw_parts_bytes:
  assumes "data \<noteq> 0" "length bs < 2 ^ 63" "\<And>i. i < length bs \<Longrightarrow> byte_at mem (data + of_nat i) = bs ! i"
  shows "from_raw_parts mem data (of_nat (length bs)) = Inr bs"
proof -
  have "unat (of_nat (length bs) :: u64) = length bs" using assms(2) by (simp add: unat_of_nat)
  moreover have "map (\<lambda>i. byte_at mem (data + of_nat i)) [0..<length bs] = bs"
    using assms(3) by (intro nth_equalityI) simp_all
  ultimately show ?thesis using assms(1,2) by (simp add: from_raw_parts_def)
qed

subsection \<open>Properties\<close>

text \<open>
  C5. A user program's \<open>usr_print\<close> puts its text on the screen. For every string, of any characters, whose
  bytes lie in memory outside the kernel stack frame of the call, the trap reaches \<open>sys_print\<close> with the
  address and length in \<open>rdi\<close> and \<open>rsi\<close>; \<open>sys_print\<close> finds in memory exactly the characters of the string,
  writes them behind what the terminal showed before (as the text screen specifies), releases the terminal,
  and the program continues behind the call with its registers. No step panics or spins.
\<close>

theorem usr_print_shows_text:
  assumes tty: "once_get g = Inr (Some t)" "\<not> is_locked t" "shows_screen (inner t) v s" "glyphs_ok glyph"
    and str: "valid_str cs" "ptr \<noteq> 0" "length (str_bytes cs) < 2 ^ 63"
      "\<And>i. i < length (str_bytes cs) \<Longrightarrow> byte_at (mc_mem m) (ptr + of_nat i) = str_bytes cs ! i"
    and apart: "\<And>i. i < length (str_bytes cs) \<Longrightarrow> cell_of (ptr + of_nat i) \<notin> frame_addrs (kernel_top m - 152) 19"
    and h: "\<And>m1. \<forall>a \<in> frame_addrs (kernel_top m - 152) 19. ce_mem (h sys_print m1) a = None"
    and fb: "fb = inner (t_framebuffer (inner t))"
  shows "\<exists>m1 m' g' t' v'.
      usr_print e (idt_new w d) h ptr (of_nat (length (str_bytes cs))) m = Inr m'
    \<and> handler_entry e (idt_new w d) Print ptr (of_nat (length (str_bytes cs))) m = Inr (sys_print, m1)
    \<and> sys_print_fn glyph (mc_mem m1) (mc_reg m1 RDI) (mc_reg m1 RSI) g v = Some (Inr (g', v'))
    \<and> once_get g' = Inr (Some t') \<and> \<not> is_locked t'
    \<and> shows_screen (inner t') v' (typed (cols_of fb) (rows_of fb) glyph cs s)
    \<and> mc_rip m' = mc_rip m \<and> mc_cs m' = mc_cs m \<and> (\<forall>r. r \<notin> {RAX, RDI, RSI} \<longrightarrow> mc_reg m' r = mc_reg m r)"
proof -
  let ?n = "of_nat (length (str_bytes cs)) :: u64"
  have "handler_of Print = Some sys_print" by simp
  from syscall2_runs [of Print sys_print m h e w d ptr ?n, OF this h] obtain m1 m' where r:
    "handler_entry e (idt_new w d) Print ptr ?n m = Inr (sys_print, m1)"
    "syscall2 e (idt_new w d) h Print ptr ?n m = Inr (ce_reg (h sys_print m1) RAX, m')"
    "mc_reg m1 RDI = ptr" "mc_reg m1 RSI = ?n" "mc_rip m' = mc_rip m" "mc_cs m' = mc_cs m"
    "\<forall>r. r \<notin> {RAX, RDI, RSI} \<longrightarrow> mc_reg m' r = mc_reg m r"
    "\<forall>a. a \<notin> frame_addrs (kernel_top m - 152) 19 \<longrightarrow> mc_mem m1 a = mc_mem m a"
    by blast
  have "byte_at (mc_mem m1) (ptr + of_nat i) = str_bytes cs ! i" if "i < length (str_bytes cs)" for i
    using str(4) [OF that] apart [OF that] r(8) by (simp add: byte_at_def)
  then have "from_raw_parts (mc_mem m1) ptr ?n = Inr (str_bytes cs)" by (intro from_raw_parts_bytes str(2,3))
  then have "sys_print_fn glyph (mc_mem m1) (mc_reg m1 RDI) (mc_reg m1 RSI) g v = print glyph cs g v"
    using r(3,4) str(1) by (simp add: sys_print_fn_def)
  then show ?thesis using print_shows [OF tty fb, of cs] r by (auto simp: usr_print_def)
qed

definition hi_machine :: machine where
  "hi_machine = user_machine\<lparr>mc_mem := (\<lambda>a. if a = 0x5000 then 0x6948 else 0)\<rparr>"

lemma below_frame:
  assumes "a < sp" "unat sp + 8 * n < 2 ^ 64"
  shows "a \<notin> frame_addrs sp n"
proof
  assume "a \<in> frame_addrs sp n"
  then obtain k where k: "k < n" "a = sp + 8 * of_nat k" by (auto simp: frame_addrs_def slot_def)
  have "8 * of_nat k = (of_nat (8 * k) :: u64)" by simp
  then have "unat (8 * of_nat k :: u64) = 8 * k" using k(1) assms(2) by (simp only: unat_of_nat) simp
  then have "unat a = unat sp + 8 * k" unfolding k(2) using k(1) assms(2) by (subst unat_add_noov) simp_all
  then show False using assms(1) by (simp add: word_less_nat_alt)
qed

lemma hi_machine_frame: "kernel_top hi_machine - 152 = 0x8F68" "0x5000 \<notin> frame_addrs 0x8F68 19"
  by (simp add: hi_machine_def user_machine_def kernel_top_def) (rule below_frame; simp)

theorem usr_print_shows_text_witness:
  "\<exists>t v g m'. terminal_new small_fb small_vram = Inr (t, v)
    \<and> usr_print no_env (idt_new (\<lambda>_ _. 0) 0x100) answer 0x5000 2 hi_machine = Inr m' \<and> mc_rip m' = 0x400123
    \<and> (\<exists>(m1 :: machine) g' t' v'. sys_print_fn block_font (mc_mem m1) (mc_reg m1 RDI) (mc_reg m1 RSI) g v = Some (Inr (g', v'))
        \<and> once_get g' = Inr (Some t') \<and> shows_screen (inner t') v' (typed 2 2 block_font [72, 105] blank_screen))"
proof -
  obtain t v where t: "terminal_new small_fb small_vram = Inr (t, v)" "shows_screen t v blank_screen"
    "inner (t_framebuffer t) = small_fb"
    using new_shows_blank [of small_fb small_vram]
    by (auto simp: fb_ok_def small_fb_def small_vram_def CHAR_WIDTH_def CHAR_HEIGHT_def)
  define g where "g = \<lparr>on_initialized = True, on_value = Some (spinlock_new t)\<rparr>"
  have g: "once_get g = Inr (Some (spinlock_new t))" "\<not> is_locked (spinlock_new t)" "inner (spinlock_new t) = t"
    by (simp_all add: g_def once_get_def assume_init_ref_def spinlock_defs)
  have bs: "str_bytes [72, 105] = [72, 105]" "valid_str [72, 105]" using str_bytes_ascii [of "[72, 105]"] by simp_all
  have fb: "cols_of small_fb = 2" "rows_of small_fb = 2" by (simp_all add: small_fb_def CHAR_WIDTH_def CHAR_HEIGHT_def)
  have mem: "byte_at (mc_mem hi_machine) (0x5000 + of_nat i) = [72, 105] ! i" "cell_of (0x5000 + of_nat i) = 0x5000"
    if "i < 2" for i
    using less_2_cases [OF that] by (auto simp: byte_at_def cell_of_def hi_machine_def drop_bit_eq_div)
  have gl: "glyphs_ok block_font" by (simp add: glyphs_ok_def block_font_def CHAR_HEIGHT_def)
  let ?n = "of_nat (length (str_bytes [72, 105])) :: u64"
  obtain m1 m' g' t' v' where r: "usr_print no_env (idt_new (\<lambda>_ _. 0) 0x100) answer 0x5000 ?n hi_machine = Inr m'"
    "handler_entry no_env (idt_new (\<lambda>_ _. 0) 0x100) Print 0x5000 ?n hi_machine = Inr (sys_print, m1)"
    "sys_print_fn block_font (mc_mem m1) (mc_reg m1 RDI) (mc_reg m1 RSI) g v = Some (Inr (g', v'))"
    "once_get g' = Inr (Some t')" "\<not> is_locked t'"
    "shows_screen (inner t') v' (typed (cols_of small_fb) (rows_of small_fb) block_font [72, 105] blank_screen)"
    "mc_rip m' = mc_rip hi_machine" "mc_cs m' = mc_cs hi_machine"
    "\<forall>r. r \<notin> {RAX, RDI, RSI} \<longrightarrow> mc_reg m' r = mc_reg hi_machine r"
    using usr_print_shows_text [OF g(1,2) _ gl bs(2), where h = answer and ptr = "0x5000" and m = hi_machine
        and e = no_env and w = "\<lambda>_ _. 0" and d = "0x100" and v = v and s = blank_screen and fb = small_fb]
      mem t(2,3) g(3) hi_machine_frame
    by (simp add: bs(1) answer_def) blast
  have "?n = 2" by (simp add: bs(1))
  moreover have "mc_rip hi_machine = 0x400123" by (simp add: hi_machine_def user_machine_def)
  ultimately show ?thesis using t(1) r(1,3,4,6,7) unfolding fb
    by (intro exI [of _ t] exI [of _ v] exI [of _ g] exI [of _ m']) (auto intro!: exI [of _ m1])
qed

text \<open>
  What a layout must satisfy: an event is read back from memory that holds its cells. What the compiled
  \<open>sys_get_key_event\<close> must satisfy: it returns the value, and writes the event, of its source.
\<close>

definition layout_ok :: "key_layout \<Rightarrow> bool" where
  "layout_ok l \<longleftrightarrow> (\<forall>p k mem. (\<forall>a v. lay_cells l p k a = Some v \<longrightarrow> mem a = v) \<longrightarrow> lay_read l mem p = k)"

definition implements_get_key_event :: "'q scq_ops \<Rightarrow> 'q \<Rightarrow> key_layout \<Rightarrow> u64 \<Rightarrow> callee \<Rightarrow> bool" where
  "implements_get_key_event ops q l event c \<longleftrightarrow>
     (case sys_get_key_event_fn ops q of
        Inl _ \<Rightarrow> True
      | Inr (r, evt, _) \<Rightarrow> ce_reg c RAX = r
          \<and> (case evt of None \<Rightarrow> True | Some k \<Rightarrow> \<forall>a v. lay_cells l event k a = Some v \<longrightarrow> ce_mem c a = Some v))"

text \<open>
  C10. \<open>usr_get_key_event\<close> in a user program is the kernel's \<open>pop_key_event\<close>: it returns the oldest queued event,
  bit for bit, and \<open>None\<close> exactly when the queue is empty, for any layout of a \<open>KeyEvent\<close> in memory and
  any compiled handler that does what its source says; the program continues with its registers.
\<close>

theorem usr_get_key_event_pops:
  assumes q: "scq_contract ops held KEY_QUEUE_SIZE"
    and l: "layout_ok l" "\<And>k a. a \<in> frame_addrs (kernel_top m - 152) 19 \<Longrightarrow> lay_cells l at k a = None"
    and h: "\<And>m1. \<forall>a \<in> frame_addrs (kernel_top m - 152) 19. ce_mem (h sys_get_key_event m1) a = None"
      "\<And>m1. mc_reg m1 RDI = at \<Longrightarrow> implements_get_key_event ops q l at (h sys_get_key_event m1)"
  shows "\<exists>q' m'. pop_key_event ops q = Inr (if held q = [] then None else Some (hd (held q)), q') \<and> held q' = tl (held q)
    \<and> usr_get_key_event e (idt_new w d) h l at m = Inr (if held q = [] then None else Some (hd (held q)), m')
    \<and> mc_rip m' = mc_rip m \<and> mc_cs m' = mc_cs m \<and> (\<forall>r. r \<notin> {RAX, RDI} \<longrightarrow> mc_reg m' r = mc_reg m r)"
proof -
  define m0 where "m0 = lay_write l at key_event_new m"
  have k: "kernel_top m0 = kernel_top m" by (simp add: m0_def lay_write_def kernel_top_def)
  have "handler_of GetKeyEvent = Some sys_get_key_event" by simp
  from syscall2_runs [of GetKeyEvent sys_get_key_event m0 h e w d at "mc_reg m0 RSI", OF this] h(1) k obtain m1 m' where r:
    "syscall2 e (idt_new w d) h GetKeyEvent at (mc_reg m0 RSI) m0 = Inr (ce_reg (h sys_get_key_event m1) RAX, m')"
    "mc_reg m1 RDI = at" "mc_rip m' = mc_rip m0" "mc_cs m' = mc_cs m0" "mc_reg m' RSI = mc_reg m0 RSI"
    "\<forall>r. r \<notin> {RAX, RDI, RSI} \<longrightarrow> mc_reg m' r = mc_reg m0 r"
    "\<forall>a. a \<notin> frame_addrs (kernel_top m - 152) 19 \<longrightarrow>
       mc_mem m' a = (case ce_mem (h sys_get_key_event m1) a of Some v \<Rightarrow> v | None \<Rightarrow> mc_mem m0 a)"
    by fastforce
  have regs: "\<forall>r. r \<notin> {RAX, RDI} \<longrightarrow> mc_reg m' r = mc_reg m r" "mc_rip m' = mc_rip m" "mc_cs m' = mc_cs m"
    using r(3-6) by (auto simp: m0_def lay_write_def)
  define c where "c = h sys_get_key_event m1"
  have u: "usr_get_key_event e (idt_new w d) h l at m =
      Inr (if ce_reg c RAX = 0 then None else Some (lay_read l (mc_mem m') at), m')"
    using r(1) syscall_fewer_args(1) [of e "idt_new w d" h GetKeyEvent at m0]
    by (simp add: usr_get_key_event_def m0_def [symmetric] c_def)
  obtain evt q' where d: "scq_try_dequeue ops q = (evt, q')" by force
  have pop: "pop_key_event ops q = Inr (evt, q')" using scq_contractD(1) [OF q] d by (simp add: pop_key_event_def)
  have impl: "implements_get_key_event ops q l at c" using h(2) [OF r(2)] by (simp add: c_def)
  show ?thesis
  proof (cases "held q")
    case Nil
    then have e: "evt = None" "held q' = []" using scq_contractD(3) [OF q Nil d] by auto
    then have "ce_reg c RAX = 0" using impl pop by (simp add: implements_get_key_event_def sys_get_key_event_fn_def)
    then show ?thesis using Nil e pop u regs by auto
  next
    case (Cons k ks)
    then have e: "evt = Some k" "held q' = ks" using scq_contractD(4) [OF q Cons d] by auto
    then have i: "ce_reg c RAX = 1" "\<forall>a v. lay_cells l at k a = Some v \<longrightarrow> ce_mem c a = Some v"
      using impl pop by (simp_all add: implements_get_key_event_def sys_get_key_event_fn_def)
    have "mc_mem m' a = v" if "lay_cells l at k a = Some v" for a v
    proof -
      have "a \<notin> frame_addrs (kernel_top m - 152) 19" using l(2) [of a k] that by auto
      then show ?thesis using r(7) i(2) that by (simp add: c_def [symmetric])
    qed
    then have "lay_read l (mc_mem m') at = k" using l(1) unfolding layout_ok_def by blast
    then show ?thesis using Cons e pop u regs i(1) by auto
  qed
qed

text \<open>A layout of four cells, and a handler for a queue that holds one event.\<close>

definition four_cells :: key_layout where
  "four_cells = \<lparr>
     lay_cells = (\<lambda>p k a.
       if a = p then Some (case ke_ascii k of None \<Rightarrow> 0x100000000 | Some c \<Rightarrow> ucast c)
       else if a = p + 8 then Some (case ke_scancode k of None \<Rightarrow> 0 | Some s \<Rightarrow> ucast (scancode_number s))
       else if a = p + 16 then Some (ucast (ke_modifiers k))
       else if a = p + 24 then Some (if ke_pressed k then 1 else 0) else None),
     lay_read = (\<lambda>mem p. \<lparr>
       ke_ascii = (if mem p = 0x100000000 then None else Some (ucast (mem p))),
       ke_scancode = scancode_try_from (ucast (mem (p + 8))),
       ke_modifiers = ucast (mem (p + 16)), ke_pressed = (mem (p + 24) \<noteq> 0)\<rparr>)\<rparr>"

lemma ucast_narrow: "(ucast (ucast (b :: u8) :: u64) :: u8) = b" "(ucast (ucast (c :: u32) :: u64) :: u32) = c"
  by (rule bit_word_eqI, simp add: bit_simps)+

lemma ucast_u32_small: "(ucast (c :: u32) :: u64) \<noteq> 0x100000000"
proof
  assume "(ucast c :: u64) = 0x100000000"
  then have "unat (ucast c :: u64) = unat (0x100000000 :: u64)" by (rule arg_cong)
  moreover have "unat (ucast c :: u64) = unat c" 
    using unsigned_less [of c, where 'a = nat] by (simp add: unsigned_ucast_eq take_bit_nat_eq_self_iff)
  ultimately show False using unsigned_less [of c, where 'a = nat] by simp
qed

lemma four_cells_ok: "layout_ok four_cells"
  unfolding layout_ok_def
proof (intro allI impI)
  fix p and k :: key_event and mem :: "u64 \<Rightarrow> u64"
  assume "\<forall>a v. lay_cells four_cells p k a = Some v \<longrightarrow> mem a = v"
  then have c: "lay_cells four_cells p k a = Some v \<Longrightarrow> mem a = v" for a v by blast
  have m: "mem p = (case ke_ascii k of None \<Rightarrow> 0x100000000 | Some c \<Rightarrow> ucast c)"
    "mem (p + 8) = (case ke_scancode k of None \<Rightarrow> 0 | Some s \<Rightarrow> ucast (scancode_number s))"
    "mem (p + 16) = ucast (ke_modifiers k)" "mem (p + 24) = (if ke_pressed k then 1 else 0)"
    by (rule c; simp add: four_cells_def)+
  have "scancode_try_from 0 = None" by (simp add: scancode_try_from_def scancode_arms_def)
  then have "ke_scancode k = scancode_try_from (ucast (mem (p + 8)))"
    by (cases "ke_scancode k") (simp_all add: m(2) scancode_roundtrip1 ucast_narrow)
  moreover have "ke_ascii k = (if mem p = 0x100000000 then None else Some (ucast (mem p)))"
    by (cases "ke_ascii k") (simp_all add: m(1) ucast_u32_small ucast_narrow)
  ultimately show "lay_read four_cells mem p = k"
    by (cases k) (simp add: four_cells_def m(3,4) ucast_narrow)
qed

definition key_a :: key_event where
  "key_a = \<lparr>ke_ascii = Some 97, ke_scancode = Some Sc_A, ke_modifiers = 0, ke_pressed = True\<rparr>"

definition key_answer :: "sys_handler \<Rightarrow> machine \<Rightarrow> callee" where
  "key_answer g m1 = \<lparr>ce_reg = (\<lambda>_. 1), ce_rflags = 2,
     ce_mem = (if mc_reg m1 RDI = 0x5000 then lay_cells four_cells 0x5000 key_a else (\<lambda>_. None))\<rparr>"

theorem usr_get_key_event_pops_witness:
  "\<exists>m'. usr_get_key_event no_env (idt_new (\<lambda>_ _. 0) 0x100) key_answer four_cells 0x5000 user_machine
     = Inr (Some key_a, m') \<and> mc_rip m' = 0x400123"
proof -
  have k: "kernel_top user_machine - 152 = 0x8F68" by (simp add: user_machine_def kernel_top_def)
  have "0x5000 \<notin> frame_addrs 0x8F68 19" "0x5008 \<notin> frame_addrs 0x8F68 19" "0x5010 \<notin> frame_addrs 0x8F68 19"
    "0x5018 \<notin> frame_addrs 0x8F68 19"
    by (rule below_frame; simp)+
  then have f: "a \<in> frame_addrs 0x8F68 19 \<Longrightarrow> lay_cells four_cells 0x5000 k a = None" for k a
    by (auto simp: four_cells_def)
  have "implements_get_key_event list_scq [key_a] four_cells 0x5000 (key_answer sys_get_key_event m1)"
    if "mc_reg m1 RDI = 0x5000" for m1
    using that by (simp add: implements_get_key_event_def sys_get_key_event_fn_def pop_key_event_def list_scq_def key_answer_def)
  moreover have "\<forall>a \<in> frame_addrs 0x8F68 19. ce_mem (key_answer sys_get_key_event m1) a = None" for m1
    using f by (simp add: key_answer_def)
  ultimately show ?thesis
    using usr_get_key_event_pops [OF list_scq_contract four_cells_ok, where m = user_machine and at = "0x5000"
        and h = key_answer and q = "[key_a]" and e = no_env and w = "\<lambda>_ _. 0" and d = "0x100"] f
    unfolding k by (auto simp: user_machine_def)
qed

end
