(* ===== verification/Spec2Isabelle.thy ===== *)
theory Spec2Isabelle
  imports Coroutine Tarfs Alloc_Bump Heap Pages Plugin Nic_Boot Speaker Serial Bitmap Boot Peanut_Gb Typing Demo_Net Demo_Heap Demo_Menu Demo_Coroutine Syscall_Functions
begin

text \<open>
  Verification of HeineOS, a teaching operating system for the x86-64 PC written in Rust. Paths below
  are relative to \<^verbatim>\<open>kernel/src\<close>.

  \<^bold>\<open>The program.\<close> The assembly code in \<^verbatim>\<open>boot.asm\<close> calls \<open>main\<close> (\<^verbatim>\<open>boot.rs\<close>) with the boot information of the
  boot loader. \<open>main\<close> sets up the serial port and the logger, the framebuffer with the terminal on it, the
  page tables, the heap, the file system in the ramdisk, the interrupt vectors and the devices, enables
  interrupts and hands over to the scheduler. From then on interrupts drive the kernel: the timer counts
  the system time and makes the running thread yield every ten ticks, the keyboard decodes scancodes into
  a queue of key events, the network card fills a queue of packets. Threads wait for time and keys by
  yielding, print to the terminal and allocate from the heap; threads in user mode reach the kernel through
  system calls only. Shared structures sit behind spinlocks, global ones in one-time initialised cells.

  \<^bold>\<open>How code is modelled.\<close> Machine integers are words of their width (\<open>usize\<close> has 64 bits); some sizes and indices
  are natural numbers with the bound written out (\<open>nadd\<close>, \<open>nsub\<close>, \<open>nmul\<close>). Plain arithmetic panics on
  overflow, as in the development profile that the build uses, and wraps only where the code says so. A function that
  can panic returns \<open>'a res\<close>, where \<open>Inl e\<close> is the panic with its cause; \<open>None\<close> around it is a call that never
  returns, such as taking a lock that its own processor holds or polling a device that stays silent: such loops are
  \<open>partial_function\<close>s. State is passed explicitly. Ports are a trace of accesses; \<open>hw\<close> gives the value that the next
  reading of a port returns as a function of that trace, so that a theorem over all \<open>hw\<close> speaks of all devices.
  Stacks and registers are those of \<open>machine\<close> in X86, which interprets the kernel's assembly routines.

  \<^bold>\<open>The theories.\<close>
  \<^item> Prelude: machine integers, panics, checked arithmetic and facts about them. Bytes and Utf8: little-endian
    numbers and UTF-8 as \<open>core\<close> defines it. Text_Output: the loop of every \<open>write_str\<close>, with the interface \<open>text_sink\<close>.
  \<^item> Spinlock, Once, Queue (\<^verbatim>\<open>library/\<close>): the lock with any number of threads as a step relation and mutual
    exclusion, the cell with its race, the linked queue as a FIFO.
  \<^item> Alloc_Global, Alloc_Bump, Alloc_List, Heap (\<^verbatim>\<open>allocator/\<close>, \<^verbatim>\<open>consts.rs\<close>): alignment, both allocators and the locked global
    heap. Over any history of requests the live blocks of the list allocator are aligned, inside the heap, disjoint
    from each other and from the free list, nothing leaks, and no request panics.
  \<^item> X86, Thread, Coroutine, Scheduler (\<^verbatim>\<open>thread/\<close>, \<^verbatim>\<open>coroutine/\<close>, the routines of \<^verbatim>\<open>boot.asm\<close>): context switches as
    instruction sequences that restore what they saved, the entry of new threads and of user mode, and the
    scheduler, which is never stuck, serves threads round robin and never runs a terminated one.
  \<^item> Cpu, Pic, Interrupt, Pit, Keyboard, Key, Key_Queue, Serial, Speaker, Pci, Packet_Queue, Rtl8139, Plugin (\<^verbatim>\<open>device/\<close>,
    \<^verbatim>\<open>interrupt/\<close>, \<^verbatim>\<open>library/input.rs\<close>): the drivers. The descriptor table decodes to the intended gates, registered routines are the
    ones dispatched, the timer ticks and waits on time and is programmed for every interval, the recorded keys follow the
    bytes of the keyboard, configuration accesses reach exactly their bytes whatever a device makes of a write, the bus scan
    finds the devices, the packet ring is a bounded queue, packets are received and sent in order and whatever the
    card writes is handled safely. Plugin attaches the drivers to their interrupt lines; Nic_Boot states which network
    card the kernel supports and shows that scan and start of the card then return.
  \<^item> Typing composes the keyboard, its interrupt routine and the key queue: what is typed is what \<open>read_char\<close> returns.
  \<^item> Framebuffer, Terminal, Console, Bitmap, Logger (\<^verbatim>\<open>device/framebuffer.rs\<close>, \<^verbatim>\<open>device/terminal.rs\<close>, \<^verbatim>\<open>library/bitmap.rs\<close>,
    \<^verbatim>\<open>logger.rs\<close>): pixels in the bytes of the video memory. The terminal shows exactly the lines of its text, a bitmap
    file shows its image. Console is the global terminal behind its lock, as the print macros use it.
  \<^item> Tarfs (\<^verbatim>\<open>filesystem/tarfs.rs\<close>) and Pages (\<^verbatim>\<open>paging/pages.rs\<close>): reading delivers the file and then its end; the page table walk sets the
    user bit in exactly the non-zero entries of the tables that hang off the root.
  \<^item> Syscall, Syscall_Functions (\<^verbatim>\<open>syscall/\<close>): the trap from user mode to the handler and back, bit for bit, and the system calls on
    top of it.
  \<^item> Multiboot, Multiboot_Tags, Boot (\<^verbatim>\<open>multiboot.rs\<close>, \<^verbatim>\<open>boot.rs\<close>): the boot information and \<open>main\<close>, which composes all of the above
    and is shown to reach the scheduler on every machine that meets the conditions \<open>machine_ok\<close> and \<open>bootable\<close>.
  \<^item> Demo_Menu, Demo_Text, Demo_Heap, Demo_Threads, Demo_Coroutine, Demo_Net, Peanut_Gb (\<^verbatim>\<open>demo/\<close>): the programs that the menu starts, as clients
    of the interfaces above. What they print is shown on the console; the threads are interleaved round by round, the coroutines take turns; the heap demonstration
    restores the allocator; the user program answers every line that is typed; the front end of the Game Boy emulator plays until Escape
    (or the panic of a ROM read out of range) and draws the emulator's picture.

  \<^bold>\<open>Interfaces.\<close> \<open>fifo\<close> (Queue, interpreted as \<open>lq\<close>), \<open>bounded_fifo\<close> (Packet_Queue, \<open>pq\<close>), \<open>allocator\<close> (Heap, \<open>la\<close>) and
  \<open>text_sink\<close> (Text_Output; \<open>tty\<close> for the terminal, \<open>console\<close> for the global one, \<open>com\<close> and \<open>com_out\<close> for the serial port)
  state what a provider promises, \<open>input_source\<close> (Demo_Text; \<open>press\<close>, \<open>typed_in\<close>, \<open>user_in\<close>) what every blocking read of the key queue promises;
  every interpretation is on the definitions of the kernel.

  \<^bold>\<open>Arguments.\<close> What is not Rust code of the repository is an argument: the devices (\<open>hw\<close>, the receive ring and DMA
  addresses of the card), the clock readings, the glyphs of the font crate, the decimal printing of floating
  point numbers, how the crate \<open>bitflags\<close> prints flags and which characters Unicode counts as printable, the entries that the tar crate finds, the lock-free queue (\<open>scq_contract\<close> states its documented behaviour), the
  outcome of the calls into the \<open>uefi\<close> and \<open>log\<close> crates, the Game Boy emulator (third-party C code, \<^verbatim>\<open>demo/lesson6/peanut-gb.c\<close> and \<^verbatim>\<open>peanut-gb.h\<close>, which is in the repository but not translated), the content of memory and the address of the
  kernel's end. In the demonstrations the answers of successive polls and clock readings are arguments as well, and so is
  what interrupts do to the network driver between two rounds of its thread.

  \<^bold>\<open>Bounds.\<close> The scan of the PCI bus takes fuel for the depth of bridges; \<open>main\<close> uses 256, the number of buses, and
  the completeness theorem covers every bus numbering in which bridges lead upwards. All other loops either end by
  a termination proof or are partial functions whose return is proved.

  \<^bold>\<open>Not modelled.\<close> The assembly before \<open>main\<close> and \<open>load_gdt\<close>; the C code of the emulator; of the boot, the log line of the
  network plugin and the heap allocations of the later steps; the font of the configuration without
  \<open>unifont\<close>, which the build does not use; of the demonstrations,
  the wait of the menu for the thread of lesson 9, and two functions that nothing calls, \<open>print_file\<close> and \<open>demo_memory_leak\<close>; constants that nothing uses, such as
  most of the register and class numbers of the PCI bus and the note frequencies of the speaker. Interrupts that arrive in the middle of a modelled
  function are covered where the code provides for them: spinlocks and cells by step relations, the timer by its
  own transition.
\<close>

end
